(* ===== verification/Prelude.thy ===== *)
theory Prelude
  imports Main "HOL-Library.Word" "HOL-Library.Monad_Syntax" "HOL-Library.Signed_Division"
    "HOL-Library.Sublist"
begin

text \<open>
  What every component shares: names for the machine integers of the code, the checked
  signed arithmetic of C++ (overflow is undefined behaviour, modelled as \<open>None\<close>), the
  two collections of simplification rules the component theories fill, and generic lemmas
  on lists, options and words.
\<close>

section \<open>Machine integers\<close>

type_synonym u8 = "8 word"
type_synonym u16 = "16 word"
type_synonym u32 = "32 word"
type_synonym u64 = "64 word"
type_synonym s16 = "16 word" \<comment> \<open>read with \<open>sint\<close>\<close>

named_theorems s64_simps \<open>evaluation of checked 64-bit signed arithmetic\<close>
named_theorems inv_simps \<open>definitions of the component invariants\<close>

subsection \<open>Signed 64-bit arithmetic\<close>

text \<open>
  \<open>std::int64_t\<close> (and so \<open>std::chrono::nanoseconds\<close>) values are integers in the
  range below. A result outside it is undefined behaviour in C++, so an operation returns
  \<open>None\<close> there.
\<close>

definition in_s64 :: "int \<Rightarrow> bool" where
  "in_s64 x \<longleftrightarrow> - (2 ^ 63) \<le> x \<and> x < 2 ^ 63"

definition s64 :: "int \<Rightarrow> int option" where
  "s64 x = (if in_s64 x then Some x else None)"

lemma s64_Some [s64_simps]: "in_s64 x \<Longrightarrow> s64 x = Some x"
  by (simp add: s64_def)

lemma s64_None [s64_simps]: "\<not> in_s64 x \<Longrightarrow> s64 x = None"
  by (simp add: s64_def)

lemma s64_eq_Some_iff: "s64 x = Some y \<longleftrightarrow> in_s64 x \<and> y = x"
  by (auto simp: s64_def)

lemma in_s64I [intro]: "\<bar>x\<bar> < 2 ^ 63 \<Longrightarrow> in_s64 x"
  by (auto simp: in_s64_def abs_less_iff)

lemma in_s64_nonneg: "0 \<le> x \<Longrightarrow> x < 2 ^ 63 \<Longrightarrow> in_s64 x"
  by (simp add: in_s64_def)

subsection \<open>Words inside the range of their integers\<close>

lemma sint_small: "uint x < 2 ^ 63 \<Longrightarrow> sint x = uint x" for x :: u64
  using uint_ge_0 [of x]
  by (simp add: sint_uint signed_take_bit_int_eq_self_iff order.trans [OF _ uint_ge_0])

lemma uint_pos: "x \<noteq> 0 \<Longrightarrow> 0 < uint x" for x :: "'a :: len word"
  using uint_ge_0 [of x] by (metis order_le_less uint_0_iff)

lemma uint_ucast_u32 [simp]: "uint (ucast x :: u64) = uint x" for x :: u32
  by (simp add: uint_up_ucast is_up)

lemma uint_ucast_u16 [simp]: "uint (ucast x :: u64) = uint x" for x :: u16
  by (simp add: uint_up_ucast is_up)

lemma uint_mult_small: "uint a * uint b < 2 ^ 64 \<Longrightarrow> uint (a * b) = uint a * uint b" for a b :: u64
  by (simp add: uint_word_ariths)

lemma uint_add_small: "uint a + uint b < 2 ^ 64 \<Longrightarrow> uint (a + b) = uint a + uint b" for a b :: u64
  by (simp add: uint_word_ariths)

lemma uint_sub_small: "uint b \<le> uint a \<Longrightarrow> uint (a - b) = uint a - uint b" for a b :: u64
proof -
  assume "uint b \<le> uint a"
  moreover have "uint a < 2 ^ 64" "0 \<le> uint b" using uint_lt2p [of a] by simp_all
  ultimately have "0 \<le> uint a - uint b" "uint a - uint b < 2 ^ 64" by linarith+
  then show ?thesis by (simp add: uint_word_ariths)
qed

lemma uint_of_int_small: "0 \<le> d \<Longrightarrow> d < 2 ^ 64 \<Longrightarrow> uint (word_of_int d :: u64) = d"
  by (simp add: uint_word_of_int)

lemma uint_of_nat_small: "n < 2 ^ 64 \<Longrightarrow> uint (of_nat n :: u64) = int n"
  by (simp add: uint_nat unat_of_nat)

lemma one_le_word_iff [simp]: "1 \<le> w \<longleftrightarrow> w \<noteq> 0" for w :: "'a :: len word"
  by (simp flip: not_less)

lemma unat_less_of_uint: "uint w < int n \<Longrightarrow> unat w < n" for w :: "'a :: len word"
proof -
  assume "uint w < int n"
  then have "int (unat w) < int n" by simp
  then show ?thesis by (simp only: of_nat_less_iff)
qed

subsection \<open>Division\<close>

lemma sdiv_nonneg: "0 \<le> a \<Longrightarrow> 0 < b \<Longrightarrow> a sdiv b = a div b" for a b :: int
  by (simp add: signed_divide_int_def sgn_if)

lemma div_le_self: "0 \<le> a \<Longrightarrow> 1 \<le> b \<Longrightarrow> a div b \<le> a" for a b :: int
  by (metis div_by_1 zdiv_mono2 zero_less_one)

lemma le_divI: "0 < b \<Longrightarrow> x * b \<le> a \<Longrightarrow> x \<le> a div b" for a b :: int
  using zdiv_mono1 [of "x * b" a b] by simp

lemma div_bounds:
  fixes a b :: int
  assumes "0 < b"
  shows "a div b * b \<le> a" and "a < a div b * b + b"
  using div_mult_mod_eq [of a b] pos_mod_bound [OF assms, of a] pos_mod_sign [OF assms, of a]
  by linarith+

subsection \<open>Options\<close>

lemma bind_Some_iff: "(m \<bind> f) = Some y \<longleftrightarrow> (\<exists>x. m = Some x \<and> f x = Some y)"
  by (cases m) auto

subsection \<open>Lists\<close>

lemma map_upt_shift: "map f [n..<n + m] = map (\<lambda>i. f (n + i)) [0..<m]"
  by (induction m) simp_all

lemma map_nth_upt_update:
  "i \<notin> set is \<Longrightarrow> map (\<lambda>k. xs[i := x] ! k) is = map (\<lambda>k. xs ! k) is"
  by (induction "is") auto

lemma take_append_drop_length:
  "n \<le> length xs \<Longrightarrow> length (take n xs) = n"
  by simp

end
