(* ===== verification/Events.thy ===== *)
theory Events
  imports Prelude
begin

text \<open>
  Components that react to events: a partial step, and the run it gives over a list of
  events. What holds at the start and is kept by every step the events allow holds at the
  end of the run. The controller and the life of a capture stream are interpretations.
\<close>

locale event_system =
  fixes step :: "'ev \<Rightarrow> 's \<Rightarrow> 's option"
    and run :: "'ev list \<Rightarrow> 's \<Rightarrow> 's option"
  assumes run_Nil: "run [] s = Some s"
    and run_Cons: "run (ev # evs) s = Option.bind (step ev s) (run evs)"
begin

lemma run_append: "run (evs @ evs') s = Option.bind (run evs s) (run evs')"
  by (induction evs arbitrary: s) (auto simp: run_Nil run_Cons bind_assoc intro!: bind_option_cong)

lemma run_ConsE:
  assumes "run (ev # evs) s = Some s'"
  obtains s1 where "step ev s = Some s1" "run evs s1 = Some s'"
  using assms by (auto simp: run_Cons bind_Some_iff)

text \<open>An invariant under the events of a class \<open>E\<close>.\<close>

lemma run_invariant_on:
  assumes "run evs s = Some s'" and "I s" and "\<forall>ev \<in> set evs. E ev"
    and "\<And>ev s s'. step ev s = Some s' \<Longrightarrow> E ev \<Longrightarrow> I s \<Longrightarrow> I s'"
  shows "I s'"
  using assms(1-3)
proof (induction evs arbitrary: s)
  case (Cons ev evs)
  from Cons.prems(1) obtain s1 where "step ev s = Some s1" "run evs s1 = Some s'" by (rule run_ConsE)
  with Cons.prems(2,3) assms(4) [of ev s s1] show ?case by (intro Cons.IH [of s1]) simp_all
qed (simp add: run_Nil)

lemma run_invariant:
  assumes "run evs s = Some s'" and "I s" and "\<And>ev s s'. step ev s = Some s' \<Longrightarrow> I s \<Longrightarrow> I s'"
  shows "I s'"
  by (rule run_invariant_on [OF assms(1), of I "\<lambda>_. True"]) (use assms(2,3) in simp_all)

end

end
