(* ===== verification/Session.thy ===== *)
theory Session
  imports Prelude "HOL-Library.Multiset"
begin

text \<open>
  The recording-session lifecycle (\<open>audio-core/include/voxmesh/audio/session.hpp\<close>,
  \<open>audio-core/src/session.cpp\<close>): the transition table, the locked \<open>handle\<close> of one
  caller, and the interleavings of several callers, whose listener calls happen outside the
  lock.
\<close>

section \<open>States, events and names\<close>

datatype session_state = Idle | Recording | Paused | Stopping | Stopped | Failed

datatype session_event = Start | Pause | Resume | Stop | StopComplete | Fault | Reset

fun state_toString :: "session_state \<Rightarrow> string" where
  "state_toString Idle = ''Idle''"
| "state_toString Recording = ''Recording''"
| "state_toString Paused = ''Paused''"
| "state_toString Stopping = ''Stopping''"
| "state_toString Stopped = ''Stopped''"
| "state_toString Failed = ''Failed''"

fun event_toString :: "session_event \<Rightarrow> string" where
  "event_toString Start = ''Start''"
| "event_toString Pause = ''Pause''"
| "event_toString Resume = ''Resume''"
| "event_toString Stop = ''Stop''"
| "event_toString StopComplete = ''StopComplete''"
| "event_toString Fault = ''Fault''"
| "event_toString Reset = ''Reset''"

section \<open>The transition table\<close>

fun transition :: "session_state \<Rightarrow> session_event \<Rightarrow> session_state option" where
  "transition from Start = (if from = Idle then Some Recording else None)"
| "transition from Pause = (if from = Recording then Some Paused else None)"
| "transition from Resume = (if from = Paused then Some Recording else None)"
| "transition from Stop = (if from = Recording \<or> from = Paused then Some Stopping else None)"
| "transition from StopComplete = (if from = Stopping then Some Stopped else None)"
| "transition from Fault = (if from = Stopped \<or> from = Failed then None else Some Failed)"
| "transition from Reset = (if from = Stopped \<or> from = Failed then Some Idle else None)"

section \<open>One caller: handle\<close>

text \<open>
  The object's state, whether a listener is installed, and the calls the listener has
  received, oldest first.
\<close>

record recording_session =
  rs_state :: session_state
  rs_listener :: bool
  rs_notified :: "(session_state \<times> session_state \<times> session_event) list"

definition new_session :: "bool \<Rightarrow> recording_session" where
  "new_session l = \<lparr>rs_state = Idle, rs_listener = l, rs_notified = []\<rparr>"

definition handle :: "recording_session \<Rightarrow> session_event \<Rightarrow> recording_session \<times> bool" where
  "handle s event =
     (case transition (rs_state s) event of
        None \<Rightarrow> (s, False)
      | Some to \<Rightarrow>
          (let s' = s\<lparr>rs_state := to\<rparr>
           in (if rs_listener s
               then s'\<lparr>rs_notified := rs_notified s @ [(rs_state s, to, event)]\<rparr>
               else s', True)))"

fun handle_all :: "recording_session \<Rightarrow> session_event list \<Rightarrow> recording_session" where
  "handle_all s [] = s"
| "handle_all s (e # es) = handle_all (fst (handle s e)) es"

text \<open>
  A chain of committed changes: each is a row of the table and starts where the one before
  it ended.
\<close>

fun chain :: "session_state \<Rightarrow> (session_state \<times> session_state \<times> session_event) list
    \<Rightarrow> session_state \<Rightarrow> bool" where
  "chain a [] b \<longleftrightarrow> a = b"
| "chain a ((from, to, e) # cs) b \<longleftrightarrow> a = from \<and> transition from e = Some to \<and> chain to cs b"

lemma chain_snoc [simp]:
  "chain a (cs @ [(from, to, e)]) b \<longleftrightarrow>
     chain a cs from \<and> transition from e = Some to \<and> b = to"
  by (induction cs arbitrary: a) auto

lemma chain_append:
  "chain a (cs @ ds) c \<longleftrightarrow> (\<exists>b. chain a cs b \<and> chain b ds c)"
  by (induction cs arbitrary: a) auto

lemma handle_listener [simp]: "rs_listener (fst (handle s e)) = rs_listener s"
  by (simp add: handle_def Let_def split: option.split)

lemma handle_state [simp]:
  "rs_state (fst (handle s e))
     = (case transition (rs_state s) e of None \<Rightarrow> rs_state s | Some to \<Rightarrow> to)"
  by (simp add: handle_def Let_def split: option.split)

lemma handle_result: "snd (handle s e) \<longleftrightarrow> transition (rs_state s) e \<noteq> None"
  by (simp add: handle_def Let_def split: option.split)

lemma handle_chain:
  "rs_listener s \<Longrightarrow> chain Idle (rs_notified s) (rs_state s) \<Longrightarrow>
   chain Idle (rs_notified (fst (handle s e))) (rs_state (fst (handle s e)))"
  by (auto simp: handle_def Let_def split: option.split)

lemma handle_all_chain:
  "rs_listener s \<Longrightarrow> chain Idle (rs_notified s) (rs_state s) \<Longrightarrow>
   chain Idle (rs_notified (handle_all s es)) (rs_state (handle_all s es))"
proof (induction es arbitrary: s)
  case Nil
  then show ?case by simp
next
  case (Cons e es)
  from Cons.IH [OF _ handle_chain [OF Cons.prems]] Cons.prems(1) show ?case
    by (simp del: handle_state)
qed

text \<open>Entering a state: which rows of the table lead there.\<close>

lemma transition_to_Stopped: "transition s e = Some Stopped \<Longrightarrow> s = Stopping \<and> e = StopComplete"
  by (cases e) (auto split: if_splits)

lemma transition_to_Idle:
  "transition s e = Some Idle \<Longrightarrow> (s = Stopped \<or> s = Failed) \<and> e = Reset"
  by (cases e) (auto split: if_splits)

lemma transition_to_Stopping:
  "transition s e = Some Stopping \<Longrightarrow> (s = Recording \<or> s = Paused) \<and> e = Stop"
  by (cases e) (auto split: if_splits)

lemma chain_last_Stopping:
  assumes "chain Idle cs Stopping"
  shows "\<exists>ds f. (f = Recording \<or> f = Paused) \<and> cs = ds @ [(f, Stopping, Stop)]"
proof (cases cs rule: rev_cases)
  case Nil
  with assms show ?thesis by simp
next
  case (snoc ds c)
  obtain f t e where "c = (f, t, e)" by (cases c)
  with snoc assms show ?thesis by (auto dest: transition_to_Stopping)
qed

lemma chain_last_Stopped:
  assumes "chain a cs Stopped" and "a \<noteq> Stopped"
  shows "\<exists>ds. cs = ds @ [(Stopping, Stopped, StopComplete)] \<and> chain a ds Stopping"
proof (cases cs rule: rev_cases)
  case Nil
  with assms show ?thesis by simp
next
  case (snoc ds c)
  obtain f t e where "c = (f, t, e)" by (cases c)
  with snoc assms show ?thesis by (auto dest: transition_to_Stopped)
qed

text \<open>C30: A recording counts as Stopped only after its finalisation: whatever events a listening
  session was given, if it is Stopped its listener's last two calls were the Stop that left
  Recording or Paused and the StopComplete that ended Stopping.\<close>

theorem session_stopped_only_after_finalising:
  assumes "rs_state (handle_all (new_session True) es) = Stopped"
  shows "\<exists>ds f. (f = Recording \<or> f = Paused) \<and>
    rs_notified (handle_all (new_session True) es)
      = ds @ [(f, Stopping, Stop), (Stopping, Stopped, StopComplete)]"
proof -
  have "chain Idle (rs_notified (handle_all (new_session True) es)) Stopped"
    using handle_all_chain [of "new_session True" es] assms by (simp add: new_session_def)
  then obtain ds where ds: "rs_notified (handle_all (new_session True) es)
      = ds @ [(Stopping, Stopped, StopComplete)]" and "chain Idle ds Stopping"
    using chain_last_Stopped by blast
  from chain_last_Stopping [OF this(2)] ds show ?thesis by auto
qed

theorem session_stopped_only_after_finalising_witness:
  "\<exists>ds f. (f = Recording \<or> f = Paused) \<and>
    rs_notified (handle_all (new_session True) [Start, Pause, Resume, Reset, Stop, StopComplete])
      = ds @ [(f, Stopping, Stop), (Stopping, Stopped, StopComplete)]"
  by (rule session_stopped_only_after_finalising) (simp add: handle_def new_session_def)

text \<open>An accepted event commits the table's next state and calls the listener exactly once, with
  the old state, the new one and the event; an illegal event returns false and changes
  nothing, the listener's log included.\<close>

theorem handle_commits_or_refuses:
  "(case transition (rs_state s) e of
      None \<Rightarrow> handle s e = (s, False)
    | Some to \<Rightarrow> snd (handle s e) \<and> rs_state (fst (handle s e)) = to
        \<and> rs_notified (fst (handle s e))
            = rs_notified s @ (if rs_listener s then [(rs_state s, to, e)] else []))"
  by (simp add: handle_def Let_def split: option.split)

text \<open>No session is stuck: from every state at most two events lead back to Idle, where a new
  recording can start.\<close>

theorem session_recovers:
  "\<exists>es. length es \<le> 2 \<and> rs_state (handle_all s es) = Idle"
proof (cases "rs_state s")
  case Idle
  then show ?thesis by (intro exI [of _ "[]"]) simp
next
  case Recording
  then show ?thesis by (intro exI [of _ "[Fault, Reset]"]) simp
next
  case Paused
  then show ?thesis by (intro exI [of _ "[Fault, Reset]"]) simp
next
  case Stopping
  then show ?thesis by (intro exI [of _ "[StopComplete, Reset]"]) simp
next
  case Stopped
  then show ?thesis by (intro exI [of _ "[Reset]"]) simp
next
  case Failed
  then show ?thesis by (intro exI [of _ "[Reset]"]) simp
qed

section \<open>Several callers: the lock and the listener calls\<close>

text \<open>
  \<open>handle\<close> commits the new state under the mutex and calls the listener after releasing
  it. A thread is between the two while its change is pending. The history of commits is a
  ghost field.
\<close>

record shared_session =
  ss_state :: session_state
  ss_pending :: "nat \<Rightarrow> (session_state \<times> session_state \<times> session_event) option"
  ss_commits :: "(session_state \<times> session_state \<times> session_event) list"
  ss_notified :: "(session_state \<times> session_state \<times> session_event) list"

definition init_shared :: shared_session where
  "init_shared = \<lparr>ss_state = Idle, ss_pending = (\<lambda>_. None), ss_commits = [], ss_notified = []\<rparr>"

inductive session_step :: "shared_session \<Rightarrow> shared_session \<Rightarrow> bool" where
  commit: "ss_pending s t = None \<Longrightarrow> transition (ss_state s) e = Some to \<Longrightarrow>
     session_step s (s\<lparr>ss_state := to,
       ss_pending := (ss_pending s)(t \<mapsto> (ss_state s, to, e)),
       ss_commits := ss_commits s @ [(ss_state s, to, e)]\<rparr>)"
| refuse: "ss_pending s t = None \<Longrightarrow> transition (ss_state s) e = None \<Longrightarrow> session_step s s"
| notify: "ss_pending s t = Some c \<Longrightarrow>
     session_step s (s\<lparr>ss_pending := (ss_pending s)(t := None),
       ss_notified := ss_notified s @ [c]\<rparr>)"

inductive session_reachable :: "shared_session \<Rightarrow> bool" where
  start: "session_reachable init_shared"
| step: "session_reachable s \<Longrightarrow> session_step s t \<Longrightarrow> session_reachable t"

definition pending_mset ::
    "(nat \<Rightarrow> 'a option) \<Rightarrow> 'a multiset" where
  "pending_mset p = image_mset (\<lambda>t. the (p t)) (mset_set (dom p))"

lemma pending_mset_empty [simp]: "pending_mset (\<lambda>_. None) = {#}"
  by (simp add: pending_mset_def)

lemma pending_mset_add:
  assumes "finite (dom p)" and "p t = None"
  shows "pending_mset (p(t \<mapsto> c)) = add_mset c (pending_mset p)"
proof -
  have t: "t \<notin> dom p" using assms by blast
  have "image_mset (\<lambda>u. the ((p(t \<mapsto> c)) u)) (mset_set (dom p))
      = image_mset (\<lambda>u. the (p u)) (mset_set (dom p))"
    using assms t by (intro image_mset_cong) auto
  with assms t show ?thesis by (simp add: pending_mset_def)
qed

lemma pending_mset_remove:
  assumes "finite (dom p)" and "p t = Some c"
  shows "pending_mset p = add_mset c (pending_mset (p(t := None)))"
proof -
  have "finite (dom (p(t := None)))" using assms by simp
  from pending_mset_add [OF this, of t c] show ?thesis
    using assms by (simp add: fun_upd_idem)
qed

definition shared_inv :: "shared_session \<Rightarrow> bool" where
  "shared_inv s \<longleftrightarrow> finite (dom (ss_pending s))
     \<and> chain Idle (ss_commits s) (ss_state s)
     \<and> mset (ss_commits s) = mset (ss_notified s) + pending_mset (ss_pending s)"

lemma shared_inv_init: "shared_inv init_shared"
  by (simp add: shared_inv_def init_shared_def)

lemma session_step_inv: "session_step s t \<Longrightarrow> shared_inv s \<Longrightarrow> shared_inv t"
  by (induction rule: session_step.induct)
    (auto simp: shared_inv_def pending_mset_add pending_mset_remove)

lemma reachable_shared_inv: "session_reachable s \<Longrightarrow> shared_inv s"
  by (induction rule: session_reachable.induct)
    (auto intro: shared_inv_init session_step_inv)

text \<open>C29: With any number of threads calling handle at once, the committed changes always form one
  path of the transition table from Idle to the current state, and every committed change
  is notified exactly once or is still owed by the thread that made it.\<close>

theorem concurrent_changes_notified_once:
  assumes "session_reachable s"
  shows "chain Idle (ss_commits s) (ss_state s) \<and>
    mset (ss_commits s) = mset (ss_notified s) + pending_mset (ss_pending s)"
  using reachable_shared_inv [OF assms] by (simp add: shared_inv_def)

theorem concurrent_changes_notified_once_witness:
  "\<exists>s :: shared_session. ss_state s = Recording \<and> ss_notified s = [] \<and> chain Idle (ss_commits s) (ss_state s) \<and>
    mset (ss_commits s) = mset (ss_notified s) + pending_mset (ss_pending s)"
proof -
  let ?s = "init_shared\<lparr>ss_state := Recording, ss_pending := (ss_pending init_shared)(0 \<mapsto>
    (ss_state init_shared, Recording, Start)),
    ss_commits := ss_commits init_shared @ [(ss_state init_shared, Recording, Start)]\<rparr>"
  have "session_reachable ?s"
    by (rule session_reachable.step [OF session_reachable.start], rule session_step.commit)
      (simp_all add: init_shared_def)
  from concurrent_changes_notified_once [OF this] show ?thesis
    by (intro exI [of _ ?s]) (simp add: init_shared_def)
qed

end
