(* ===== verification/AudioTypes.thy ===== *)
theory AudioTypes
  imports Prelude
begin

text \<open>
  The audio domain's data (\<open>audio-core/include/voxmesh/audio/types.hpp\<close>, \<open>frame.hpp\<close>
  and the plain data of \<open>capture.hpp\<close> and \<open>config.hpp\<close>): formats, tracks, frames, and the
  little-endian reading of a payload as 16-bit samples. \<open>SampleRate\<close>, \<open>ChannelCount\<close>,
  \<open>SequenceNumber\<close> and \<open>MonotonicTimestamp\<close> wrap one number each and are that number
  here; timestamps and durations are signed 64-bit counts of nanoseconds (milliseconds
  where the code says so).
\<close>

unbundle bit_operations_syntax

section \<open>Formats and tracks\<close>

datatype sample_format = PcmS16Le | Float32Le

fun bytesPerSample :: "sample_format \<Rightarrow> nat" where
  "bytesPerSample PcmS16Le = 2"
| "bytesPerSample Float32Le = 4"

datatype track_kind = Microphone | SystemOutput | EchoCancelledMicrophone | Mix | SttStream

type_synonym sample_rate = u32
type_synonym channel_count = u16
type_synonym sequence_number = u64
type_synonym timestamp = int

definition next_sequence :: "sequence_number \<Rightarrow> sequence_number" where
  "next_sequence n = n + 1"

definition advancedBy :: "timestamp \<Rightarrow> int \<Rightarrow> timestamp option" where
  "advancedBy t delta = s64 (t + delta)"

text \<open>\<open>std::size_t\<close> arithmetic of a 64-bit target: the product wraps, the quotient truncates.\<close>

definition samplesPerChannel :: "sample_rate \<Rightarrow> int \<Rightarrow> u64" where
  "samplesPerChannel rate frameDuration = (ucast rate * word_of_int frameDuration) div 1000"

record track_format =
  tf_sampleRate :: sample_rate
  tf_channels :: channel_count
  tf_format :: sample_format

section \<open>Frames\<close>

record audio_frame =
  fr_track :: track_kind
  fr_sequence :: sequence_number
  fr_timestamp :: timestamp
  fr_sampleRate :: sample_rate
  fr_channels :: channel_count
  fr_format :: sample_format
  fr_discontinuity :: bool
  fr_payload :: "u8 list"

definition sampleCountPerChannel :: "audio_frame \<Rightarrow> nat" where
  "sampleCountPerChannel f =
     (let stride = bytesPerSample (fr_format f) * unat (fr_channels f)
      in if stride = 0 then 0 else length (fr_payload f) div stride)"

lemma bytesPerSample_pos [simp]: "0 < bytesPerSample f"
  by (cases f) simp_all

lemma bytesPerSample_neq_0 [simp]: "bytesPerSample f \<noteq> 0"
  by (cases f) simp_all

lemma sampleCountPerChannel_whole:
  "length (fr_payload f) = n * (bytesPerSample (fr_format f) * unat (fr_channels f)) \<Longrightarrow>
   fr_channels f \<noteq> 0 \<Longrightarrow> sampleCountPerChannel f = n"
  by (simp add: sampleCountPerChannel_def Let_def unat_eq_0)

section \<open>Payloads as 16-bit samples\<close>

text \<open>
  The code reads and writes payloads through \<open>std::int16_t\<close> pointers and \<open>std::memcpy\<close>;
  on the little-endian targets of the project the low byte comes first.
\<close>

definition s16_of_bytes :: "u8 \<Rightarrow> u8 \<Rightarrow> s16" where
  "s16_of_bytes lo hi = ucast lo OR push_bit 8 (ucast hi)"

definition bytes_of_s16 :: "s16 \<Rightarrow> u8 list" where
  "bytes_of_s16 s = [ucast s, ucast (drop_bit 8 s)]"

fun decode_s16 :: "u8 list \<Rightarrow> s16 list" where
  "decode_s16 (lo # hi # bs) = s16_of_bytes lo hi # decode_s16 bs"
| "decode_s16 _ = []"

definition encode_s16 :: "s16 list \<Rightarrow> u8 list" where
  "encode_s16 ss = concat (map bytes_of_s16 ss)"

lemma length_encode_s16 [simp]: "length (encode_s16 ss) = 2 * length ss"
  by (induction ss) (simp_all add: encode_s16_def bytes_of_s16_def)

lemma length_decode_s16 [simp]: "length (decode_s16 bs) = length bs div 2"
  by (induction bs rule: decode_s16.induct) simp_all

lemma s16_of_bytes_of_s16: "s16_of_bytes (ucast s) (ucast (drop_bit 8 s)) = s"
  by (rule bit_word_eqI)
    (auto simp: s16_of_bytes_def bit_or_iff bit_push_bit_iff bit_ucast_iff bit_drop_bit_eq
      exp_eq_zero_iff)

lemma decode_encode_s16 [simp]: "decode_s16 (encode_s16 ss) = ss"
  by (induction ss) (simp_all add: encode_s16_def bytes_of_s16_def s16_of_bytes_of_s16)

section \<open>Capture interfaces\<close>

datatype device_kind = CaptureInput | RenderOutput

record audio_device_info =
  dev_id :: string
  dev_name :: string
  dev_kind :: device_kind
  dev_isDefault :: bool

record capture_config =
  cc_deviceId :: string
  cc_track :: track_kind
  cc_sampleRate :: sample_rate
  cc_channels :: channel_count
  cc_format :: sample_format
  cc_frameDuration :: int \<comment> \<open>milliseconds\<close>

datatype capture_error = DeviceNotFound | DeviceUnavailable | FormatNotSupported
  | PermissionDenied | AlreadyStopped | BackendFailure

record capture_stream_stats =
  st_framesEmitted :: u64
  st_framesDropped :: u64
  st_nextSequence :: sequence_number

end
