(* ===== verification/RingBuffer.thy ===== *)
theory RingBuffer
  imports Prelude
begin

text \<open>
  The bounded single-producer/single-consumer ring buffer
  (\<open>audio-core/include/voxmesh/audio/ring_buffer.hpp\<close>), one call at a time: its
  operations, the invariant of its indices and counters, and the contract of a bounded FIFO
  queue (the locale \<open>bounded_queue\<close>), which the ring buffer provides. The theory
  RingBufferSpsc takes the same code apart into its atomic accesses.
\<close>

section \<open>State and operations\<close>

text \<open>
  \<open>dflt\<close> is what the slots hold at construction and \<open>mf x\<close> what moving out of \<open>x\<close> leaves
  behind; both depend on the element type and no result below depends on them.
\<close>

record 'a ring_buffer =
  slots :: "'a list"
  head :: nat
  tail :: nat
  pushed :: u64
  popped :: u64
  rejected :: u64

record ring_buffer_stats =
  sts_pushed :: u64
  sts_popped :: u64
  sts_rejected :: u64

definition new_ring :: "'a \<Rightarrow> nat \<Rightarrow> 'a ring_buffer" where
  "new_ring dflt cap = \<lparr>slots = replicate (cap + 1) dflt, head = 0, tail = 0,
     pushed = 0, popped = 0, rejected = 0\<rparr>"

definition increment :: "nat \<Rightarrow> nat \<Rightarrow> nat" where
  "increment n index = (if index + 1 = n then 0 else index + 1)"

definition tryPush :: "'a ring_buffer \<Rightarrow> 'a \<Rightarrow> 'a ring_buffer \<times> bool" where
  "tryPush b item =
     (let next = increment (length (slots b)) (head b)
      in if next = tail b then (b\<lparr>rejected := rejected b + 1\<rparr>, False)
         else (b\<lparr>slots := (slots b)[head b := item], head := next, pushed := pushed b + 1\<rparr>, True))"

definition tryPop :: "('a \<Rightarrow> 'a) \<Rightarrow> 'a ring_buffer \<Rightarrow> 'a ring_buffer \<times> 'a option" where
  "tryPop mf b =
     (if tail b = head b then (b, None)
      else (let item = slots b ! tail b
            in (b\<lparr>slots := (slots b)[tail b := mf item],
                  tail := increment (length (slots b)) (tail b), popped := popped b + 1\<rparr>,
                Some item)))"

definition capacity :: "'a ring_buffer \<Rightarrow> nat" where
  "capacity b = length (slots b) - 1"

definition ring_size :: "'a ring_buffer \<Rightarrow> nat" where
  "ring_size b = (if tail b \<le> head b then head b - tail b else length (slots b) - tail b + head b)"

definition ring_empty :: "'a ring_buffer \<Rightarrow> bool" where
  "ring_empty b \<longleftrightarrow> ring_size b = 0"

definition ring_stats :: "'a ring_buffer \<Rightarrow> ring_buffer_stats" where
  "ring_stats b = \<lparr>sts_pushed = pushed b, sts_popped = popped b, sts_rejected = rejected b\<rparr>"

section \<open>Circular index ranges\<close>

text \<open>The \<open>k\<close> slots from \<open>t\<close> on, around a ring of \<open>n\<close> slots, and the distance from \<open>t\<close> to \<open>h\<close>.\<close>

definition ring_indices :: "nat \<Rightarrow> nat \<Rightarrow> nat \<Rightarrow> nat list" where
  "ring_indices n t k = map (\<lambda>i. (t + i) mod n) [0..<k]"

definition ring_dist :: "nat \<Rightarrow> nat \<Rightarrow> nat \<Rightarrow> nat" where
  "ring_dist n t h = (if t \<le> h then h - t else n - t + h)"

lemma increment_mod: "i < n \<Longrightarrow> increment n i = (i + 1) mod n"
  by (auto simp: increment_def)

lemma increment_less [simp]: "i < n \<Longrightarrow> increment n i < n"
  by (auto simp: increment_def)

lemma increment_inj: "i < n \<Longrightarrow> j < n \<Longrightarrow> increment n i = increment n j \<Longrightarrow> i = j"
  by (auto simp: increment_def split: if_splits)

lemma ring_dist_less: "t < n \<Longrightarrow> h < n \<Longrightarrow> ring_dist n t h < n"
  by (auto simp: ring_dist_def)

lemma ring_dist_same [simp]: "ring_dist n t t = 0"
  by (simp add: ring_dist_def)

lemma ring_dist_0: "t < n \<Longrightarrow> h < n \<Longrightarrow> ring_dist n t h = 0 \<longleftrightarrow> t = h"
  by (auto simp: ring_dist_def split: if_splits)

lemma ring_dist_push:
  "t < n \<Longrightarrow> h < n \<Longrightarrow> increment n h \<noteq> t \<Longrightarrow>
   ring_dist n t (increment n h) = Suc (ring_dist n t h)"
  by (auto simp: ring_dist_def increment_def)

lemma ring_dist_full:
  "t < n \<Longrightarrow> h < n \<Longrightarrow> increment n h = t \<longleftrightarrow> ring_dist n t h = n - 1"
  by (auto simp: ring_dist_def increment_def split: if_splits)

lemma ring_dist_pop:
  "t < n \<Longrightarrow> h < n \<Longrightarrow> t \<noteq> h \<Longrightarrow>
   ring_dist n t h = Suc (ring_dist n (increment n t) h)"
  by (auto simp: ring_dist_def increment_def)

lemma ring_dist_head:
  assumes "t < n" and "h < n"
  shows "(t + ring_dist n t h) mod n = h"
  using assms by (auto simp: ring_dist_def mod_if)

lemma ring_indices_Suc: "ring_indices n t (Suc k) = ring_indices n t k @ [(t + k) mod n]"
  by (simp add: ring_indices_def)

lemma ring_indices_Cons:
  assumes "t < n"
  shows "ring_indices n t (Suc k) = t # ring_indices n (increment n t) k"
proof -
  have "map (\<lambda>i. (t + i) mod n) [0..<Suc k]
      = (t mod n) # map (\<lambda>i. (t + Suc i) mod n) [0..<k]"
    by (simp add: upt_conv_Cons map_Suc_upt [symmetric] del: upt_Suc)
  also have "map (\<lambda>i. (t + Suc i) mod n) [0..<k]
      = map (\<lambda>i. (increment n t + i) mod n) [0..<k]"
    using assms by (simp add: increment_mod mod_add_left_eq)
  finally show ?thesis using assms by (simp add: ring_indices_def)
qed

text \<open>Fewer than \<open>n\<close> consecutive slots never include the slot after them.\<close>

lemma ring_indices_not_next:
  assumes "t < n" and "k < n"
  shows "(t + k) mod n \<notin> set (ring_indices n t k)"
proof
  assume "(t + k) mod n \<in> set (ring_indices n t k)"
  then obtain i where i: "i < k" and eq: "(t + k) mod n = (t + i) mod n"
    by (auto simp: ring_indices_def)
  from eq have "n dvd (t + k) - (t + i)"
    by (simp add: mod_eq_dvd_iff_nat i less_imp_le)
  then have "n dvd k - i" by simp
  with i assms(2) show False by (auto dest: dvd_imp_le)
qed

lemma ring_indices_not_first:
  assumes "t < n" and "Suc k \<le> n"
  shows "t \<notin> set (ring_indices n (increment n t) k)"
proof
  assume "t \<in> set (ring_indices n (increment n t) k)"
  then obtain i where i: "i < k" and eq: "t mod n = (increment n t + i) mod n"
    using assms(1) by (auto simp: ring_indices_def)
  from eq assms(1) have "(t + Suc i) mod n = t mod n"
    by (simp add: increment_mod mod_simps)
  then have "n dvd (t + Suc i) - t" by (simp add: mod_eq_dvd_iff_nat)
  then have "n dvd Suc i" by simp
  with i assms(2) show False by (auto dest: dvd_imp_le)
qed

section \<open>Contents and invariant\<close>

definition window :: "'a list \<Rightarrow> nat \<Rightarrow> nat \<Rightarrow> 'a list" where
  "window ss t h = map (\<lambda>i. ss ! i) (ring_indices (length ss) t (ring_dist (length ss) t h))"

definition contents :: "'a ring_buffer \<Rightarrow> 'a list" where
  "contents b = window (slots b) (tail b) (head b)"

definition ring_inv :: "'a ring_buffer \<Rightarrow> bool" where
  "ring_inv b \<longleftrightarrow> head b < length (slots b) \<and> tail b < length (slots b)
     \<and> pushed b - popped b = of_nat (ring_size b)"

lemma length_window [simp]: "length (window ss t h) = ring_dist (length ss) t h"
  by (simp add: window_def ring_indices_def)

lemma window_same [simp]: "window ss t t = []"
  by (simp add: window_def ring_indices_def)

lemma window_push:
  assumes "t < length ss" and "h < length ss" and "increment (length ss) h \<noteq> t"
  shows "window (ss[h := x]) t (increment (length ss) h) = window ss t h @ [x]"
proof -
  let ?n = "length ss" and ?d = "ring_dist (length ss) t h"
  have d: "ring_dist ?n t (increment ?n h) = Suc ?d" using assms by (rule ring_dist_push)
  have h: "(t + ?d) mod ?n = h" using assms by (simp add: ring_dist_head)
  have "h \<notin> set (ring_indices ?n t ?d)"
    using ring_indices_not_next [of t ?n ?d] h assms by (simp add: ring_dist_less)
  with d h assms show ?thesis
    by (simp add: window_def ring_indices_Suc map_nth_upt_update)
qed

lemma window_pop:
  assumes "t < length ss" and "h < length ss" and "t \<noteq> h"
  shows "window ss t h = ss ! t # window (ss[t := y]) (increment (length ss) t) h"
proof -
  let ?n = "length ss"
  have d: "ring_dist ?n t h = Suc (ring_dist ?n (increment ?n t) h)"
    using assms by (rule ring_dist_pop)
  have "Suc (ring_dist ?n (increment ?n t) h) \<le> ?n"
    using ring_dist_less [of t ?n h] assms d by simp
  then have "t \<notin> set (ring_indices ?n (increment ?n t) (ring_dist ?n (increment ?n t) h))"
    using assms by (intro ring_indices_not_first) simp_all
  with d assms show ?thesis
    by (simp add: window_def ring_indices_Cons map_nth_upt_update)
qed

lemma ring_size_dist: "ring_size b = ring_dist (length (slots b)) (tail b) (head b)"
  by (simp add: ring_size_def ring_dist_def)

lemma length_contents: "length (contents b) = ring_size b"
  by (simp add: contents_def ring_size_dist)

lemma new_ring_inv: "ring_inv (new_ring d cap)"
  by (simp add: ring_inv_def new_ring_def ring_size_def)

lemma contents_new [simp]: "contents (new_ring d cap) = []"
  by (simp add: contents_def new_ring_def)

lemma capacity_new [simp]: "capacity (new_ring d cap) = cap"
  by (simp add: capacity_def new_ring_def)

lemma tryPush_full_iff:
  "ring_inv b \<Longrightarrow> increment (length (slots b)) (head b) = tail b \<longleftrightarrow>
   length (contents b) = capacity b"
  by (simp add: ring_inv_def length_contents ring_size_dist capacity_def ring_dist_full)

lemma tryPush_spec:
  assumes "ring_inv b"
  shows "ring_inv (fst (tryPush b x)) \<and> capacity (fst (tryPush b x)) = capacity b \<and>
    (snd (tryPush b x) \<longleftrightarrow> length (contents b) < capacity b) \<and>
    contents (fst (tryPush b x))
      = (if length (contents b) < capacity b then contents b @ [x] else contents b)"
proof (cases "increment (length (slots b)) (head b) = tail b")
  case True
  with tryPush_full_iff [OF assms] assms show ?thesis
    by (simp add: tryPush_def Let_def ring_inv_def contents_def capacity_def ring_size_def)
next
  case False
  let ?n = "length (slots b)"
  have inv: "head b < ?n" "tail b < ?n" "pushed b - popped b = of_nat (ring_size b)"
    using assms by (auto simp: ring_inv_def)
  from False inv have d: "ring_dist ?n (tail b) (increment ?n (head b))
      = Suc (ring_dist ?n (tail b) (head b))"
    by (intro ring_dist_push) auto
  with inv ring_dist_less [of "tail b" ?n "increment ?n (head b)"]
  have "length (contents b) < capacity b"
    by (simp add: length_contents ring_size_dist capacity_def)
  moreover have "pushed b + 1 - popped b = of_nat (Suc (ring_dist ?n (tail b) (head b)))"
    using inv(3) by (simp add: ring_size_dist algebra_simps)
  ultimately show ?thesis using False inv d window_push [of "tail b" "slots b" "head b" x]
    by (simp add: tryPush_def Let_def ring_inv_def contents_def capacity_def ring_size_dist)
qed

lemma tryPop_spec:
  assumes "ring_inv b"
  shows "ring_inv (fst (tryPop mf b)) \<and> capacity (fst (tryPop mf b)) = capacity b \<and>
    (case contents b of
       [] \<Rightarrow> tryPop mf b = (b, None)
     | x # xs \<Rightarrow> snd (tryPop mf b) = Some x \<and> contents (fst (tryPop mf b)) = xs)"
proof (cases "tail b = head b")
  case True
  with assms show ?thesis by (simp add: tryPop_def contents_def)
next
  case False
  let ?n = "length (slots b)"
  have inv: "head b < ?n" "tail b < ?n" "pushed b - popped b = of_nat (ring_size b)"
    using assms by (auto simp: ring_inv_def)
  from False inv have d: "ring_dist ?n (tail b) (head b)
      = Suc (ring_dist ?n (increment ?n (tail b)) (head b))"
    by (intro ring_dist_pop) auto
  have "pushed b - (popped b + 1) = of_nat (ring_dist ?n (increment ?n (tail b)) (head b))"
    using inv(3) d by (simp add: ring_size_dist algebra_simps)
  with False inv d window_pop [of "tail b" "slots b" "head b" "mf (slots b ! tail b)"]
  show ?thesis
    by (simp add: tryPop_def Let_def ring_inv_def contents_def capacity_def ring_size_dist)
qed

section \<open>The contract of a bounded FIFO queue\<close>

text \<open>A bounded queue as its users see it, and a run of calls on one.\<close>

definition bq_push :: "nat \<Rightarrow> 'a list \<Rightarrow> 'a \<Rightarrow> 'a list \<times> bool" where
  "bq_push cap q x = (if length q < cap then (q @ [x], True) else (q, False))"

definition bq_pop :: "'a list \<Rightarrow> 'a list \<times> 'a option" where
  "bq_pop q = (case q of [] \<Rightarrow> ([], None) | x # xs \<Rightarrow> (xs, Some x))"

datatype 'a queue_call = CallPush 'a | CallPop

text \<open>The queue after the calls, the items accepted and the items handed out, in order.\<close>

fun queue_run :: "('q \<Rightarrow> 'a \<Rightarrow> 'q \<times> bool) \<Rightarrow> ('q \<Rightarrow> 'q \<times> 'a option) \<Rightarrow> 'q \<Rightarrow> 'a queue_call list
    \<Rightarrow> 'q \<times> 'a list \<times> 'a list" where
  "queue_run push pop q [] = (q, [], [])"
| "queue_run push pop q (CallPush x # cs) =
     (let (q', ok) = push q x; (r, acc, out) = queue_run push pop q' cs
      in (r, if ok then x # acc else acc, out))"
| "queue_run push pop q (CallPop # cs) =
     (let (q', res) = pop q; (r, acc, out) = queue_run push pop q' cs
      in (r, acc, case res of None \<Rightarrow> out | Some x \<Rightarrow> x # out))"

fun push_calls :: "'a queue_call list \<Rightarrow> nat" where
  "push_calls [] = 0"
| "push_calls (CallPush x # cs) = Suc (push_calls cs)"
| "push_calls (CallPop # cs) = push_calls cs"

locale bounded_queue =
  fixes push :: "'q \<Rightarrow> 'a \<Rightarrow> 'q \<times> bool"
    and pop :: "'q \<Rightarrow> 'q \<times> 'a option"
    and cap :: "'q \<Rightarrow> nat"
    and items :: "'q \<Rightarrow> 'a list"
    and invar :: "'q \<Rightarrow> bool"
  assumes push_invar: "invar q \<Longrightarrow> invar (fst (push q x))"
    and push_cap: "invar q \<Longrightarrow> cap (fst (push q x)) = cap q"
    and push_step: "invar q \<Longrightarrow>
      (items (fst (push q x)), snd (push q x)) = bq_push (cap q) (items q) x"
    and pop_invar: "invar q \<Longrightarrow> invar (fst (pop q))"
    and pop_cap: "invar q \<Longrightarrow> cap (fst (pop q)) = cap q"
    and pop_step: "invar q \<Longrightarrow> (items (fst (pop q)), snd (pop q)) = bq_pop (items q)"
begin

lemma push_accepts: "invar q \<Longrightarrow> snd (push q x) \<longleftrightarrow> length (items q) < cap q"
  using push_step [of q x] by (simp add: bq_push_def split: if_splits)

lemma push_items:
  "invar q \<Longrightarrow> items (fst (push q x)) = (if snd (push q x) then items q @ [x] else items q)"
  using push_step [of q x] by (simp add: bq_push_def split: if_splits)

lemma pop_items:
  "invar q \<Longrightarrow> items q = (case snd (pop q) of None \<Rightarrow> [] | Some x \<Rightarrow> [x]) @ items (fst (pop q))"
  using pop_step [of q] by (auto simp: bq_pop_def split: list.splits)

lemma push_bounded:
  "invar q \<Longrightarrow> length (items q) \<le> cap q \<Longrightarrow> length (items (fst (push q x))) \<le> cap (fst (push q x))"
  using push_step [of q x] by (simp add: bq_push_def push_cap split: if_splits)

lemma pop_bounded:
  "invar q \<Longrightarrow> length (items q) \<le> cap q \<Longrightarrow> length (items (fst (pop q))) \<le> cap (fst (pop q))"
  using pop_items [of q] by (auto simp: pop_cap split: option.splits)

text \<open>First in, first out, over any run: what comes out is what went in, in order, and what is
  still queued is the rest; the bound is never exceeded.\<close>

lemma run_fifo:
  assumes "invar q" and "length (items q) \<le> cap q"
    and "queue_run push pop q cs = (r, acc, out)"
  shows "invar r \<and> cap r = cap q \<and> length (items r) \<le> cap q \<and> items q @ acc = out @ items r"
  using assms
proof (induction cs arbitrary: q r acc out)
  case Nil
  then show ?case by simp
next
  case (Cons c cs)
  show ?case
  proof (cases c)
    case (CallPush x)
    obtain acc' where "queue_run push pop (fst (push q x)) cs = (r, acc', out)"
      and acc: "acc = (if snd (push q x) then x # acc' else acc')"
      using Cons.prems(3) CallPush by (auto simp: Let_def split: prod.splits)
    from Cons.IH [OF push_invar push_bounded this(1)] Cons.prems(1,2)
    show ?thesis by (auto simp: acc push_items push_cap split: if_splits)
  next
    case CallPop
    obtain out' where "queue_run push pop (fst (pop q)) cs = (r, acc, out')"
      and out: "out = (case snd (pop q) of None \<Rightarrow> out' | Some x \<Rightarrow> x # out')"
      using Cons.prems(3) CallPop by (auto simp: Let_def split: prod.splits)
    from Cons.IH [OF pop_invar pop_bounded this(1)] Cons.prems(1,2) pop_items [of q]
    show ?thesis by (auto simp: out pop_cap split: option.splits)
  qed
qed

end

interpretation ring: bounded_queue tryPush "tryPop mf" capacity contents ring_inv for mf
proof unfold_locales
  fix q :: "'a ring_buffer" and x
  assume q: "ring_inv q"
  show "ring_inv (fst (tryPush q x))" "capacity (fst (tryPush q x)) = capacity q"
    using tryPush_spec [OF q] by simp_all
  show "(contents (fst (tryPush q x)), snd (tryPush q x)) = bq_push (capacity q) (contents q) x"
    using tryPush_spec [OF q, of x] by (simp add: bq_push_def)
  show "ring_inv (fst (tryPop mf q))" "capacity (fst (tryPop mf q)) = capacity q"
    using tryPop_spec [OF q] by simp_all
  show "(contents (fst (tryPop mf q)), snd (tryPop mf q)) = bq_pop (contents q)"
    using tryPop_spec [OF q, of mf] by (auto simp: bq_pop_def split: list.splits)
qed

text \<open>The counters of a run.\<close>

lemma ring_run_counters:
  assumes "queue_run tryPush (tryPop mf) b cs = (r, acc, out)"
  shows "pushed r = pushed b + of_nat (length acc) \<and> popped r = popped b + of_nat (length out)
    \<and> rejected r + of_nat (length acc) = rejected b + of_nat (push_calls cs)"
  using assms
proof (induction cs arbitrary: b acc out)
  case Nil
  then show ?case by simp
next
  case (Cons c cs)
  show ?case
  proof (cases c)
    case (CallPush x)
    obtain acc' where "queue_run tryPush (tryPop mf) (fst (tryPush b x)) cs = (r, acc', out)"
      and acc: "acc = (if snd (tryPush b x) then x # acc' else acc')"
      using Cons.prems CallPush by (auto simp: Let_def split: prod.splits)
    from Cons.IH [OF this(1)] show ?thesis
      by (simp add: acc CallPush tryPush_def Let_def algebra_simps split: if_splits)
  next
    case CallPop
    obtain out' where "queue_run tryPush (tryPop mf) (fst (tryPop mf b)) cs = (r, acc, out')"
      and out: "out = (case snd (tryPop mf b) of None \<Rightarrow> out' | Some x \<Rightarrow> x # out')"
      using Cons.prems CallPop by (auto simp: Let_def split: prod.splits)
    from Cons.IH [OF this(1)] show ?thesis
      by (simp add: out CallPop tryPop_def Let_def algebra_simps split: if_splits)
  qed
qed

text \<open>C23: The ring buffer implements a bounded FIFO queue: seen through the items between tail and
  head, tryPush appends to a queue shorter than the capacity and refuses at the capacity,
  tryPop removes the oldest item or finds none, and both keep the invariant.\<close>

theorem ring_buffer_refines_bounded_queue:
  assumes "ring_inv b"
  shows "(contents (fst (tryPush b x)), snd (tryPush b x)) = bq_push (capacity b) (contents b) x
    \<and> (contents (fst (tryPop mf b)), snd (tryPop mf b)) = bq_pop (contents b)
    \<and> ring_inv (fst (tryPush b x)) \<and> ring_inv (fst (tryPop mf b))
    \<and> ring_size b = length (contents b) \<and> (ring_empty b \<longleftrightarrow> contents b = [])"
  using ring.push_step [OF assms] ring.pop_step [OF assms] ring.push_invar [OF assms]
    ring.pop_invar [OF assms]
  by (simp add: ring_empty_def length_contents [symmetric])

theorem ring_buffer_refines_bounded_queue_witness:
  "ring_inv (new_ring (0 :: nat) 2) \<and>
   (contents (fst (tryPush (new_ring (0 :: nat) 2) 7)), snd (tryPush (new_ring (0 :: nat) 2) 7))
     = ([7], True)"
  using ring_buffer_refines_bounded_queue [OF new_ring_inv [of "0 :: nat" 2], of 7 id]
  by (simp add: new_ring_inv bq_push_def)

text \<open>Over any sequence of calls on a fresh buffer, the items handed out followed by the items
  still held are exactly the accepted ones in order, never more than the capacity are held,
  and the counters account for every call: pushed, popped and rejected are the numbers of
  accepted pushes, successful pops and refused pushes.\<close>

theorem ring_buffer_loses_nothing:
  assumes "queue_run tryPush (tryPop mf) (new_ring d cap) cs = (r, acc, out)"
  shows "out @ contents r = acc \<and> ring_size r \<le> cap
    \<and> ring_stats r = \<lparr>sts_pushed = of_nat (length acc), sts_popped = of_nat (length out),
        sts_rejected = of_nat (push_calls cs) - of_nat (length acc)\<rparr>"
proof -
  from ring_run_counters [OF assms] have "pushed r = of_nat (length acc)"
    "popped r = of_nat (length out)" "rejected r = of_nat (push_calls cs) - of_nat (length acc)"
    by (simp_all add: new_ring_def eq_diff_eq)
  with ring.run_fifo [OF new_ring_inv _ assms] show ?thesis
    by (simp add: ring_stats_def length_contents)
qed

theorem ring_buffer_loses_nothing_witness:
  "\<exists>r. queue_run tryPush (tryPop id) (new_ring (0 :: nat) 1)
      [CallPush 4, CallPush 5, CallPop, CallPush 6] = (r, [4, 6], [4])
    \<and> [4] @ contents r = [4, 6] \<and> sts_rejected (ring_stats r) = 1"
proof -
  obtain r where r: "queue_run tryPush (tryPop id) (new_ring (0 :: nat) 1)
      [CallPush 4, CallPush 5, CallPop, CallPush 6] = (r, [4, 6], [4])"
    by (simp add: tryPush_def tryPop_def new_ring_def increment_def)
  from ring_buffer_loses_nothing [OF r] r show ?thesis by (intro exI [of _ r]) simp
qed

end
