(* ===== verification/RingBufferSpsc.thy ===== *)
theory RingBufferSpsc
  imports RingBuffer
begin

text \<open>
  The ring buffer under its two threads: \<open>tryPush\<close> and \<open>tryPop\<close> taken apart into the
  atomic loads and stores and the plain slot accesses of \<open>ring_buffer.hpp\<close>, in program
  order, with the producer's and the consumer's steps interleaved in every way. Memory is
  sequentially consistent; the race-freedom theorem below is what lets the acquire/release
  pairs of the code stand for it.
\<close>

section \<open>Program counters and the shared state\<close>

datatype 'a producer_pc =
    PIdle
  | PLoaded 'a nat nat \<comment> \<open>item, head loaded, next computed\<close>
  | PFull
  | PRoom 'a nat nat \<comment> \<open>tail loaded and different from next\<close>
  | PWrote 'a nat nat \<comment> \<open>slot assigned\<close>
  | PStored \<comment> \<open>head stored, counter still to be bumped\<close>

datatype 'a consumer_pc =
    CIdle
  | CLoaded nat \<comment> \<open>tail loaded\<close>
  | CData nat \<comment> \<open>head loaded and different from tail\<close>
  | CTook nat 'a \<comment> \<open>item moved out of the slot\<close>
  | CStored 'a \<comment> \<open>tail stored, counter still to be bumped\<close>

text \<open>The buffer's fields, the two program counters, and two histories (ghosts).\<close>

record 'a spsc = "'a ring_buffer" +
  producer :: "'a producer_pc"
  consumer :: "'a consumer_pc"
  accepted :: "'a list"
  delivered :: "'a list"

definition new_spsc :: "'a \<Rightarrow> nat \<Rightarrow> 'a spsc" where
  "new_spsc dflt cap = ring_buffer.extend (new_ring dflt cap)
     \<lparr>producer = PIdle, consumer = CIdle, accepted = [], delivered = []\<rparr>"

inductive producer_step :: "'a \<Rightarrow> 'a spsc \<Rightarrow> 'a spsc \<Rightarrow> bool" for item where
  p_call: "producer s = PIdle \<Longrightarrow> producer_step item s
     (s\<lparr>producer := PLoaded item (head s) (increment (length (slots s)) (head s))\<rparr>)"
| p_full: "producer s = PLoaded x h nx \<Longrightarrow> nx = tail s \<Longrightarrow>
     producer_step item s (s\<lparr>producer := PFull\<rparr>)"
| p_reject: "producer s = PFull \<Longrightarrow>
     producer_step item s (s\<lparr>rejected := rejected s + 1, producer := PIdle\<rparr>)"
| p_room: "producer s = PLoaded x h nx \<Longrightarrow> nx \<noteq> tail s \<Longrightarrow>
     producer_step item s (s\<lparr>producer := PRoom x h nx\<rparr>)"
| p_write: "producer s = PRoom x h nx \<Longrightarrow>
     producer_step item s (s\<lparr>slots := (slots s)[h := x], producer := PWrote x h nx\<rparr>)"
| p_publish: "producer s = PWrote x h nx \<Longrightarrow>
     producer_step item s (s\<lparr>head := nx, producer := PStored, accepted := accepted s @ [x]\<rparr>)"
| p_count: "producer s = PStored \<Longrightarrow>
     producer_step item s (s\<lparr>pushed := pushed s + 1, producer := PIdle\<rparr>)"

inductive consumer_step :: "('a \<Rightarrow> 'a) \<Rightarrow> 'a spsc \<Rightarrow> 'a spsc \<Rightarrow> bool" for mf where
  c_call: "consumer s = CIdle \<Longrightarrow> consumer_step mf s (s\<lparr>consumer := CLoaded (tail s)\<rparr>)"
| c_empty: "consumer s = CLoaded t \<Longrightarrow> t = head s \<Longrightarrow>
     consumer_step mf s (s\<lparr>consumer := CIdle\<rparr>)"
| c_data: "consumer s = CLoaded t \<Longrightarrow> t \<noteq> head s \<Longrightarrow>
     consumer_step mf s (s\<lparr>consumer := CData t\<rparr>)"
| c_take: "consumer s = CData t \<Longrightarrow>
     consumer_step mf s (s\<lparr>slots := (slots s)[t := mf (slots s ! t)],
       consumer := CTook t (slots s ! t)\<rparr>)"
| c_release: "consumer s = CTook t x \<Longrightarrow>
     consumer_step mf s (s\<lparr>tail := increment (length (slots s)) t, consumer := CStored x\<rparr>)"
| c_count: "consumer s = CStored x \<Longrightarrow>
     consumer_step mf s (s\<lparr>popped := popped s + 1, consumer := CIdle,
       delivered := delivered s @ [x]\<rparr>)"

inductive spsc_reachable :: "('a \<Rightarrow> 'a) \<Rightarrow> 'a \<Rightarrow> nat \<Rightarrow> 'a spsc \<Rightarrow> bool" for mf d cap where
  start: "spsc_reachable mf d cap (new_spsc d cap)"
| producer: "spsc_reachable mf d cap s \<Longrightarrow> producer_step item s t \<Longrightarrow> spsc_reachable mf d cap t"
| consumer: "spsc_reachable mf d cap s \<Longrightarrow> consumer_step mf s t \<Longrightarrow> spsc_reachable mf d cap t"

section \<open>The invariant\<close>

text \<open>The items published and not yet released, the one being moved out included.\<close>

definition queued :: "'a spsc \<Rightarrow> 'a list" where
  "queued s = (case consumer s of
      CTook t x \<Rightarrow> x # window (slots s) (increment (length (slots s)) (tail s)) (head s)
    | _ \<Rightarrow> window (slots s) (tail s) (head s))"

definition in_hand :: "'a spsc \<Rightarrow> 'a list" where
  "in_hand s = (case consumer s of CStored x \<Rightarrow> [x] | _ \<Rightarrow> [])"

definition producer_inv :: "'a spsc \<Rightarrow> bool" where
  "producer_inv s = (case producer s of
      PLoaded x h nx \<Rightarrow> h = head s \<and> nx = increment (length (slots s)) h
    | PRoom x h nx \<Rightarrow> h = head s \<and> nx = increment (length (slots s)) h \<and> nx \<noteq> tail s
    | PWrote x h nx \<Rightarrow> h = head s \<and> nx = increment (length (slots s)) h \<and> nx \<noteq> tail s
        \<and> slots s ! h = x
    | _ \<Rightarrow> True)"

definition consumer_inv :: "'a spsc \<Rightarrow> bool" where
  "consumer_inv s = (case consumer s of
      CLoaded t \<Rightarrow> t = tail s
    | CData t \<Rightarrow> t = tail s \<and> t \<noteq> head s
    | CTook t x \<Rightarrow> t = tail s \<and> t \<noteq> head s
    | _ \<Rightarrow> True)"

definition spsc_inv :: "nat \<Rightarrow> 'a spsc \<Rightarrow> bool" where
  "spsc_inv cap s \<longleftrightarrow> length (slots s) = Suc cap \<and> head s \<le> cap \<and> tail s \<le> cap
     \<and> producer_inv s \<and> consumer_inv s
     \<and> accepted s = delivered s @ in_hand s @ queued s
     \<and> pushed s + (if producer s = PStored then 1 else 0) = of_nat (length (accepted s))
     \<and> popped s = of_nat (length (delivered s))"

lemmas spsc_inv_defs [inv_simps] =
  spsc_inv_def producer_inv_def consumer_inv_def queued_def in_hand_def

lemma window_write_head:
  assumes "t < length ss" and "h < length ss"
  shows "window (ss[h := x]) t h = window ss t h"
proof -
  have "h \<notin> set (ring_indices (length ss) t (ring_dist (length ss) t h))"
    using ring_indices_not_next [of t "length ss" "ring_dist (length ss) t h"] assms
    by (simp add: ring_dist_head ring_dist_less)
  then show ?thesis by (simp add: window_def map_nth_upt_update)
qed

lemma window_publish:
  assumes "length ss = n" and "t < n" and "h < n" and "increment n h \<noteq> t"
  shows "window ss t (increment n h) = window ss t h @ [ss ! h]"
  using window_push [of t ss h "ss ! h"] assms by simp

lemma increment_le [simp]: "i \<le> cap \<Longrightarrow> increment (Suc cap) i \<le> cap"
  by (simp add: increment_def)

lemma increment_eq_iff:
  "i \<le> cap \<Longrightarrow> j \<le> cap \<Longrightarrow> increment (Suc cap) i = increment (Suc cap) j \<longleftrightarrow> i = j"
  by (auto dest: increment_inj [rotated 2])

lemma new_spsc_inv: "spsc_inv cap (new_spsc d cap)"
  by (simp add: inv_simps new_spsc_def new_ring_def ring_buffer.defs)

lemma producer_step_inv: "producer_step item s t \<Longrightarrow> spsc_inv cap s \<Longrightarrow> spsc_inv cap t"
proof (induction rule: producer_step.induct)
  case (p_write s x h nx)
  then show ?case
    by (auto simp: inv_simps window_write_head split: consumer_pc.splits)
next
  case (p_publish s x h nx)
  then show ?case
    by (auto simp: inv_simps window_publish increment_eq_iff split: consumer_pc.splits)
qed (auto simp: inv_simps split: consumer_pc.splits)

lemma consumer_step_inv: "consumer_step mf s t \<Longrightarrow> spsc_inv cap s \<Longrightarrow> spsc_inv cap t"
proof (induction rule: consumer_step.induct)
  case (c_take s t)
  then show ?case using window_pop [of t "slots s" "head s" "mf (slots s ! t)"]
    by (auto simp: inv_simps split: producer_pc.splits)
next
  case (c_release s t x)
  then show ?case
    by (auto simp: inv_simps increment_eq_iff split: producer_pc.splits)
qed (auto simp: inv_simps split: producer_pc.splits)

lemma reachable_spsc_inv: "spsc_reachable mf d cap s \<Longrightarrow> spsc_inv cap s"
  by (induction rule: spsc_reachable.induct)
    (auto intro: new_spsc_inv producer_step_inv consumer_step_inv)

section \<open>Uninterrupted calls\<close>

text \<open>
  A call that runs without a step of the other thread in between has the effect of the
  sequential operation.
\<close>

lemma producer_run_sequential:
  fixes s :: "'a spsc"
  assumes "producer s = PIdle"
  shows "\<exists>t. (producer_step item)\<^sup>*\<^sup>* s t \<and> producer t = PIdle \<and> consumer t = consumer s
    \<and> ring_buffer.truncate t = fst (tryPush (ring_buffer.truncate s) item)
    \<and> accepted t = accepted s @ (if snd (tryPush (ring_buffer.truncate s) item) then [item] else [])"
proof -
  let ?n = "increment (length (slots s)) (head s)"
  let ?s1 = "s\<lparr>producer := PLoaded item (head s) ?n\<rparr>"
  have 1: "producer_step item s ?s1" by (rule p_call [OF assms])
  show ?thesis
  proof (cases "?n = tail s")
    case True
    let ?s2 = "?s1\<lparr>producer := PFull\<rparr>"
    have 2: "producer_step item ?s1 ?s2" by (rule p_full) (simp_all add: True)
    have 3: "producer_step item ?s2 (?s2\<lparr>rejected := rejected ?s2 + 1, producer := PIdle\<rparr>)"
      by (rule p_reject) simp
    from 1 2 3 have "(producer_step item)\<^sup>*\<^sup>* s
        (?s2\<lparr>rejected := rejected ?s2 + 1, producer := PIdle\<rparr>)"
      by (meson converse_rtranclp_into_rtranclp r_into_rtranclp)
    with True show ?thesis
      by (intro exI [of _ "?s2\<lparr>rejected := rejected ?s2 + 1, producer := PIdle\<rparr>"])
        (simp add: tryPush_def ring_buffer.defs)
  next
    case False
    let ?s2 = "?s1\<lparr>producer := PRoom item (head s) ?n\<rparr>"
    let ?s3 = "?s2\<lparr>slots := (slots ?s2)[head s := item], producer := PWrote item (head s) ?n\<rparr>"
    let ?s4 = "?s3\<lparr>head := ?n, producer := PStored, accepted := accepted ?s3 @ [item]\<rparr>"
    have 2: "producer_step item ?s1 ?s2" by (rule p_room) (simp_all add: False)
    have 3: "producer_step item ?s2 ?s3" by (rule p_write) simp
    have 4: "producer_step item ?s3 ?s4" by (rule p_publish) simp
    have 5: "producer_step item ?s4 (?s4\<lparr>pushed := pushed ?s4 + 1, producer := PIdle\<rparr>)"
      by (rule p_count) simp
    from 1 2 3 4 5 have "(producer_step item)\<^sup>*\<^sup>* s
        (?s4\<lparr>pushed := pushed ?s4 + 1, producer := PIdle\<rparr>)"
      by (meson converse_rtranclp_into_rtranclp r_into_rtranclp)
    with False show ?thesis
      by (intro exI [of _ "?s4\<lparr>pushed := pushed ?s4 + 1, producer := PIdle\<rparr>"])
        (simp add: tryPush_def ring_buffer.defs)
  qed
qed

lemma consumer_run_sequential:
  fixes s :: "'a spsc"
  assumes "consumer s = CIdle"
  shows "\<exists>t. (consumer_step mf)\<^sup>*\<^sup>* s t \<and> consumer t = CIdle \<and> producer t = producer s
    \<and> ring_buffer.truncate t = fst (tryPop mf (ring_buffer.truncate s))
    \<and> delivered t = delivered s
        @ (case snd (tryPop mf (ring_buffer.truncate s)) of None \<Rightarrow> [] | Some x \<Rightarrow> [x])"
proof -
  let ?s1 = "s\<lparr>consumer := CLoaded (tail s)\<rparr>"
  have 1: "consumer_step mf s ?s1" by (rule c_call [OF assms])
  show ?thesis
  proof (cases "tail s = head s")
    case True
    have "consumer_step mf ?s1 (?s1\<lparr>consumer := CIdle\<rparr>)" by (rule c_empty) (simp_all add: True)
    with 1 have "(consumer_step mf)\<^sup>*\<^sup>* s (?s1\<lparr>consumer := CIdle\<rparr>)"
      by (meson converse_rtranclp_into_rtranclp r_into_rtranclp)
    with True show ?thesis
      by (intro exI [of _ "?s1\<lparr>consumer := CIdle\<rparr>"]) (simp add: tryPop_def ring_buffer.defs)
  next
    case False
    let ?x = "slots s ! tail s"
    let ?s2 = "?s1\<lparr>consumer := CData (tail s)\<rparr>"
    let ?s3 = "?s2\<lparr>slots := (slots ?s2)[tail s := mf (slots ?s2 ! tail s)],
      consumer := CTook (tail s) (slots ?s2 ! tail s)\<rparr>"
    let ?s4 = "?s3\<lparr>tail := increment (length (slots ?s3)) (tail s), consumer := CStored ?x\<rparr>"
    have 2: "consumer_step mf ?s1 ?s2" by (rule c_data) (simp_all add: False)
    have 3: "consumer_step mf ?s2 ?s3" by (rule c_take) simp
    have 4: "consumer_step mf ?s3 ?s4" by (rule c_release) simp
    have 5: "consumer_step mf ?s4 (?s4\<lparr>popped := popped ?s4 + 1, consumer := CIdle,
        delivered := delivered ?s4 @ [?x]\<rparr>)"
      by (rule c_count) simp
    from 1 2 3 4 5 have "(consumer_step mf)\<^sup>*\<^sup>* s (?s4\<lparr>popped := popped ?s4 + 1,
        consumer := CIdle, delivered := delivered ?s4 @ [?x]\<rparr>)"
      by (meson converse_rtranclp_into_rtranclp r_into_rtranclp)
    with False show ?thesis
      by (intro exI [of _ "?s4\<lparr>popped := popped ?s4 + 1, consumer := CIdle,
        delivered := delivered ?s4 @ [?x]\<rparr>"])
        (simp add: tryPop_def Let_def ring_buffer.defs)
  qed
qed

section \<open>Properties\<close>

lemma queued_length_bound:
  assumes "spsc_inv cap s"
  shows "length (queued s) \<le> cap"
proof -
  have "ring_dist (Suc cap) (tail s) (head s) < Suc cap"
    using assms by (intro ring_dist_less) (auto simp: spsc_inv_def)
  moreover have "length (queued s) = ring_dist (Suc cap) (tail s) (head s)"
    using assms by (auto simp: inv_simps ring_dist_pop split: consumer_pc.splits)
  ultimately show ?thesis by simp
qed

text \<open>C24: Lock-free FIFO: under every interleaving of the producer's and the consumer's memory
  accesses the items delivered so far are a prefix of those accepted, in order; what is not
  yet delivered is the item in the consumer's hand and the queue, which never exceeds the
  capacity; the counters agree with the histories when the threads are idle.\<close>

theorem spsc_is_fifo:
  assumes "spsc_reachable mf d cap s"
  shows "prefix (delivered s) (accepted s)
    \<and> accepted s = delivered s @ in_hand s @ queued s
    \<and> length (queued s) \<le> cap
    \<and> (producer s = PIdle \<longrightarrow> pushed s = of_nat (length (accepted s)))
    \<and> popped s = of_nat (length (delivered s))"
proof -
  have inv: "spsc_inv cap s" using assms by (rule reachable_spsc_inv)
  from queued_length_bound [OF inv] inv show ?thesis
    by (auto simp: spsc_inv_def)
qed

theorem spsc_is_fifo_witness:
  "\<exists>s :: nat spsc. producer s = PIdle \<and> accepted s = [7 :: nat] \<and> prefix (delivered s) (accepted s)
    \<and> pushed s = 1"
proof -
  obtain t where t: "(producer_step 7)\<^sup>*\<^sup>* (new_spsc (0 :: nat) 1) t" "producer t = PIdle"
      "accepted t = [7]"
    using producer_run_sequential [of "new_spsc (0 :: nat) 1" 7]
    by (auto simp: new_spsc_def new_ring_def ring_buffer.defs tryPush_def increment_def)
  from t(1) have "spsc_reachable id 0 1 t"
    by (induction rule: rtranclp_induct) (auto intro: spsc_reachable.intros)
  from spsc_is_fifo [OF this] t show ?thesis by (intro exI [of _ t]) simp
qed

text \<open>C25: No data race: whenever the producer is about to assign a slot while the consumer is about
  to move out of one, or has just done so, the two slots differ, so a slot is never touched
  by both threads without a head or tail store between them.\<close>

theorem spsc_race_free:
  assumes "spsc_reachable mf d cap s"
    and "producer s = PRoom x h nx \<or> producer s = PWrote x h nx"
    and "consumer s = CData t \<or> consumer s = CTook t y"
  shows "h \<noteq> t \<and> h < length (slots s) \<and> t < length (slots s)"
  using reachable_spsc_inv [OF assms(1)] assms(2,3) by (auto simp: inv_simps)

theorem spsc_race_free_witness:
  "\<exists>s :: nat spsc. producer s = PRoom 8 1 2 \<and> consumer s = CData 0 \<and> (1 :: nat) \<noteq> 0
    \<and> 1 < length (slots s)"
proof -
  obtain t where t: "(producer_step 7)\<^sup>*\<^sup>* (new_spsc (0 :: nat) 2) t" "producer t = PIdle"
      "consumer t = CIdle"
      "ring_buffer.truncate t = fst (tryPush (ring_buffer.truncate (new_spsc (0 :: nat) 2)) 7)"
    using producer_run_sequential [of "new_spsc (0 :: nat) 2" 7]
    by (auto simp: new_spsc_def new_ring_def ring_buffer.defs)
  then have f: "head t = 1" "tail t = 0" "length (slots t) = 3"
    by (simp_all add: new_spsc_def new_ring_def ring_buffer.defs tryPush_def increment_def)
  from t(1) have "spsc_reachable id 0 2 t"
    by (induction rule: rtranclp_induct) (auto intro: spsc_reachable.intros)
  then have "spsc_reachable id 0 2 (t\<lparr>producer := PLoaded 8 1 2\<rparr>)"
    using spsc_reachable.producer [OF _ p_call [OF t(2), of 8]] f
    by (simp add: increment_def numeral_2_eq_2)
  then have "spsc_reachable id 0 2 (t\<lparr>producer := PRoom 8 1 2\<rparr>)"
    using spsc_reachable.producer [OF _ p_room [of "t\<lparr>producer := PLoaded 8 1 2\<rparr>" 8 1 2 8]] f
    by simp
  then have "spsc_reachable id 0 2 (t\<lparr>producer := PRoom 8 1 2, consumer := CLoaded 0\<rparr>)"
    using spsc_reachable.consumer [OF _ c_call [of "t\<lparr>producer := PRoom 8 1 2\<rparr>" id]] t f
    by simp
  then have r: "spsc_reachable id 0 2 (t\<lparr>producer := PRoom 8 1 2, consumer := CData 0\<rparr>)"
    using spsc_reachable.consumer [OF _ c_data
        [of "t\<lparr>producer := PRoom 8 1 2, consumer := CLoaded 0\<rparr>" 0 id]] f
    by simp
  from spsc_race_free [OF r, of 8 1 2 0 0] show ?thesis
    by (intro exI [of _ "t\<lparr>producer := PRoom 8 1 2, consumer := CData 0\<rparr>"]) simp
qed

text \<open>C26: The two models agree: a tryPush or tryPop of the step model that is not interrupted ends
  with exactly the buffer, the verdict and the item of the sequential operation.\<close>

theorem spsc_uninterrupted_calls_are_sequential:
  fixes s :: "'a spsc"
  shows "(producer s = PIdle \<longrightarrow> (\<exists>t. (producer_step item)\<^sup>*\<^sup>* s t \<and> producer t = PIdle
      \<and> ring_buffer.truncate t = fst (tryPush (ring_buffer.truncate s) item)
      \<and> accepted t = accepted s
          @ (if snd (tryPush (ring_buffer.truncate s) item) then [item] else [])))
    \<and> (consumer s = CIdle \<longrightarrow> (\<exists>t. (consumer_step mf)\<^sup>*\<^sup>* s t \<and> consumer t = CIdle
      \<and> ring_buffer.truncate t = fst (tryPop mf (ring_buffer.truncate s))
      \<and> delivered t = delivered s
          @ (case snd (tryPop mf (ring_buffer.truncate s)) of None \<Rightarrow> [] | Some x \<Rightarrow> [x])))"
  using producer_run_sequential [of s item] consumer_run_sequential [of s mf] by blast

theorem spsc_uninterrupted_calls_are_sequential_witness:
  "\<exists>t. (producer_step 7)\<^sup>*\<^sup>* (new_spsc (0 :: nat) 1) t
    \<and> ring_buffer.truncate t = fst (tryPush (new_ring 0 1) 7)"
  using spsc_uninterrupted_calls_are_sequential [of "new_spsc (0 :: nat) 1" 7 id]
  by (auto simp: new_spsc_def new_ring_def ring_buffer.defs)

end
