(* ===== verification/Floats.thy ===== *)
theory Floats
  imports Complex_Main
begin

text \<open>
  The \<open>double\<close> arithmetic of the code as an interface: the operations the code applies to
  doubles are the fields of a record, and every definition that computes with doubles takes
  such a record. What holds for every record holds for IEEE arithmetic with whatever
  rounding; what depends on exact arithmetic is stated for \<open>real_ops\<close>, the real numbers.
\<close>

record 'd float_ops =
  f_int :: "int \<Rightarrow> 'd" \<comment> \<open>conversion from an integer type\<close>
  f_lit :: "rat \<Rightarrow> 'd" \<comment> \<open>a literal of the source\<close>
  f_add :: "'d \<Rightarrow> 'd \<Rightarrow> 'd"
  f_sub :: "'d \<Rightarrow> 'd \<Rightarrow> 'd"
  f_mul :: "'d \<Rightarrow> 'd \<Rightarrow> 'd"
  f_div :: "'d \<Rightarrow> 'd \<Rightarrow> 'd"
  f_eq :: "'d \<Rightarrow> 'd \<Rightarrow> bool"
  f_less :: "'d \<Rightarrow> 'd \<Rightarrow> bool"
  f_sin :: "'d \<Rightarrow> 'd"
  f_cos :: "'d \<Rightarrow> 'd"
  f_pi :: "'d"
  f_lround :: "'d \<Rightarrow> int" \<comment> \<open>\<open>std::lround\<close>: to nearest, halves away from zero\<close>

definition real_lround :: "real \<Rightarrow> int" where
  "real_lround x = (if 0 \<le> x then \<lfloor>x + 1 / 2\<rfloor> else - \<lfloor>- x + 1 / 2\<rfloor>)"

definition real_ops :: "real float_ops" where
  "real_ops = \<lparr>f_int = of_int, f_lit = of_rat, f_add = (+), f_sub = (-), f_mul = (*),
     f_div = (/), f_eq = (=), f_less = (<), f_sin = sin, f_cos = cos, f_pi = pi,
     f_lround = real_lround\<rparr>"

lemma real_ops_simps [simp]:
  "f_int real_ops = of_int" "f_lit real_ops = of_rat" "f_add real_ops = (+)"
  "f_sub real_ops = (-)" "f_mul real_ops = (*)" "f_div real_ops = (/)" "f_eq real_ops = (=)"
  "f_less real_ops = (<)" "f_sin real_ops = sin" "f_cos real_ops = cos" "f_pi real_ops = pi"
  "f_lround real_ops = real_lround"
  by (simp_all add: real_ops_def)

lemma real_lround_of_int [simp]: "real_lround (of_int n) = n"
  by (simp add: real_lround_def floor_eq_iff)

end
