(* ===== verification/ClockSync.thy ===== *)
theory ClockSync
  imports AudioTypes Floats
begin

text \<open>
  The per-track clock synchroniser (\<open>audio-core/include/voxmesh/audio/clock_sync.hpp\<close>,
  \<open>audio-core/src/clock_sync.cpp\<close>). Timestamps and durations are signed 64-bit: an operation
  that overflows is undefined behaviour and makes \<open>process\<close> return \<open>None\<close>; the bounds
  theorem says when that cannot happen. Sample counts are 64-bit words.
\<close>

section \<open>Configuration, statistics, state\<close>

record clock_sync_config =
  cs_sampleRate :: sample_rate
  cs_channels :: channel_count
  cs_format :: sample_format
  cs_jitterTolerance :: int \<comment> \<open>milliseconds\<close>
  cs_maxSilencePerGap :: int \<comment> \<open>milliseconds\<close>
  cs_driftWindowSamples :: u64

record 'd drift_estimate =
  dr_ppm :: 'd
  dr_valid :: bool

record clock_sync_stats =
  framesProcessed :: u64
  framesSynthesized :: u64
  silenceSamplesInserted :: u64
  gapsHealed :: u64
  gapsTruncated :: u64
  overlapsDetected :: u64

record 'd track_sync =
  ts_config :: clock_sync_config
  ts_stats :: clock_sync_stats
  ts_drift :: "'d drift_estimate"
  anchored :: bool
  anchorTimestamp :: timestamp
  samplesSinceAnchor :: u64
  nextOutputSequence :: u64
  driftAnchorTimestamp :: timestamp
  driftAnchorSamples :: u64

definition kNanosPerSecond :: int where
  "kNanosPerSecond = 1000000000"

definition nanosPerMilli :: int where
  "nanosPerMilli = 1000000"

definition new_track_sync :: "'d float_ops \<Rightarrow> clock_sync_config \<Rightarrow> 'd track_sync" where
  "new_track_sync F cfg = \<lparr>ts_config = cfg,
     ts_stats = \<lparr>framesProcessed = 0, framesSynthesized = 0, silenceSamplesInserted = 0,
       gapsHealed = 0, gapsTruncated = 0, overlapsDetected = 0\<rparr>,
     ts_drift = \<lparr>dr_ppm = f_lit F 0, dr_valid = False\<rparr>,
     anchored = False, anchorTimestamp = 0, samplesSinceAnchor = 0, nextOutputSequence = 0,
     driftAnchorTimestamp = 0, driftAnchorSamples = 0\<rparr>"

section \<open>Conversions between samples and time\<close>

text \<open>The product is computed in \<open>std::int64_t\<close>, so it must not overflow; the quotient truncates.\<close>

definition samplesToDuration :: "clock_sync_config \<Rightarrow> u64 \<Rightarrow> int option" where
  "samplesToDuration cfg samples =
     (if cs_sampleRate cfg = 0 then None
      else do {
        product \<leftarrow> s64 (sint samples * kNanosPerSecond);
        s64 (product sdiv uint (cs_sampleRate cfg)) })"

definition durationToSamples :: "clock_sync_config \<Rightarrow> int \<Rightarrow> u64" where
  "durationToSamples cfg duration =
     (if duration \<le> 0 then 0
      else (word_of_int duration * ucast (cs_sampleRate cfg)) div word_of_int kNanosPerSecond)"

section \<open>Operations\<close>

definition makeSilenceFrame :: "'d track_sync \<Rightarrow> u64 \<Rightarrow> timestamp \<Rightarrow> audio_frame
    \<Rightarrow> 'd track_sync \<times> audio_frame" where
  "makeSilenceFrame s samples t like =
     (let cfg = ts_config s;
          bytes = samples * ucast (cs_channels cfg) * of_nat (bytesPerSample (cs_format cfg))
      in (s\<lparr>nextOutputSequence := nextOutputSequence s + 1\<rparr>,
          \<lparr>fr_track = fr_track like, fr_sequence = nextOutputSequence s, fr_timestamp = t,
           fr_sampleRate = cs_sampleRate cfg, fr_channels = cs_channels cfg,
           fr_format = cs_format cfg, fr_discontinuity = True,
           fr_payload = replicate (unat bytes) 0\<rparr>))"

definition anchorAt :: "'d track_sync \<Rightarrow> timestamp \<Rightarrow> 'd track_sync" where
  "anchorAt s t = s\<lparr>anchored := True, anchorTimestamp := t, samplesSinceAnchor := 0,
     driftAnchorTimestamp := t, driftAnchorSamples := 0\<rparr>"

definition updateDrift :: "'d float_ops \<Rightarrow> 'd track_sync \<Rightarrow> audio_frame \<Rightarrow> 'd track_sync option" where
  "updateDrift F s frame =
     (let samplesSinceDriftAnchor = samplesSinceAnchor s - driftAnchorSamples s
      in if samplesSinceDriftAnchor < cs_driftWindowSamples (ts_config s) then Some s
         else do {
           sampleElapsed \<leftarrow> samplesToDuration (ts_config s) samplesSinceDriftAnchor;
           monotonicElapsed \<leftarrow> s64 (fr_timestamp frame - driftAnchorTimestamp s);
           drift \<leftarrow> (if 0 < sampleElapsed then do {
               deviation \<leftarrow> s64 (monotonicElapsed - sampleElapsed);
               Some \<lparr>dr_ppm = f_mul F (f_div F (f_int F deviation) (f_int F sampleElapsed))
                      (f_lit F 1000000), dr_valid = True\<rparr> }
             else Some (ts_drift s));
           Some (s\<lparr>ts_drift := drift, driftAnchorTimestamp := fr_timestamp frame,
             driftAnchorSamples := samplesSinceAnchor s\<rparr>) })"

text \<open>
  The body of \<open>process\<close> for an anchored track: compare the frame's timestamp with the
  position its predecessors' samples give, and insert silence, re-anchor or do nothing.
\<close>

definition insertSilence :: "'d track_sync \<Rightarrow> u64 \<Rightarrow> timestamp \<Rightarrow> audio_frame
    \<Rightarrow> 'd track_sync \<times> audio_frame list" where
  "insertSilence s silenceSamples expected frame =
     (if 0 < silenceSamples then
        (let (s', silence) = makeSilenceFrame s silenceSamples expected frame
         in (s'\<lparr>ts_stats := (ts_stats s')\<lparr>
                 framesSynthesized := framesSynthesized (ts_stats s') + 1,
                 silenceSamplesInserted := silenceSamplesInserted (ts_stats s') + silenceSamples\<rparr>,
               samplesSinceAnchor := samplesSinceAnchor s' + silenceSamples\<rparr>, [silence]))
      else (s, []))"

definition heal :: "'d track_sync \<Rightarrow> audio_frame \<Rightarrow> ('d track_sync \<times> audio_frame list \<times> audio_frame) option" where
  "heal s frame = do {
     elapsed \<leftarrow> samplesToDuration (ts_config s) (samplesSinceAnchor s);
     expected \<leftarrow> advancedBy (anchorTimestamp s) elapsed;
     delta \<leftarrow> s64 (fr_timestamp frame - expected);
     tolerance \<leftarrow> s64 (cs_jitterTolerance (ts_config s) * nanosPerMilli);
     if tolerance < delta \<or> fr_discontinuity frame \<and> 0 < delta then do {
       cap \<leftarrow> s64 (cs_maxSilencePerGap (ts_config s) * nanosPerMilli);
       let silenceSamples = durationToSamples (ts_config s) (min delta cap);
       let (s1, out) = insertSilence s silenceSamples expected frame;
       Some (if cap < delta then
         (anchorAt (s1\<lparr>ts_stats := (ts_stats s1)\<lparr>gapsTruncated := gapsTruncated (ts_stats s1) + 1\<rparr>\<rparr>)
            (fr_timestamp frame), out, frame\<lparr>fr_discontinuity := True\<rparr>)
       else
         (s1\<lparr>ts_stats := (ts_stats s1)\<lparr>gapsHealed := gapsHealed (ts_stats s1) + 1\<rparr>\<rparr>,
          out, frame\<lparr>fr_discontinuity := False\<rparr>)) }
     else do {
       lower \<leftarrow> s64 (- tolerance);
       Some (if delta < lower then
         (anchorAt (s\<lparr>ts_stats := (ts_stats s)\<lparr>overlapsDetected := overlapsDetected (ts_stats s) + 1\<rparr>\<rparr>)
            (fr_timestamp frame), [], frame\<lparr>fr_discontinuity := True\<rparr>)
       else (s, [], frame)) } }"

definition process :: "'d float_ops \<Rightarrow> 'd track_sync \<Rightarrow> audio_frame
    \<Rightarrow> ('d track_sync \<times> audio_frame list) option" where
  "process F s0 frame0 = do {
     let s = s0\<lparr>ts_stats := (ts_stats s0)\<lparr>framesProcessed := framesProcessed (ts_stats s0) + 1\<rparr>\<rparr>;
     let frameSamples = of_nat (sampleCountPerChannel frame0);
     (s1, out, frame1) \<leftarrow>
       (if \<not> anchored s then Some (anchorAt s (fr_timestamp frame0), [], frame0) else heal s frame0);
     let frame = frame1\<lparr>fr_sequence := nextOutputSequence s1\<rparr>;
     s2 \<leftarrow> updateDrift F (s1\<lparr>nextOutputSequence := nextOutputSequence s1 + 1\<rparr>) frame;
     Some (s2\<lparr>samplesSinceAnchor := samplesSinceAnchor s2 + frameSamples\<rparr>, out @ [frame]) }"

text \<open>A stream of frames through the synchroniser.\<close>

fun process_all :: "'d float_ops \<Rightarrow> 'd track_sync \<Rightarrow> audio_frame list
    \<Rightarrow> ('d track_sync \<times> audio_frame list) option" where
  "process_all F s [] = Some (s, [])"
| "process_all F s (f # fs) = do {
     (s', out) \<leftarrow> process F s f;
     (s'', outs) \<leftarrow> process_all F s' fs;
     Some (s'', out @ outs) }"

section \<open>The conversions inside the machine range\<close>

text \<open>What the conversions compute when nothing overflows.\<close>

definition samples_ns :: "clock_sync_config \<Rightarrow> int \<Rightarrow> int" where
  "samples_ns cfg n = n * kNanosPerSecond div uint (cs_sampleRate cfg)"

definition tolerance_ns :: "clock_sync_config \<Rightarrow> int" where
  "tolerance_ns cfg = cs_jitterTolerance cfg * nanosPerMilli"

definition cap_ns :: "clock_sync_config \<Rightarrow> int" where
  "cap_ns cfg = cs_maxSilencePerGap cfg * nanosPerMilli"

lemma samples_ns_nonneg [simp]: "0 \<le> n \<Longrightarrow> 0 \<le> samples_ns cfg n"
  using uint_ge_0 [of "cs_sampleRate cfg"]
  by (simp add: samples_ns_def kNanosPerSecond_def div_int_pos_iff)

lemma samples_ns_0 [simp]: "samples_ns cfg 0 = 0"
  by (simp add: samples_ns_def)

lemma samplesToDuration_eq:
  assumes "cs_sampleRate cfg \<noteq> 0" and "uint n * kNanosPerSecond < 2 ^ 63"
  shows "samplesToDuration cfg n = Some (samples_ns cfg (uint n))"
proof -
  have hz: "1 \<le> uint (cs_sampleRate cfg)" using uint_pos [OF assms(1)] by linarith
  have p: "0 \<le> uint n * kNanosPerSecond" by (simp add: kNanosPerSecond_def)
  have small: "uint n < 2 ^ 63" using assms(2) uint_ge_0 [of n] by (simp add: kNanosPerSecond_def)
  have "samples_ns cfg (uint n) \<le> uint n * kNanosPerSecond"
    unfolding samples_ns_def using p hz by (rule div_le_self)
  then have "in_s64 (samples_ns cfg (uint n))" "in_s64 (uint n * kNanosPerSecond)"
    using assms(2) p samples_ns_nonneg [OF uint_ge_0 [of n], of cfg]
    by (simp_all only: in_s64_nonneg le_less_trans)
  with assms(1) small p hz show ?thesis
    by (simp add: samplesToDuration_def sint_small s64_Some sdiv_nonneg samples_ns_def)
qed

lemma durationToSamples_eq:
  assumes "0 < d" and "d < 2 ^ 64" and "d * uint (cs_sampleRate cfg) < 2 ^ 64"
  shows "uint (durationToSamples cfg d) = d * uint (cs_sampleRate cfg) div kNanosPerSecond"
proof -
  have "uint (word_of_int d * ucast (cs_sampleRate cfg) :: u64) = d * uint (cs_sampleRate cfg)"
    using assms uint_of_int_small [of d]
    by (subst uint_mult_small) simp_all
  with assms(1) show ?thesis
    by (simp add: durationToSamples_def uint_div_distrib kNanosPerSecond_def)
qed

subsection \<open>Rounding\<close>

text \<open>
  Silence of \<open>n = \<lfloor>D * hz / K\<rfloor>\<close> samples appended to \<open>s\<close> samples moves the position by
  \<open>D\<close>, up to one sample period and one nanosecond.
\<close>

lemma silence_rounding:
  fixes s D hz K :: int
  assumes "0 < hz" and "0 < K"
  defines "n \<equiv> D * hz div K"
  defines "moved \<equiv> (s + n) * K div hz - s * K div hz"
  shows "0 \<le> D - moved" and "D - moved \<le> K div hz + 1"
proof -
  let ?A = "s * K div hz" and ?B = "(s + n) * K div hz"
  note n = div_bounds [OF assms(2), of "D * hz", folded n_def]
  note A = div_bounds [OF assms(1), of "s * K"]
  note B = div_bounds [OF assms(1), of "(s + n) * K"]
  have "?B * hz < (?A + D + 1) * hz" using n A B by (simp add: algebra_simps)
  then have "?B < ?A + D + 1" using assms(1) by (simp add: mult_less_cancel_right)
  then show "0 \<le> D - moved" by (simp add: moved_def)
  have "(D + ?A - ?B - 1) * hz \<le> K" using n A B by (simp add: algebra_simps)
  then have "D + ?A - ?B - 1 \<le> K div hz" using assms(1) by (intro le_divI)
  then show "D - moved \<le> K div hz + 1" by (simp add: moved_def)
qed

lemma le_div_mult:
  fixes n K hz X :: int
  assumes "0 < hz" and "0 < K" and "n * K div hz \<le> X"
  shows "n \<le> (X + 1) * hz div K"
proof -
  have "n * K < (n * K div hz + 1) * hz"
    using div_bounds(2) [OF assms(1), of "n * K"] by (simp add: algebra_simps)
  also have "\<dots> \<le> (X + 1) * hz" using assms by (simp add: mult_right_mono)
  finally show ?thesis using assms(2) by (intro le_divI) simp_all
qed

section \<open>The bounds under which nothing overflows\<close>

text \<open>
  \<open>T\<close> bounds the timestamps of the stream and \<open>F\<close> the samples of one frame. The limit is the
  largest sample position that lies within the tolerance of a timestamp up to \<open>T\<close>.
\<close>

definition sync_limit :: "clock_sync_config \<Rightarrow> int \<Rightarrow> int" where
  "sync_limit cfg T = (T + tolerance_ns cfg + 1) * uint (cs_sampleRate cfg) div kNanosPerSecond"

definition sync_ok :: "clock_sync_config \<Rightarrow> int \<Rightarrow> nat \<Rightarrow> bool" where
  "sync_ok cfg T F \<longleftrightarrow> cs_sampleRate cfg \<noteq> 0
     \<and> 0 \<le> cs_jitterTolerance cfg \<and> tolerance_ns cfg \<le> 2 ^ 60
     \<and> 0 \<le> cs_maxSilencePerGap cfg \<and> cap_ns cfg < 2 ^ 63
     \<and> 0 \<le> T \<and> T \<le> 2 ^ 60 \<and> int F * kNanosPerSecond \<le> 2 ^ 60
     \<and> (sync_limit cfg T + int F) * kNanosPerSecond < 2 ^ 63"

definition frame_ok :: "int \<Rightarrow> nat \<Rightarrow> audio_frame \<Rightarrow> bool" where
  "frame_ok T F f \<longleftrightarrow> 0 \<le> fr_timestamp f \<and> fr_timestamp f \<le> T \<and> sampleCountPerChannel f \<le> F"

definition sync_inv :: "clock_sync_config \<Rightarrow> int \<Rightarrow> int \<Rightarrow> 'd track_sync \<Rightarrow> bool" where
  "sync_inv cfg T N s \<longleftrightarrow> ts_config s = cfg \<and>
     (anchored s \<longrightarrow> 0 \<le> anchorTimestamp s \<and> anchorTimestamp s \<le> T
        \<and> 0 \<le> driftAnchorTimestamp s \<and> driftAnchorTimestamp s \<le> T
        \<and> uint (driftAnchorSamples s) \<le> uint (samplesSinceAnchor s)
        \<and> uint (samplesSinceAnchor s) \<le> N)"

text \<open>The track's position is within the tolerance (or one sample period) of time \<open>t\<close>.\<close>

definition aligned :: "'d track_sync \<Rightarrow> timestamp \<Rightarrow> bool" where
  "aligned s t \<longleftrightarrow>
     (let cfg = ts_config s;
          e = t - (anchorTimestamp s + samples_ns cfg (uint (samplesSinceAnchor s)))
      in - tolerance_ns cfg \<le> e \<and>
         e \<le> max (tolerance_ns cfg) (kNanosPerSecond div uint (cs_sampleRate cfg) + 1))"

lemma K_pos [simp]: "0 < kNanosPerSecond" "0 \<le> kNanosPerSecond"
  by (simp_all add: kNanosPerSecond_def)

lemma sync_limit_nonneg: "sync_ok cfg T F \<Longrightarrow> 0 \<le> sync_limit cfg T"
  by (simp add: sync_ok_def sync_limit_def tolerance_ns_def nanosPerMilli_def
      pos_imp_zdiv_nonneg_iff)

lemma samples_ns_le:
  assumes "sync_ok cfg T F" and "n \<le> sync_limit cfg T + int F" and "0 \<le> n"
  shows "samples_ns cfg n \<le> 3 * 2 ^ 60 + 1" and "n * kNanosPerSecond < 2 ^ 63"
proof -
  let ?hz = "uint (cs_sampleRate cfg)" and ?K = kNanosPerSecond
  let ?X = "T + tolerance_ns cfg + 1"
  have hz: "1 \<le> ?hz" using assms(1) uint_pos [of "cs_sampleRate cfg"] by (simp add: sync_ok_def)
  have nK: "n * ?K \<le> (sync_limit cfg T + int F) * ?K"
    using assms(2) by (intro mult_right_mono) simp_all
  with assms(1) show "n * ?K < 2 ^ 63" unfolding sync_ok_def by linarith
  have "sync_limit cfg T * ?K \<le> ?X * ?hz"
    unfolding sync_limit_def by (rule div_bounds) simp
  moreover have "int F * ?K * 1 \<le> int F * ?K * ?hz"
    using hz by (intro mult_left_mono) (simp_all add: kNanosPerSecond_def)
  ultimately have "n * ?K \<le> (?X + int F * ?K) * ?hz"
    using nK distrib_right [of ?X "int F * ?K" ?hz] distrib_right [of "sync_limit cfg T" "int F" ?K]
    by linarith
  then have "samples_ns cfg n \<le> (?X + int F * ?K) * ?hz div ?hz"
    unfolding samples_ns_def using hz by (intro zdiv_mono1) simp_all
  with hz have "samples_ns cfg n \<le> ?X + int F * ?K" by simp
  with assms(1) show "samples_ns cfg n \<le> 3 * 2 ^ 60 + 1" by (simp add: sync_ok_def)
qed

lemma aligned_limit:
  assumes "sync_ok cfg T F" and "ts_config s = cfg" and "aligned s t" and "t \<le> T"
    and "0 \<le> anchorTimestamp s"
  shows "uint (samplesSinceAnchor s) \<le> sync_limit cfg T"
proof -
  have "uint (samplesSinceAnchor s) * kNanosPerSecond div uint (cs_sampleRate cfg)
      \<le> T + tolerance_ns cfg"
    using assms by (simp add: aligned_def Let_def samples_ns_def)
  moreover have "0 < uint (cs_sampleRate cfg)"
    using assms(1) by (intro uint_pos) (simp add: sync_ok_def)
  ultimately show ?thesis unfolding sync_limit_def by (intro le_div_mult) simp_all
qed

lemma limit_product:
  assumes "sync_ok cfg T F" and "d \<le> T"
  shows "d * uint (cs_sampleRate cfg) < 2 ^ 64"
proof -
  let ?hz = "uint (cs_sampleRate cfg)"
  have "d * ?hz \<le> (T + tolerance_ns cfg + 1) * ?hz"
    using assms by (intro mult_right_mono) (simp_all add: sync_ok_def tolerance_ns_def nanosPerMilli_def)
  also have "\<dots> < sync_limit cfg T * kNanosPerSecond + kNanosPerSecond"
    unfolding sync_limit_def by (rule div_bounds) simp
  also have "\<dots> \<le> (sync_limit cfg T + int F) * kNanosPerSecond + kNanosPerSecond"
    by (simp add: kNanosPerSecond_def)
  finally show ?thesis using assms(1) by (simp add: sync_ok_def kNanosPerSecond_def)
qed

lemma anchorAt_simps [simp]:
  "anchored (anchorAt s t)" "anchorTimestamp (anchorAt s t) = t"
  "samplesSinceAnchor (anchorAt s t) = 0" "driftAnchorTimestamp (anchorAt s t) = t"
  "driftAnchorSamples (anchorAt s t) = 0" "ts_config (anchorAt s t) = ts_config s"
  "ts_stats (anchorAt s t) = ts_stats s" "ts_drift (anchorAt s t) = ts_drift s"
  "nextOutputSequence (anchorAt s t) = nextOutputSequence s"
  by (simp_all add: anchorAt_def)

lemma aligned_anchorAt: "sync_ok (ts_config s) T F \<Longrightarrow> aligned (anchorAt s t) t"
  using uint_ge_0 [of "cs_sampleRate (ts_config s)"]
  by (simp add: aligned_def Let_def sync_ok_def tolerance_ns_def nanosPerMilli_def
      div_int_pos_iff kNanosPerSecond_def le_max_iff_disj)

text \<open>The three values the code computes before it compares, in range.\<close>

lemma heal_values:
  assumes ok: "sync_ok cfg T F" and inv: "sync_inv cfg T (sync_limit cfg T + int F) s"
    and anch: "anchored s" and f: "frame_ok T F f"
  defines "expected \<equiv> anchorTimestamp s + samples_ns cfg (uint (samplesSinceAnchor s))"
  shows "samplesToDuration cfg (samplesSinceAnchor s)
      = Some (samples_ns cfg (uint (samplesSinceAnchor s)))"
    and "0 \<le> expected" and "in_s64 expected" and "in_s64 (fr_timestamp f - expected)"
    and "fr_timestamp f - expected \<le> T"
proof -
  let ?n = "uint (samplesSinceAnchor s)"
  have n: "?n \<le> sync_limit cfg T + int F" using inv anch by (simp add: sync_inv_def)
  note le = samples_ns_le [OF ok n uint_ge_0]
  show "samplesToDuration cfg (samplesSinceAnchor s) = Some (samples_ns cfg ?n)"
    using ok le(2) by (intro samplesToDuration_eq) (simp_all add: sync_ok_def)
  have a: "0 \<le> anchorTimestamp s" "anchorTimestamp s \<le> T" "T \<le> 2 ^ 60"
    using inv anch ok by (simp_all add: sync_inv_def sync_ok_def)
  have e: "0 \<le> samples_ns cfg ?n" by simp
  from a e show pos: "0 \<le> expected" by (simp add: expected_def)
  from a le(1) pos show "in_s64 expected" by (simp add: expected_def in_s64_nonneg)
  from a le(1) have "expected \<le> 4 * 2 ^ 60 + 1" by (simp add: expected_def)
  with a pos f show "in_s64 (fr_timestamp f - expected)"
    by (simp add: in_s64_def frame_ok_def)
  from pos f show "fr_timestamp f - expected \<le> T" by (simp add: frame_ok_def)
qed

section \<open>What one frame becomes\<close>

text \<open>
  What one input frame becomes: itself, with its own sequence number and perhaps another
  discontinuity flag, after at most one frame of flagged, all-zero silence.
\<close>

definition is_silence :: "clock_sync_config \<Rightarrow> audio_frame \<Rightarrow> bool" where
  "is_silence cfg g \<longleftrightarrow> fr_discontinuity g \<and> set (fr_payload g) \<subseteq> {0}
     \<and> fr_sampleRate g = cs_sampleRate cfg \<and> fr_channels g = cs_channels cfg
     \<and> fr_format g = cs_format cfg"

definition sync_block :: "clock_sync_config \<Rightarrow> audio_frame \<Rightarrow> audio_frame list \<Rightarrow> bool" where
  "sync_block cfg f out \<longleftrightarrow> (\<exists>sils q d. out = sils @ [f\<lparr>fr_sequence := q, fr_discontinuity := d\<rparr>]
     \<and> length sils \<le> 1 \<and> (\<forall>g \<in> set sils. is_silence cfg g))"

fun total_samples :: "audio_frame list \<Rightarrow> nat" where
  "total_samples [] = 0"
| "total_samples (f # fs) = sampleCountPerChannel f + total_samples fs"

lemma sampleCount_sequence [simp]:
  "sampleCountPerChannel (f\<lparr>fr_sequence := q\<rparr>) = sampleCountPerChannel f"
  by (simp add: sampleCountPerChannel_def)

lemma total_samples_append [simp]: "total_samples (fs @ gs) = total_samples fs + total_samples gs"
  by (induction fs) simp_all

lemma sampleCount_update [simp]:
  "sampleCountPerChannel (f\<lparr>fr_sequence := q, fr_discontinuity := d\<rparr>) = sampleCountPerChannel f"
  by (simp add: sampleCountPerChannel_def)

text \<open>The sequence numbers and counters of a step, from one state to the next.\<close>

definition accounted :: "'d track_sync \<Rightarrow> 'd track_sync \<Rightarrow> nat \<Rightarrow> audio_frame list \<Rightarrow> bool" where
  "accounted s s' n out \<longleftrightarrow>
     map fr_sequence out = map (\<lambda>i. nextOutputSequence s + of_nat i) [0..<length out]
     \<and> nextOutputSequence s' = nextOutputSequence s + of_nat (length out)
     \<and> framesSynthesized (ts_stats s') + of_nat n = framesSynthesized (ts_stats s) + of_nat (length out)"

lemma insertSilence_block [simp]:
  "length (snd (insertSilence s n t f)) \<le> Suc 0"
  "g \<in> set (snd (insertSilence s n t f)) \<Longrightarrow> is_silence (ts_config s) g"
  "accounted s (fst (insertSilence s n t f)) 0 (snd (insertSilence s n t f))"
  "ts_config (fst (insertSilence s n t f)) = ts_config s"
  "framesProcessed (ts_stats (fst (insertSilence s n t f))) = framesProcessed (ts_stats s)"
  by (auto simp: insertSilence_def Let_def makeSilenceFrame_def is_silence_def accounted_def
      split: if_splits)

lemma accounted_anchorAt [simp]:
  "accounted s (anchorAt s' t) n out = accounted s s' n out"
  by (simp add: accounted_def)

lemma accounted_stats [simp]:
  "framesSynthesized st = framesSynthesized (ts_stats s') \<Longrightarrow>
   accounted s (s'\<lparr>ts_stats := st\<rparr>) n out = accounted s s' n out"
  by (simp add: accounted_def)

lemma accounted_refl: "accounted s s 0 []"
  by (simp add: accounted_def)

lemma accounted_append:
  assumes "accounted s s1 1 out" and "accounted s1 s' n outs"
  shows "accounted s s' (Suc n) (out @ outs)"
proof -
  have "map (\<lambda>i. nextOutputSequence s1 + of_nat i) [0..<length outs]
      = map (\<lambda>i. nextOutputSequence s + of_nat i) [length out..<length out + length outs]"
    using assms(1) by (simp add: accounted_def map_upt_shift add.assoc)
  with assms show ?thesis
    by (auto simp: accounted_def upt_add_eq_append [of 0] algebra_simps)
qed

lemma heal_cases:
  assumes "heal s f = Some (s1, out, f1)"
  obtains (truncated) n t e d c where "samplesToDuration (ts_config s) (samplesSinceAnchor s) = Some e"
      "advancedBy (anchorTimestamp s) e = Some t" "s64 (fr_timestamp f - t) = Some d"
      "n = durationToSamples (ts_config s) (min d c)"
      "s1 = anchorAt ((fst (insertSilence s n t f))\<lparr>ts_stats :=
        (ts_stats (fst (insertSilence s n t f)))\<lparr>gapsTruncated :=
          gapsTruncated (ts_stats (fst (insertSilence s n t f))) + 1\<rparr>\<rparr>) (fr_timestamp f)"
      "out = snd (insertSilence s n t f)" "f1 = f\<lparr>fr_discontinuity := True\<rparr>"
  | (healed) n t e d c where "samplesToDuration (ts_config s) (samplesSinceAnchor s) = Some e"
      "advancedBy (anchorTimestamp s) e = Some t" "s64 (fr_timestamp f - t) = Some d"
      "n = durationToSamples (ts_config s) (min d c)"
      "s1 = (fst (insertSilence s n t f))\<lparr>ts_stats :=
        (ts_stats (fst (insertSilence s n t f)))\<lparr>gapsHealed :=
          gapsHealed (ts_stats (fst (insertSilence s n t f))) + 1\<rparr>\<rparr>"
      "out = snd (insertSilence s n t f)" "f1 = f\<lparr>fr_discontinuity := False\<rparr>"
  | (overlap) "s1 = anchorAt (s\<lparr>ts_stats := (ts_stats s)\<lparr>overlapsDetected :=
        overlapsDetected (ts_stats s) + 1\<rparr>\<rparr>) (fr_timestamp f)"
      "out = []" "f1 = f\<lparr>fr_discontinuity := True\<rparr>"
  | (inside) "s1 = s" "out = []" "f1 = f"
proof -
  from assms obtain e t d tol where v: "samplesToDuration (ts_config s) (samplesSinceAnchor s) = Some e"
      "advancedBy (anchorTimestamp s) e = Some t" "s64 (fr_timestamp f - t) = Some d"
    and rest: "(if tol < d \<or> fr_discontinuity f \<and> 0 < d then do {
       cap \<leftarrow> s64 (cs_maxSilencePerGap (ts_config s) * nanosPerMilli);
       let silenceSamples = durationToSamples (ts_config s) (min d cap);
       let (s1, out) = insertSilence s silenceSamples t f;
       Some (if cap < d then
         (anchorAt (s1\<lparr>ts_stats := (ts_stats s1)\<lparr>gapsTruncated := gapsTruncated (ts_stats s1) + 1\<rparr>\<rparr>)
            (fr_timestamp f), out, f\<lparr>fr_discontinuity := True\<rparr>)
       else
         (s1\<lparr>ts_stats := (ts_stats s1)\<lparr>gapsHealed := gapsHealed (ts_stats s1) + 1\<rparr>\<rparr>,
          out, f\<lparr>fr_discontinuity := False\<rparr>)) }
     else do {
       lower \<leftarrow> s64 (- tol);
       Some (if d < lower then
         (anchorAt (s\<lparr>ts_stats := (ts_stats s)\<lparr>overlapsDetected := overlapsDetected (ts_stats s) + 1\<rparr>\<rparr>)
            (fr_timestamp f), [], f\<lparr>fr_discontinuity := True\<rparr>)
       else (s, [], f)) }) = Some (s1, out, f1)"
    unfolding heal_def bind_eq_Some_conv by blast
  show thesis
  proof (cases "tol < d \<or> fr_discontinuity f \<and> 0 < d")
    case True
    with rest obtain cap where c: "s64 (cs_maxSilencePerGap (ts_config s) * nanosPerMilli) = Some cap"
      by (auto simp: bind_eq_Some_conv)
    let ?n = "durationToSamples (ts_config s) (min d cap)"
    show thesis
    proof (cases "cap < d")
      case True
      from rest \<open>tol < d \<or> _\<close> True c show thesis
        by (intro truncated [OF v refl, of cap]) (simp_all add: Let_def split_beta)
    next
      case False
      from rest \<open>tol < d \<or> _\<close> False c show thesis
        by (intro healed [OF v refl, of cap]) (simp_all add: Let_def split_beta)
    qed
  next
    case False
    with rest obtain lower where "(if d < lower then
         (anchorAt (s\<lparr>ts_stats := (ts_stats s)\<lparr>overlapsDetected := overlapsDetected (ts_stats s) + 1\<rparr>\<rparr>)
            (fr_timestamp f), [], f\<lparr>fr_discontinuity := True\<rparr>)
       else (s, [], f)) = (s1, out, f1)"
      by (auto simp: bind_eq_Some_conv)
    then show thesis by (cases "d < lower") (auto intro: overlap inside)
  qed
qed

lemma heal_block:
  assumes "heal s f = Some (s1, out, f1)"
  shows "\<exists>d. f1 = f\<lparr>fr_discontinuity := d\<rparr>" and "length out \<le> 1"
    and "\<forall>g \<in> set out. is_silence (ts_config s) g" and "accounted s s1 0 out"
    and "ts_config s1 = ts_config s"
    and "framesProcessed (ts_stats s1) = framesProcessed (ts_stats s)"
proof -
  have self: "f = f\<lparr>fr_discontinuity := fr_discontinuity f\<rparr>" by simp
  from assms show "\<exists>d. f1 = f\<lparr>fr_discontinuity := d\<rparr>"
    by (cases rule: heal_cases) (blast intro: self)+
  from assms show "length out \<le> 1" "\<forall>g \<in> set out. is_silence (ts_config s) g"
    "accounted s s1 0 out" "ts_config s1 = ts_config s"
    "framesProcessed (ts_stats s1) = framesProcessed (ts_stats s)"
    by (cases rule: heal_cases; simp add: accounted_refl)+
qed

section \<open>One step\<close>

lemma heal_gap_word:
  fixes w :: u64
  assumes ok: "sync_ok cfg T F" and d: "0 < d" "d \<le> T" and n: "n \<le> sync_limit cfg T + int F"
    and w: "uint w = n"
  shows "uint (durationToSamples cfg d) = d * uint (cs_sampleRate cfg) div kNanosPerSecond"
    and "uint (w + durationToSamples cfg d)
      = n + d * uint (cs_sampleRate cfg) div kNanosPerSecond"
proof -
  have "d < 2 ^ 64" using d ok by (simp add: sync_ok_def)
  with limit_product [OF ok d(2)] d(1)
  show 1: "uint (durationToSamples cfg d) = d * uint (cs_sampleRate cfg) div kNanosPerSecond"
    by (intro durationToSamples_eq)
  have "d * uint (cs_sampleRate cfg) div kNanosPerSecond \<le> 2 ^ 64 div kNanosPerSecond"
    using limit_product [OF ok d(2)] by (intro zdiv_mono1) simp_all
  moreover have "n * kNanosPerSecond < 2 ^ 63"
    using samples_ns_le(2) [OF ok n] uint_ge_0 [of w] unfolding w by simp
  ultimately have "n + d * uint (cs_sampleRate cfg) div kNanosPerSecond < 2 ^ 64"
    by (simp add: kNanosPerSecond_def)
  with 1 w show "uint (w + durationToSamples cfg d)
      = n + d * uint (cs_sampleRate cfg) div kNanosPerSecond"
    by (simp add: uint_add_small)
qed

lemma heal_step:
  assumes ok: "sync_ok cfg T F" and inv: "sync_inv cfg T (sync_limit cfg T + int F) s"
    and anch: "anchored s" and f: "frame_ok T F f"
  shows "\<exists>s1 out f1. heal s f = Some (s1, out, f1) \<and> anchored s1
    \<and> sync_inv cfg T (sync_limit cfg T) s1 \<and> aligned s1 (fr_timestamp f)
    \<and> (fr_discontinuity f1 \<or> anchorTimestamp s1 = anchorTimestamp s)"
proof -
  let ?n = "uint (samplesSinceAnchor s)" and ?t = "fr_timestamp f"
  let ?hz = "uint (cs_sampleRate cfg)" and ?K = kNanosPerSecond
  define expected where "expected = anchorTimestamp s + samples_ns cfg ?n"
  define delta where "delta = ?t - expected"
  note v = heal_values [OF ok inv anch f, folded expected_def, folded delta_def]
  have cfg: "ts_config s = cfg" and n: "?n \<le> sync_limit cfg T + int F"
    and a: "0 \<le> anchorTimestamp s" "anchorTimestamp s \<le> T" "0 \<le> driftAnchorTimestamp s"
      "driftAnchorTimestamp s \<le> T" "uint (driftAnchorSamples s) \<le> ?n"
    using inv anch by (simp_all add: sync_inv_def)
  have t: "0 \<le> ?t" "?t \<le> T" using f by (simp_all add: frame_ok_def)
  have tol: "s64 (cs_jitterTolerance cfg * nanosPerMilli) = Some (tolerance_ns cfg)"
    "s64 (- tolerance_ns cfg) = Some (- tolerance_ns cfg)" "0 \<le> tolerance_ns cfg"
    using ok by (simp_all add: sync_ok_def tolerance_ns_def s64_def in_s64_def nanosPerMilli_def)
  have cap: "s64 (cs_maxSilencePerGap cfg * nanosPerMilli) = Some (cap_ns cfg)" "0 \<le> cap_ns cfg"
    using ok by (simp_all add: sync_ok_def cap_ns_def s64_def in_s64_def nanosPerMilli_def)
  have hz: "0 < ?hz" using ok by (intro uint_pos) (simp add: sync_ok_def)
  note start = cfg v(1) advancedBy_def expected_def [symmetric] s64_Some [OF v(3)]
    delta_def [symmetric] s64_Some [OF v(4)] tol(1)
  have reanchored: "sync_inv cfg T (sync_limit cfg T) (anchorAt s' ?t)"
    "aligned (anchorAt s' ?t) ?t" if "ts_config s' = cfg" for s' :: "'a track_sync"
    using that t aligned_anchorAt [of s' T F ?t] ok sync_limit_nonneg [OF ok]
    by (simp_all add: sync_inv_def)
  have continued: "sync_inv cfg T (sync_limit cfg T) s'"
    if "ts_config s' = cfg" "anchorTimestamp s' = anchorTimestamp s" "aligned s' ?t"
      "driftAnchorTimestamp s' = driftAnchorTimestamp s" "driftAnchorSamples s' = driftAnchorSamples s"
      "?n \<le> uint (samplesSinceAnchor s')" for s' :: "'a track_sync"
    using that a aligned_limit [OF ok that(1,3) t(2)] by (simp add: sync_inv_def)
  consider (gap) "tolerance_ns cfg < delta \<or> fr_discontinuity f \<and> 0 < delta"
    | (overlap) "\<not> (tolerance_ns cfg < delta \<or> fr_discontinuity f \<and> 0 < delta)"
        "delta < - tolerance_ns cfg"
    | (inside) "\<not> (tolerance_ns cfg < delta \<or> fr_discontinuity f \<and> 0 < delta)"
        "- tolerance_ns cfg \<le> delta"
    by linarith
  then show ?thesis
  proof cases
    case gap
    then have pos: "0 < delta" using tol(3) by auto
    show ?thesis
    proof (cases "cap_ns cfg < delta")
      case True
      with gap show ?thesis
        by (simp add: heal_def start cap insertSilence_def makeSilenceFrame_def Let_def reanchored)
    next
      case False
      let ?w = "durationToSamples cfg delta"
      note w = heal_gap_word [OF ok pos v(5) n refl]
      note r = silence_rounding [OF hz K_pos(1), where s = ?n and D = delta]
      have "samples_ns cfg (?n + uint ?w) - samples_ns cfg ?n \<le> delta"
        "delta - (samples_ns cfg (?n + uint ?w) - samples_ns cfg ?n) \<le> ?K div ?hz + 1"
        using r by (simp_all add: w(1) samples_ns_def)
      then have al: "- tolerance_ns cfg \<le> ?t - (anchorTimestamp s + samples_ns cfg (?n + uint ?w))"
        "?t - (anchorTimestamp s + samples_ns cfg (?n + uint ?w))
          \<le> max (tolerance_ns cfg) (?K div ?hz + 1)"
        using tol(3) delta_def expected_def unfolding le_max_iff_disj by linarith+
      show ?thesis
      proof (cases "0 < ?w")
        case True
        have "0 \<le> uint ?w" by simp
        with gap False True al w show ?thesis
          by (simp add: heal_def start cap insertSilence_def makeSilenceFrame_def Let_def min_absorb1 anch
              continued aligned_def)
      next
        case wz: False
        then have "?w = 0" by (simp add: word_gt_0)
        with gap False wz al show ?thesis
          by (simp add: heal_def start cap insertSilence_def Let_def min_absorb1 anch continued aligned_def)
      qed
    qed
  next
    case overlap
    then show ?thesis by (simp add: heal_def start tol(2) reanchored)
  next
    case inside
    then have "aligned s ?t"
      using tol(3) by (simp add: aligned_def Let_def cfg delta_def expected_def) linarith
    with inside show ?thesis
      by (cases "fr_discontinuity f") (simp_all add: heal_def start tol(2) anch continued cfg)
  qed
qed

lemma updateDrift_frame:
  assumes "updateDrift fl s f = Some s'"
  shows "ts_config s' = ts_config s" "ts_stats s' = ts_stats s" "anchored s' = anchored s"
    "anchorTimestamp s' = anchorTimestamp s" "samplesSinceAnchor s' = samplesSinceAnchor s"
    "nextOutputSequence s' = nextOutputSequence s"
    "(driftAnchorTimestamp s' = driftAnchorTimestamp s \<and> driftAnchorSamples s' = driftAnchorSamples s)
      \<or> (driftAnchorTimestamp s' = fr_timestamp f \<and> driftAnchorSamples s' = samplesSinceAnchor s)"
  using assms by (auto simp: updateDrift_def Let_def bind_Some_iff split: if_splits)

lemma updateDrift_cong:
  assumes "fr_timestamp f = fr_timestamp g"
  shows "updateDrift fl s f = updateDrift fl s g"
  unfolding updateDrift_def assms ..

lemma updateDrift_defined:
  assumes ok: "sync_ok cfg T F" and inv: "sync_inv cfg T (sync_limit cfg T) s" and anch: "anchored s"
    and f: "frame_ok T F f"
  shows "\<exists>s'. updateDrift fl s f = Some s'"
proof -
  let ?w = "samplesSinceAnchor s - driftAnchorSamples s"
  have a: "0 \<le> driftAnchorTimestamp s" "driftAnchorTimestamp s \<le> T" "T \<le> 2 ^ 60"
    "uint (driftAnchorSamples s) \<le> uint (samplesSinceAnchor s)"
    "uint (samplesSinceAnchor s) \<le> sync_limit cfg T" and cfg: "ts_config s = cfg"
    using inv anch ok by (simp_all add: sync_inv_def sync_ok_def)
  have "uint ?w \<le> sync_limit cfg T + int F"
    unfolding uint_sub_small [OF a(4)] using a(5) uint_ge_0 [of "driftAnchorSamples s"]
    by linarith
  note le = samples_ns_le [OF ok this uint_ge_0]
  have e: "samplesToDuration cfg ?w = Some (samples_ns cfg (uint ?w))"
    using ok le(2) by (intro samplesToDuration_eq) (simp_all add: sync_ok_def)
  define E where "E = samples_ns cfg (uint ?w)"
  have "0 \<le> E" "E \<le> 3 * 2 ^ 60 + 1" using le(1) by (simp_all add: E_def)
  moreover have "0 \<le> fr_timestamp f" "fr_timestamp f \<le> T" using f by (simp_all add: frame_ok_def)
  ultimately have "in_s64 (fr_timestamp f - driftAnchorTimestamp s)"
    "in_s64 (fr_timestamp f - driftAnchorTimestamp s - E)"
    using a(1-3) by (simp_all add: in_s64_def)
  with e show ?thesis by (simp add: updateDrift_def Let_def cfg s64_Some E_def [symmetric])
qed

lemma process_step:
  assumes ok: "sync_ok cfg T F" and inv: "sync_inv cfg T (sync_limit cfg T + int F) s"
    and f: "frame_ok T F f"
  shows "\<exists>s' out. process fl s f = Some (s', out) \<and> anchored s'
    \<and> sync_inv cfg T (sync_limit cfg T + int F) s'
    \<and> aligned (s'\<lparr>samplesSinceAnchor := samplesSinceAnchor s' - of_nat (sampleCountPerChannel f)\<rparr>)
        (fr_timestamp f)
    \<and> out \<noteq> []
    \<and> (anchored s \<longrightarrow> fr_discontinuity (last out) \<or> anchorTimestamp s' = anchorTimestamp s)"
proof -
  let ?s = "s\<lparr>ts_stats := (ts_stats s)\<lparr>framesProcessed := framesProcessed (ts_stats s) + 1\<rparr>\<rparr>"
  have inv0: "sync_inv cfg T (sync_limit cfg T + int F) ?s" using inv by (simp add: sync_inv_def)
  have cfg: "ts_config s = cfg" using inv by (simp add: sync_inv_def)
  have "\<exists>s1 out f1. (if \<not> anchored ?s then Some (anchorAt ?s (fr_timestamp f), [], f) else heal ?s f)
      = Some (s1, out, f1) \<and> anchored s1 \<and> sync_inv cfg T (sync_limit cfg T) s1
    \<and> aligned s1 (fr_timestamp f)
    \<and> (anchored s \<longrightarrow> fr_discontinuity f1 \<or> anchorTimestamp s1 = anchorTimestamp s)
    \<and> fr_timestamp f1 = fr_timestamp f"
  proof (cases "anchored s")
    case True
    have fr: "fr_timestamp f1 = fr_timestamp f" if "heal ?s f = Some (s1, out, f1)" for s1 out f1
      using heal_block(1) [OF that] by auto
    from heal_step [OF ok inv0 _ f] True obtain s1 out f1 where "heal ?s f = Some (s1, out, f1)"
      "anchored s1" "sync_inv cfg T (sync_limit cfg T) s1" "aligned s1 (fr_timestamp f)"
      "fr_discontinuity f1 \<or> anchorTimestamp s1 = anchorTimestamp s"
      by auto
    with True fr show ?thesis by auto
  next
    case False
    with f ok cfg sync_limit_nonneg [OF ok] show ?thesis
      by (simp add: aligned_anchorAt sync_inv_def frame_ok_def)
  qed
  then obtain s1 out f1 where s1: "(if \<not> anchored ?s then Some (anchorAt ?s (fr_timestamp f), [], f)
        else heal ?s f) = Some (s1, out, f1)" "anchored s1" "sync_inv cfg T (sync_limit cfg T) s1"
      "aligned s1 (fr_timestamp f)" "fr_timestamp f1 = fr_timestamp f"
      "anchored s \<longrightarrow> fr_discontinuity f1 \<or> anchorTimestamp s1 = anchorTimestamp s"
    by auto
  let ?f2 = "f1\<lparr>fr_sequence := nextOutputSequence s1\<rparr>"
  let ?s1 = "s1\<lparr>nextOutputSequence := nextOutputSequence s1 + 1\<rparr>"
  have "updateDrift fl ?s1 ?f2 = updateDrift fl ?s1 f" 
    by (rule updateDrift_cong) (simp add: s1(5))
  moreover have "sync_inv cfg T (sync_limit cfg T) ?s1" using s1(3) by (simp add: sync_inv_def)
  ultimately obtain s2 where s2: "updateDrift fl ?s1 ?f2 = Some s2"
    using updateDrift_defined [OF ok _ _ f, of ?s1 fl] s1(2) by auto
  note fr = updateDrift_frame [OF s2]
  have lim: "uint (samplesSinceAnchor s1) \<le> sync_limit cfg T" "ts_config s1 = cfg"
    using s1(2,3) by (simp_all add: sync_inv_def)
  have Fs: "int (sampleCountPerChannel f) \<le> int F" using f by (simp add: frame_ok_def)
  have "sync_limit cfg T + int F < 2 ^ 63"
    using ok sync_limit_nonneg [OF ok] by (simp add: sync_ok_def kNanosPerSecond_def)
  with lim Fs sync_limit_nonneg [OF ok]
  have b: "int (sampleCountPerChannel f) < 2 ^ 63"
    "uint (samplesSinceAnchor s1) + int (sampleCountPerChannel f) < 2 ^ 63"
    by linarith+
  then have c: "uint (of_nat (sampleCountPerChannel f) :: u64) = int (sampleCountPerChannel f)"
    by (intro uint_of_nat_small) simp
  with b have add: "uint (samplesSinceAnchor s1 + of_nat (sampleCountPerChannel f))
      = uint (samplesSinceAnchor s1) + int (sampleCountPerChannel f)"
    by (subst uint_add_small) simp_all
  from s1(1) s2 have "process fl s f = Some
      (s2\<lparr>samplesSinceAnchor := samplesSinceAnchor s2 + of_nat (sampleCountPerChannel f)\<rparr>, out @ [?f2])"
    by (simp add: process_def Let_def)
  moreover have "sync_inv cfg T (sync_limit cfg T + int F)
      (s2\<lparr>samplesSinceAnchor := samplesSinceAnchor s2 + of_nat (sampleCountPerChannel f)\<rparr>)"
    using s1(2,3) fr f lim Fs add by (auto simp: sync_inv_def frame_ok_def s1(5))
  ultimately show ?thesis using s1(2,4,6) fr lim by (simp add: aligned_def)
qed

section \<open>Streams\<close>

lemma process_all_step:
  assumes ok: "sync_ok cfg T F" and inv: "sync_inv cfg T (sync_limit cfg T + int F) s"
    and f: "\<forall>f \<in> set fs. frame_ok T F f"
  shows "\<exists>s' out. process_all fl s fs = Some (s', out)
    \<and> sync_inv cfg T (sync_limit cfg T + int F) s'"
  using inv f
proof (induction fs arbitrary: s)
  case Nil
  then show ?case by simp
next
  case (Cons f fs)
  from process_step [OF ok Cons.prems(1), of f fl] Cons.prems(2) obtain s' out where
    "process fl s f = Some (s', out)" "sync_inv cfg T (sync_limit cfg T + int F) s'" by auto
  with Cons.IH [of s'] Cons.prems(2) show ?case by auto
qed

lemma new_track_sync_inv: "sync_inv cfg T N (new_track_sync fl cfg)"
  by (simp add: sync_inv_def new_track_sync_def)

text \<open>C39: The synchroniser never runs into undefined behaviour inside its bounds: for a stream whose
  timestamps stay within T nanoseconds of zero and whose frames have at most F samples,
  with a configuration whose limit of T and F fits 64 bits, every frame is processed. With
  the application's 48 kHz configuration T can be 48 hours.\<close>

theorem sync_never_overflows:
  assumes "sync_ok cfg T F" and "\<forall>f \<in> set fs. frame_ok T F f"
  shows "process_all fl (new_track_sync fl cfg) fs \<noteq> None"
  using process_all_step [OF assms(1) new_track_sync_inv assms(2)] by fastforce

definition app_sync_config :: "channel_count \<Rightarrow> clock_sync_config" where
  "app_sync_config ch = \<lparr>cs_sampleRate = 48000, cs_channels = ch, cs_format = PcmS16Le,
     cs_jitterTolerance = 20, cs_maxSilencePerGap = 5000, cs_driftWindowSamples = 48000\<rparr>"

lemma app_sync_ok: "sync_ok (app_sync_config ch) (48 * 3600 * kNanosPerSecond) 480000"
  by (simp add: sync_ok_def app_sync_config_def tolerance_ns_def cap_ns_def nanosPerMilli_def
      kNanosPerSecond_def sync_limit_def)

theorem sync_never_overflows_witness:
  "process_all real_ops (new_track_sync real_ops (app_sync_config 1))
     [\<lparr>fr_track = Microphone, fr_sequence = 0, fr_timestamp = 10, fr_sampleRate = 48000,
       fr_channels = 1, fr_format = PcmS16Le, fr_discontinuity = False, fr_payload = [1, 2]\<rparr>]
   \<noteq> None"
  by (rule sync_never_overflows [OF app_sync_ok])
    (simp add: frame_ok_def kNanosPerSecond_def sampleCountPerChannel_def)

text \<open>C16: Alignment by timestamps: after any stream within the bounds, a further frame leaves the
  track's position (anchor plus the samples since) at the frame's timestamp, at most the
  jitter tolerance early and at most the tolerance or one sample period and a nanosecond
  late; and unless the frame goes out flagged discontinuous, the anchor did not move, so no
  jump of the timeline is hidden.\<close>

theorem sync_stays_aligned:
  assumes "sync_ok cfg T F" and "\<forall>f \<in> set fs. frame_ok T F f" and "frame_ok T F f"
    and "process_all fl (new_track_sync fl cfg) fs = Some (s, outs)"
    and "process fl s f = Some (s', out)"
  shows "aligned (s'\<lparr>samplesSinceAnchor := samplesSinceAnchor s' - of_nat (sampleCountPerChannel f)\<rparr>)
      (fr_timestamp f)
    \<and> (anchored s \<longrightarrow> fr_discontinuity (last out) \<or> anchorTimestamp s' = anchorTimestamp s)"
proof -
  have "sync_inv cfg T (sync_limit cfg T + int F) s"
    using process_all_step [OF assms(1) new_track_sync_inv assms(2), of fl fl] assms(4) by auto
  from process_step [OF assms(1) this assms(3), of fl] assms(5) show ?thesis by auto
qed

theorem sync_stays_aligned_witness:
  "\<exists>s' out. process real_ops (new_track_sync real_ops (app_sync_config 1))
      \<lparr>fr_track = Microphone, fr_sequence = 0, fr_timestamp = 10, fr_sampleRate = 48000,
        fr_channels = 1, fr_format = PcmS16Le, fr_discontinuity = False, fr_payload = [1, 2]\<rparr>
      = Some (s', out)
    \<and> aligned (s'\<lparr>samplesSinceAnchor := samplesSinceAnchor s' - 1\<rparr>) 10"
proof -
  let ?f = "\<lparr>fr_track = Microphone, fr_sequence = 0, fr_timestamp = 10, fr_sampleRate = 48000,
    fr_channels = 1, fr_format = PcmS16Le, fr_discontinuity = False, fr_payload = [1, 2]\<rparr>"
  have f: "frame_ok (48 * 3600 * kNanosPerSecond) 480000 ?f"
    by (simp add: frame_ok_def kNanosPerSecond_def sampleCountPerChannel_def)
  from process_step [OF app_sync_ok new_track_sync_inv f, of real_ops]
  obtain s' out where p: "process real_ops (new_track_sync real_ops (app_sync_config 1)) ?f
      = Some (s', out)" by blast
  from sync_stays_aligned [OF app_sync_ok _ f _ p, where fs = "[]"] p show ?thesis
    by (auto simp: sampleCountPerChannel_def)
qed

section \<open>Accounting\<close>

definition gap_frame :: "timestamp \<Rightarrow> audio_frame" where
  "gap_frame t = \<lparr>fr_track = Microphone, fr_sequence = 0, fr_timestamp = t, fr_sampleRate = 48000,
     fr_channels = 1, fr_format = PcmS16Le, fr_discontinuity = False, fr_payload = [1, 2]\<rparr>"

lemma process_cases:
  assumes "process fl s f = Some (s', out)"
  obtains s0 sils f1 s2 where
    "(\<not> anchored s \<and> s0 = anchorAt (s\<lparr>ts_stats := (ts_stats s)\<lparr>framesProcessed :=
        framesProcessed (ts_stats s) + 1\<rparr>\<rparr>) (fr_timestamp f) \<and> sils = [] \<and> f1 = f)
      \<or> (anchored s \<and> heal (s\<lparr>ts_stats := (ts_stats s)\<lparr>framesProcessed :=
        framesProcessed (ts_stats s) + 1\<rparr>\<rparr>) f = Some (s0, sils, f1))"
    "updateDrift fl (s0\<lparr>nextOutputSequence := nextOutputSequence s0 + 1\<rparr>)
      (f1\<lparr>fr_sequence := nextOutputSequence s0\<rparr>) = Some s2"
    "s' = s2\<lparr>samplesSinceAnchor := samplesSinceAnchor s2 + of_nat (sampleCountPerChannel f)\<rparr>"
    "out = sils @ [f1\<lparr>fr_sequence := nextOutputSequence s0\<rparr>]"
  using assms
  by (auto simp: process_def Let_def split_beta bind_eq_Some_conv split: if_split_asm)

lemma process_block:
  assumes "process fl s f = Some (s', out)"
  shows "sync_block (ts_config s) f out" and "accounted s s' 1 out"
    and "framesProcessed (ts_stats s') = framesProcessed (ts_stats s) + 1"
    and "ts_config s' = ts_config s"
proof -
  from assms obtain s0 sils f1 s2 where
    c: "(\<not> anchored s \<and> s0 = anchorAt (s\<lparr>ts_stats := (ts_stats s)\<lparr>framesProcessed :=
        framesProcessed (ts_stats s) + 1\<rparr>\<rparr>) (fr_timestamp f) \<and> sils = [] \<and> f1 = f)
      \<or> (anchored s \<and> heal (s\<lparr>ts_stats := (ts_stats s)\<lparr>framesProcessed :=
        framesProcessed (ts_stats s) + 1\<rparr>\<rparr>) f = Some (s0, sils, f1))"
    and d: "updateDrift fl (s0\<lparr>nextOutputSequence := nextOutputSequence s0 + 1\<rparr>)
      (f1\<lparr>fr_sequence := nextOutputSequence s0\<rparr>) = Some s2"
    and s': "s' = s2\<lparr>samplesSinceAnchor := samplesSinceAnchor s2 + of_nat (sampleCountPerChannel f)\<rparr>"
    and out: "out = sils @ [f1\<lparr>fr_sequence := nextOutputSequence s0\<rparr>]"
    by (rule process_cases)
  have h: "(\<exists>d. f1 = f\<lparr>fr_discontinuity := d\<rparr>) \<and> length sils \<le> 1
      \<and> (\<forall>g \<in> set sils. is_silence (ts_config s) g) \<and> accounted s s0 0 sils
      \<and> ts_config s0 = ts_config s
      \<and> framesProcessed (ts_stats s0) = framesProcessed (ts_stats s) + 1"
    using c
  proof
    assume "\<not> anchored s \<and> s0 = anchorAt (s\<lparr>ts_stats := (ts_stats s)\<lparr>framesProcessed :=
        framesProcessed (ts_stats s) + 1\<rparr>\<rparr>) (fr_timestamp f) \<and> sils = [] \<and> f1 = f"
    then show ?thesis
      by (intro conjI exI [of _ "fr_discontinuity f"]) (simp_all add: accounted_def)
  next
    assume "anchored s \<and> heal (s\<lparr>ts_stats := (ts_stats s)\<lparr>framesProcessed :=
        framesProcessed (ts_stats s) + 1\<rparr>\<rparr>) f = Some (s0, sils, f1)"
    from heal_block [OF conjunct2 [OF this]] show ?thesis by (simp add: accounted_def)
  qed
  note fr = updateDrift_frame [OF d]
  from h obtain d where "f1 = f\<lparr>fr_discontinuity := d\<rparr>" by blast
  with h show "sync_block (ts_config s) f out" unfolding sync_block_def out
    by (intro exI [of _ sils] exI [of _ "nextOutputSequence s0"] exI [of _ d]) simp
  show "accounted s s' 1 out" "framesProcessed (ts_stats s') = framesProcessed (ts_stats s) + 1"
    "ts_config s' = ts_config s"
    using h fr by (simp_all add: s' out accounted_def algebra_simps)
qed

text \<open>The silence counter and the samples of the synthesised frames.\<close>

lemma durationToSamples_small:
  assumes "sync_ok cfg T F" and "d \<le> T"
  shows "unat (durationToSamples cfg d) < 2 ^ 35"
proof (cases "0 < d")
  case True
  have "uint (durationToSamples cfg d) = d * uint (cs_sampleRate cfg) div kNanosPerSecond"
    using True assms limit_product [OF assms] by (intro durationToSamples_eq) (simp_all add: sync_ok_def)
  also have "\<dots> \<le> 2 ^ 64 div kNanosPerSecond"
    using limit_product [OF assms] by (intro zdiv_mono1) simp_all
  also have "\<dots> < 2 ^ 35" by (simp add: kNanosPerSecond_def)
  finally show ?thesis by (intro unat_less_of_uint) simp
next
  case False
  then show ?thesis by (simp add: durationToSamples_def)
qed

lemma insertSilence_count:
  assumes "unat n < 2 ^ 35" and "cs_channels (ts_config s) \<noteq> 0"
  shows "silenceSamplesInserted (ts_stats (fst (insertSilence s n t f)))
    = silenceSamplesInserted (ts_stats s) + of_nat (total_samples (snd (insertSilence s n t f)))"
proof -
  let ?ch = "cs_channels (ts_config s)" and ?bps = "bytesPerSample (cs_format (ts_config s))"
  have ch: "unat ?ch < 2 ^ 16" "0 < unat ?ch"
    using unsigned_less [of ?ch, where ?'a = nat] assms(2) by (simp_all add: unat_gt_0)
  have bps: "?bps \<le> 4" "0 < ?bps" by (cases "cs_format (ts_config s)"; simp)+
  have "unat n * (unat ?ch * ?bps) \<le> 2 ^ 35 * (2 ^ 16 * 4)"
    using assms(1) ch bps by (intro mult_le_mono) simp_all
  then have m: "unat n * unat ?ch * ?bps < 2 ^ 64" by (simp add: mult.assoc)
  have "n * ucast ?ch * of_nat ?bps = of_nat (unat n * unat ?ch * ?bps)"
    by (simp add: unsigned_of_nat)
  then have "unat (n * ucast ?ch * of_nat ?bps) = unat n * unat ?ch * ?bps"
    using m by (simp only: unat_of_nat) simp
  with ch bps show ?thesis
    by (auto simp: insertSilence_def makeSilenceFrame_def Let_def sampleCountPerChannel_def
        mult.assoc mult.commute)
qed

lemma heal_silence:
  assumes ok: "sync_ok cfg T F" and inv: "sync_inv cfg T (sync_limit cfg T + int F) s"
    and anch: "anchored s" and f: "frame_ok T F f" and ch: "cs_channels cfg \<noteq> 0"
    and h: "heal s f = Some (s1, out, f1)"
  shows "silenceSamplesInserted (ts_stats s1)
    = silenceSamplesInserted (ts_stats s) + of_nat (total_samples out)"
proof -
  have cfg: "ts_config s = cfg" using inv by (simp add: sync_inv_def)
  note v = heal_values [OF ok inv anch f]
  have small: "unat (durationToSamples (ts_config s) (min d c)) < 2 ^ 35"
    if "samplesToDuration (ts_config s) (samplesSinceAnchor s) = Some e"
      "advancedBy (anchorTimestamp s) e = Some t" "s64 (fr_timestamp f - t) = Some d" for e t d c
  proof -
    have "d \<le> T" using that v(1,5) by (simp add: cfg s64_eq_Some_iff advancedBy_def)
    then show ?thesis unfolding cfg by (intro durationToSamples_small [OF ok]) simp
  qed
  show ?thesis
    using h
  proof (cases rule: heal_cases)
    case (truncated n t e d c)
    with small [of e t d c] insertSilence_count [of n s t f] ch cfg show ?thesis by simp
  next
    case (healed n t e d c)
    with small [of e t d c] insertSilence_count [of n s t f] ch cfg show ?thesis by simp
  qed simp_all
qed

lemma process_silence:
  assumes ok: "sync_ok cfg T F" and inv: "sync_inv cfg T (sync_limit cfg T + int F) s"
    and f: "frame_ok T F f" and ch: "cs_channels cfg \<noteq> 0"
    and p: "process fl s f = Some (s', out)"
  shows "silenceSamplesInserted (ts_stats s') + of_nat (sampleCountPerChannel f)
    = silenceSamplesInserted (ts_stats s) + of_nat (total_samples out)"
proof -
  let ?s = "s\<lparr>ts_stats := (ts_stats s)\<lparr>framesProcessed := framesProcessed (ts_stats s) + 1\<rparr>\<rparr>"
  have inv0: "sync_inv cfg T (sync_limit cfg T + int F) ?s" using inv by (simp add: sync_inv_def)
  from p obtain s0 sils f1 s2 where
    c: "(\<not> anchored s \<and> s0 = anchorAt ?s (fr_timestamp f) \<and> sils = [] \<and> f1 = f)
      \<or> (anchored s \<and> heal ?s f = Some (s0, sils, f1))"
    and d: "updateDrift fl (s0\<lparr>nextOutputSequence := nextOutputSequence s0 + 1\<rparr>)
      (f1\<lparr>fr_sequence := nextOutputSequence s0\<rparr>) = Some s2"
    and s': "s' = s2\<lparr>samplesSinceAnchor := samplesSinceAnchor s2 + of_nat (sampleCountPerChannel f)\<rparr>"
    and out: "out = sils @ [f1\<lparr>fr_sequence := nextOutputSequence s0\<rparr>]"
    by (rule process_cases)
  from c have "silenceSamplesInserted (ts_stats s0)
      = silenceSamplesInserted (ts_stats s) + of_nat (total_samples sils)
    \<and> sampleCountPerChannel f1 = sampleCountPerChannel f"
  proof
    assume a: "anchored s \<and> heal ?s f = Some (s0, sils, f1)"
    with heal_silence [OF ok inv0 _ f ch] heal_block(1) [of ?s f s0 sils f1] show ?thesis
      by (auto simp: sampleCountPerChannel_def)
  qed simp
  with updateDrift_frame(2) [OF d] show ?thesis
    by (simp add: s' out)
qed

lemma process_all_accounts:
  assumes ok: "sync_ok cfg T F" and ch: "cs_channels cfg \<noteq> 0"
    and inv: "sync_inv cfg T (sync_limit cfg T + int F) s"
    and f: "\<forall>f \<in> set fs. frame_ok T F f"
    and p: "process_all fl s fs = Some (s', outs)"
  shows "(\<exists>blocks. outs = concat blocks \<and> list_all2 (sync_block cfg) fs blocks)
    \<and> accounted s s' (length fs) outs
    \<and> framesProcessed (ts_stats s') = framesProcessed (ts_stats s) + of_nat (length fs)
    \<and> silenceSamplesInserted (ts_stats s') + of_nat (total_samples fs)
      = silenceSamplesInserted (ts_stats s) + of_nat (total_samples outs)"
  using inv f p
proof (induction fs arbitrary: s outs)
  case Nil
  then show ?case by (simp add: accounted_refl)
next
  case (Cons f fs)
  note fo = Cons.prems(2) [simplified, THEN conjunct1]
  from Cons.prems(3) obtain s1 out outs1 where
    p1: "process fl s f = Some (s1, out)" and p2: "process_all fl s1 fs = Some (s', outs1)"
    and outs: "outs = out @ outs1"
    by (auto simp: bind_eq_Some_conv)
  from process_step [OF ok Cons.prems(1) fo, of fl] p1
  have i1: "sync_inv cfg T (sync_limit cfg T + int F) s1" by auto
  note b = process_block [OF p1]
  note sil = process_silence [OF ok Cons.prems(1) fo ch p1]
  have cfg: "ts_config s = cfg" using Cons.prems(1) by (simp add: sync_inv_def)
  from Cons.IH [OF i1 _ p2] Cons.prems(2) obtain blocks where
    ih: "outs1 = concat blocks" "list_all2 (sync_block cfg) fs blocks"
    "accounted s1 s' (length fs) outs1"
    "framesProcessed (ts_stats s') = framesProcessed (ts_stats s1) + of_nat (length fs)"
    "silenceSamplesInserted (ts_stats s') + of_nat (total_samples fs)
      = silenceSamplesInserted (ts_stats s1) + of_nat (total_samples outs1)"
    by auto
  have "accounted s s' (Suc (length fs)) outs"
    using b(2) ih(3) unfolding outs by (rule accounted_append)
  moreover have "\<exists>blocks. outs = concat blocks \<and> list_all2 (sync_block cfg) (f # fs) blocks"
    using ih(1,2) b(1) cfg outs by (intro exI [of _ "out # blocks"]) simp
  moreover have "silenceSamplesInserted (ts_stats s') + of_nat (total_samples (f # fs))
      = silenceSamplesInserted (ts_stats s) + of_nat (total_samples outs)"
  proof -
    have "silenceSamplesInserted (ts_stats s') + of_nat (total_samples (f # fs))
        = silenceSamplesInserted (ts_stats s1) + of_nat (sampleCountPerChannel f)
          + of_nat (total_samples outs1)"
      using ih(5) by (simp add: algebra_simps)
    then show ?thesis by (simp add: sil outs algebra_simps)
  qed
  ultimately show ?case using b(3) ih(4) by (simp add: algebra_simps)
qed

text \<open>C15: Nothing is lost or invented silently: the output of a stream inside the bounds is, frame by
  frame, the input frame with its payload and timestamp untouched, preceded by at most one
  frame of flagged, all-zero silence; the output sequence numbers are 0, 1, 2, ...; the
  counters give exactly the frames processed and synthesised; and the samples that leave
  are the samples that came in plus the counted silence (modulo \<open>2 ^ 64\<close>).\<close>

theorem sync_accounts_for_every_sample:
  assumes "sync_ok cfg T F" and "cs_channels cfg \<noteq> 0" and "\<forall>f \<in> set fs. frame_ok T F f"
    and "process_all fl (new_track_sync fl cfg) fs = Some (s, outs)"
  shows "(\<exists>blocks. outs = concat blocks \<and> list_all2 (sync_block cfg) fs blocks)
    \<and> map fr_sequence outs = map of_nat [0..<length outs]
    \<and> framesProcessed (ts_stats s) = of_nat (length fs)
    \<and> framesSynthesized (ts_stats s) + of_nat (length fs) = of_nat (length outs)
    \<and> of_nat (total_samples outs) = of_nat (total_samples fs) + silenceSamplesInserted (ts_stats s)"
  using process_all_accounts [OF assms(1,2) new_track_sync_inv assms(3,4)]
  by (simp add: accounted_def new_track_sync_def algebra_simps)

theorem sync_accounts_for_every_sample_witness:
  "\<exists>s outs. process_all real_ops (new_track_sync real_ops (app_sync_config 1))
      [gap_frame 0, gap_frame 100000000] = Some (s, outs)
    \<and> map fr_sequence outs = map of_nat [0..<length outs]"
proof -
  have f: "\<forall>f \<in> set [gap_frame 0, gap_frame 100000000].
      frame_ok (48 * 3600 * kNanosPerSecond) 480000 f"
    by (simp add: frame_ok_def kNanosPerSecond_def gap_frame_def sampleCountPerChannel_def)
  from process_all_step [OF app_sync_ok new_track_sync_inv f, of real_ops]
  obtain s outs where p: "process_all real_ops (new_track_sync real_ops (app_sync_config 1))
      [gap_frame 0, gap_frame 100000000] = Some (s, outs)" by blast
  from sync_accounts_for_every_sample [OF app_sync_ok _ f p] p show ?thesis
    by (auto simp: app_sync_config_def)
qed

section \<open>What the input's sequence numbers are for\<close>

lemma heal_sequence:
  "heal s (f\<lparr>fr_sequence := q\<rparr>)
    = map_option (\<lambda>(s1, out, f1). (s1, out, f1\<lparr>fr_sequence := q\<rparr>)) (heal s f)"
  by (simp add: heal_def Let_def split_beta insertSilence_def makeSilenceFrame_def
      split: Option.bind_splits)

text \<open>Input sequence numbers have no effect: frames that differ only in their sequence number are
  processed alike, so a hole in the numbering is not detected (only timestamps and the
  discontinuity flag are looked at).\<close>

theorem sync_ignores_input_sequence:
  "process fl s (f\<lparr>fr_sequence := q\<rparr>) = process fl s f"
proof -
  have u: "updateDrift fl t (g\<lparr>fr_sequence := p\<rparr>) = updateDrift fl t g" for t g p
    by (rule updateDrift_cong) simp
  have n: "sampleCountPerChannel (f\<lparr>fr_sequence := q\<rparr>) = sampleCountPerChannel f"
    by (simp add: sampleCountPerChannel_def)
  show ?thesis
    unfolding process_def Let_def heal_sequence n
    by (simp add: u split_beta bind_map_option comp_def split: Option.bind_splits)
qed

section \<open>Where the arithmetic ends\<close>

text \<open>C40: A stream that stays anchored for 9223372037 samples (about 53 hours at 48 kHz) makes the
  conversion of its position overflow the signed 64-bit product: the processing of the
  next frame, whatever it is, is undefined.\<close>

theorem sync_position_overflows:
  assumes "anchored s" and "9223372037 \<le> uint (samplesSinceAnchor s)"
    and "uint (samplesSinceAnchor s) < 2 ^ 63"
  shows "process fl s f = None"
proof -
  have "\<not> in_s64 (uint (samplesSinceAnchor s) * kNanosPerSecond)"
    using assms(2) by (simp add: in_s64_def kNanosPerSecond_def)
  then show ?thesis
    using assms by (simp add: process_def Let_def heal_def samplesToDuration_def sint_small s64_None)
qed

theorem sync_position_overflows_witness:
  "process real_ops ((new_track_sync real_ops (app_sync_config 1))
      \<lparr>anchored := True, samplesSinceAnchor := 9223372037\<rparr>) (gap_frame 0) = None"
  by (rule sync_position_overflows) simp_all

end
