(* ===== verification/Version.thy ===== *)
theory Version
  imports Prelude "HOL-Library.Char_ord" "HOL-Library.List_Lexorder" "HOL-Library.Product_Lexorder"
begin

text \<open>
  Semantic versions (\<open>core/include/voxmesh/core/version.hpp\<close>, \<open>core/src/version.cpp\<close>):
  parsing, printing and precedence. Text is a list of characters; \<open>std::to_string\<close>,
  \<open>std::from_chars\<close> and the searches of \<open>std::string_view\<close> are modelled for the uses the
  code makes of them.
\<close>

section \<open>The standard library's part\<close>

definition is_digit :: "char \<Rightarrow> bool" where
  "is_digit c \<longleftrightarrow> CHR ''0'' \<le> c \<and> c \<le> CHR ''9''"

definition digit_value :: "char \<Rightarrow> nat" where
  "digit_value c = of_char c - 48"

definition digit_char :: "nat \<Rightarrow> char" where
  "digit_char d = char_of (48 + d)"

fun to_string :: "nat \<Rightarrow> string" where
  "to_string n = (if n < 10 then [digit_char n] else to_string (n div 10) @ [digit_char (n mod 10)])"

declare to_string.simps [simp del]

text \<open>\<open>std::from_chars\<close> on an unsigned 32-bit value: the longest prefix of digits, or an error.\<close>

fun scan_digits :: "nat \<Rightarrow> string \<Rightarrow> nat \<times> string" where
  "scan_digits v [] = (v, [])"
| "scan_digits v (c # cs) = (if is_digit c then scan_digits (10 * v + digit_value c) cs else (v, c # cs))"

definition from_chars :: "string \<Rightarrow> (u32 \<times> string) option" where
  "from_chars text =
     (case text of
       [] \<Rightarrow> None
     | c # _ \<Rightarrow> if \<not> is_digit c then None
         else let (v, rest) = scan_digits 0 text
              in if 2 ^ 32 \<le> v then None else Some (of_nat v, rest))"

fun find_char :: "char \<Rightarrow> string \<Rightarrow> nat option" where
  "find_char c [] = None"
| "find_char c (x # xs) = (if x = c then Some 0 else map_option Suc (find_char c xs))"

definition rfind_char :: "char \<Rightarrow> string \<Rightarrow> nat option" where
  "rfind_char c s = map_option (\<lambda>i. length s - 1 - i) (find_char c (rev s))"

definition substr :: "string \<Rightarrow> nat \<Rightarrow> nat \<Rightarrow> string" where
  "substr s pos count = take count (drop pos s)"

section \<open>Parsing and printing\<close>

datatype semantic_version = SemanticVersion (major: u32) (minor: u32) (patch: u32) (prerelease: string)

definition parseNumeric :: "string \<Rightarrow> u32 option" where
  "parseNumeric text =
     (if text = [] \<or> 1 < length text \<and> hd text = CHR ''0'' then None
      else case from_chars text of
        None \<Rightarrow> None
      | Some (v, rest) \<Rightarrow> if rest \<noteq> [] then None else Some v)"

definition valid_prerelease_char :: "char \<Rightarrow> bool" where
  "valid_prerelease_char c \<longleftrightarrow> CHR ''0'' \<le> c \<and> c \<le> CHR ''9'' \<or> CHR ''a'' \<le> c \<and> c \<le> CHR ''z''
     \<or> CHR ''A'' \<le> c \<and> c \<le> CHR ''Z'' \<or> c = CHR ''-''"

fun prerelease_scan :: "bool \<Rightarrow> string \<Rightarrow> bool" where
  "prerelease_scan previousWasDot [] = True"
| "prerelease_scan previousWasDot (c # cs) =
     (if c = CHR ''.'' then (if previousWasDot then False else prerelease_scan True cs)
      else if \<not> valid_prerelease_char c then False else prerelease_scan False cs)"

definition isValidPrerelease :: "string \<Rightarrow> bool" where
  "isValidPrerelease text =
     (if text = [] \<or> hd text = CHR ''.'' \<or> last text = CHR ''.'' then False
      else prerelease_scan False text)"

definition parseTriple :: "string \<Rightarrow> string \<Rightarrow> semantic_version option" where
  "parseTriple numericPart prereleasePart =
     (case (find_char (CHR ''.'') numericPart, rfind_char (CHR ''.'') numericPart) of
       (Some firstDot, Some lastDot) \<Rightarrow>
         if firstDot = lastDot then None
         else do {
           ma \<leftarrow> parseNumeric (take firstDot numericPart);
           mi \<leftarrow> parseNumeric (substr numericPart (firstDot + 1) (lastDot - firstDot - 1));
           pa \<leftarrow> parseNumeric (drop (lastDot + 1) numericPart);
           Some (SemanticVersion ma mi pa prereleasePart) }
     | _ \<Rightarrow> None)"

definition parse :: "string \<Rightarrow> semantic_version option" where
  "parse text =
     (case find_char (CHR ''-'') text of
       None \<Rightarrow> parseTriple text []
     | Some dash \<Rightarrow>
         let prereleasePart = drop (dash + 1) text
         in if \<not> isValidPrerelease prereleasePart then None
            else parseTriple (take dash text) prereleasePart)"

definition toString :: "semantic_version \<Rightarrow> string" where
  "toString v = to_string (unat (major v)) @ ''.'' @ to_string (unat (minor v)) @ ''.''
     @ to_string (unat (patch v)) @ (if prerelease v \<noteq> [] then ''-'' @ prerelease v else [])"

definition projectVersion :: "string \<Rightarrow> semantic_version" where
  "projectVersion compiledVersion =
     (case parse compiledVersion of Some v \<Rightarrow> v | None \<Rightarrow> SemanticVersion 0 0 0 ''invalid'')"

section \<open>Precedence\<close>

datatype strong_ordering = Less | Equal | Greater

definition three_way :: "'a :: linorder \<Rightarrow> 'a \<Rightarrow> strong_ordering" where
  "three_way a b = (if a < b then Less else if a = b then Equal else Greater)"

definition compare_versions :: "semantic_version \<Rightarrow> semantic_version \<Rightarrow> strong_ordering" where
  "compare_versions a b =
     (if three_way (major a) (major b) \<noteq> Equal then three_way (major a) (major b)
      else if three_way (minor a) (minor b) \<noteq> Equal then three_way (minor a) (minor b)
      else if three_way (patch a) (patch b) \<noteq> Equal then three_way (patch a) (patch b)
      else if (prerelease a = []) \<noteq> (prerelease b = [])
        then (if prerelease a = [] then Greater else Less)
      else three_way (prerelease a) (prerelease b))"

section \<open>Decimal numbers\<close>

definition dec_value :: "string \<Rightarrow> nat" where
  "dec_value s = foldl (\<lambda>v c. 10 * v + digit_value c) 0 s"

lemma digit_char_digit:
  assumes "d < 10"
  shows "is_digit (digit_char d)" and "digit_value (digit_char d) = d"
    and "digit_char d = CHR ''0'' \<longleftrightarrow> d = 0"
proof -
  have "of_char (digit_char d) = 48 + d" using assms by (simp add: digit_char_def)
  then show "is_digit (digit_char d)" "digit_value (digit_char d) = d"
    "digit_char d = CHR ''0'' \<longleftrightarrow> d = 0"
    using assms by (auto simp: is_digit_def digit_value_def less_eq_char_def
        simp flip: of_char_eq_iff [where ?'a = nat])
qed

lemma is_digit_value:
  assumes "is_digit c"
  shows "digit_value c < 10" and "digit_char (digit_value c) = c"
    and "c \<noteq> CHR ''.''" and "c \<noteq> CHR ''-''"
proof -
  have "48 \<le> (of_char c :: nat)" "of_char c \<le> (57 :: nat)"
    using assms by (simp_all add: is_digit_def less_eq_char_def)
  then show "digit_value c < 10" "digit_char (digit_value c) = c" "c \<noteq> CHR ''.''" "c \<noteq> CHR ''-''"
    by (auto simp: digit_value_def digit_char_def)
qed

lemma dec_value_simps [simp]:
  "dec_value [] = 0" "dec_value (s @ [c]) = 10 * dec_value s + digit_value c"
  by (simp_all add: dec_value_def)

lemma dec_value_single: "dec_value [c] = digit_value c"
  by (simp add: dec_value_def)

lemma to_string_digits: "list_all is_digit (to_string n)"
  by (induction n rule: to_string.induct) (subst to_string.simps, simp add: digit_char_digit)

lemma to_string_nonempty [simp]: "to_string n \<noteq> []"
  by (subst to_string.simps) simp

lemma dec_value_to_string [simp]: "dec_value (to_string n) = n"
proof (induction n rule: to_string.induct)
  case (1 n)
  show ?case
  proof (cases "n < 10")
    case True
    then show ?thesis
      using dec_value_simps(2) [of "[]" "digit_char n"]
      by (subst to_string.simps) (simp add: digit_char_digit)
  next
    case False
    with 1 show ?thesis by (subst to_string.simps) (simp add: digit_char_digit)
  qed
qed

lemma hd_to_string: "hd (to_string n) = CHR ''0'' \<Longrightarrow> n = 0"
proof (induction n rule: to_string.induct)
  case (1 n)
  then show ?case
    by (subst (asm) (2) to_string.simps) (auto simp: digit_char_digit split: if_splits)
qed

lemma dec_value_pos: "list_all is_digit s \<Longrightarrow> s \<noteq> [] \<Longrightarrow> hd s \<noteq> CHR ''0'' \<Longrightarrow> 0 < dec_value s"
proof (induction s rule: rev_induct)
  case (snoc c s)
  have "digit_value c = 0 \<Longrightarrow> c = CHR ''0''"
    using snoc.prems(1) is_digit_value(2) [of c] digit_char_digit(3) [of 0] by simp
  with snoc show ?case by (cases "s = []") (auto simp: dec_value_single)
qed simp

lemma to_string_dec_value:
  "list_all is_digit s \<Longrightarrow> s \<noteq> [] \<Longrightarrow> \<not> (1 < length s \<and> hd s = CHR ''0'') \<Longrightarrow> to_string (dec_value s) = s"
proof (induction s rule: rev_induct)
  case (snoc c s)
  have c: "digit_value c < 10" "digit_char (digit_value c) = c"
    using snoc.prems(1) is_digit_value [of c] by simp_all
  show ?case
  proof (cases "s = []")
    case True
    with c show ?thesis
      using dec_value_simps(2) [of "[]" c] by (subst to_string.simps) simp
  next
    case False
    with snoc.prems have "0 < dec_value s" by (intro dec_value_pos) auto
    moreover have "to_string (dec_value s) = s"
      using snoc False by (cases s) auto
    ultimately show ?thesis using c by (subst to_string.simps) simp
  qed
qed simp

lemma scan_digits_all: "list_all is_digit s \<Longrightarrow> scan_digits v s = (foldl (\<lambda>v c. 10 * v + digit_value c) v s, [])"
  by (induction s arbitrary: v) simp_all

lemma scan_digits_rest: "snd (scan_digits v s) = [] \<Longrightarrow> list_all is_digit s"
  by (induction s arbitrary: v) (auto split: if_splits)

lemma parseNumeric_iff: "parseNumeric t = Some v \<longleftrightarrow> t = to_string (unat v)"
proof
  assume p: "parseNumeric t = Some v"
  then have t: "t \<noteq> []" "\<not> (1 < length t \<and> hd t = CHR ''0'')"
    by (auto simp: parseNumeric_def split: if_splits)
  from p t have s: "snd (scan_digits 0 t) = []"
    by (auto simp: parseNumeric_def from_chars_def Let_def split_beta
        split: if_splits option.splits list.splits prod.splits)
  then have d: "list_all is_digit t" by (rule scan_digits_rest)
  with p t have "dec_value t < 2 ^ 32 \<and> v = of_nat (dec_value t)"
    by (auto simp: parseNumeric_def from_chars_def scan_digits_all dec_value_def
        split: if_splits option.splits list.splits)
  then have "unat v = dec_value t" by (simp add: unat_of_nat)
  with to_string_dec_value [OF d t] show "t = to_string (unat v)" by simp
next
  assume t: "t = to_string (unat v)"
  have "t \<noteq> []" using t by simp
  then obtain a list where cons: "t = a # list" by (cases t) auto
  have d: "list_all is_digit t" unfolding t by (rule to_string_digits)
  have "dec_value t = unat v" using t by simp
  then have "scan_digits 0 t = (unat v, [])"
    using scan_digits_all [OF d, of 0] by (simp add: dec_value_def [symmetric])
  moreover have "unat v < 2 ^ 32" using unsigned_less [of v, where ?'a = nat] by simp
  moreover have "\<not> (1 < length t \<and> hd t = CHR ''0'')"
  proof
    assume "1 < length t \<and> hd t = CHR ''0''"
    then have "unat v = 0" "1 < length t" using hd_to_string [of "unat v"] t by simp_all
    then show False by (simp add: t to_string.simps [of 0])
  qed
  ultimately show "parseNumeric t = Some v"
    using d by (simp add: parseNumeric_def from_chars_def cons)
qed

section \<open>Searching\<close>

lemma find_char_append: "c \<notin> set xs \<Longrightarrow> find_char c (xs @ c # ys) = Some (length xs)"
  by (induction xs) auto

lemma find_char_None: "find_char c s = None \<longleftrightarrow> c \<notin> set s"
  by (induction s) auto

lemma find_char_Some:
  "find_char c s = Some i \<Longrightarrow> s = take i s @ c # drop (i + 1) s \<and> c \<notin> set (take i s) \<and> i < length s"
  by (induction s arbitrary: i) (auto split: if_splits)

lemma rfind_char_append: "c \<notin> set ys \<Longrightarrow> rfind_char c (xs @ c # ys) = Some (length xs)"
  by (simp add: rfind_char_def find_char_append)

lemma rfind_char_Some:
  assumes "rfind_char c s = Some i"
  shows "s = take i s @ c # drop (i + 1) s \<and> c \<notin> set (drop (i + 1) s) \<and> i < length s"
proof -
  from assms obtain j where j: "find_char c (rev s) = Some j" "i = length s - 1 - j"
    by (auto simp: rfind_char_def)
  note f = find_char_Some [OF j(1)]
  let ?a = "rev (take j (rev s))" and ?b = "rev (drop (j + 1) (rev s))"
  have s: "s = ?b @ c # ?a"
    using arg_cong [OF conjunct1 [OF f], of rev] by simp
  have l: "length ?b = i" using f j(2) by simp
  have "take i s = ?b" by (subst s) (simp add: l [symmetric])
  moreover have "drop (i + 1) s = ?a" by (subst s) (simp add: l [symmetric])
  ultimately show ?thesis using s f by (metis length_append l less_add_same_cancel1 list.size(4)
      set_rev zero_less_Suc add_Suc_right Suc_eq_plus1)
qed

section \<open>Parsing and printing are inverse\<close>

definition numeric_text :: "semantic_version \<Rightarrow> string" where
  "numeric_text v = to_string (unat (major v)) @ CHR ''.'' # to_string (unat (minor v)) @ CHR ''.''
     # to_string (unat (patch v))"

lemma no_dot_dash:
  "CHR ''.'' \<notin> set (to_string n)" "CHR ''-'' \<notin> set (to_string n)"
  using to_string_digits [of n] is_digit_value(3,4) by (auto simp: list_all_iff)

lemma parseTriple_numeric_text: "parseTriple (numeric_text v) (prerelease v) = Some v"
proof -
  let ?A = "to_string (unat (major v))" and ?B = "to_string (unat (minor v))"
    and ?C = "to_string (unat (patch v))"
  have "rfind_char (CHR ''.'') ((?A @ CHR ''.'' # ?B) @ CHR ''.'' # ?C) = Some (length (?A @ CHR ''.'' # ?B))"
    by (rule rfind_char_append) (rule no_dot_dash)
  then show ?thesis
    by (simp add: parseTriple_def numeric_text_def find_char_append no_dot_dash parseNumeric_iff
        substr_def iffD2 [OF parseNumeric_iff])
qed

lemma parseTriple_Some:
  assumes "parseTriple n p = Some v"
  shows "n = numeric_text v" and "prerelease v = p"
proof -
  from assms obtain i j where i: "find_char (CHR ''.'') n = Some i" and j: "rfind_char (CHR ''.'') n = Some j"
    and ne: "i \<noteq> j"
    by (auto simp: parseTriple_def split: option.splits if_splits)
  from assms i j ne have v: "take i n = to_string (unat (major v))"
    "substr n (i + 1) (j - i - 1) = to_string (unat (minor v))"
    "drop (j + 1) n = to_string (unat (patch v))" "prerelease v = p"
    by (auto simp: parseTriple_def bind_eq_Some_conv parseNumeric_iff)
  note fi = find_char_Some [OF i] and rj = rfind_char_Some [OF j]
  have "n ! i = CHR ''.''" using fi by (metis length_take min.strict_order_iff min.commute nth_append_length)
  then have "i \<le> j" using rj fi
    by (metis (no_types, lifting) Suc_eq_plus1 in_set_conv_nth le_add_diff_inverse length_drop
        not_less_eq_eq nth_drop add_less_cancel_left less_or_eq_imp_le linorder_not_less)
  with ne have "i < j" by simp
  then have "take j n = take (i + 1 + (j - i - 1)) n" by simp
  also have "\<dots> = take (i + 1) n @ substr n (i + 1) (j - i - 1)"
    by (simp only: take_add substr_def)
  also have "take (i + 1) n = take i n @ [CHR ''.'']"
    using fi \<open>n ! i = _\<close> by (simp add: take_Suc_conv_app_nth)
  finally have "take j n = take i n @ CHR ''.'' # substr n (i + 1) (j - i - 1)" by simp
  with rj v show "n = numeric_text v" unfolding numeric_text_def by simp
  show "prerelease v = p" by (rule v)
qed

lemma no_dash_numeric: "CHR ''-'' \<notin> set (numeric_text v)"
  by (simp add: numeric_text_def no_dot_dash)

text \<open>C37: Parsing and printing are inverse: a text parses to a version exactly when it is the text the
  version prints and its prerelease part, if there is one, is well-formed. So every
  accepted text is canonical (no leading zeros, no overflowing component), and every
  well-formed version survives printing and parsing.\<close>

theorem version_parse_iff_prints:
  "parse t = Some v \<longleftrightarrow> toString v = t \<and> (prerelease v = [] \<or> isValidPrerelease (prerelease v))"
proof -
  have s: "toString v = numeric_text v @ (if prerelease v \<noteq> [] then CHR ''-'' # prerelease v else [])"
    by (simp add: toString_def numeric_text_def)
  show ?thesis
  proof (cases "find_char (CHR ''-'') t")
    case None
    then have d: "CHR ''-'' \<notin> set t" by (simp add: find_char_None)
    with None show ?thesis
      using parseTriple_numeric_text [of v] parseTriple_Some [of t "[]" v]
      by (auto simp: parse_def s)
  next
    case (Some i)
    note f = find_char_Some [OF Some]
    let ?p = "drop (i + 1) t"
    have "?p \<noteq> []" if "isValidPrerelease ?p" using that by (auto simp: isValidPrerelease_def)
    with Some f have 1: "parse t = Some v \<Longrightarrow> toString v = t \<and> isValidPrerelease (prerelease v)"
      using parseTriple_Some [of "take i t" ?p v] by (auto simp: parse_def s Let_def split: if_splits)
    have 2: "parse t = Some v" if t: "toString v = t" and p: "prerelease v = [] \<or> isValidPrerelease (prerelease v)"
    proof -
      have "prerelease v \<noteq> []"
      proof
        assume "prerelease v = []"
        then have "CHR ''-'' \<notin> set t" using t no_dash_numeric [of v] by (simp add: s)
        with Some show False by (simp add: find_char_None [symmetric])
      qed
      then have e: "t = numeric_text v @ CHR ''-'' # prerelease v" using t by (simp add: s)
      with p \<open>prerelease v \<noteq> []\<close> show ?thesis
        by (simp add: parse_def find_char_append no_dash_numeric parseTriple_numeric_text)
    qed
    from 1 2 show ?thesis by blast
  qed
qed

section \<open>Prerelease identifiers\<close>

fun split_dots :: "string \<Rightarrow> string list" where
  "split_dots [] = [[]]"
| "split_dots (c # cs) = (if c = CHR ''.'' then [] # split_dots cs
     else (c # hd (split_dots cs)) # tl (split_dots cs))"

lemma split_dots_nonempty [simp]: "split_dots s \<noteq> []"
  by (cases s) auto

lemma prerelease_scan_split:
  "prerelease_scan b s \<and> (s = [] \<or> last s \<noteq> CHR ''.'') \<longleftrightarrow>
     list_all valid_prerelease_char (hd (split_dots s)) \<and> (b \<and> s \<noteq> [] \<longrightarrow> hd (split_dots s) \<noteq> [])
     \<and> (\<forall>w \<in> set (tl (split_dots s)). w \<noteq> [] \<and> list_all valid_prerelease_char w)"
proof (induction s arbitrary: b)
  case (Cons c cs)
  show ?case
  proof (cases "c = CHR ''.''")
    case True
    obtain w ws where "split_dots cs = w # ws" by (cases "split_dots cs") auto
    with True Cons [of True] show ?thesis by (cases cs) (simp, simp, blast)
  next
    case False
    with Cons [of False] show ?thesis by (cases cs) auto
  qed
qed simp

text \<open>The prerelease check, a scan with one flag, accepts exactly the dot-separated sequences of
  non-empty identifiers over digits, letters and hyphens.\<close>

theorem prerelease_check_is_identifiers:
  "isValidPrerelease s \<longleftrightarrow>
     list_all (\<lambda>w. w \<noteq> [] \<and> list_all valid_prerelease_char w) (split_dots s)"
proof (cases s)
  case Nil
  then show ?thesis by (simp add: isValidPrerelease_def)
next
  case (Cons c cs)
  then show ?thesis
    using prerelease_scan_split [of False s]
    by (cases "split_dots s") (auto simp: isValidPrerelease_def list_all_iff split: if_splits)
qed

section \<open>The order\<close>

definition version_key :: "semantic_version \<Rightarrow> u32 \<times> u32 \<times> u32 \<times> bool \<times> string" where
  "version_key v = (major v, minor v, patch v, prerelease v = [], prerelease v)"

lemma version_key_inj: "version_key a = version_key b \<Longrightarrow> a = b"
  by (cases a; cases b) (simp add: version_key_def)

lemma compare_versions_key: "compare_versions a b = three_way (version_key a) (version_key b)"
  by (cases a; cases b) (auto simp: compare_versions_def version_key_def three_way_def less_bool_def)

instantiation semantic_version :: linorder
begin

definition less_eq_semantic_version :: "semantic_version \<Rightarrow> semantic_version \<Rightarrow> bool" where
  "less_eq_semantic_version a b \<longleftrightarrow> compare_versions a b \<noteq> Greater"

definition less_semantic_version :: "semantic_version \<Rightarrow> semantic_version \<Rightarrow> bool" where
  "less_semantic_version a b \<longleftrightarrow> compare_versions a b = Less"

instance
  by standard (auto simp: less_eq_semantic_version_def less_semantic_version_def compare_versions_key
      three_way_def split: if_splits intro: version_key_inj)

end

text \<open>The three-way comparison is a total order: it compares major, minor and patch as unsigned
  numbers, then ranks a release above every prerelease, then compares prereleases by
  unsigned characters; it answers Equal exactly on equal versions and swapping the
  arguments reverses the answer.\<close>

theorem version_comparison_is_total_order:
  "compare_versions a b = three_way (version_key a) (version_key b)
   \<and> (compare_versions a b = Equal \<longleftrightarrow> a = b)
   \<and> (compare_versions a b = Less \<longleftrightarrow> compare_versions b a = Greater)
   \<and> (a \<le> b \<longleftrightarrow> compare_versions a b \<noteq> Greater)"
  by (auto simp: compare_versions_key three_way_def less_eq_semantic_version_def intro: version_key_inj)

end
