(* ===== verification/Config.thy ===== *)
theory Config
  imports AudioTypes
begin

text \<open>
  The recorder configuration (\<open>audio-core/include/voxmesh/audio/config.hpp\<close>,
  \<open>audio-core/src/config.cpp\<close>). The JSON library is a parameter: a record of the operations
  the code calls on a \<open>json\<close> value. \<open>Validator\<close> is its error string, empty while nothing
  failed.
\<close>

record 'j json_ops =
  j_parse :: "string \<Rightarrow> 'j option" \<comment> \<open>\<open>None\<close>: discarded\<close>
  j_is_object :: "'j \<Rightarrow> bool"
  j_contains :: "'j \<Rightarrow> string \<Rightarrow> bool"
  j_at :: "'j \<Rightarrow> string \<Rightarrow> 'j"
  j_is_number_unsigned :: "'j \<Rightarrow> bool"
  j_get_u64 :: "'j \<Rightarrow> u64"
  j_is_string :: "'j \<Rightarrow> bool"
  j_get_string :: "'j \<Rightarrow> string"

record recorder_config =
  archivalMicrophone :: track_format
  archivalSystemOutput :: track_format
  sttStream :: track_format
  sttFrameDuration :: int
  captureFrameDuration :: int
  ringBufferCapacityFrames :: u64

type_synonym config_parse_result = "recorder_config option \<times> string"

definition default_config :: recorder_config where
  "default_config = \<lparr>
     archivalMicrophone = \<lparr>tf_sampleRate = 48000, tf_channels = 1, tf_format = Float32Le\<rparr>,
     archivalSystemOutput = \<lparr>tf_sampleRate = 48000, tf_channels = 2, tf_format = Float32Le\<rparr>,
     sttStream = \<lparr>tf_sampleRate = 16000, tf_channels = 1, tf_format = PcmS16Le\<rparr>,
     sttFrameDuration = 100, captureFrameDuration = 10, ringBufferCapacityFrames = 512\<rparr>"

section \<open>Validation\<close>

type_synonym validator = string

definition ok :: "validator \<Rightarrow> bool" where
  "ok v \<longleftrightarrow> v = []"

definition fail :: "string \<Rightarrow> validator \<Rightarrow> validator" where
  "fail message v = (if v = [] then message else v)"

definition parseFormat :: "string \<Rightarrow> sample_format option" where
  "parseFormat text = (if text = ''pcm_s16le'' then Some PcmS16Le
     else if text = ''float32le'' then Some Float32Le else None)"

text \<open>The three blocks of \<open>readTrackFormat\<close>: an early return is \<open>Inl\<close> of its message.\<close>

definition readSampleRate :: "'j json_ops \<Rightarrow> 'j \<Rightarrow> string \<Rightarrow> track_format \<Rightarrow> string + track_format" where
  "readSampleRate J node name out =
     (if j_contains J node ''sample_rate_hz'' then
        (let rate = j_at J node ''sample_rate_hz'' in
         if \<not> j_is_number_unsigned J rate \<or> j_get_u64 J rate < 4000 \<or> 384000 < j_get_u64 J rate
         then Inl (name @ ''.sample_rate_hz must be an integer in [4000, 384000]'')
         else Inr (out\<lparr>tf_sampleRate := ucast (j_get_u64 J rate)\<rparr>))
      else Inr out)"

definition readChannels :: "'j json_ops \<Rightarrow> 'j \<Rightarrow> string \<Rightarrow> track_format \<Rightarrow> string + track_format" where
  "readChannels J node name out =
     (if j_contains J node ''channels'' then
        (let channels = j_at J node ''channels'' in
         if \<not> j_is_number_unsigned J channels \<or> j_get_u64 J channels < 1 \<or> 8 < j_get_u64 J channels
         then Inl (name @ ''.channels must be an integer in [1, 8]'')
         else Inr (out\<lparr>tf_channels := ucast (j_get_u64 J channels)\<rparr>))
      else Inr out)"

definition readFormat :: "'j json_ops \<Rightarrow> 'j \<Rightarrow> string \<Rightarrow> track_format \<Rightarrow> string + track_format" where
  "readFormat J node name out =
     (if j_contains J node ''format'' then
        (let format = j_at J node ''format'' in
         if \<not> j_is_string J format then Inl (name @ ''.format must be a string'')
         else case parseFormat (j_get_string J format) of
             None \<Rightarrow> Inl (name @ ''.format must be \"pcm_s16le\" or \"float32le\"'')
           | Some parsed \<Rightarrow> Inr (out\<lparr>tf_format := parsed\<rparr>))
      else Inr out)"

definition readTrackFormat :: "'j json_ops \<Rightarrow> 'j \<Rightarrow> string \<Rightarrow> track_format \<Rightarrow> validator
    \<Rightarrow> track_format \<times> validator" where
  "readTrackFormat J node name out v =
     (if \<not> j_is_object J node then (out, fail (name @ '' must be an object'') v)
      else case readSampleRate J node name out of Inl e \<Rightarrow> (out, fail e v) | Inr out1 \<Rightarrow>
        (case readChannels J node name out1 of Inl e \<Rightarrow> (out1, fail e v) | Inr out2 \<Rightarrow>
          (case readFormat J node name out2 of Inl e \<Rightarrow> (out2, fail e v) | Inr out3 \<Rightarrow> (out3, v))))"

definition readDurationMs :: "'j json_ops \<Rightarrow> 'j \<Rightarrow> string \<Rightarrow> string \<Rightarrow> int \<Rightarrow> validator
    \<Rightarrow> int \<times> validator" where
  "readDurationMs J node key name out v =
     (if \<not> j_contains J node key then (out, v)
      else let val = j_at J node key in
        if \<not> j_is_number_unsigned J val \<or> j_get_u64 J val < 1 \<or> 1000 < j_get_u64 J val
        then (out, fail (name @ '' must be an integer in [1, 1000]'') v)
        else (uint (j_get_u64 J val), v))"

section \<open>The document\<close>

text \<open>The three blocks of \<open>parseRecorderConfig\<close>, each with the configuration and validator so far.\<close>

definition readArchival :: "'j json_ops \<Rightarrow> 'j \<Rightarrow> recorder_config \<times> validator
    \<Rightarrow> recorder_config \<times> validator" where
  "readArchival J root = (\<lambda>(config, v).
     if j_contains J root ''archival'' then
       (let archival = j_at J root ''archival'' in
        if \<not> j_is_object J archival then (config, fail ''archival must be an object'' v)
        else
          let (config, v) = (if j_contains J archival ''microphone'' then
                (let (out, v) = readTrackFormat J (j_at J archival ''microphone'')
                       ''archival.microphone'' (archivalMicrophone config) v
                 in (config\<lparr>archivalMicrophone := out\<rparr>, v)) else (config, v)) in
          if j_contains J archival ''system_output'' then
            (let (out, v) = readTrackFormat J (j_at J archival ''system_output'')
                   ''archival.system_output'' (archivalSystemOutput config) v
             in (config\<lparr>archivalSystemOutput := out\<rparr>, v))
          else (config, v))
     else (config, v))"

definition readStt :: "'j json_ops \<Rightarrow> 'j \<Rightarrow> recorder_config \<times> validator
    \<Rightarrow> recorder_config \<times> validator" where
  "readStt J root = (\<lambda>(config, v).
     if ok v \<and> j_contains J root ''stt'' then
       (let stt = j_at J root ''stt'';
            (out, v) = readTrackFormat J stt ''stt'' (sttStream config) v;
            config = config\<lparr>sttStream := out\<rparr>
        in if ok v then
             (let (d, v) = readDurationMs J stt ''frame_duration_ms'' ''stt.frame_duration_ms''
                    (sttFrameDuration config) v
              in (config\<lparr>sttFrameDuration := d\<rparr>, v))
           else (config, v))
     else (config, v))"

definition readCapture :: "'j json_ops \<Rightarrow> 'j \<Rightarrow> recorder_config \<times> validator
    \<Rightarrow> recorder_config \<times> validator" where
  "readCapture J root = (\<lambda>(config, v).
     if ok v \<and> j_contains J root ''capture'' then
       (let capture = j_at J root ''capture'' in
        if \<not> j_is_object J capture then (config, fail ''capture must be an object'' v)
        else
          let (d, v) = readDurationMs J capture ''frame_duration_ms'' ''capture.frame_duration_ms''
                (captureFrameDuration config) v;
              config = config\<lparr>captureFrameDuration := d\<rparr> in
          if ok v \<and> j_contains J capture ''ring_buffer_capacity_frames'' then
            (let capac = j_at J capture ''ring_buffer_capacity_frames'' in
             if \<not> j_is_number_unsigned J capac \<or> j_get_u64 J capac < 1 \<or> 65536 < j_get_u64 J capac
             then (config, fail ''capture.ring_buffer_capacity_frames must be an integer in [1, 65536]'' v)
             else (config\<lparr>ringBufferCapacityFrames := j_get_u64 J capac\<rparr>, v))
          else (config, v))
     else (config, v))"

definition parseRecorderConfig :: "'j json_ops \<Rightarrow> string \<Rightarrow> config_parse_result" where
  "parseRecorderConfig J json_text =
     (case j_parse J json_text of
       None \<Rightarrow> (None, ''invalid JSON'')
     | Some root \<Rightarrow>
         if \<not> j_is_object J root then (None, ''top-level JSON value must be an object'')
         else let (config, v) = readCapture J root (readStt J root (readArchival J root (default_config, [])))
              in if \<not> ok v then (None, v) else (Some config, []))"

definition loadRecorderConfig :: "'j json_ops \<Rightarrow> (string \<Rightarrow> string option) \<Rightarrow> string \<Rightarrow> config_parse_result" where
  "loadRecorderConfig J readFile file =
     (case readFile file of
       None \<Rightarrow> (None, ''cannot open config file: '' @ file)
     | Some contents \<Rightarrow> parseRecorderConfig J contents)"

section \<open>What a document says\<close>

text \<open>The declarative reading of a document: which documents are valid, and what they set.\<close>

definition number_in :: "'j json_ops \<Rightarrow> 'j \<Rightarrow> string \<Rightarrow> u64 \<Rightarrow> u64 \<Rightarrow> bool" where
  "number_in J node key lo hi \<longleftrightarrow> (j_contains J node key \<longrightarrow>
     j_is_number_unsigned J (j_at J node key)
     \<and> lo \<le> j_get_u64 J (j_at J node key) \<and> j_get_u64 J (j_at J node key) \<le> hi)"

definition value_or :: "'j json_ops \<Rightarrow> 'j \<Rightarrow> string \<Rightarrow> ('j \<Rightarrow> 'a) \<Rightarrow> 'a \<Rightarrow> 'a" where
  "value_or J node key get d = (if j_contains J node key then get (j_at J node key) else d)"

definition format_valid :: "'j json_ops \<Rightarrow> 'j \<Rightarrow> bool" where
  "format_valid J node \<longleftrightarrow> (j_contains J node ''format'' \<longrightarrow> j_is_string J (j_at J node ''format'')
     \<and> parseFormat (j_get_string J (j_at J node ''format'')) \<noteq> None)"

definition track_valid :: "'j json_ops \<Rightarrow> 'j \<Rightarrow> bool" where
  "track_valid J node \<longleftrightarrow> j_is_object J node \<and> number_in J node ''sample_rate_hz'' 4000 384000
     \<and> number_in J node ''channels'' 1 8 \<and> format_valid J node"

definition track_value :: "'j json_ops \<Rightarrow> track_format \<Rightarrow> 'j \<Rightarrow> track_format" where
  "track_value J d node = \<lparr>
     tf_sampleRate = value_or J node ''sample_rate_hz'' (\<lambda>j. ucast (j_get_u64 J j)) (tf_sampleRate d),
     tf_channels = value_or J node ''channels'' (\<lambda>j. ucast (j_get_u64 J j)) (tf_channels d),
     tf_format = value_or J node ''format'' (\<lambda>j. the (parseFormat (j_get_string J j))) (tf_format d)\<rparr>"

definition document_valid :: "'j json_ops \<Rightarrow> 'j \<Rightarrow> bool" where
  "document_valid J root \<longleftrightarrow>
     value_or J root ''archival'' (\<lambda>a. j_is_object J a
       \<and> value_or J a ''microphone'' (track_valid J) True
       \<and> value_or J a ''system_output'' (track_valid J) True) True
   \<and> value_or J root ''stt'' (\<lambda>s. track_valid J s \<and> number_in J s ''frame_duration_ms'' 1 1000) True
   \<and> value_or J root ''capture'' (\<lambda>c. j_is_object J c \<and> number_in J c ''frame_duration_ms'' 1 1000
       \<and> number_in J c ''ring_buffer_capacity_frames'' 1 65536) True"

definition document_value :: "'j json_ops \<Rightarrow> 'j \<Rightarrow> recorder_config" where
  "document_value J root =
     (let D = default_config; ms = (\<lambda>j. uint (j_get_u64 J j)) in \<lparr>
       archivalMicrophone = value_or J root ''archival'' (\<lambda>a. value_or J a ''microphone''
         (track_value J (archivalMicrophone D)) (archivalMicrophone D)) (archivalMicrophone D),
       archivalSystemOutput = value_or J root ''archival'' (\<lambda>a. value_or J a ''system_output''
         (track_value J (archivalSystemOutput D)) (archivalSystemOutput D)) (archivalSystemOutput D),
       sttStream = value_or J root ''stt'' (track_value J (sttStream D)) (sttStream D),
       sttFrameDuration = value_or J root ''stt'' (\<lambda>s. value_or J s ''frame_duration_ms'' ms
         (sttFrameDuration D)) (sttFrameDuration D),
       captureFrameDuration = value_or J root ''capture'' (\<lambda>c. value_or J c ''frame_duration_ms'' ms
         (captureFrameDuration D)) (captureFrameDuration D),
       ringBufferCapacityFrames = value_or J root ''capture'' (\<lambda>c. value_or J c
         ''ring_buffer_capacity_frames'' (j_get_u64 J) (ringBufferCapacityFrames D))
         (ringBufferCapacityFrames D)\<rparr>)"

section \<open>The operations against the reading\<close>

lemma fail_eq [simp]: "fail m v = [] \<longleftrightarrow> m = [] \<and> v = []" "v \<noteq> [] \<Longrightarrow> fail m v = v" "fail m [] = m"
  by (simp_all add: fail_def)

definition track_messages :: "string \<Rightarrow> string list" where
  "track_messages name = map ((@) name) ['' must be an object'',
     ''.sample_rate_hz must be an integer in [4000, 384000]'', ''.channels must be an integer in [1, 8]'',
     ''.format must be a string'', ''.format must be \"pcm_s16le\" or \"float32le\"'']"

lemma readSampleRate_eq:
  "number_in J node ''sample_rate_hz'' 4000 384000 \<Longrightarrow> readSampleRate J node name out = Inr (out\<lparr>tf_sampleRate :=
     value_or J node ''sample_rate_hz'' (\<lambda>j. ucast (j_get_u64 J j)) (tf_sampleRate out)\<rparr>)"
  "\<not> number_in J node ''sample_rate_hz'' 4000 384000 \<Longrightarrow> readSampleRate J node name out
     = Inl (name @ ''.sample_rate_hz must be an integer in [4000, 384000]'')"
  by (auto simp: readSampleRate_def number_in_def value_or_def not_le Let_def)

lemma readChannels_eq:
  "number_in J node ''channels'' 1 8 \<Longrightarrow> readChannels J node name out = Inr (out\<lparr>tf_channels :=
     value_or J node ''channels'' (\<lambda>j. ucast (j_get_u64 J j)) (tf_channels out)\<rparr>)"
  "\<not> number_in J node ''channels'' 1 8 \<Longrightarrow> readChannels J node name out
     = Inl (name @ ''.channels must be an integer in [1, 8]'')"
  by (auto simp: readChannels_def number_in_def value_or_def not_le Let_def)

lemma readFormat_eq:
  "format_valid J node \<Longrightarrow> readFormat J node name out = Inr (out\<lparr>tf_format :=
     value_or J node ''format'' (\<lambda>j. the (parseFormat (j_get_string J j))) (tf_format out)\<rparr>)"
  "\<not> format_valid J node \<Longrightarrow> \<exists>m \<in> set (track_messages name). readFormat J node name out = Inl m"
  by (auto simp: readFormat_def format_valid_def value_or_def Let_def track_messages_def split: option.splits)

lemma readTrackFormat_value:
  "track_valid J node \<Longrightarrow> readTrackFormat J node name out v = (track_value J out node, v)"
  by (simp add: readTrackFormat_def track_valid_def readSampleRate_eq
      readChannels_eq readFormat_eq track_value_def)

lemma readTrackFormat_message:
  assumes "\<not> track_valid J node"
  shows "\<exists>m \<in> set (track_messages name). snd (readTrackFormat J node name out v) = fail m v"
proof -
  have m: "name @ '' must be an object'' \<in> set (track_messages name)"
    "name @ ''.sample_rate_hz must be an integer in [4000, 384000]'' \<in> set (track_messages name)"
    "name @ ''.channels must be an integer in [1, 8]'' \<in> set (track_messages name)"
    by (simp_all add: track_messages_def)
  consider "\<not> j_is_object J node"
    | "j_is_object J node" "\<not> number_in J node ''sample_rate_hz'' 4000 384000"
    | "j_is_object J node" "number_in J node ''sample_rate_hz'' 4000 384000"
        "\<not> number_in J node ''channels'' 1 8"
    | "j_is_object J node" "number_in J node ''sample_rate_hz'' 4000 384000"
        "number_in J node ''channels'' 1 8" "\<not> format_valid J node"
    using assms unfolding track_valid_def by blast
  then show ?thesis
  proof cases
    case 1
    then show ?thesis by (intro bexI [OF _ m(1)]) (simp add: readTrackFormat_def)
  next
    case 2
    then show ?thesis by (intro bexI [OF _ m(2)]) (simp add: readTrackFormat_def readSampleRate_eq)
  next
    case 3
    then show ?thesis
      by (intro bexI [OF _ m(3)]) (simp add: readTrackFormat_def readSampleRate_eq readChannels_eq)
  next
    case 4
    let ?out = "out\<lparr>tf_sampleRate := value_or J node ''sample_rate_hz'' (\<lambda>j. ucast (j_get_u64 J j)) (tf_sampleRate out),
      tf_channels := value_or J node ''channels'' (\<lambda>j. ucast (j_get_u64 J j)) (tf_channels out)\<rparr>"
    from readFormat_eq(2) [OF 4(4), of name ?out] obtain e where
      "e \<in> set (track_messages name)" "readFormat J node name ?out = Inl e" by blast
    with 4 show ?thesis
      by (simp add: readTrackFormat_def readSampleRate_eq readChannels_eq bexI [of _ e])
  qed
qed

lemma readTrackFormat_valid:
  "snd (readTrackFormat J node name out v) = [] \<longleftrightarrow> v = [] \<and> track_valid J node"
  using readTrackFormat_message [of J node name out v] readTrackFormat_value [of J node name out v]
  by (cases "track_valid J node") (auto simp: track_messages_def)

lemma readDurationMs_valid:
  "snd (readDurationMs J node key name out v) = [] \<longleftrightarrow> v = [] \<and> number_in J node key 1 1000"
  by (auto simp: readDurationMs_def Let_def number_in_def not_less)

lemma readDurationMs_value:
  "number_in J node key 1 1000 \<Longrightarrow>
   readDurationMs J node key name out v = (value_or J node key (\<lambda>j. uint (j_get_u64 J j)) out, v)"
  by (auto simp: readDurationMs_def Let_def number_in_def not_less value_or_def)

definition archival_valid :: "'j json_ops \<Rightarrow> 'j \<Rightarrow> bool" where
  "archival_valid J a \<longleftrightarrow> j_is_object J a \<and> value_or J a ''microphone'' (track_valid J) True
     \<and> value_or J a ''system_output'' (track_valid J) True"

definition capture_valid :: "'j json_ops \<Rightarrow> 'j \<Rightarrow> bool" where
  "capture_valid J c \<longleftrightarrow> j_is_object J c \<and> number_in J c ''frame_duration_ms'' 1 1000
     \<and> number_in J c ''ring_buffer_capacity_frames'' 1 65536"

lemma readArchival_valid:
  "snd (readArchival J root (c, v)) = [] \<longleftrightarrow> v = [] \<and> value_or J root ''archival'' (archival_valid J) True"
  by (auto simp: readTrackFormat_valid readArchival_def Let_def split_beta value_or_def archival_valid_def)

lemma readArchival_value:
  assumes "value_or J root ''archival'' (archival_valid J) True"
  shows "readArchival J root (c, v) = (c\<lparr>
     archivalMicrophone := value_or J root ''archival'' (\<lambda>a. value_or J a ''microphone''
         (track_value J (archivalMicrophone c)) (archivalMicrophone c)) (archivalMicrophone c),
     archivalSystemOutput := value_or J root ''archival'' (\<lambda>a. value_or J a ''system_output''
         (track_value J (archivalSystemOutput c)) (archivalSystemOutput c)) (archivalSystemOutput c)\<rparr>, v)"
  using assms
  by (auto simp: readArchival_def Let_def value_or_def archival_valid_def readTrackFormat_value
      split: if_splits)

lemma readStt_valid:
  "snd (readStt J root (c, v)) = [] \<longleftrightarrow> v = []
     \<and> value_or J root ''stt'' (\<lambda>s. track_valid J s \<and> number_in J s ''frame_duration_ms'' 1 1000) True"
  by (auto simp: readTrackFormat_valid readDurationMs_valid readStt_def Let_def split_beta value_or_def ok_def)

lemma readStt_value:
  assumes "value_or J root ''stt'' (\<lambda>s. track_valid J s \<and> number_in J s ''frame_duration_ms'' 1 1000) True"
  shows "readStt J root (c, []) = (c\<lparr>
     sttStream := value_or J root ''stt'' (track_value J (sttStream c)) (sttStream c),
     sttFrameDuration := value_or J root ''stt'' (\<lambda>s. value_or J s ''frame_duration_ms''
         (\<lambda>j. uint (j_get_u64 J j)) (sttFrameDuration c)) (sttFrameDuration c)\<rparr>, [])"
  using assms
  by (auto simp: readStt_def Let_def value_or_def ok_def readTrackFormat_value readDurationMs_value
      split: if_splits)

lemma readCapture_valid:
  "snd (readCapture J root (c, v)) = [] \<longleftrightarrow> v = []
     \<and> value_or J root ''capture'' (capture_valid J) True"
  by (auto simp: readDurationMs_valid readCapture_def Let_def split_beta value_or_def ok_def capture_valid_def
      number_in_def not_less)

lemma readCapture_value:
  assumes "value_or J root ''capture'' (capture_valid J) True"
  shows "readCapture J root (c, []) = (c\<lparr>
     captureFrameDuration := value_or J root ''capture'' (\<lambda>n. value_or J n ''frame_duration_ms''
         (\<lambda>j. uint (j_get_u64 J j)) (captureFrameDuration c)) (captureFrameDuration c),
     ringBufferCapacityFrames := value_or J root ''capture'' (\<lambda>n. value_or J n
         ''ring_buffer_capacity_frames'' (j_get_u64 J) (ringBufferCapacityFrames c))
         (ringBufferCapacityFrames c)\<rparr>, [])"
  using assms
  by (auto simp: readCapture_def Let_def value_or_def ok_def capture_valid_def readDurationMs_value
      number_in_def not_less split: if_splits)

lemma document_valid_eq:
  "document_valid J root \<longleftrightarrow>
     value_or J root ''archival'' (archival_valid J) True
   \<and> value_or J root ''stt'' (\<lambda>s. track_valid J s \<and> number_in J s ''frame_duration_ms'' 1 1000) True
   \<and> value_or J root ''capture'' (capture_valid J) True"
  by (simp add: document_valid_def archival_valid_def [abs_def] capture_valid_def [abs_def])

lemma read_valid:
  "snd (readCapture J root (readStt J root (readArchival J root (default_config, [])))) = []
     \<longleftrightarrow> document_valid J root"
proof -
  obtain c v where a: "readArchival J root (default_config, []) = (c, v)" by fastforce
  obtain c' v' where s: "readStt J root (c, v) = (c', v')" by fastforce
  show ?thesis
    unfolding a s readCapture_valid document_valid_eq
    using readArchival_valid [of J root default_config "[]", unfolded a snd_conv]
      readStt_valid [of J root c v, unfolded s snd_conv]
    by auto
qed

lemma read_value:
  "document_valid J root \<Longrightarrow>
   readCapture J root (readStt J root (readArchival J root (default_config, []))) = (document_value J root, [])"
  by (simp add: document_valid_eq readArchival_value readStt_value readCapture_value
      document_value_def default_config_def Let_def)

text \<open>C27: The parser reads exactly what the document says: a text parses to a configuration if and only
  if it is a JSON object whose present keys are all valid, and then every field is the
  value of its key or, where the key is missing, the default; otherwise there is no
  configuration and the reason is not empty.\<close>

theorem config_is_what_the_document_says:
  "parseRecorderConfig J text =
     (case j_parse J text of
       Some root \<Rightarrow> if j_is_object J root \<and> document_valid J root
         then (Some (document_value J root), []) else (None, snd (parseRecorderConfig J text))
     | None \<Rightarrow> (None, ''invalid JSON''))
   \<and> (fst (parseRecorderConfig J text) = None \<longleftrightarrow> snd (parseRecorderConfig J text) \<noteq> [])"
proof (cases "j_parse J text")
  case None
  then show ?thesis by (simp add: parseRecorderConfig_def)
next
  case (Some root)
  show ?thesis
  proof (cases "j_is_object J root \<and> document_valid J root")
    case True
    with Some show ?thesis by (simp add: parseRecorderConfig_def read_value ok_def)
  next
    case False
    with Some read_valid [of J root] show ?thesis
      by (auto simp: parseRecorderConfig_def ok_def split_beta)
  qed
qed

section \<open>Ranges and messages\<close>

definition format_in_range :: "track_format \<Rightarrow> bool" where
  "format_in_range f \<longleftrightarrow> 4000 \<le> tf_sampleRate f \<and> tf_sampleRate f \<le> 384000
     \<and> 1 \<le> tf_channels f \<and> tf_channels f \<le> 8"

definition config_in_range :: "recorder_config \<Rightarrow> bool" where
  "config_in_range c \<longleftrightarrow> format_in_range (archivalMicrophone c)
     \<and> format_in_range (archivalSystemOutput c) \<and> format_in_range (sttStream c)
     \<and> 1 \<le> sttFrameDuration c \<and> sttFrameDuration c \<le> 1000
     \<and> 1 \<le> captureFrameDuration c \<and> captureFrameDuration c \<le> 1000
     \<and> 1 \<le> ringBufferCapacityFrames c \<and> ringBufferCapacityFrames c \<le> 65536"

lemma unat_ucast_small:
  "unat w < 2 ^ LENGTH('b) \<Longrightarrow> unat (ucast w :: 'b :: len word) = unat w" for w :: "'a :: len word"
  by (simp add: unsigned_ucast_eq take_bit_nat_eq_self)

lemma track_value_in_range:
  assumes "track_valid J node" and "format_in_range d"
  shows "format_in_range (track_value J d node)"
proof -
  have "unat (ucast w :: u32) = unat w" if "w \<le> 384000" for w :: u64
    using that by (intro unat_ucast_small) (simp add: word_le_nat_alt)
  moreover have "unat (ucast w :: u16) = unat w" if "w \<le> 8" for w :: u64
    using that by (intro unat_ucast_small) (simp add: word_le_nat_alt)
  ultimately show ?thesis
    using assms by (auto simp: track_value_def value_or_def format_in_range_def track_valid_def
        number_in_def word_le_nat_alt simp flip: unat_eq_0)
qed

lemma duration_in_range:
  "number_in J n key 1 1000 \<Longrightarrow> 1 \<le> d \<Longrightarrow>
   1 \<le> value_or J n key (\<lambda>j. uint (j_get_u64 J j)) d"
  "number_in J n key 1 1000 \<Longrightarrow> d \<le> 1000 \<Longrightarrow>
   value_or J n key (\<lambda>j. uint (j_get_u64 J j)) d \<le> 1000"
  using uint_pos [of "j_get_u64 J (j_at J n key)"]
  by (auto simp: number_in_def value_or_def word_le_def)

text \<open>C28: A configuration the parser returns is in range: sample rates between 4000 and 384000 Hz,
  1 to 8 channels, both durations between 1 and 1000 ms, a ring buffer of 1 to 65536
  frames; nothing is clamped or truncated on the way (the 64-bit JSON numbers fit the
  narrower fields).\<close>

theorem config_accepted_is_in_range:
  assumes "fst (parseRecorderConfig J text) = Some c"
  shows "config_in_range c"
proof -
  from assms obtain root where v: "document_valid J root" and c: "c = document_value J root"
    by (auto simp add: parseRecorderConfig_def ok_def split_beta read_valid read_value
        split: option.split_asm if_split_asm)
  have D: "format_in_range (archivalMicrophone default_config)"
    "format_in_range (archivalSystemOutput default_config)" "format_in_range (sttStream default_config)"
    "1 \<le> sttFrameDuration default_config" "sttFrameDuration default_config \<le> 1000"
    "1 \<le> captureFrameDuration default_config" "captureFrameDuration default_config \<le> 1000"
    "ringBufferCapacityFrames default_config \<noteq> 0" "ringBufferCapacityFrames default_config \<le> 65536"
    by (simp_all add: format_in_range_def default_config_def)
  note d = document_value_def Let_def config_in_range_def
  have "format_in_range (archivalMicrophone c)" "format_in_range (archivalSystemOutput c)"
    "format_in_range (sttStream c)"
    using v D by (auto simp: c d document_valid_def value_or_def track_value_in_range split: if_splits)
  moreover have "1 \<le> sttFrameDuration c" "sttFrameDuration c \<le> 1000"
    "1 \<le> captureFrameDuration c" "captureFrameDuration c \<le> 1000"
    using v D by (auto simp: c d document_valid_def value_or_def [of J root] duration_in_range split: if_splits)
  moreover have "1 \<le> ringBufferCapacityFrames c" "ringBufferCapacityFrames c \<le> 65536"
    using v D by (auto simp: c d document_valid_def value_or_def number_in_def split: if_splits)
  ultimately show ?thesis by (simp add: config_in_range_def)
qed

text \<open>A JSON library with one document, to evaluate the parser on.\<close>

datatype json_value = JNumber u64 | JString string | JObject "(string \<times> json_value) list"

fun object_fields :: "json_value \<Rightarrow> (string \<times> json_value) list" where
  "object_fields (JObject fs) = fs"
| "object_fields _ = []"

definition stt_document :: json_value where
  "stt_document = JObject [(''stt'', JObject [(''sample_rate_hz'', JNumber 24000), (''format'', JString ''float32le'')])]"

definition one_document_json :: "json_value json_ops" where
  "one_document_json = \<lparr>
     j_parse = (\<lambda>text. if text = ''doc'' then Some stt_document else None),
     j_is_object = (\<lambda>j. case j of JObject _ \<Rightarrow> True | _ \<Rightarrow> False),
     j_contains = (\<lambda>j k. map_of (object_fields j) k \<noteq> None),
     j_at = (\<lambda>j k. the (map_of (object_fields j) k)),
     j_is_number_unsigned = (\<lambda>j. case j of JNumber _ \<Rightarrow> True | _ \<Rightarrow> False),
     j_get_u64 = (\<lambda>j. case j of JNumber n \<Rightarrow> n | _ \<Rightarrow> 0),
     j_is_string = (\<lambda>j. case j of JString _ \<Rightarrow> True | _ \<Rightarrow> False),
     j_get_string = (\<lambda>j. case j of JString s \<Rightarrow> s | _ \<Rightarrow> [])\<rparr>"

theorem config_accepted_is_in_range_witness:
  "\<exists>c. fst (parseRecorderConfig one_document_json ''doc'') = Some c
     \<and> tf_sampleRate (sttStream c) = 24000 \<and> config_in_range c"
proof -
  have "track_valid one_document_json
      (JObject [(''sample_rate_hz'', JNumber 24000), (''format'', JString ''float32le'')])"
    by (simp add: track_valid_def number_in_def format_valid_def one_document_json_def parseFormat_def)
  then have "document_valid one_document_json stt_document"
    by (simp add: document_valid_def value_or_def stt_document_def number_in_def one_document_json_def)
  then have c: "fst (parseRecorderConfig one_document_json ''doc'')
      = Some (document_value one_document_json stt_document)"
    by (simp add: parseRecorderConfig_def read_value ok_def one_document_json_def stt_document_def)
  from config_accepted_is_in_range [OF c]
  have "config_in_range (document_value one_document_json stt_document)" .
  moreover have "tf_sampleRate (sttStream (document_value one_document_json stt_document)) = 24000"
    by (simp add: document_value_def value_or_def track_value_def one_document_json_def stt_document_def)
  ultimately show ?thesis using c by blast
qed

definition config_messages :: "string list" where
  "config_messages = [''invalid JSON'', ''top-level JSON value must be an object'',
     ''archival must be an object'', ''capture must be an object'',
     ''stt.frame_duration_ms must be an integer in [1, 1000]'',
     ''capture.frame_duration_ms must be an integer in [1, 1000]'',
     ''capture.ring_buffer_capacity_frames must be an integer in [1, 65536]'']
     @ track_messages ''archival.microphone'' @ track_messages ''archival.system_output''
     @ track_messages ''stt''"

lemma fail_in: "v \<in> M \<Longrightarrow> m \<in> M \<Longrightarrow> fail m v \<in> M"
  by (simp add: fail_def)

lemma readTrackFormat_message_in:
  "set (track_messages name) \<subseteq> M \<Longrightarrow> v \<in> M \<Longrightarrow> snd (readTrackFormat J node name out v) \<in> M"
  using readTrackFormat_message [of J node name out v] readTrackFormat_value [of J node name out v]
  by (cases "track_valid J node") (auto simp: fail_in)

lemma readDurationMs_message:
  "name @ '' must be an integer in [1, 1000]'' \<in> M \<Longrightarrow> v \<in> M \<Longrightarrow>
   snd (readDurationMs J node key name out v) \<in> M"
  by (auto simp: readDurationMs_def Let_def fail_in)

lemma readArchival_message:
  assumes "v \<in> M" and "''archival must be an object'' \<in> M"
    and "set (track_messages ''archival.microphone'') \<subseteq> M"
    and "set (track_messages ''archival.system_output'') \<subseteq> M"
  shows "snd (readArchival J root (c, v)) \<in> M"
  using assms by (simp add: readArchival_def Let_def split_beta fail_in readTrackFormat_message_in)

lemma readStt_message:
  assumes "v \<in> M" and "''stt.frame_duration_ms must be an integer in [1, 1000]'' \<in> M"
    and "set (track_messages ''stt'') \<subseteq> M"
  shows "snd (readStt J root (c, v)) \<in> M"
  using assms by (simp add: readStt_def Let_def split_beta readDurationMs_message readTrackFormat_message_in)

lemma readCapture_message:
  assumes "v \<in> M" and "''capture must be an object'' \<in> M"
    and "''capture.frame_duration_ms must be an integer in [1, 1000]'' \<in> M"
    and "''capture.ring_buffer_capacity_frames must be an integer in [1, 65536]'' \<in> M"
  shows "snd (readCapture J root (c, v)) \<in> M"
  using assms by (simp add: readCapture_def Let_def split_beta fail_in readDurationMs_message)

lemma config_messages_in:
  assumes "M = set ([] # config_messages)"
  shows "[] \<in> M" "''invalid JSON'' \<in> M" "''top-level JSON value must be an object'' \<in> M"
    "''archival must be an object'' \<in> M" "''capture must be an object'' \<in> M"
    "''stt.frame_duration_ms must be an integer in [1, 1000]'' \<in> M"
    "''capture.frame_duration_ms must be an integer in [1, 1000]'' \<in> M"
    "''capture.ring_buffer_capacity_frames must be an integer in [1, 65536]'' \<in> M"
    "set (track_messages ''archival.microphone'') \<subseteq> M"
    "set (track_messages ''archival.system_output'') \<subseteq> M" "set (track_messages ''stt'') \<subseteq> M"
  unfolding assms config_messages_def by (auto simp only: list.set set_append Un_iff insert_iff)

text \<open>A rejected text never leaks into the message: whatever the text, the reason is one of a fixed
  list of messages made of key names and limits.\<close>

theorem config_errors_are_fixed_messages:
  "snd (parseRecorderConfig J text) \<in> set ([] # config_messages)"
proof -
  define M where "M = set ([] # config_messages)"
  note M = config_messages_in [OF M_def]
  have "snd (readCapture J root (readStt J root (readArchival J root (default_config, [])))) \<in> M" for root
  proof -
    obtain c v where a: "readArchival J root (default_config, []) = (c, v)" by fastforce
    obtain c' v' where s: "readStt J root (c, v) = (c', v')" by fastforce
    have "v \<in> M" using readArchival_message [OF M(1,4,9,10), of J root default_config] by (simp add: a)
    then have "v' \<in> M" using readStt_message [OF _ M(6,11), of v J root c] by (simp add: s)
    then show ?thesis unfolding a s by (rule readCapture_message [OF _ M(5,7,8)])
  qed
  then show ?thesis
    using M(1-3) unfolding M_def [symmetric]
    by (simp add: parseRecorderConfig_def split_beta split: option.split)
qed

end
