(* ===== verification/FirDecimator.thy ===== *)
theory FirDecimator
  imports AudioTypes Floats
begin

text \<open>
  The FIR decimator (\<open>audio-dsp/include/voxmesh/dsp/fir_decimator.hpp\<close>,
  \<open>audio-dsp/src/fir_decimator.cpp\<close>), over any \<open>double\<close> arithmetic: the circular history is
  shown to compute the convolution with the last samples, in the order the code adds them.
\<close>

section \<open>Design of the low-pass\<close>

definition lowPassTap :: "'d float_ops \<Rightarrow> nat \<Rightarrow> 'd \<Rightarrow> nat \<Rightarrow> 'd" where
  "lowPassTap F taps cutoff i =
     (let center = f_div F (f_int F (int (taps - 1))) (f_lit F 2);
          n = f_sub F (f_int F (int i)) center;
          x = f_mul F (f_mul F (f_pi F) cutoff) n;
          sinc = (if f_eq F n (f_lit F 0) then f_lit F 1 else f_div F (f_sin F x) x);
          window = f_sub F (f_lit F (54 / 100)) (f_mul F (f_lit F (46 / 100))
            (f_cos F (f_div F (f_mul F (f_mul F (f_lit F 2) (f_pi F)) (f_int F (int i)))
               (f_int F (int (taps - 1))))))
      in f_mul F (f_mul F cutoff sinc) window)"

definition designLowPass :: "'d float_ops \<Rightarrow> nat \<Rightarrow> 'd \<Rightarrow> 'd list" where
  "designLowPass F taps cutoff =
     (let h = map (lowPassTap F taps cutoff) [0..<taps];
          total = foldl (f_add F) (f_lit F 0) h
      in map (\<lambda>c. f_div F c total) h)"

definition clampToS16 :: "'d float_ops \<Rightarrow> 'd \<Rightarrow> s16" where
  "clampToS16 F x = word_of_int (max (- 32768) (min (f_lround F x) 32767))"

section \<open>The decimator\<close>

record 'd fir_decimator =
  fd_factor :: nat
  fd_coefficients :: "'d list"
  fd_history :: "'d list"
  fd_historyPos :: nat
  fd_phase :: nat

definition fir_coefficients :: "'d float_ops \<Rightarrow> nat \<Rightarrow> nat \<Rightarrow> 'd list" where
  "fir_coefficients F factor taps =
     (if factor = 1 then [f_lit F 1]
      else designLowPass F (if taps mod 2 = 0 then taps + 1 else taps)
        (f_div F (f_lit F (8 / 10)) (f_int F (int factor))))"

definition new_fir :: "'d float_ops \<Rightarrow> nat \<Rightarrow> nat \<Rightarrow> 'd fir_decimator" where
  "new_fir F factor taps =
     (let fac = (if factor = 0 then 1 else factor);
          coefficients = fir_coefficients F fac taps
      in \<lparr>fd_factor = fac, fd_coefficients = coefficients,
          fd_history = replicate (length coefficients) (f_lit F 0), fd_historyPos = 0, fd_phase = 0\<rparr>)"

text \<open>The inner loop: \<open>index\<close> walks backwards through the circular history.\<close>

fun convolve :: "'d float_ops \<Rightarrow> nat \<Rightarrow> 'd list \<Rightarrow> 'd list \<Rightarrow> nat \<Rightarrow> 'd \<Rightarrow> 'd" where
  "convolve F taps history [] index acc = acc"
| "convolve F taps history (c # cs) index acc =
     convolve F taps history cs (if index = 0 then taps - 1 else index - 1)
       (f_add F acc (f_mul F c (history ! index)))"

definition fir_sample :: "'d float_ops \<Rightarrow> 'd fir_decimator \<Rightarrow> s16 \<Rightarrow> 'd fir_decimator \<times> s16 list" where
  "fir_sample F d x =
     (let taps = length (fd_coefficients d);
          history = (fd_history d)[fd_historyPos d := f_int F (sint x)];
          output = (if fd_phase d = 0
            then [clampToS16 F (convolve F taps history (fd_coefficients d) (fd_historyPos d) (f_lit F 0))]
            else [])
      in (d\<lparr>fd_history := history, fd_phase := (fd_phase d + 1) mod fd_factor d,
            fd_historyPos := (fd_historyPos d + 1) mod taps\<rparr>, output))"

fun fir_process :: "'d float_ops \<Rightarrow> 'd fir_decimator \<Rightarrow> s16 list \<Rightarrow> 'd fir_decimator \<times> s16 list" where
  "fir_process F d [] = (d, [])"
| "fir_process F d (x # xs) =
     (let (d', out) = fir_sample F d x; (d'', outs) = fir_process F d' xs in (d'', out @ outs))"

definition fir_reset :: "'d float_ops \<Rightarrow> 'd fir_decimator \<Rightarrow> 'd fir_decimator" where
  "fir_reset F d = d\<lparr>fd_history := replicate (length (fd_history d)) (f_lit F 0),
     fd_historyPos := 0, fd_phase := 0\<rparr>"

section \<open>The reference: convolution with the last samples\<close>

definition past :: "'d float_ops \<Rightarrow> s16 list \<Rightarrow> nat \<Rightarrow> 'd" where
  "past F xs k = (if k < length xs then f_int F (sint (xs ! (length xs - 1 - k))) else f_lit F 0)"

definition fir_at :: "'d float_ops \<Rightarrow> 'd list \<Rightarrow> s16 list \<Rightarrow> 'd" where
  "fir_at F cs xs = foldl (\<lambda>acc k. f_add F acc (f_mul F (cs ! k) (past F xs k))) (f_lit F 0) [0..<length cs]"

definition fir_outputs :: "'d float_ops \<Rightarrow> nat \<Rightarrow> 'd list \<Rightarrow> s16 list \<Rightarrow> s16 list" where
  "fir_outputs F factor cs xs =
     map (\<lambda>m. clampToS16 F (fir_at F cs (take (Suc m) xs))) (filter (\<lambda>m. m mod factor = 0) [0..<length xs])"

text \<open>The state after the samples \<open>xs\<close> since the last reset.\<close>

definition fir_inv :: "'d float_ops \<Rightarrow> s16 list \<Rightarrow> 'd fir_decimator \<Rightarrow> bool" where
  [inv_simps]: "fir_inv F xs d \<longleftrightarrow> 0 < fd_factor d \<and> 0 < length (fd_coefficients d)
     \<and> length (fd_history d) = length (fd_coefficients d)
     \<and> fd_historyPos d = length xs mod length (fd_coefficients d)
     \<and> fd_phase d = length xs mod fd_factor d
     \<and> (\<forall>k < length (fd_coefficients d). fd_history d ! ((length xs mod length (fd_coefficients d)
          + length (fd_coefficients d) - Suc k) mod length (fd_coefficients d)) = past F xs k)"

lemma back_index:
  fixes n p k :: nat
  assumes "p < n" and "k < n"
  shows "(p + n - k) mod n = (if k \<le> p then p - k else p + n - k)"
proof (cases "k \<le> p")
  case True
  then have "(p + n - k) mod n = ((p - k) + n) mod n" by simp
  also have "\<dots> = p - k" using assms by (simp only: mod_add_self2) simp
  finally show ?thesis using True by simp
next
  case False
  with assms show ?thesis by simp
qed

lemma convolve_eq:
  assumes "p < taps" and "j + length cs \<le> taps"
  shows "convolve F taps h cs ((p + taps - j) mod taps) acc
    = foldl (\<lambda>acc k. f_add F acc (f_mul F (cs ! k) (h ! ((p + taps - (j + k)) mod taps)))) acc [0..<length cs]"
  using assms
proof (induction cs arbitrary: j acc)
  case (Cons c cs)
  have prev: "(if (p + taps - j) mod taps = 0 then taps - 1 else (p + taps - j) mod taps - 1)
      = (p + taps - Suc j) mod taps"
  proof (cases "Suc j < taps")
    case True
    with Cons.prems show ?thesis by (simp add: back_index)
  next
    case False
    with Cons.prems have "j = taps - 1" by simp
    with Cons.prems show ?thesis by (cases "p = taps - 1") (simp_all add: back_index)
  qed
  have upt: "[0..<length (c # cs)] = 0 # map Suc [0..<length cs]"
    by (simp only: length_Cons upt_conv_Cons [OF zero_less_Suc] map_Suc_upt)
  have "Suc j + length cs \<le> taps" using Cons.prems by simp
  from Cons.IH [OF Cons.prems(1) this] show ?case unfolding upt by (simp add: prev foldl_map)
qed simp

lemma past_snoc: "past F (xs @ [x]) 0 = f_int F (sint x)" "past F (xs @ [x]) (Suc k) = past F xs k"
  by (auto simp: past_def nth_append)

lemma fir_sample_inv:
  assumes inv: "fir_inv F xs d"
  shows "fir_inv F (xs @ [x]) (fst (fir_sample F d x))"
    and "snd (fir_sample F d x) = (if length xs mod fd_factor d = 0
      then [clampToS16 F (fir_at F (fd_coefficients d) (xs @ [x]))] else [])"
proof -
  let ?n = "length (fd_coefficients d)" and ?p = "fd_historyPos d"
  let ?h = "(fd_history d)[?p := f_int F (sint x)]"
  have n: "0 < ?n" "length (fd_history d) = ?n" "?p = length xs mod ?n" "?p < ?n" "0 < fd_factor d"
    using inv by (simp_all add: fir_inv_def)
  have old: "k < ?n \<Longrightarrow> fd_history d ! ((?p + ?n - Suc k) mod ?n) = past F xs k" for k
    using inv n by (simp add: fir_inv_def)
  have h: "?h ! ((?p + ?n - k) mod ?n) = past F (xs @ [x]) k" if "k < ?n" for k
  proof (cases k)
    case 0
    with n show ?thesis by (simp add: past_snoc)
  next
    case (Suc j)
    have "(?p + ?n - k) mod ?n \<noteq> ?p" using that n Suc by (subst back_index) auto
    with old [of j] that Suc show ?thesis by (simp add: past_snoc)
  qed
  have "convolve F ?n ?h (fd_coefficients d) ?p (f_lit F 0) = fir_at F (fd_coefficients d) (xs @ [x])"
  proof -
    have "convolve F ?n ?h (fd_coefficients d) ?p (f_lit F 0)
      = foldl (\<lambda>acc k. f_add F acc (f_mul F (fd_coefficients d ! k) (?h ! ((?p + ?n - k) mod ?n))))
          (f_lit F 0) [0..<?n]"
      using convolve_eq [OF n(4), of 0 "fd_coefficients d" F ?h "f_lit F 0"] n(4) by simp
    also have "\<dots> = fir_at F (fd_coefficients d) (xs @ [x])"
      unfolding fir_at_def using h by (intro foldl_cong refl) simp
    finally show ?thesis .
  qed
  then show "snd (fir_sample F d x) = (if length xs mod fd_factor d = 0
      then [clampToS16 F (fir_at F (fd_coefficients d) (xs @ [x]))] else [])"
    using inv by (simp add: fir_sample_def Let_def fir_inv_def)
  have pos: "((?p + 1) mod ?n + ?n - Suc k) mod ?n = (?p + ?n - k) mod ?n" if "k < ?n" for k
    using that n(4) by (cases "Suc ?p = ?n") (simp_all add: back_index)
  show "fir_inv F (xs @ [x]) (fst (fir_sample F d x))"
    using n h pos inv by (simp add: fir_sample_def Let_def fir_inv_def mod_Suc_eq)
qed

lemma fir_sample_config [simp]:
  "fd_factor (fst (fir_sample F d x)) = fd_factor d"
  "fd_coefficients (fst (fir_sample F d x)) = fd_coefficients d"
  by (simp_all add: fir_sample_def Let_def)

lemma fir_process_config [simp]:
  "fd_factor (fst (fir_process F d xs)) = fd_factor d"
  "fd_coefficients (fst (fir_process F d xs)) = fd_coefficients d"
  by (induction xs arbitrary: d) (auto simp: split_beta Let_def)

lemma fir_process_append:
  "fir_process F d (xs @ ys) =
     (let (d', out) = fir_process F d xs; (d'', outs) = fir_process F d' ys in (d'', out @ outs))"
  by (induction xs arbitrary: d) (simp_all add: split_beta Let_def)

lemma fir_outputs_snoc:
  "fir_outputs F factor cs (xs @ [x]) = fir_outputs F factor cs xs
     @ (if length xs mod factor = 0 then [clampToS16 F (fir_at F cs (xs @ [x]))] else [])"
proof -
  have "map (\<lambda>m. clampToS16 F (fir_at F cs (take (Suc m) (xs @ [x])))) (filter (\<lambda>m. m mod factor = 0) [0..<length xs])
    = fir_outputs F factor cs xs"
    unfolding fir_outputs_def by (intro map_cong refl) simp
  then show ?thesis by (simp add: fir_outputs_def)
qed

lemma fir_process_inv:
  assumes "fir_inv F xs d"
  shows "fir_inv F (xs @ ys) (fst (fir_process F d ys))
    \<and> fir_outputs F (fd_factor d) (fd_coefficients d) (xs @ ys)
      = fir_outputs F (fd_factor d) (fd_coefficients d) xs @ snd (fir_process F d ys)"
  using assms
proof (induction ys arbitrary: d xs)
  case (Cons y ys)
  note st = fir_sample_inv [OF Cons.prems, of y]
  from Cons.IH [OF st(1)] st(2) show ?case
    by (simp add: split_beta Let_def fir_outputs_snoc)
qed simp

lemma new_fir_inv:
  assumes "fir_coefficients F (if factor = 0 then 1 else factor) taps \<noteq> []"
  shows "fir_inv F [] (new_fir F factor taps)"
  using assms by (simp add: fir_inv_def new_fir_def Let_def past_def)

lemma length_fir_coefficients:
  "length (fir_coefficients F factor taps) = (if factor = 1 then 1 else if taps mod 2 = 0 then taps + 1 else taps)"
  by (simp add: fir_coefficients_def designLowPass_def Let_def)

lemma fir_coefficients_nonempty: "fir_coefficients F factor taps \<noteq> []"
proof -
  have "0 < length (fir_coefficients F factor taps)"
    unfolding length_fir_coefficients by (cases taps) auto
  then show ?thesis by simp
qed

lemma fir_reset_inv: "fir_inv F xs d \<Longrightarrow> fir_inv F [] (fir_reset F d)"
  by (simp add: fir_inv_def fir_reset_def past_def)

lemma new_fir_simps [simp]:
  "fd_factor (new_fir F factor taps) = (if factor = 0 then 1 else factor)"
  "fd_coefficients (new_fir F factor taps) = fir_coefficients F (if factor = 0 then 1 else factor) taps"
  by (simp_all add: new_fir_def Let_def)

lemma new_fir_run:
  "fir_inv F xs (fst (fir_process F (new_fir F factor taps) xs))"
  "snd (fir_process F (new_fir F factor taps) xs) = fir_outputs F (if factor = 0 then 1 else factor)
     (fir_coefficients F (if factor = 0 then 1 else factor) taps) xs"
proof -
  have "fir_inv F [] (new_fir F factor taps)"
    by (rule new_fir_inv) (rule fir_coefficients_nonempty)
  from fir_process_inv [OF this, of xs]
  show "fir_inv F xs (fst (fir_process F (new_fir F factor taps) xs))"
    "snd (fir_process F (new_fir F factor taps) xs) = fir_outputs F (if factor = 0 then 1 else factor)
     (fir_coefficients F (if factor = 0 then 1 else factor) taps) xs"
    by (simp_all add: fir_outputs_def)
qed

text \<open>C22: The decimator computes the convolution: however the signal is cut into calls, the samples it
  emits are, for the input samples at multiples of the factor, the clamped sum of the
  coefficients times the latest samples (zero before the start), added in the order
  newest to oldest. This holds for any floating-point arithmetic.\<close>

theorem fir_computes_convolution:
  "snd (fir_process F (new_fir F factor taps) (concat calls))
     = fir_outputs F (if factor = 0 then 1 else factor)
         (fir_coefficients F (if factor = 0 then 1 else factor) taps) (concat calls)
   \<and> snd (fir_process F (new_fir F factor taps) (concat calls))
     = concat (snd (foldl (\<lambda>(d, outs) xs. let (d', out) = fir_process F d xs in (d', outs @ [out]))
         (new_fir F factor taps, []) calls))"
proof
  let ?d = "new_fir F factor taps"
  show "snd (fir_process F ?d (concat calls)) = fir_outputs F (if factor = 0 then 1 else factor)
         (fir_coefficients F (if factor = 0 then 1 else factor) taps) (concat calls)"
    by (rule new_fir_run)
  have "fir_process F ?d (concat calls) =
     (let r = foldl (\<lambda>(d, outs) xs. let (d', out) = fir_process F d xs in (d', outs @ [out])) (?d, []) calls
      in (fst r, concat (snd r)))"
    by (induction calls rule: rev_induct) (simp_all add: fir_process_append split_beta Let_def)
  then show "snd (fir_process F ?d (concat calls))
     = concat (snd (foldl (\<lambda>(d, outs) xs. let (d', out) = fir_process F d xs in (d', outs @ [out]))
         (?d, []) calls))"
    by (simp add: Let_def)
qed

section \<open>Counting, resetting, gain\<close>

lemma div_ceiling:
  fixes n f :: nat
  assumes "0 < f"
  shows "(n + f - 1) div f = (if n mod f = 0 then n div f else Suc (n div f))"
proof -
  define q r where "q = n div f" and "r = n mod f"
  have n: "n = f * q + r" and r: "r < f" using assms by (simp_all add: q_def r_def)
  show ?thesis
    unfolding q_def [symmetric] r_def [symmetric]
    using r assms by (cases "r = 0") (simp_all add: n div_nat_eqI)
qed

lemma multiples_upt:
  assumes "0 < f"
  shows "filter (\<lambda>m. m mod f = 0) [0..<n] = map (\<lambda>j. j * f) [0..<(n + f - 1) div f]"
proof (induction n)
  case (Suc n)
  have "(Suc n + f - 1) div f = Suc (n div f)" using assms by simp
  then show ?case
    using Suc unfolding div_ceiling [OF assms, of n] by (auto simp: mult.commute)
qed (use assms in simp)

text \<open>Resetting forgets everything: after any calls, a reset leaves the state of a new decimator, so
  the samples after a discontinuity are filtered without any trace of those before.\<close>

theorem fir_reset_is_fresh:
  "fir_reset F (fst (fir_process F (new_fir F factor taps) xs)) = new_fir F factor taps"
proof -
  have "length (fd_history (fst (fir_process F (new_fir F factor taps) xs)))
      = length (fd_coefficients (fst (fir_process F (new_fir F factor taps) xs)))"
    using new_fir_run(1) [of F xs factor taps] unfolding fir_inv_def by blast
  then show ?thesis by (simp add: fir_reset_def new_fir_def Let_def)
qed

lemma length_fir_outputs: "0 < f \<Longrightarrow> length (fir_outputs F f cs xs) = (length xs + f - 1) div f"
  by (simp add: fir_outputs_def multiples_upt)

lemma foldl_add_sum_list: "foldl (\<lambda>acc k. acc + g k) (a :: real) ks = a + sum_list (map g ks)"
  by (induction ks arbitrary: a) simp_all

lemma foldl_plus_sum_list: "foldl (+) (a :: real) xs = a + sum_list xs"
  by (induction xs arbitrary: a) simp_all

definition odd_taps :: "nat \<Rightarrow> nat" where
  "odd_taps taps = (if taps mod 2 = 0 then taps + 1 else taps)"

definition lowpass_total :: "nat \<Rightarrow> nat \<Rightarrow> real" where
  "lowpass_total factor taps =
     sum_list (map (lowPassTap real_ops (odd_taps taps) (8 / 10 / real factor)) [0..<odd_taps taps])"

lemma sum_fir_coefficients:
  assumes "factor = 1 \<or> lowpass_total factor taps \<noteq> 0"
  shows "sum_list (fir_coefficients real_ops factor taps) = 1"
proof (cases "factor = 1")
  case False
  let ?h = "map (lowPassTap real_ops (odd_taps taps) (8 / 10 / real factor)) [0..<odd_taps taps]"
  have "fir_coefficients real_ops factor taps = map (\<lambda>c. c / sum_list ?h) ?h"
    using False by (simp add: fir_coefficients_def designLowPass_def Let_def odd_taps_def
        foldl_plus_sum_list of_rat_divide)
  moreover have "sum_list (map (\<lambda>c. c / t) hs) = sum_list hs / t" for t :: real and hs
    by (induction hs) (simp_all add: add_divide_distrib)
  ultimately have "sum_list (fir_coefficients real_ops factor taps) = sum_list ?h / sum_list ?h"
    by (simp only:)
  then show ?thesis using assms False by (simp add: lowpass_total_def)
qed (simp add: fir_coefficients_def)

lemma clampToS16_sample: "clampToS16 real_ops (of_int (sint (x :: s16))) = x"
proof -
  have "- 32768 \<le> sint x" "sint x < 32768"
    using sint_greater_eq [of x] sint_lt [of x] by simp_all
  then show ?thesis
    unfolding clampToS16_def real_ops_simps real_lround_of_int by simp
qed

lemma clampToS16_signed [simp]: "clampToS16 real_ops (signed x) = x" for x :: s16
  using clampToS16_sample [of x] by simp

lemma fir_at_constant:
  assumes "length cs \<le> n"
  shows "fir_at real_ops cs (replicate n x) = sum_list cs * of_int (sint x)"
proof -
  have "fir_at real_ops cs (replicate n x) = sum_list (map (\<lambda>k. cs ! k * past real_ops (replicate n x) k) [0..<length cs])"
    by (simp add: fir_at_def foldl_add_sum_list)
  also have "\<dots> = sum_list (map (\<lambda>k. cs ! k * of_int (sint x)) [0..<length cs])"
    using assms by (intro arg_cong [of _ _ sum_list] map_cong refl) (simp add: past_def)
  also have "\<dots> = sum_list (map (\<lambda>c. c * of_int (sint x)) (map ((!) cs) [0..<length cs]))"
    by (simp add: comp_def)
  also have "\<dots> = sum_list cs * of_int (sint x)"
    unfolding map_nth by (simp add: sum_list_mult_const)
  finally show ?thesis .
qed

text \<open>Unity gain: in exact arithmetic a constant signal comes out as itself once the filter is full
  (the output whose newest input sample is at position \<open>n * factor\<close>, at least the number of
  taps less one), for every factor and length for which the designed taps do not sum to
  zero.\<close>

theorem fir_passes_constants:
  assumes "factor = 1 \<or> lowpass_total factor taps \<noteq> 0" and "0 < factor"
    and "odd_taps taps - 1 \<le> n * factor" and "n * factor < m"
  shows "snd (fir_process real_ops (new_fir real_ops factor taps) (replicate m x)) ! n = x"
proof -
  let ?cs = "fir_coefficients real_ops factor taps"
  have l: "length ?cs \<le> Suc (n * factor)"
  proof -
    have "1 \<le> odd_taps taps" by (cases taps) (simp_all add: odd_taps_def)
    with assms(3) have "odd_taps taps \<le> Suc (n * factor)" by linarith
    then show ?thesis by (simp add: length_fir_coefficients odd_taps_def [symmetric])
  qed
  have "n < (m + factor - 1) div factor"
    using assms(2,4) by (simp add: less_eq_div_iff_mult_less_eq flip: Suc_le_eq)
  then have "fir_outputs real_ops factor ?cs (replicate m x) ! n
      = clampToS16 real_ops (fir_at real_ops ?cs (replicate (Suc (n * factor)) x))"
    using assms(2,4) by (simp add: fir_outputs_def multiples_upt take_replicate min_absorb1 Suc_leI
        del: replicate.simps)
  also have "\<dots> = x"
    using l assms(1) by (simp add: fir_at_constant sum_fir_coefficients del: replicate.simps)
  finally show ?thesis
    using assms(2) by (simp add: new_fir_run)
qed

lemma lowpass_total_3_3: "lowpass_total 3 3 \<noteq> 0"
proof -
  define y :: real where "y = pi * (8 / 30)"
  have y: "0 < y" "y < pi" using pi_gt_zero by (simp_all add: y_def)
  then have "0 < sin y / y" by (simp add: sin_gt_zero)
  moreover have "lowpass_total 3 3 = 8 / 30 * (1 + 16 / 100 * (sin y / y))"
    by (simp add: lowpass_total_def odd_taps_def lowPassTap_def Let_def upt_rec of_rat_divide y_def
        field_simps)
  ultimately show ?thesis by simp
qed

theorem fir_passes_constants_witness:
  "snd (fir_process real_ops (new_fir real_ops 3 3) (replicate 10 (7 :: s16))) ! 2 = 7"
  by (rule fir_passes_constants) (simp_all add: lowpass_total_3_3 odd_taps_def)

end
