(* ===== verification/SttProducer.thy ===== *)
theory SttProducer
  imports FirDecimator
begin

text \<open>
  The producer of the speech-to-text stream (\<open>audio-dsp/include/voxmesh/dsp/stt_stream_producer.hpp\<close>,
  \<open>audio-dsp/src/stt_stream_producer.cpp\<close>): it checks a frame's format, mixes stereo down, decimates
  and cuts the result into frames of a fixed size. \<open>process\<close> returns \<open>None\<close> where the code
  would overflow a signed 64-bit timestamp, read an absent anchor or loop forever.
\<close>

section \<open>Data\<close>

record stt_stream_config =
  sc_input :: track_format
  sc_output :: track_format
  sc_frameDuration :: int \<comment> \<open>milliseconds\<close>

record stt_stream_stats =
  ss_framesIn :: u64
  ss_framesOut :: u64
  ss_rejectedFrames :: u64

record 'd stt_producer =
  sp_config :: stt_stream_config
  sp_decimator :: "'d fir_decimator"
  sp_samplesPerOutputFrame :: u64
  sp_pending :: "s16 list"
  sp_nextSequence :: sequence_number
  sp_anchor :: "timestamp option"
  sp_samplesEmitted :: u64
  sp_pendingDiscontinuity :: bool
  sp_stats :: stt_stream_stats

definition new_stt_producer :: "'d float_ops \<Rightarrow> stt_stream_config \<Rightarrow> 'd stt_producer" where
  "new_stt_producer F config = \<lparr>sp_config = config,
     sp_decimator = new_fir F (unat (tf_sampleRate (sc_input config) div tf_sampleRate (sc_output config))) 63,
     sp_samplesPerOutputFrame = samplesPerChannel (tf_sampleRate (sc_output config)) (sc_frameDuration config),
     sp_pending = [], sp_nextSequence = 0, sp_anchor = None, sp_samplesEmitted = 0,
     sp_pendingDiscontinuity = False,
     sp_stats = \<lparr>ss_framesIn = 0, ss_framesOut = 0, ss_rejectedFrames = 0\<rparr>\<rparr>"

definition create :: "'d float_ops \<Rightarrow> stt_stream_config \<Rightarrow> 'd stt_producer option" where
  "create F config =
     (let integerPcm = (tf_format (sc_input config) = PcmS16Le \<and> tf_format (sc_output config) = PcmS16Le);
          channelsSupported = ((tf_channels (sc_input config) = 1 \<or> tf_channels (sc_input config) = 2)
            \<and> tf_channels (sc_output config) = 1);
          ratesSupported = (0 < tf_sampleRate (sc_input config) \<and> 0 < tf_sampleRate (sc_output config)
            \<and> tf_sampleRate (sc_input config) mod tf_sampleRate (sc_output config) = 0);
          frameSamples = samplesPerChannel (tf_sampleRate (sc_output config)) (sc_frameDuration config)
      in if \<not> integerPcm \<or> \<not> channelsSupported \<or> \<not> ratesSupported \<or> frameSamples = 0 then None
         else Some (new_stt_producer F config))"

section \<open>One frame\<close>

definition downmix :: "channel_count \<Rightarrow> audio_frame \<Rightarrow> s16 list" where
  "downmix channels frame =
     (let samplesPerChannel = sampleCountPerChannel frame;
          interleaved = decode_s16 (fr_payload frame)
      in if channels = 2
         then map (\<lambda>i. let left = sint (interleaved ! (2 * i)); right = sint (interleaved ! (2 * i + 1))
                in word_of_int ((left + right) sdiv 2)) [0..<samplesPerChannel]
         else take samplesPerChannel interleaved)"

definition stt_elapsed :: "sample_rate \<Rightarrow> u64 \<Rightarrow> int" where
  "stt_elapsed hz samplesEmitted = sint ((samplesEmitted * 1000000000) div ucast hz)"

text \<open>The body of the \<open>while\<close> loop: one output frame from the front of the pending samples.\<close>

definition emit_frame :: "'d stt_producer \<Rightarrow> ('d stt_producer \<times> audio_frame) option" where
  "emit_frame s = do {
     anchor \<leftarrow> sp_anchor s;
     let hz = tf_sampleRate (sc_output (sp_config s));
     let n = unat (sp_samplesPerOutputFrame s);
     t \<leftarrow> advancedBy anchor (stt_elapsed hz (sp_samplesEmitted s));
     Some (s\<lparr>sp_nextSequence := next_sequence (sp_nextSequence s), sp_pendingDiscontinuity := False,
         sp_pending := drop n (sp_pending s),
         sp_samplesEmitted := sp_samplesEmitted s + sp_samplesPerOutputFrame s,
         sp_stats := (sp_stats s)\<lparr>ss_framesOut := ss_framesOut (sp_stats s) + 1\<rparr>\<rparr>,
       \<lparr>fr_track = SttStream, fr_sequence = sp_nextSequence s, fr_timestamp = t, fr_sampleRate = hz,
        fr_channels = tf_channels (sc_output (sp_config s)), fr_format = PcmS16Le,
        fr_discontinuity = sp_pendingDiscontinuity s,
        fr_payload = encode_s16 (take n (sp_pending s))\<rparr>) }"

partial_function (option) emit_frames :: "'d stt_producer \<Rightarrow> audio_frame list
    \<Rightarrow> ('d stt_producer \<times> audio_frame list) option" where
  "emit_frames s outputs =
     (if unat (sp_samplesPerOutputFrame s) \<le> length (sp_pending s) then
        Option.bind (emit_frame s) (\<lambda>(s', output). emit_frames s' (outputs @ [output]))
      else Some (s, outputs))"

definition stt_accepts :: "stt_stream_config \<Rightarrow> audio_frame \<Rightarrow> bool" where
  "stt_accepts config frame \<longleftrightarrow> \<not> (fr_format frame \<noteq> tf_format (sc_input config)
     \<or> fr_sampleRate frame \<noteq> tf_sampleRate (sc_input config)
     \<or> fr_channels frame \<noteq> tf_channels (sc_input config))"

text \<open>The part of \<open>process\<close> before the loop, for a frame of the configured format.\<close>

definition stt_ingest :: "'d float_ops \<Rightarrow> 'd stt_producer \<Rightarrow> audio_frame \<Rightarrow> 'd stt_producer" where
  "stt_ingest F s frame =
     (let s = s\<lparr>sp_stats := (sp_stats s)\<lparr>ss_framesIn := ss_framesIn (sp_stats s) + 1\<rparr>\<rparr>;
          s = (if sp_anchor s = None then s\<lparr>sp_anchor := Some (fr_timestamp frame)\<rparr> else s);
          s = (if fr_discontinuity frame
            then s\<lparr>sp_decimator := fir_reset F (sp_decimator s), sp_pendingDiscontinuity := True\<rparr> else s);
          mono = downmix (tf_channels (sc_input (sp_config s))) frame;
          (d, out) = fir_process F (sp_decimator s) mono
      in s\<lparr>sp_decimator := d, sp_pending := sp_pending s @ out\<rparr>)"

definition stt_process :: "'d float_ops \<Rightarrow> 'd stt_producer \<Rightarrow> audio_frame
    \<Rightarrow> ('d stt_producer \<times> audio_frame list) option" where
  "stt_process F s frame =
     (if \<not> stt_accepts (sp_config s) frame then
        Some (s\<lparr>sp_stats := (sp_stats s)\<lparr>ss_rejectedFrames := ss_rejectedFrames (sp_stats s) + 1\<rparr>\<rparr>, [])
      else emit_frames (stt_ingest F s frame) [])"

fun stt_process_all :: "'d float_ops \<Rightarrow> 'd stt_producer \<Rightarrow> audio_frame list
    \<Rightarrow> ('d stt_producer \<times> audio_frame list) option" where
  "stt_process_all F s [] = Some (s, [])"
| "stt_process_all F s (f # fs) = do {
     (s', out) \<leftarrow> stt_process F s f;
     (s'', outs) \<leftarrow> stt_process_all F s' fs;
     Some (s'', out @ outs) }"

section \<open>The loop in closed form\<close>

text \<open>The \<open>i\<close>-th frame the loop emits from \<open>s\<close>, and the state after \<open>k\<close> of them.\<close>

definition stt_frame :: "'d stt_producer \<Rightarrow> nat \<Rightarrow> audio_frame" where
  "stt_frame s i =
     (let n = unat (sp_samplesPerOutputFrame s); hz = tf_sampleRate (sc_output (sp_config s))
      in \<lparr>fr_track = SttStream, fr_sequence = sp_nextSequence s + of_nat i,
          fr_timestamp = the (sp_anchor s)
            + stt_elapsed hz (sp_samplesEmitted s + of_nat i * sp_samplesPerOutputFrame s),
          fr_sampleRate = hz, fr_channels = tf_channels (sc_output (sp_config s)), fr_format = PcmS16Le,
          fr_discontinuity = (sp_pendingDiscontinuity s \<and> i = 0),
          fr_payload = encode_s16 (take n (drop (i * n) (sp_pending s)))\<rparr>)"

definition after_frames :: "'d stt_producer \<Rightarrow> nat \<Rightarrow> 'd stt_producer" where
  "after_frames s k = s\<lparr>sp_nextSequence := sp_nextSequence s + of_nat k,
     sp_pendingDiscontinuity := (sp_pendingDiscontinuity s \<and> k = 0),
     sp_pending := drop (k * unat (sp_samplesPerOutputFrame s)) (sp_pending s),
     sp_samplesEmitted := sp_samplesEmitted s + of_nat k * sp_samplesPerOutputFrame s,
     sp_stats := (sp_stats s)\<lparr>ss_framesOut := ss_framesOut (sp_stats s) + of_nat k\<rparr>\<rparr>"

text \<open>
  At an output rate of at least 8 Hz the elapsed time stays below \<open>2 ^ 61\<close> nanoseconds whatever
  the sample counter is, so an anchor below \<open>2 ^ 62\<close> leaves no room for an overflow.
\<close>

definition stt_ready :: "'d stt_producer \<Rightarrow> bool" where
  "stt_ready s \<longleftrightarrow> 0 < sp_samplesPerOutputFrame s \<and> 8 \<le> tf_sampleRate (sc_output (sp_config s))
     \<and> (\<forall>a. sp_anchor s = Some a \<longrightarrow> 0 \<le> a \<and> a \<le> 2 ^ 62)"

lemma stt_elapsed_bounds:
  assumes "8 \<le> hz"
  shows "0 \<le> stt_elapsed hz n" and "stt_elapsed hz n \<le> 2 ^ 61"
    and "uint n * kNs < 2 ^ 64 \<Longrightarrow> kNs = 1000000000 \<Longrightarrow> stt_elapsed hz n = uint n * kNs div uint hz"
proof -
  have hz: "8 \<le> uint hz" using assms by (simp add: word_le_def)
  let ?p = "n * 1000000000"
  have q: "uint (?p div ucast hz) = uint ?p div uint hz" by (simp add: uint_div_distrib)
  have p: "0 \<le> uint ?p" "uint ?p < 2 ^ 64" using uint_lt2p [of ?p] by simp_all
  have "uint ?p div uint hz \<le> uint ?p div 8" using hz p by (intro zdiv_mono2) simp_all
  also have "\<dots> \<le> 2 ^ 61" using p(2) by simp
  finally have le: "uint (?p div ucast hz) \<le> 2 ^ 61" using q by simp
  then have "stt_elapsed hz n = uint (?p div ucast hz)"
    unfolding stt_elapsed_def by (intro sint_small) simp
  with le show "0 \<le> stt_elapsed hz n" "stt_elapsed hz n \<le> 2 ^ 61" by simp_all
  show "stt_elapsed hz n = uint n * kNs div uint hz" if "uint n * kNs < 2 ^ 64" "kNs = 1000000000"
    using that q \<open>stt_elapsed hz n = _\<close> uint_mult_small [of n "1000000000"] by simp
qed

lemma emit_frame_eq:
  assumes "stt_ready s" and "sp_anchor s = Some a"
  shows "emit_frame s = Some (after_frames s 1, stt_frame s 0)"
proof -
  have "in_s64 (a + stt_elapsed (tf_sampleRate (sc_output (sp_config s))) (sp_samplesEmitted s))"
    using assms stt_elapsed_bounds(1,2) [of "tf_sampleRate (sc_output (sp_config s))" "sp_samplesEmitted s"]
    by (simp add: stt_ready_def in_s64_def)
  with assms(2) show ?thesis
    by (simp add: emit_frame_def Let_def advancedBy_def s64_Some after_frames_def stt_frame_def
        next_sequence_def)
qed

lemma stt_frame_shift: "stt_frame (after_frames s (Suc 0)) i = stt_frame s (Suc i)"
  by (simp add: stt_frame_def after_frames_def Let_def algebra_simps)

lemma after_frames_add: "after_frames (after_frames s (Suc 0)) k = after_frames s (Suc k)"
  by (simp add: after_frames_def algebra_simps)

lemma emit_frames_eq:
  assumes "stt_ready s" and "sp_anchor s = Some a"
  shows "emit_frames s outputs =
    (let k = length (sp_pending s) div unat (sp_samplesPerOutputFrame s)
     in Some (after_frames s k, outputs @ map (stt_frame s) [0..<k]))"
  using assms
proof (induction "length (sp_pending s)" arbitrary: s outputs rule: less_induct)
  case less
  let ?n = "unat (sp_samplesPerOutputFrame s)"
  have n: "0 < ?n" using less.prems by (simp add: stt_ready_def word_less_nat_alt)
  show ?case
  proof (cases "?n \<le> length (sp_pending s)")
    case False
    then show ?thesis by (subst emit_frames.simps) (simp add: after_frames_def)
  next
    case True
    let ?s = "after_frames s 1"
    have s: "sp_pending ?s = drop ?n (sp_pending s)" "sp_samplesPerOutputFrame ?s = sp_samplesPerOutputFrame s"
      "stt_ready ?s" "sp_anchor ?s = Some a"
      using less.prems by (simp_all add: after_frames_def stt_ready_def)
    have k: "length (sp_pending s) div ?n = Suc ((length (sp_pending s) - ?n) div ?n)"
      using True n by (simp add: le_div_geq)
    have "emit_frames s outputs = emit_frames ?s (outputs @ [stt_frame s 0])"
      using True by (subst emit_frames.simps) (simp add: emit_frame_eq [OF less.prems])
    also have "\<dots> = Some (after_frames s (length (sp_pending s) div ?n),
        outputs @ stt_frame s 0 # map (stt_frame s) (map Suc [0..<(length (sp_pending s) - ?n) div ?n]))"
      using less.hyps [of ?s] True n s
      by (simp add: Let_def k stt_frame_shift after_frames_add comp_def)
    also have "stt_frame s 0 # map (stt_frame s) (map Suc [0..<(length (sp_pending s) - ?n) div ?n])
        = map (stt_frame s) [0..<length (sp_pending s) div ?n]"
      unfolding k map_Suc_upt by (simp only: upt_conv_Cons [OF zero_less_Suc] list.map)
    finally show ?thesis by (simp add: Let_def)
  qed
qed

section \<open>Streams\<close>

definition frame_samples :: "audio_frame \<Rightarrow> s16 list" where
  "frame_samples f = decode_s16 (fr_payload f)"

fun decimated :: "'d float_ops \<Rightarrow> channel_count \<Rightarrow> 'd fir_decimator \<Rightarrow> audio_frame list \<Rightarrow> s16 list" where
  "decimated F ch d [] = []"
| "decimated F ch d (f # fs) =
     (let d = (if fr_discontinuity f then fir_reset F d else d); (d', out) = fir_process F d (downmix ch f)
      in out @ decimated F ch d' fs)"

lemma chunks_concat: "concat (map (\<lambda>i. take n (drop (i * n) xs)) [0..<k]) @ drop (k * n) xs = xs"
proof (induction k)
  case (Suc k)
  have "take n (drop (k * n) xs) @ drop (Suc k * n) xs = drop (k * n) xs"
    by (metis append_take_drop_id drop_drop mult_Suc)
  with Suc show ?case by simp
qed simp

lemma stt_ingest_simps [simp]:
  "sp_config (stt_ingest F s f) = sp_config s"
  "sp_samplesPerOutputFrame (stt_ingest F s f) = sp_samplesPerOutputFrame s"
  "sp_nextSequence (stt_ingest F s f) = sp_nextSequence s"
  "sp_samplesEmitted (stt_ingest F s f) = sp_samplesEmitted s"
  "sp_anchor (stt_ingest F s f) = Some (case sp_anchor s of None \<Rightarrow> fr_timestamp f | Some a \<Rightarrow> a)"
  "sp_pendingDiscontinuity (stt_ingest F s f) = (fr_discontinuity f \<or> sp_pendingDiscontinuity s)"
  "sp_stats (stt_ingest F s f) = (sp_stats s)\<lparr>ss_framesIn := ss_framesIn (sp_stats s) + 1\<rparr>"
  by (simp_all add: stt_ingest_def Let_def split_beta split: option.split)

lemma stt_ingest_samples:
  "sp_pending (stt_ingest F s f) @ decimated F ch (sp_decimator (stt_ingest F s f)) fs
    = sp_pending s @ decimated F ch (sp_decimator s) (f # fs)"
  if "ch = tf_channels (sc_input (sp_config s))"
  using that by (simp add: stt_ingest_def Let_def split_beta)

lemma after_frames_simps [simp]:
  "sp_config (after_frames s k) = sp_config s"
  "sp_samplesPerOutputFrame (after_frames s k) = sp_samplesPerOutputFrame s"
  "sp_nextSequence (after_frames s k) = sp_nextSequence s + of_nat k"
  "sp_anchor (after_frames s k) = sp_anchor s"
  "sp_decimator (after_frames s k) = sp_decimator s"
  "sp_samplesEmitted (after_frames s k) = sp_samplesEmitted s + of_nat k * sp_samplesPerOutputFrame s"
  "sp_pending (after_frames s k) = drop (k * unat (sp_samplesPerOutputFrame s)) (sp_pending s)"
  "sp_pendingDiscontinuity (after_frames s k) = (sp_pendingDiscontinuity s \<and> k = 0)"
  "sp_stats (after_frames s k) = (sp_stats s)\<lparr>ss_framesOut := ss_framesOut (sp_stats s) + of_nat k\<rparr>"
  by (simp_all add: after_frames_def)

lemma stt_process_accepted:
  assumes "stt_ready s" and "stt_accepts (sp_config s) f" and "0 \<le> fr_timestamp f" and "fr_timestamp f \<le> 2 ^ 62"
  shows "stt_process F s f = (let k = length (sp_pending (stt_ingest F s f)) div unat (sp_samplesPerOutputFrame s)
    in Some (after_frames (stt_ingest F s f) k, map (stt_frame (stt_ingest F s f)) [0..<k]))"
    and "stt_ready (after_frames (stt_ingest F s f) k)"
proof -
  have "stt_ready (stt_ingest F s f)"
    using assms by (auto simp: stt_ready_def split: option.split)
  from emit_frames_eq [OF this stt_ingest_simps(5), of "[]"] assms(2)
  show "stt_process F s f = (let k = length (sp_pending (stt_ingest F s f)) div unat (sp_samplesPerOutputFrame s)
    in Some (after_frames (stt_ingest F s f) k, map (stt_frame (stt_ingest F s f)) [0..<k]))"
    by (simp add: stt_process_def)
  show "stt_ready (after_frames (stt_ingest F s f) k)"
    using assms by (auto simp: stt_ready_def split: option.split)
qed

text \<open>What a run from \<open>s\<close> to \<open>s'\<close> over \<open>fs\<close> has emitted.\<close>

definition stt_anchor :: "'d stt_producer \<Rightarrow> audio_frame list \<Rightarrow> timestamp" where
  "stt_anchor s fs = (case sp_anchor s of Some a \<Rightarrow> a
     | None \<Rightarrow> fr_timestamp (hd (filter (stt_accepts (sp_config s)) fs)))"

definition stt_emitted :: "'d float_ops \<Rightarrow> 'd stt_producer \<Rightarrow> 'd stt_producer \<Rightarrow> audio_frame list
    \<Rightarrow> audio_frame list \<Rightarrow> bool" where
  "stt_emitted F s s' fs outs \<longleftrightarrow>
     (let accepted = filter (stt_accepts (sp_config s)) fs; n = sp_samplesPerOutputFrame s;
          hz = tf_sampleRate (sc_output (sp_config s))
      in concat (map frame_samples outs) @ sp_pending s'
           = sp_pending s @ decimated F (tf_channels (sc_input (sp_config s))) (sp_decimator s) accepted
       \<and> (\<forall>g \<in> set outs. length (frame_samples g) = unat n \<and> fr_track g = SttStream
            \<and> fr_sampleRate g = hz \<and> fr_channels g = tf_channels (sc_output (sp_config s))
            \<and> fr_format g = PcmS16Le)
       \<and> map fr_sequence outs = map (\<lambda>i. sp_nextSequence s + of_nat i) [0..<length outs]
       \<and> map fr_timestamp outs
           = map (\<lambda>i. stt_anchor s fs + stt_elapsed hz (sp_samplesEmitted s + of_nat i * n)) [0..<length outs]
       \<and> sp_nextSequence s' = sp_nextSequence s + of_nat (length outs)
       \<and> sp_samplesEmitted s' = sp_samplesEmitted s + of_nat (length outs) * n
       \<and> ss_framesIn (sp_stats s') = ss_framesIn (sp_stats s) + of_nat (length accepted)
       \<and> ss_framesOut (sp_stats s') = ss_framesOut (sp_stats s) + of_nat (length outs)
       \<and> ss_rejectedFrames (sp_stats s') = ss_rejectedFrames (sp_stats s)
           + of_nat (length fs - length accepted)
       \<and> sp_config s' = sp_config s \<and> sp_samplesPerOutputFrame s' = n)"

lemma stt_step_emitted:
  assumes r: "stt_ready s" and t: "0 \<le> fr_timestamp f" "fr_timestamp f \<le> 2 ^ 62"
    and p: "length (sp_pending s) < unat (sp_samplesPerOutputFrame s)"
  shows "\<exists>s' outs. stt_process F s f = Some (s', outs) \<and> stt_emitted F s s' [f] outs \<and> stt_ready s'
    \<and> length (sp_pending s') < unat (sp_samplesPerOutputFrame s)
    \<and> (stt_accepts (sp_config s) f \<longrightarrow> sp_anchor s' = Some (stt_anchor s [f]))
    \<and> (\<not> stt_accepts (sp_config s) f \<longrightarrow> sp_anchor s' = sp_anchor s \<and> outs = [] \<and> sp_decimator s' = sp_decimator s)
    \<and> (stt_accepts (sp_config s) f \<longrightarrow> sp_decimator s' = sp_decimator (stt_ingest F s f))"
proof (cases "stt_accepts (sp_config s) f")
  case False
  with r p show ?thesis
    by (simp add: stt_process_def stt_emitted_def stt_ready_def Let_def)
next
  case True
  let ?s = "stt_ingest F s f" and ?n = "unat (sp_samplesPerOutputFrame s)"
  let ?k = "length (sp_pending ?s) div ?n"
  let ?outs = "map (stt_frame ?s) [0..<?k]"
  have n: "0 < ?n" using r by (simp add: stt_ready_def word_less_nat_alt)
  have fs: "frame_samples (stt_frame ?s i) = take ?n (drop (i * ?n) (sp_pending ?s))" for i
    by (simp add: frame_samples_def stt_frame_def Let_def)
  have le: "Suc i * ?n \<le> length (sp_pending ?s)" if "i < ?k" for i
    using that n by (metis Suc_leI less_eq_div_iff_mult_less_eq)
  have len: "length (frame_samples (stt_frame ?s i)) = ?n" if "i < ?k" for i
    using le [OF that] by (simp add: fs)
  have samples: "concat (map frame_samples ?outs) @ sp_pending (after_frames ?s ?k)
      = sp_pending s @ decimated F (tf_channels (sc_input (sp_config s))) (sp_decimator s) [f]"
    using chunks_concat [of ?n "sp_pending ?s" ?k]
      stt_ingest_samples [OF refl, where s = s and f = f and fs = "[]" and F = F]
    by (simp add: comp_def fs)
  have "stt_emitted F s (after_frames ?s ?k) [f] ?outs"
    unfolding stt_emitted_def Let_def
    using samples True len
    by (auto simp: stt_frame_def Let_def stt_anchor_def split: option.split)
  moreover have "length (sp_pending (after_frames ?s ?k)) < ?n"
    using n by (simp add: modulo_nat_def [symmetric] minus_div_mult_eq_mod)
  ultimately show ?thesis
    using stt_process_accepted [OF r True t, of F] True
    by (simp add: Let_def stt_anchor_def split: option.split)
qed

lemma stt_emitted_append:
  assumes a: "stt_emitted F s s1 [f] out" and b: "stt_emitted F s1 s' fs outs"
    and anchor: "stt_accepts (sp_config s) f \<Longrightarrow> sp_anchor s1 = Some (stt_anchor s [f])
        \<and> sp_decimator s1 = sp_decimator (stt_ingest F s f)"
      "\<not> stt_accepts (sp_config s) f \<Longrightarrow> sp_anchor s1 = sp_anchor s \<and> out = []
        \<and> sp_decimator s1 = sp_decimator s"
  shows "stt_emitted F s s' (f # fs) (out @ outs)"
proof -
  let ?acc = "filter (stt_accepts (sp_config s)) fs" and ?ch = "tf_channels (sc_input (sp_config s))"
  let ?n = "sp_samplesPerOutputFrame s" and ?hz = "tf_sampleRate (sc_output (sp_config s))"
  have c: "sp_config s1 = sp_config s" "sp_samplesPerOutputFrame s1 = ?n"
    using a by (simp_all add: stt_emitted_def Let_def)
  have A: "stt_anchor s1 fs = stt_anchor s (f # fs)" "stt_anchor s (f # fs) = stt_anchor s [f] \<or> out = []"
    using anchor c by (auto simp: stt_anchor_def split: option.splits)
  have d: "decimated F ?ch (sp_decimator s) (filter (stt_accepts (sp_config s)) [f]) @ decimated F ?ch (sp_decimator s1) ?acc
      = decimated F ?ch (sp_decimator s) (filter (stt_accepts (sp_config s)) (f # fs))"
  proof (cases "stt_accepts (sp_config s) f")
    case True
    have "sp_decimator (stt_ingest F s f) = fst (fir_process F
        (if fr_discontinuity f then fir_reset F (sp_decimator s) else sp_decimator s) (downmix ?ch f))"
      by (simp add: stt_ingest_def Let_def split_beta)
    with True anchor(1) show ?thesis by (simp add: split_beta Let_def)
  qed (use anchor(2) in simp)
  have "concat (map frame_samples (out @ outs)) @ sp_pending s'
      = concat (map frame_samples out) @ sp_pending s1 @ decimated F ?ch (sp_decimator s1) ?acc"
    using b c by (simp add: stt_emitted_def Let_def)
  also have "\<dots> = (concat (map frame_samples out) @ sp_pending s1) @ decimated F ?ch (sp_decimator s1) ?acc"
    by simp
  also have "\<dots> = sp_pending s @ decimated F ?ch (sp_decimator s) (filter (stt_accepts (sp_config s)) (f # fs))"
    using a unfolding d [symmetric] by (simp add: stt_emitted_def Let_def)
  finally have 1: "concat (map frame_samples (out @ outs)) @ sp_pending s'
    = sp_pending s @ decimated F ?ch (sp_decimator s) (filter (stt_accepts (sp_config s)) (f # fs))" .
  have 2: "map fr_sequence (out @ outs) = map (\<lambda>i. sp_nextSequence s + of_nat i) [0..<length (out @ outs)]"
    using a b by (simp add: stt_emitted_def Let_def upt_add_eq_append [of 0] map_upt_shift add.assoc)
  have 3: "map fr_timestamp (out @ outs) = map (\<lambda>i. stt_anchor s (f # fs)
      + stt_elapsed ?hz (sp_samplesEmitted s + of_nat i * ?n)) [0..<length (out @ outs)]"
    using a b c A by (auto simp: stt_emitted_def Let_def upt_add_eq_append [of 0] map_upt_shift algebra_simps)
  have 4: "ss_rejectedFrames (sp_stats s') = ss_rejectedFrames (sp_stats s)
      + of_nat (length (f # fs) - length (filter (stt_accepts (sp_config s)) (f # fs)))"
    using a b c length_filter_le [of "stt_accepts (sp_config s)" fs]
    by (auto simp: stt_emitted_def Let_def Suc_diff_le)
  show ?thesis
    unfolding stt_emitted_def Let_def
    using a b c 1 2 3 4 by (auto simp: stt_emitted_def Let_def algebra_simps)
qed

lemma stt_process_all_emitted:
  assumes "stt_ready s" and "length (sp_pending s) < unat (sp_samplesPerOutputFrame s)"
    and "\<forall>f \<in> set fs. 0 \<le> fr_timestamp f \<and> fr_timestamp f \<le> 2 ^ 62"
  shows "\<exists>s' outs. stt_process_all F s fs = Some (s', outs) \<and> stt_emitted F s s' fs outs
    \<and> length (sp_pending s') < unat (sp_samplesPerOutputFrame s)"
  using assms
proof (induction fs arbitrary: s)
  case Nil
  then show ?case by (simp add: stt_emitted_def Let_def)
next
  case (Cons f fs)
  from stt_step_emitted [OF Cons.prems(1) _ _ Cons.prems(2), of f F] Cons.prems(3) obtain s1 out where
    1: "stt_process F s f = Some (s1, out)" "stt_emitted F s s1 [f] out" "stt_ready s1"
      "length (sp_pending s1) < unat (sp_samplesPerOutputFrame s)"
      "stt_accepts (sp_config s) f \<longrightarrow> sp_anchor s1 = Some (stt_anchor s [f])"
      "\<not> stt_accepts (sp_config s) f \<longrightarrow> sp_anchor s1 = sp_anchor s \<and> out = [] \<and> sp_decimator s1 = sp_decimator s"
      "stt_accepts (sp_config s) f \<longrightarrow> sp_decimator s1 = sp_decimator (stt_ingest F s f)"
    by auto
  have n: "sp_samplesPerOutputFrame s1 = sp_samplesPerOutputFrame s"
    using 1(2) by (simp add: stt_emitted_def Let_def)
  with Cons.IH [of s1] 1 Cons.prems(3) obtain s' outs where
    2: "stt_process_all F s1 fs = Some (s', outs)" "stt_emitted F s1 s' fs outs"
      "length (sp_pending s') < unat (sp_samplesPerOutputFrame s)"
    by auto
  have "stt_emitted F s s' (f # fs) (out @ outs)"
    using 1(5-7) by (intro stt_emitted_append [OF 1(2) 2(2)]) auto
  with 1(1) 2 show ?case by simp
qed

section \<open>A stream from a new producer\<close>

lemma create_Some:
  assumes "create F config = Some p"
  shows "p = new_stt_producer F config" and "0 < sp_samplesPerOutputFrame p"
    and "tf_channels (sc_output config) = 1" and "tf_format (sc_output config) = PcmS16Le"
  using assms by (auto simp: create_def Let_def new_stt_producer_def word_gt_0 split: if_splits)

lemma stt_created_run:
  assumes "create F config = Some p" and "8 \<le> tf_sampleRate (sc_output config)"
    and "\<forall>f \<in> set fs. 0 \<le> fr_timestamp f \<and> fr_timestamp f \<le> 2 ^ 62"
  shows "\<exists>s outs. stt_process_all F p fs = Some (s, outs) \<and> stt_emitted F p s fs outs
    \<and> length (sp_pending s) < unat (sp_samplesPerOutputFrame p)"
proof -
  have "stt_ready p" "length (sp_pending p) < unat (sp_samplesPerOutputFrame p)"
    using create_Some [OF assms(1)] assms(2)
    by (simp_all add: stt_ready_def new_stt_producer_def word_less_nat_alt)
  from stt_process_all_emitted [OF this assms(3)] show ?thesis .
qed

text \<open>C19: The STT stream is complete and regular: a producer the code creates (at an output rate of at
  least 8 Hz, for timestamps between 0 and \<open>2 ^ 62\<close> ns) never overflows and never loops; the
  frames it emits are the decimated samples of the accepted input in order, cut without
  loss into frames of exactly the configured size, less than one frame staying buffered;
  they are numbered 0, 1, 2, ...; and every input frame is counted as taken or rejected.\<close>

theorem stt_stream_loses_nothing:
  assumes "create F config = Some p" and "8 \<le> tf_sampleRate (sc_output config)"
    and "\<forall>f \<in> set fs. 0 \<le> fr_timestamp f \<and> fr_timestamp f \<le> 2 ^ 62"
  shows "\<exists>s outs. stt_process_all F p fs = Some (s, outs)
    \<and> concat (map frame_samples outs) @ sp_pending s = decimated F (tf_channels (sc_input config))
        (sp_decimator p) (filter (stt_accepts config) fs)
    \<and> (\<forall>g \<in> set outs. length (frame_samples g) = unat (sp_samplesPerOutputFrame p)
         \<and> fr_track g = SttStream \<and> fr_sampleRate g = tf_sampleRate (sc_output config)
         \<and> fr_channels g = 1 \<and> fr_format g = PcmS16Le)
    \<and> length (sp_pending s) < unat (sp_samplesPerOutputFrame p)
    \<and> map fr_sequence outs = map of_nat [0..<length outs]
    \<and> ss_framesIn (sp_stats s) + ss_rejectedFrames (sp_stats s) = of_nat (length fs)
    \<and> ss_framesOut (sp_stats s) = of_nat (length outs)"
proof -
  note p = create_Some [OF assms(1)]
  from stt_created_run [OF assms] obtain s outs where r: "stt_process_all F p fs = Some (s, outs)"
    "stt_emitted F p s fs outs" "length (sp_pending s) < unat (sp_samplesPerOutputFrame p)" by blast
  have "of_nat (length (filter (stt_accepts config) fs)) + of_nat (length fs - length (filter (stt_accepts config) fs))
      = (of_nat (length fs) :: u64)"
    by (simp flip: of_nat_add add: length_filter_le)
  with r p show ?thesis
    by (intro exI [of _ s] exI [of _ outs]) (simp add: stt_emitted_def Let_def new_stt_producer_def)
qed

definition stt_config_48k :: stt_stream_config where
  "stt_config_48k = \<lparr>sc_input = \<lparr>tf_sampleRate = 48000, tf_channels = 1, tf_format = PcmS16Le\<rparr>,
     sc_output = \<lparr>tf_sampleRate = 16000, tf_channels = 1, tf_format = PcmS16Le\<rparr>, sc_frameDuration = 100\<rparr>"

lemma create_48k: "create real_ops stt_config_48k = Some (new_stt_producer real_ops stt_config_48k)"
  by (simp add: create_def stt_config_48k_def samplesPerChannel_def Let_def)

definition stt_input_frame :: "timestamp \<Rightarrow> audio_frame" where
  "stt_input_frame t = \<lparr>fr_track = Microphone, fr_sequence = 0, fr_timestamp = t, fr_sampleRate = 48000,
     fr_channels = 1, fr_format = PcmS16Le, fr_discontinuity = False, fr_payload = [1, 2, 3, 4]\<rparr>"

theorem stt_stream_loses_nothing_witness:
  "\<exists>s outs. stt_process_all real_ops (new_stt_producer real_ops stt_config_48k)
       [stt_input_frame 0, stt_input_frame 41666] = Some (s, outs)
     \<and> map fr_sequence outs = map of_nat [0..<length outs]"
proof -
  have "\<forall>f \<in> set [stt_input_frame 0, stt_input_frame 41666]. 0 \<le> fr_timestamp f \<and> fr_timestamp f \<le> 2 ^ 62"
    by (simp add: stt_input_frame_def)
  from stt_stream_loses_nothing [OF create_48k _ this] show ?thesis
    by (auto simp: stt_config_48k_def)
qed

text \<open>Timestamps of the STT stream: output frame \<open>i\<close> is stamped with the time of the first accepted
  input frame plus the duration of the \<open>i * n\<close> samples before it, exactly, as long as the
  product of the sample count and \<open>10 ^ 9\<close> fits 64 bits (320 hours at 16 kHz).\<close>

theorem stt_timestamps_follow_samples:
  assumes "create F config = Some p" and "8 \<le> tf_sampleRate (sc_output config)"
    and "\<forall>f \<in> set fs. 0 \<le> fr_timestamp f \<and> fr_timestamp f \<le> 2 ^ 62"
    and "stt_process_all F p fs = Some (s, outs)" and "i < length outs"
    and "int (i * unat (sp_samplesPerOutputFrame p)) * 1000000000 < 2 ^ 64"
  shows "fr_timestamp (outs ! i) = fr_timestamp (hd (filter (stt_accepts config) fs))
    + int (i * unat (sp_samplesPerOutputFrame p)) * 1000000000 div uint (tf_sampleRate (sc_output config))"
proof -
  note p = create_Some [OF assms(1)]
  let ?n = "sp_samplesPerOutputFrame p" and ?hz = "tf_sampleRate (sc_output config)"
  from stt_created_run [OF assms(1-3)] assms(4)
  have "map fr_timestamp outs = map (\<lambda>i. stt_anchor p fs + stt_elapsed ?hz (of_nat i * ?n)) [0..<length outs]"
    by (auto simp: stt_emitted_def Let_def p(1) new_stt_producer_def)
  then have "map fr_timestamp outs ! i = stt_anchor p fs + stt_elapsed ?hz (of_nat i * ?n)"
    using assms(5) by simp
  then have t: "fr_timestamp (outs ! i) = stt_anchor p fs + stt_elapsed ?hz (of_nat i * ?n)"
    using assms(5) by simp
  define N where "N = i * unat ?n"
  have "N < 2 ^ 64" using assms(6) unfolding N_def [symmetric] by simp
  moreover have "of_nat i * ?n = (of_nat N :: u64)" by (simp add: N_def)
  ultimately have u: "uint (of_nat i * ?n) = int (i * unat ?n)"
    unfolding N_def [symmetric] by (simp only:) (rule uint_of_nat_small)
  have "stt_elapsed ?hz (of_nat i * ?n) = int (i * unat ?n) * 1000000000 div uint ?hz"
    using stt_elapsed_bounds(3) [OF assms(2), of "of_nat i * ?n" 1000000000] assms(6) unfolding u by simp
  then show ?thesis unfolding t by (simp add: stt_anchor_def p(1) new_stt_producer_def)
qed

definition stt_config_1k :: stt_stream_config where
  "stt_config_1k = \<lparr>sc_input = \<lparr>tf_sampleRate = 1000, tf_channels = 1, tf_format = PcmS16Le\<rparr>,
     sc_output = \<lparr>tf_sampleRate = 1000, tf_channels = 1, tf_format = PcmS16Le\<rparr>, sc_frameDuration = 1\<rparr>"

theorem stt_timestamps_follow_samples_witness:
  "\<exists>s outs. stt_process_all real_ops (new_stt_producer real_ops stt_config_1k)
       [(stt_input_frame 70)\<lparr>fr_sampleRate := 1000\<rparr>] = Some (s, outs)
     \<and> fr_timestamp (outs ! 1) = 1000070"
proof -
  let ?f = "(stt_input_frame 70)\<lparr>fr_sampleRate := 1000\<rparr>" and ?p = "new_stt_producer real_ops stt_config_1k"
  have c: "create real_ops stt_config_1k = Some ?p"
    by (simp add: create_def stt_config_1k_def samplesPerChannel_def Let_def)
  have hz: "8 \<le> tf_sampleRate (sc_output stt_config_1k)" by (simp add: stt_config_1k_def)
  have t: "\<forall>f \<in> set [?f]. 0 \<le> fr_timestamp f \<and> fr_timestamp f \<le> 2 ^ 62"
    by (simp add: stt_input_frame_def)
  have n: "sp_samplesPerOutputFrame ?p = 1" "sp_config ?p = stt_config_1k"
    "sp_decimator ?p = new_fir real_ops 1 63" "sp_pending ?p = []"
    by (simp_all add: new_stt_producer_def stt_config_1k_def samplesPerChannel_def)
  have acc: "stt_accepts stt_config_1k ?f" by (simp add: stt_accepts_def stt_config_1k_def stt_input_frame_def)
  from stt_created_run [OF c hz t] obtain s outs where r: "stt_process_all real_ops ?p [?f] = Some (s, outs)"
    "stt_emitted real_ops ?p s [?f] outs" "length (sp_pending s) < 1" by (auto simp: n)
  have "length (decimated real_ops 1 (new_fir real_ops 1 63) [?f]) = 2"
  proof -
    have "decimated real_ops 1 (new_fir real_ops 1 63) [?f] = snd (fir_process real_ops (new_fir real_ops 1 63) (downmix 1 ?f))"
      by (simp add: split_beta Let_def stt_input_frame_def)
    moreover have "length (downmix 1 ?f) = 2"
      by (simp add: downmix_def stt_input_frame_def sampleCountPerChannel_def)
    ultimately show ?thesis by (simp only: new_fir_run) (simp add: length_fir_outputs)
  qed
  moreover have ch: "tf_channels (sc_input stt_config_1k) = 1" by (simp add: stt_config_1k_def)
  ultimately have "length (concat (map frame_samples outs)) = 2"
    using r(2,3) unfolding stt_emitted_def Let_def n ch by (simp add: acc)
  moreover have "length (concat (map frame_samples outs)) = length outs"
  proof -
    have "\<forall>g \<in> set outs. length (frame_samples g) = 1"
      using r(2) unfolding stt_emitted_def Let_def n by simp
    then show ?thesis by (induction outs) simp_all
  qed
  ultimately have "1 < length outs" by simp
  moreover have v: "unat (sp_samplesPerOutputFrame ?p) = 1" "hd (filter (stt_accepts stt_config_1k) [?f]) = ?f"
    "fr_timestamp ?f = 70" "tf_sampleRate (sc_output stt_config_1k) = 1000"
    by (simp_all only: n acc filter.simps if_True list.sel) (simp_all add: stt_input_frame_def stt_config_1k_def)
  ultimately have "fr_timestamp (outs ! 1) = 1000070"
    using stt_timestamps_follow_samples [OF c hz t r(1), of 1, unfolded v] by simp
  with r(1) show ?thesis by blast
qed

text \<open>A discontinuity reaches the consumer: after an accepted frame, the first frame that leaves, now
  or with a later input, carries the discontinuity flag exactly if this input or an
  earlier one not yet passed on was discontinuous; later frames do not repeat it.\<close>

theorem stt_discontinuity_marks_next_frame:
  assumes "stt_ready s" and "stt_accepts (sp_config s) f" and "0 \<le> fr_timestamp f" and "fr_timestamp f \<le> 2 ^ 62"
    and "stt_process F s f = Some (s', outs)"
  shows "map fr_discontinuity outs = take (length outs)
      ((fr_discontinuity f \<or> sp_pendingDiscontinuity s) # replicate (length outs) False)
    \<and> sp_pendingDiscontinuity s' = ((fr_discontinuity f \<or> sp_pendingDiscontinuity s) \<and> outs = [])"
proof -
  let ?s = "stt_ingest F s f"
  define k where "k = length (sp_pending ?s) div unat (sp_samplesPerOutputFrame s)"
  from stt_process_accepted(1) [OF assms(1-4), of F] assms(5)
  have o: "outs = map (stt_frame ?s) [0..<k]" "s' = after_frames ?s k" by (simp_all add: Let_def k_def)
  have "map fr_discontinuity outs = map (\<lambda>i. (fr_discontinuity f \<or> sp_pendingDiscontinuity s) \<and> i = 0) [0..<k]"
    by (simp add: o stt_frame_def Let_def)
  also have "\<dots> = take k ((fr_discontinuity f \<or> sp_pendingDiscontinuity s) # replicate k False)"
    by (rule nth_equalityI) (auto simp: nth_Cons split: nat.split)
  finally show ?thesis by (auto simp: o)
qed

theorem stt_discontinuity_marks_next_frame_witness:
  "\<exists>s' outs. stt_process real_ops (new_stt_producer real_ops stt_config_48k)
      ((stt_input_frame 0)\<lparr>fr_discontinuity := True\<rparr>) = Some (s', outs)
    \<and> sp_pendingDiscontinuity s' = (outs = [])"
proof -
  let ?p = "new_stt_producer real_ops stt_config_48k"
  let ?f = "(stt_input_frame 0)\<lparr>fr_discontinuity := True\<rparr>"
  have r: "stt_ready ?p" "stt_accepts (sp_config ?p) ?f" "0 \<le> fr_timestamp ?f" "fr_timestamp ?f \<le> 2 ^ 62"
    by (simp_all add: stt_ready_def new_stt_producer_def stt_config_48k_def samplesPerChannel_def
        stt_accepts_def stt_input_frame_def)
  obtain s' outs where p: "stt_process real_ops ?p ?f = Some (s', outs)"
    using stt_process_accepted(1) [OF r, of real_ops] by (auto simp: Let_def)
  from stt_discontinuity_marks_next_frame [OF r p] p show ?thesis by auto
qed

end
