(* ===== verification/Capture.thy ===== *)
theory Capture
  imports AudioTypes
begin

text \<open>
  The contract between a capture stream and its sink (\<open>audio-core/include/voxmesh/audio/capture.hpp\<close>,
  \<open>IAudioFrameSink\<close> and \<open>IAudioCaptureStream\<close>): every frame is offered with the next
  sequence number, a refused or skipped frame is counted and the next offered frame is
  flagged discontinuous, and after \<open>stop\<close> nothing is offered. The locale states it for
  any stream and the deliveries it logs; the fake and the WASAPI backends are its interpretations.
  The WASAPI backend logs no \<open>Skipped\<close> delivery: it does not learn how many frames its device skipped.
\<close>

section \<open>Deliveries\<close>

datatype delivery =
    Accepted audio_frame   \<comment> \<open>\<open>onFrame\<close> returned true\<close>
  | Refused audio_frame    \<comment> \<open>\<open>onFrame\<close> returned false\<close>
  | Skipped nat            \<comment> \<open>frames the device lost\<close>
  | TimelineBreak          \<comment> \<open>a jump of the device's timeline\<close>

text \<open>What the stream knows about its deliveries.\<close>

record ledger =
  lg_sequence :: sequence_number
  lg_pending :: bool
  lg_emitted :: u64
  lg_dropped :: u64

fun offer_ok :: "ledger \<Rightarrow> delivery \<Rightarrow> bool" where
  "offer_ok l (Accepted f) = (fr_sequence f = lg_sequence l \<and> (lg_pending l \<longrightarrow> fr_discontinuity f))"
| "offer_ok l (Refused f) = (fr_sequence f = lg_sequence l \<and> (lg_pending l \<longrightarrow> fr_discontinuity f))"
| "offer_ok l (Skipped n) = (0 < n)"
| "offer_ok l TimelineBreak = True"

fun record_delivery :: "ledger \<Rightarrow> delivery \<Rightarrow> ledger" where
  "record_delivery l (Accepted f) = l\<lparr>lg_sequence := lg_sequence l + 1, lg_pending := False,
     lg_emitted := lg_emitted l + 1\<rparr>"
| "record_delivery l (Refused f) = l\<lparr>lg_sequence := lg_sequence l + 1, lg_pending := True,
     lg_dropped := lg_dropped l + 1\<rparr>"
| "record_delivery l (Skipped n) = l\<lparr>lg_sequence := lg_sequence l + of_nat n, lg_pending := True,
     lg_dropped := lg_dropped l + of_nat n\<rparr>"
| "record_delivery l TimelineBreak = l\<lparr>lg_pending := True\<rparr>"

fun deliveries :: "ledger \<Rightarrow> delivery list \<Rightarrow> ledger \<Rightarrow> bool" where
  "deliveries l [] l' = (l' = l)"
| "deliveries l (d # ds) l' = (offer_ok l d \<and> deliveries (record_delivery l d) ds l')"

fun accepted_frames :: "delivery list \<Rightarrow> audio_frame list" where
  "accepted_frames [] = []"
| "accepted_frames (Accepted f # ds) = f # accepted_frames ds"
| "accepted_frames (_ # ds) = accepted_frames ds"

fun lost_frames :: "delivery list \<Rightarrow> nat" where
  "lost_frames [] = 0"
| "lost_frames (Refused _ # ds) = Suc (lost_frames ds)"
| "lost_frames (Skipped n # ds) = n + lost_frames ds"
| "lost_frames (_ # ds) = lost_frames ds"

lemma deliveries_append:
  "deliveries l (ds @ es) l'' \<longleftrightarrow> (\<exists>l'. deliveries l ds l' \<and> deliveries l' es l'')"
  by (induction ds arbitrary: l) auto

lemma accepted_frames_append [simp]: "accepted_frames (ds @ es) = accepted_frames ds @ accepted_frames es"
  by (induction ds rule: accepted_frames.induct) simp_all

lemma lost_frames_append [simp]: "lost_frames (ds @ es) = lost_frames ds + lost_frames es"
  by (induction ds rule: lost_frames.induct) simp_all

lemma deliveries_counts:
  "deliveries l ds l' \<Longrightarrow> lg_emitted l' = lg_emitted l + of_nat (length (accepted_frames ds))
     \<and> lg_dropped l' = lg_dropped l + of_nat (lost_frames ds)
     \<and> lg_sequence l' = lg_sequence l + of_nat (length (accepted_frames ds) + lost_frames ds)"
proof (induction ds arbitrary: l)
  case (Cons d ds)
  then show ?case by (cases d) (auto simp: algebra_simps)
qed simp

text \<open>
  No silent loss: of two frames accepted one after the other, the second is flagged unless it
  carries the very next sequence number; the first one is flagged if something was pending
  or its number is not the expected one.
\<close>

fun no_silent_loss :: "bool \<Rightarrow> sequence_number \<Rightarrow> audio_frame list \<Rightarrow> bool" where
  "no_silent_loss pending next [] = True"
| "no_silent_loss pending next (f # fs) \<longleftrightarrow>
     (fr_discontinuity f \<or> \<not> pending \<and> fr_sequence f = next) \<and> no_silent_loss False (fr_sequence f + 1) fs"

lemma no_silent_loss_True: "no_silent_loss True n fs \<Longrightarrow> no_silent_loss p m fs"
  by (cases fs) auto

lemma deliveries_no_silent_loss:
  "deliveries l ds l' \<Longrightarrow> no_silent_loss (lg_pending l) (lg_sequence l) (accepted_frames ds)"
proof (induction ds arbitrary: l)
  case (Cons d ds)
  show ?case
  proof (cases d)
    case (Accepted f)
    with Cons.prems Cons.IH [of "record_delivery l d"] show ?thesis by auto
  next
    case (Refused f)
    with Cons.prems Cons.IH [of "record_delivery l d"] show ?thesis
      by (auto intro: no_silent_loss_True)
  next
    case (Skipped n)
    with Cons.prems Cons.IH [of "record_delivery l d"] show ?thesis
      by (auto intro: no_silent_loss_True)
  next
    case TimelineBreak
    with Cons.prems Cons.IH [of "record_delivery l d"] show ?thesis
      by (auto intro: no_silent_loss_True)
  qed
qed simp

section \<open>The contract of a stream\<close>

text \<open>
  \<open>step s i\<close> performs one call or one event of the capture thread on the stream and its sink,
  and logs the deliveries; \<open>None\<close> is undefined behaviour.
\<close>

locale frame_source =
  fixes step :: "'s \<Rightarrow> 'i \<Rightarrow> ('s \<times> delivery list) option"
    and ledger_of :: "'s \<Rightarrow> ledger"
    and stopped :: "'s \<Rightarrow> bool"
  assumes step_deliveries: "step s i = Some (s', ds) \<Longrightarrow> deliveries (ledger_of s) ds (ledger_of s')"
    and step_stopped: "stopped s \<Longrightarrow> step s i = Some (s', ds) \<Longrightarrow> ds = [] \<and> stopped s'"
begin

fun run :: "'s \<Rightarrow> 'i list \<Rightarrow> ('s \<times> delivery list) option" where
  "run s [] = Some (s, [])"
| "run s (i # is) = do {
     (s', ds) \<leftarrow> step s i;
     (s'', es) \<leftarrow> run s' is;
     Some (s'', ds @ es) }"

lemma run_append:
  "run s (is @ js) = do {
     (s', ds) \<leftarrow> run s is;
     (s'', es) \<leftarrow> run s' js;
     Some (s'', ds @ es) }"
  by (induction "is" arbitrary: s) (auto split: Option.bind_splits)

lemma run_deliveries: "run s is = Some (s', ds) \<Longrightarrow> deliveries (ledger_of s) ds (ledger_of s')"
proof (induction "is" arbitrary: s ds)
  case (Cons i "is")
  then obtain s1 d1 d2 where "step s i = Some (s1, d1)" "run s1 is = Some (s', d2)" "ds = d1 @ d2"
    by (auto simp: bind_eq_Some_conv)
  then show ?case using step_deliveries [of s i s1 d1] Cons.IH [of s1 d2]
    by (auto simp: deliveries_append)
qed simp

lemma run_stopped: "stopped s \<Longrightarrow> run s is = Some (s', ds) \<Longrightarrow> ds = [] \<and> stopped s'"
proof (induction "is" arbitrary: s ds)
  case (Cons i "is")
  then obtain s1 d1 d2 where "step s i = Some (s1, d1)" "run s1 is = Some (s', d2)" "ds = d1 @ d2"
    by (auto simp: bind_eq_Some_conv)
  then show ?case using step_stopped [OF Cons.prems(1), of i s1 d1] Cons.IH [of s1 d2] by auto
qed simp

lemma run_accounts:
  assumes "run s is = Some (s', ds)"
  shows "lg_emitted (ledger_of s') = lg_emitted (ledger_of s) + of_nat (length (accepted_frames ds))
     \<and> lg_dropped (ledger_of s') = lg_dropped (ledger_of s) + of_nat (lost_frames ds)
     \<and> lg_sequence (ledger_of s')
       = lg_sequence (ledger_of s) + of_nat (length (accepted_frames ds) + lost_frames ds)
     \<and> no_silent_loss (lg_pending (ledger_of s)) (lg_sequence (ledger_of s)) (accepted_frames ds)"
  using deliveries_counts deliveries_no_silent_loss run_deliveries [OF assms] by blast

end

end
