(* ===== verification/SignalGenerator.thy ===== *)
theory SignalGenerator
  imports AudioTypes Floats
begin

text \<open>
  The deterministic signal source of the fake backend
  (\<open>audio-core/include/voxmesh/audio/testing/signal_generator.hpp\<close>,
  \<open>audio-core/src/testing/signal_generator.cpp\<close>), over any \<open>double\<close> arithmetic.
\<close>

datatype waveform = Silence | Ramp | Sine

record 'd generator_config =
  gc_waveform :: waveform
  gc_sampleRate :: sample_rate
  gc_channels :: channel_count
  gc_frequencyHz :: 'd
  gc_amplitude :: 'd

record 'd signal_generator =
  sg_config :: "'d generator_config"
  sg_position :: u64
  sg_samplesPerPeriod :: u64

definition clampToInt16 :: "'d float_ops \<Rightarrow> 'd \<Rightarrow> s16" where
  "clampToInt16 F x =
     (let lo = f_lit F (- 32768); hi = f_lit F 32767;
          clamped = (if f_less F x lo then lo else if f_less F hi x then hi else x)
      in word_of_int (f_lround F clamped))"

definition new_generator :: "'d float_ops \<Rightarrow> 'd generator_config \<Rightarrow> 'd signal_generator" where
  "new_generator F config = \<lparr>sg_config = config, sg_position = 0,
     sg_samplesPerPeriod =
       (if f_less F (f_lit F 0) (gc_frequencyHz config)
        then max 1 (word_of_int (f_lround F
               (f_div F (f_int F (uint (gc_sampleRate config))) (gc_frequencyHz config))))
        else 1)\<rparr>"

definition sampleAt :: "'d float_ops \<Rightarrow> 'd signal_generator \<Rightarrow> u64 \<Rightarrow> s16" where
  "sampleAt F g position =
     (let config = sg_config g; period = sg_samplesPerPeriod g;
          scaled = (\<lambda>x. clampToInt16 F (f_mul F (f_mul F x (gc_amplitude config)) (f_lit F 32767)))
      in case gc_waveform config of
        Silence \<Rightarrow> 0
      | Ramp \<Rightarrow>
          let phase = position mod period;
              normalized = (if period = 1 then f_lit F 0
                else f_add F (f_lit F (- 1)) (f_div F (f_mul F (f_lit F 2) (f_int F (uint phase)))
                       (f_int F (uint (period - 1)))))
          in scaled normalized
      | Sine \<Rightarrow>
          let t = f_div F (f_int F (uint position)) (f_int F (uint (gc_sampleRate config)))
          in scaled (f_sin F (f_mul F (f_mul F (f_mul F (f_lit F 2) (f_pi F)) (gc_frequencyHz config)) t)))"

definition generate :: "'d float_ops \<Rightarrow> 'd signal_generator \<Rightarrow> s16 list \<Rightarrow> 'd signal_generator \<times> s16 list" where
  "generate F g interleaved =
     (let channels = max 1 (unat (gc_channels (sg_config g)));
          frames = length interleaved div channels
      in (g\<lparr>sg_position := sg_position g + of_nat frames\<rparr>,
          concat (map (\<lambda>frame. replicate channels (sampleAt F g (sg_position g + of_nat frame))) [0..<frames])
          @ drop (frames * channels) interleaved))"

lemma length_generate [simp]: "length (snd (generate F g xs)) = length xs"
proof -
  let ?c = "max 1 (unat (gc_channels (sg_config g)))"
  have "length (concat (map (\<lambda>frame. replicate ?c (sampleAt F g (sg_position g + of_nat frame))) [0..<n]))
      = n * ?c" for n
    by (induction n) simp_all
  moreover have "length xs div ?c * ?c \<le> length xs" by (rule div_times_less_eq_dividend)
  ultimately show ?thesis by (simp add: generate_def Let_def)
qed

lemma sampleAt_position [simp]: "sampleAt F (g\<lparr>sg_position := p\<rparr>) q = sampleAt F g q"
  by (simp add: sampleAt_def)

text \<open>Generated audio is one continuous signal: two calls on buffers of whole frames produce what one
  call on both would, whatever the waveform and the arithmetic.\<close>

theorem generator_is_continuous:
  assumes "length xs = m * max 1 (unat (gc_channels (sg_config g)))"
    and "length ys = n * max 1 (unat (gc_channels (sg_config g)))"
  shows "generate F g (xs @ ys) =
    (let (g', a) = generate F g xs; (g'', b) = generate F g' ys in (g'', a @ b))"
proof -
  let ?c = "max 1 (unat (gc_channels (sg_config g)))"
  have c: "0 < ?c" by simp
  have "(length xs + length ys) div ?c = m + n" "length xs div ?c = m" "length ys div ?c = n"
    using assms c by (simp_all only: flip: distrib_right) simp_all
  then show ?thesis
    using assms by (simp add: generate_def Let_def upt_add_eq_append [of 0] map_upt_shift add.assoc algebra_simps)
qed

definition ramp_config :: "real generator_config" where
  "ramp_config = \<lparr>gc_waveform = Ramp, gc_sampleRate = 48000, gc_channels = 2, gc_frequencyHz = 440,
     gc_amplitude = 1 / 2\<rparr>"

theorem generator_is_continuous_witness:
  "generate real_ops (new_generator real_ops ramp_config) ([1, 2, 3, 4] @ [5, 6])
   = (let (g', a) = generate real_ops (new_generator real_ops ramp_config) [1, 2, 3, 4];
          (g'', b) = generate real_ops g' [5, 6] in (g'', a @ b))"
  by (rule generator_is_continuous [where m = 2 and n = 1]) (simp_all add: new_generator_def ramp_config_def)

end
