(* ===== verification/FakeBackend.thy ===== *)
theory FakeBackend
  imports Capture SignalGenerator
begin

text \<open>
  The deterministic capture backend (\<open>audio-core/include/voxmesh/audio/testing/fake_backend.hpp\<close>,
  \<open>audio-core/src/testing/fake_backend.cpp\<close>), and its interpretation of the capture contract. The
  sink is any state with an \<open>onFrame\<close> operation; the log of deliveries is the model's own.
\<close>

section \<open>The stream\<close>

record 'd fake_stream =
  fk_config :: capture_config
  fk_generator :: "'d signal_generator"
  fk_frameInterval :: int
  fk_samplesPerFrame :: u64
  fk_nextSequence :: sequence_number
  fk_nextTimestamp :: timestamp
  fk_pendingDiscontinuity :: bool
  fk_stopped :: bool
  fk_stats :: capture_stream_stats

definition new_fake_stream :: "'d float_ops \<Rightarrow> capture_config \<Rightarrow> waveform \<Rightarrow> 'd fake_stream option" where
  "new_fake_stream F config wave = do {
     interval \<leftarrow> s64 (cc_frameDuration config * 1000000);
     Some \<lparr>fk_config = config,
       fk_generator = new_generator F \<lparr>gc_waveform = wave, gc_sampleRate = cc_sampleRate config,
         gc_channels = cc_channels config, gc_frequencyHz = f_lit F 440, gc_amplitude = f_lit F (1 / 2)\<rparr>,
       fk_frameInterval = interval,
       fk_samplesPerFrame = samplesPerChannel (cc_sampleRate config) (cc_frameDuration config),
       fk_nextSequence = 0, fk_nextTimestamp = 0, fk_pendingDiscontinuity = False, fk_stopped = False,
       fk_stats = \<lparr>st_framesEmitted = 0, st_framesDropped = 0, st_nextSequence = 0\<rparr>\<rparr> }"

text \<open>The body of the loop of \<open>emitFrames\<close>; \<open>generate\<close> overwrites the whole sample buffer.\<close>

definition emitFrame :: "'d float_ops \<Rightarrow> ('k \<Rightarrow> audio_frame \<Rightarrow> 'k \<times> bool) \<Rightarrow> 'd fake_stream \<times> 'k
    \<Rightarrow> (('d fake_stream \<times> 'k) \<times> delivery) option" where
  "emitFrame F onFrame = (\<lambda>(s, k).
     let config = fk_config s;
         interleavedCount = fk_samplesPerFrame s * ucast (cc_channels config);
         (g, samples) = generate F (fk_generator s) (replicate (unat interleavedCount) 0);
         frame = \<lparr>fr_track = cc_track config, fr_sequence = fk_nextSequence s,
           fr_timestamp = fk_nextTimestamp s, fr_sampleRate = cc_sampleRate config,
           fr_channels = cc_channels config, fr_format = PcmS16Le,
           fr_discontinuity = fk_pendingDiscontinuity s, fr_payload = encode_s16 samples\<rparr>;
         (k', accepted) = onFrame k frame;
         st = fk_stats s;
         st' = (if accepted then st\<lparr>st_framesEmitted := st_framesEmitted st + 1\<rparr>
                else st\<lparr>st_framesDropped := st_framesDropped st + 1\<rparr>)
     in do {
       t \<leftarrow> advancedBy (fk_nextTimestamp s) (fk_frameInterval s);
       Some ((s\<lparr>fk_generator := g, fk_stats := st', fk_pendingDiscontinuity := \<not> accepted,
             fk_nextSequence := next_sequence (fk_nextSequence s), fk_nextTimestamp := t\<rparr>, k'),
         if accepted then Accepted frame else Refused frame) })"

fun emit_loop :: "'d float_ops \<Rightarrow> ('k \<Rightarrow> audio_frame \<Rightarrow> 'k \<times> bool) \<Rightarrow> nat \<Rightarrow> 'd fake_stream \<times> 'k
    \<Rightarrow> (('d fake_stream \<times> 'k) \<times> delivery list) option" where
  "emit_loop F onFrame 0 sk = Some (sk, [])"
| "emit_loop F onFrame (Suc n) sk = do {
     (sk', d) \<leftarrow> emitFrame F onFrame sk;
     (sk'', ds) \<leftarrow> emit_loop F onFrame n sk';
     Some (sk'', d # ds) }"

definition emitFrames :: "'d float_ops \<Rightarrow> ('k \<Rightarrow> audio_frame \<Rightarrow> 'k \<times> bool) \<Rightarrow> nat \<Rightarrow> 'd fake_stream \<times> 'k
    \<Rightarrow> (('d fake_stream \<times> 'k) \<times> delivery list) option" where
  "emitFrames F onFrame count = (\<lambda>(s, k).
     if fk_stopped s then Some ((s, k), [])
     else do {
       ((s', k'), ds) \<leftarrow> emit_loop F onFrame count (s, k);
       Some ((s'\<lparr>fk_stats := (fk_stats s')\<lparr>st_nextSequence := fk_nextSequence s'\<rparr>\<rparr>, k'), ds) })"

fun advance_loop :: "nat \<Rightarrow> 'd fake_stream \<Rightarrow> 'd fake_stream option" where
  "advance_loop 0 s = Some s"
| "advance_loop (Suc n) s = do {
     t \<leftarrow> advancedBy (fk_nextTimestamp s) (fk_frameInterval s);
     advance_loop n (s\<lparr>fk_nextSequence := next_sequence (fk_nextSequence s), fk_nextTimestamp := t\<rparr>) }"

definition skipFrames :: "nat \<Rightarrow> 'd fake_stream \<Rightarrow> 'd fake_stream option" where
  "skipFrames count s =
     (if fk_stopped s \<or> count = 0 then Some s
      else do {
        s' \<leftarrow> advance_loop count s;
        Some (s'\<lparr>fk_stats := (fk_stats s')\<lparr>st_framesDropped := st_framesDropped (fk_stats s') + of_nat count,
            st_nextSequence := fk_nextSequence s'\<rparr>, fk_pendingDiscontinuity := True\<rparr>) })"

definition restart :: "int \<Rightarrow> 'd fake_stream \<Rightarrow> 'd fake_stream option" where
  "restart gap s =
     (if fk_stopped s then Some s
      else do {
        t \<leftarrow> advancedBy (fk_nextTimestamp s) gap;
        Some (s\<lparr>fk_nextTimestamp := t, fk_pendingDiscontinuity := True\<rparr>) })"

definition fake_stop :: "'d fake_stream \<Rightarrow> 'd fake_stream" where
  "fake_stop s = s\<lparr>fk_stopped := True\<rparr>"

section \<open>The backend\<close>

definition kFakeMicrophoneId :: string where
  "kFakeMicrophoneId = ''fake-mic''"

definition kFakeSystemOutputId :: string where
  "kFakeSystemOutputId = ''fake-output''"

definition fake_devices :: "audio_device_info list" where
  "fake_devices = [
     \<lparr>dev_id = kFakeMicrophoneId, dev_name = ''Fake Microphone'', dev_kind = CaptureInput, dev_isDefault = True\<rparr>,
     \<lparr>dev_id = kFakeSystemOutputId, dev_name = ''Fake System Output'', dev_kind = RenderOutput,
      dev_isDefault = True\<rparr>]"

definition fake_startCapture :: "'d float_ops \<Rightarrow> waveform \<Rightarrow> capture_config
    \<Rightarrow> (capture_error + 'd fake_stream) option" where
  "fake_startCapture F wave config =
     (if cc_deviceId config \<noteq> kFakeMicrophoneId \<and> cc_deviceId config \<noteq> kFakeSystemOutputId
      then Some (Inl DeviceNotFound)
      else if cc_format config \<noteq> PcmS16Le then Some (Inl FormatNotSupported)
      else map_option Inr (new_fake_stream F config wave))"

section \<open>The contract\<close>

datatype fake_call = EmitFrames nat | SkipFrames nat | Restart int | StopStream

fun fake_step :: "'d float_ops \<Rightarrow> ('k \<Rightarrow> audio_frame \<Rightarrow> 'k \<times> bool) \<Rightarrow> 'd fake_stream \<times> 'k \<Rightarrow> fake_call
    \<Rightarrow> (('d fake_stream \<times> 'k) \<times> delivery list) option" where
  "fake_step F onFrame sk (EmitFrames count) = emitFrames F onFrame count sk"
| "fake_step F onFrame (s, k) (SkipFrames count) =
     map_option (\<lambda>s'. ((s', k), if fk_stopped s \<or> count = 0 then [] else [Skipped count])) (skipFrames count s)"
| "fake_step F onFrame (s, k) (Restart gap) =
     map_option (\<lambda>s'. ((s', k), if fk_stopped s then [] else [TimelineBreak])) (restart gap s)"
| "fake_step F onFrame (s, k) StopStream = Some ((fake_stop s, k), [])"

definition fake_ledger :: "'d fake_stream \<times> 'k \<Rightarrow> ledger" where
  "fake_ledger sk = (let s = fst sk in \<lparr>lg_sequence = fk_nextSequence s, lg_pending = fk_pendingDiscontinuity s,
     lg_emitted = st_framesEmitted (fk_stats s), lg_dropped = st_framesDropped (fk_stats s)\<rparr>)"

lemma emitFrame_delivery:
  assumes "emitFrame F onFrame sk = Some (sk', d)"
  shows "offer_ok (fake_ledger sk) d \<and> fake_ledger sk' = record_delivery (fake_ledger sk) d"
  using assms
  by (cases sk) (auto simp: emitFrame_def Let_def split_beta bind_eq_Some_conv fake_ledger_def
      next_sequence_def split: if_split_asm)

lemma emit_loop_deliveries:
  "emit_loop F onFrame n sk = Some (sk', ds) \<Longrightarrow> deliveries (fake_ledger sk) ds (fake_ledger sk')"
proof (induction n arbitrary: sk ds)
  case (Suc n)
  then obtain sk1 d ds' where "emitFrame F onFrame sk = Some (sk1, d)"
    "emit_loop F onFrame n sk1 = Some (sk', ds')" "ds = d # ds'"
    by (auto simp: bind_eq_Some_conv)
  with emitFrame_delivery [of F onFrame sk sk1 d] Suc.IH [of sk1 ds'] show ?case by auto
qed simp

lemma emitFrames_deliveries:
  "emitFrames F onFrame n sk = Some (sk', ds) \<Longrightarrow> deliveries (fake_ledger sk) ds (fake_ledger sk')"
proof -
  assume e: "emitFrames F onFrame n sk = Some (sk', ds)"
  show ?thesis
  proof (cases "fk_stopped (fst sk)")
    case True
    with e show ?thesis by (cases sk) (simp add: emitFrames_def)
  next
    case False
    with e obtain s' k' where l: "emit_loop F onFrame n sk = Some ((s', k'), ds)"
      and "sk' = (s'\<lparr>fk_stats := (fk_stats s')\<lparr>st_nextSequence := fk_nextSequence s'\<rparr>\<rparr>, k')"
      by (cases sk) (auto simp: emitFrames_def bind_eq_Some_conv)
    then have "fake_ledger sk' = fake_ledger (s', k')" by (simp add: fake_ledger_def Let_def)
    with emit_loop_deliveries [OF l] show ?thesis by simp
  qed
qed

lemma advance_loop_ledger:
  "advance_loop n s = Some s' \<Longrightarrow> fk_nextSequence s' = fk_nextSequence s + of_nat n
     \<and> fk_stats s' = fk_stats s \<and> fk_pendingDiscontinuity s' = fk_pendingDiscontinuity s"
proof (induction n arbitrary: s)
  case (Suc n)
  then obtain t where
    "advance_loop n (s\<lparr>fk_nextSequence := next_sequence (fk_nextSequence s), fk_nextTimestamp := t\<rparr>) = Some s'"
    by (auto simp: bind_eq_Some_conv)
  from Suc.IH [OF this] show ?case by (simp add: next_sequence_def)
qed simp

lemma fake_step_deliveries:
  assumes "fake_step F onFrame sk c = Some (sk', ds)"
  shows "deliveries (fake_ledger sk) ds (fake_ledger sk')"
proof (cases c)
  case (EmitFrames n)
  with assms show ?thesis by (auto intro: emitFrames_deliveries)
next
  case (SkipFrames n)
  with assms show ?thesis
    by (cases sk) (auto simp: skipFrames_def bind_eq_Some_conv fake_ledger_def Let_def
        dest: advance_loop_ledger split: if_splits)
next
  case (Restart gap)
  with assms show ?thesis
    by (cases sk) (auto simp: restart_def bind_eq_Some_conv fake_ledger_def Let_def split: if_splits)
next
  case StopStream
  with assms show ?thesis by (cases sk) (auto simp: fake_stop_def fake_ledger_def Let_def)
qed

lemma fake_step_stopped:
  "fk_stopped (fst sk) \<Longrightarrow> fake_step F onFrame sk c = Some (sk', ds) \<Longrightarrow> ds = [] \<and> fk_stopped (fst sk')"
  by (cases sk; cases c) (auto simp: emitFrames_def skipFrames_def restart_def fake_stop_def)

interpretation fake: frame_source "fake_step F onFrame" fake_ledger "\<lambda>sk. fk_stopped (fst sk)"
  for F onFrame
  by unfold_locales (auto intro: fake_step_deliveries dest: fake_step_stopped)

text \<open>C36: The fake backend keeps the capture contract: over any calls up to a stop and beyond, all frames
  are delivered before the stop; the statistics count exactly the frames the sink accepted
  and the frames it refused or the device skipped; the sequence numbers advance by their
  sum; and whenever the accepted frames are not consecutive, the later one is flagged.\<close>

theorem fake_backend_keeps_capture_contract:
  assumes "new_fake_stream F config wave = Some s"
    and "frame_source.run (fake_step F onFrame) (s, k) (calls @ StopStream # later) = Some (sk, ds)"
  shows "(\<exists>sk'. frame_source.run (fake_step F onFrame) (s, k) calls = Some (sk', ds))
    \<and> st_framesEmitted (fk_stats (fst sk)) = of_nat (length (accepted_frames ds))
    \<and> st_framesDropped (fk_stats (fst sk)) = of_nat (lost_frames ds)
    \<and> fk_nextSequence (fst sk) = of_nat (length (accepted_frames ds) + lost_frames ds)
    \<and> no_silent_loss False 0 (accepted_frames ds)"
proof -
  from assms(2) obtain sk1 d1 d2 where r: "fake.run F onFrame (s, k) calls = Some (sk1, d1)"
    "fake.run F onFrame sk1 (StopStream # later) = Some (sk, d2)" "ds = d1 @ d2"
    by (auto simp: fake.run_append bind_eq_Some_conv)
  have "d2 = []"
    using r(2) fake.run_stopped [of "(fake_stop (fst sk1), snd sk1)" F onFrame later]
    by (cases sk1) (auto simp: bind_eq_Some_conv fake_stop_def)
  moreover have "fake_ledger (s, k) = \<lparr>lg_sequence = 0, lg_pending = False, lg_emitted = 0, lg_dropped = 0\<rparr>"
    using assms(1) by (auto simp: new_fake_stream_def bind_eq_Some_conv fake_ledger_def)
  ultimately show ?thesis
    using fake.run_accounts [OF assms(2)] r(1,3) by (auto simp: fake_ledger_def Let_def)
qed

definition fake_mic_config :: capture_config where
  "fake_mic_config = \<lparr>cc_deviceId = kFakeMicrophoneId, cc_track = Microphone, cc_sampleRate = 2000,
     cc_channels = 1, cc_format = PcmS16Le, cc_frameDuration = 1\<rparr>"

text \<open>A sink that refuses the frames while its counter is even.\<close>

definition every_other :: "nat \<Rightarrow> audio_frame \<Rightarrow> nat \<times> bool" where
  "every_other n f = (Suc n, odd n)"

theorem fake_backend_keeps_capture_contract_witness:
  "\<exists>s sk ds. new_fake_stream real_ops fake_mic_config Silence = Some s
    \<and> frame_source.run (fake_step real_ops every_other) (s, 0) ([EmitFrames 3] @ StopStream # [EmitFrames 1]) = Some (sk, ds)
    \<and> length (accepted_frames ds) = 1 \<and> st_framesDropped (fk_stats (fst sk)) = 2
    \<and> no_silent_loss False 0 (accepted_frames ds)"
proof -
  obtain s where s: "new_fake_stream real_ops fake_mic_config Silence = Some s"
    by (simp add: new_fake_stream_def fake_mic_config_def s64_def in_s64_def)
  then have f: "fk_frameInterval s = 1000000" "fk_nextTimestamp s = 0" "fk_stopped s = False"
    by (auto simp: new_fake_stream_def fake_mic_config_def s64_def in_s64_def)
  obtain sk ds where r: "frame_source.run (fake_step real_ops every_other) (s, 0)
      ([EmitFrames 3] @ StopStream # [EmitFrames 1]) = Some (sk, ds)"
    and l: "length (accepted_frames ds) = 1" "lost_frames ds = 2"
    using f
    by (simp add: emitFrames_def numeral_3_eq_3 emitFrame_def Let_def split_beta every_other_def
        advancedBy_def s64_def in_s64_def fake_stop_def)
  have "st_framesDropped (fk_stats (fst sk)) = 2 \<and> no_silent_loss False 0 (accepted_frames ds)"
    using fake_backend_keeps_capture_contract [OF s r] l by simp
  with s r l show ?thesis by blast
qed

end
