(* ===== verification/Wasapi.thy ===== *)
theory Wasapi
  imports Capture
begin

text \<open>
  The WASAPI backend (\<open>platform/windows/audio-wasapi/src/\<close>): starting a stream, its capture
  thread, stopping it, and the device enumerator. What the Windows API answers is a
  parameter: the results of the initialisation calls are a record, and the capture thread
  is a state machine driven by the results of its waits and packet calls. The stop event
  has the lower index of the two wait handles, so once it is signalled a wait returns it or
  fails.
\<close>

section \<open>Results and formats\<close>

datatype hresult = S_OK | AUDCLNT_E_UNSUPPORTED_FORMAT | E_ACCESSDENIED | AUDCLNT_E_DEVICE_INVALIDATED
  | AUDCLNT_E_DEVICE_IN_USE | AUDCLNT_E_ENDPOINT_CREATE_FAILED | OtherFailure u32 | OtherSuccess u32

fun failed :: "hresult \<Rightarrow> bool" where
  "failed S_OK = False"
| "failed (OtherSuccess _) = False"
| "failed _ = True"

definition capture_errors :: "capture_error list" where
  "capture_errors = [DeviceNotFound, DeviceUnavailable, FormatNotSupported, PermissionDenied,
     AlreadyStopped, BackendFailure]"

fun error_index :: "capture_error \<Rightarrow> int" where
  "error_index DeviceNotFound = 0"
| "error_index DeviceUnavailable = 1"
| "error_index FormatNotSupported = 2"
| "error_index PermissionDenied = 3"
| "error_index AlreadyStopped = 4"
| "error_index BackendFailure = 5"

definition encode :: "capture_error \<Rightarrow> int" where
  "encode e = 1 + error_index e"

definition decode_result :: "int \<Rightarrow> capture_error" where
  "decode_result result = capture_errors ! nat (result - 1)"

record wave_format =
  wf_float :: bool
  nChannels :: u16
  nSamplesPerSec :: u32
  wBitsPerSample :: u16
  nBlockAlign :: u16
  nAvgBytesPerSec :: u32

definition makeFormat :: "capture_config \<Rightarrow> wave_format" where
  "makeFormat config =
     (let channels = cc_channels config;
          bits = of_nat (bytesPerSample (cc_format config) * 8);
          align = word_of_int (uint channels * uint (bits :: u16) div 8)
      in \<lparr>wf_float = (cc_format config = Float32Le), nChannels = channels,
          nSamplesPerSec = cc_sampleRate config, wBitsPerSample = bits, nBlockAlign = align,
          nAvgBytesPerSec = cc_sampleRate config * ucast align\<rparr>)"

fun mapInitializeError :: "hresult \<Rightarrow> capture_error" where
  "mapInitializeError AUDCLNT_E_UNSUPPORTED_FORMAT = FormatNotSupported"
| "mapInitializeError E_ACCESSDENIED = PermissionDenied"
| "mapInitializeError AUDCLNT_E_DEVICE_INVALIDATED = DeviceUnavailable"
| "mapInitializeError AUDCLNT_E_DEVICE_IN_USE = DeviceUnavailable"
| "mapInitializeError AUDCLNT_E_ENDPOINT_CREATE_FAILED = DeviceUnavailable"
| "mapInitializeError _ = BackendFailure"

section \<open>Initialisation\<close>

record wasapi_api =
  api_createStopEvent :: bool
  api_createInitDone :: bool
  api_createEnumerator :: hresult
  api_getDevice :: "string \<Rightarrow> hresult"
  api_isRender :: "bool option" \<comment> \<open>\<open>GetDataFlow\<close>, \<open>None\<close> if it failed\<close>
  api_activate :: hresult
  api_initialize :: "wave_format \<Rightarrow> int \<Rightarrow> bool \<Rightarrow> hresult" \<comment> \<open>format, buffer duration, loopback\<close>
  api_createDataEvent :: bool
  api_setEventHandle :: hresult
  api_getService :: hresult
  api_start :: hresult

text \<open>\<open>run\<close> up to the signal of \<open>initDone\<close>: the loopback flag, or the error. \<open>None\<close> is overflow.\<close>

definition run_init :: "wasapi_api \<Rightarrow> capture_config \<Rightarrow> (capture_error + bool) option" where
  "run_init api config =
     (if failed (api_createEnumerator api) then Some (Inl BackendFailure)
      else if failed (api_getDevice api (cc_deviceId config)) then Some (Inl DeviceNotFound)
      else let loopback = (case api_isRender api of Some r \<Rightarrow> r | None \<Rightarrow> False) in
      if failed (api_activate api) then Some (Inl (mapInitializeError (api_activate api)))
      else do {
        ticks \<leftarrow> s64 (cc_frameDuration config * 10000);
        bufferDuration \<leftarrow> s64 (ticks * 4);
        let hr = api_initialize api (makeFormat config) bufferDuration loopback;
        Some (if failed hr then Inl (mapInitializeError hr)
          else if \<not> loopback \<and> (\<not> api_createDataEvent api \<or> failed (api_setEventHandle api)) then Inl BackendFailure
          else if failed (api_getService api) \<or> failed (api_start api) then Inl BackendFailure
          else Inr loopback) })"

datatype phase = Waiting | Draining | Ended

record wasapi_stream =
  ws_config :: capture_config
  ws_phase :: phase
  ws_stopRequested :: bool
  ws_loopback :: bool
  ws_framesEmitted :: u64
  ws_framesDropped :: u64
  ws_nextSequence :: u64
  ws_pendingDiscontinuity :: bool

definition new_wasapi_stream :: "capture_config \<Rightarrow> bool \<Rightarrow> wasapi_stream" where
  "new_wasapi_stream config loopback = \<lparr>ws_config = config, ws_phase = Waiting, ws_stopRequested = False,
     ws_loopback = loopback, ws_framesEmitted = 0, ws_framesDropped = 0, ws_nextSequence = 0,
     ws_pendingDiscontinuity = False\<rparr>"

definition wasapi_start :: "wasapi_api \<Rightarrow> capture_config \<Rightarrow> (capture_error + wasapi_stream) option" where
  "wasapi_start api config =
     (if \<not> api_createStopEvent api \<or> \<not> api_createInitDone api then Some (Inl BackendFailure)
      else do {
        result \<leftarrow> run_init api config;
        let code = (case result of Inl e \<Rightarrow> encode e | Inr _ \<Rightarrow> 0);
        Some (if code \<noteq> 0 then Inl (decode_result code)
          else (case result of Inr loopback \<Rightarrow> Inr (new_wasapi_stream config loopback)
                | Inl e \<Rightarrow> Inl e)) })"

definition wasapi_startCapture :: "wasapi_api \<Rightarrow> capture_config \<Rightarrow> (capture_error + wasapi_stream) option" where
  "wasapi_startCapture api config =
     (if cc_deviceId config = [] then Some (Inl DeviceNotFound)
      else if cc_sampleRate config = 0 \<or> cc_channels config = 0 \<or> bytesPerSample (cc_format config) = 0
        \<or> cc_frameDuration config \<le> 0 then Some (Inl FormatNotSupported)
      else wasapi_start api config)"

section \<open>The capture thread\<close>

record wasapi_packet =
  pk_frames :: u32
  pk_silent :: bool
  pk_discontinuity :: bool
  pk_qpcPosition :: u64
  pk_data :: "u8 list"

datatype wasapi_event =
    WaitStop | WaitFailed | WaitData | WaitTimeout
  | PacketSizeFailed | NoPacket | GetBufferFailed | Packet wasapi_packet
  | RequestStop \<comment> \<open>another thread calls \<open>stop\<close>\<close>

text \<open>One packet: reading past the packet's data would be undefined.\<close>

definition deliver_packet :: "('k \<Rightarrow> audio_frame \<Rightarrow> 'k \<times> bool) \<Rightarrow> wasapi_stream \<times> 'k \<Rightarrow> wasapi_packet
    \<Rightarrow> ((wasapi_stream \<times> 'k) \<times> delivery) option" where
  "deliver_packet onFrame = (\<lambda>(s, k) p.
     let config = ws_config s;
         blockAlign = of_nat (bytesPerSample (cc_format config)) * ucast (cc_channels config);
         bytes = unat (ucast (pk_frames p) * blockAlign :: u64)
     in do {
       timestamp \<leftarrow> s64 (sint (pk_qpcPosition p) * 100);
       payload \<leftarrow> (if \<not> pk_silent p \<and> 0 < bytes
         then (if bytes \<le> length (pk_data p) then Some (take bytes (pk_data p)) else None)
         else Some (replicate bytes 0));
       let frame = \<lparr>fr_track = cc_track config, fr_sequence = ws_nextSequence s, fr_timestamp = timestamp,
         fr_sampleRate = cc_sampleRate config, fr_channels = cc_channels config, fr_format = cc_format config,
         fr_discontinuity = (ws_pendingDiscontinuity s \<or> pk_discontinuity p), fr_payload = payload\<rparr>;
       let (k', accepted) = onFrame k frame;
       let s1 = (if accepted then s\<lparr>ws_framesEmitted := ws_framesEmitted s + 1, ws_pendingDiscontinuity := False\<rparr>
         else s\<lparr>ws_framesDropped := ws_framesDropped s + 1, ws_pendingDiscontinuity := True\<rparr>);
       Some ((s1\<lparr>ws_nextSequence := ws_nextSequence s1 + 1\<rparr>, k'),
         if accepted then Accepted frame else Refused frame) })"

definition set_phase :: "wasapi_stream \<times> 'k \<Rightarrow> phase \<Rightarrow> ((wasapi_stream \<times> 'k) \<times> delivery list) option" where
  "set_phase sk ph = Some (((fst sk)\<lparr>ws_phase := ph\<rparr>, snd sk), [])"

text \<open>An event that cannot happen in a state gives \<open>None\<close>; a thread that has ended has no events.\<close>

definition capture_step :: "('k \<Rightarrow> audio_frame \<Rightarrow> 'k \<times> bool) \<Rightarrow> wasapi_stream \<times> 'k \<Rightarrow> wasapi_event
    \<Rightarrow> ((wasapi_stream \<times> 'k) \<times> delivery list) option" where
  "capture_step onFrame sk ev =
     (case ev of
       RequestStop \<Rightarrow> Some (((fst sk)\<lparr>ws_stopRequested := True\<rparr>, snd sk), [])
     | WaitStop \<Rightarrow> if ws_phase (fst sk) = Waiting \<and> ws_stopRequested (fst sk) then set_phase sk Ended else None
     | WaitFailed \<Rightarrow> if ws_phase (fst sk) = Waiting then set_phase sk Ended else None
     | WaitData \<Rightarrow> if ws_phase (fst sk) = Waiting \<and> \<not> ws_stopRequested (fst sk) \<and> \<not> ws_loopback (fst sk)
         then set_phase sk Draining else None
     | WaitTimeout \<Rightarrow> if ws_phase (fst sk) = Waiting \<and> \<not> ws_stopRequested (fst sk)
         then set_phase sk Draining else None
     | PacketSizeFailed \<Rightarrow> if ws_phase (fst sk) = Draining then set_phase sk Ended else None
     | NoPacket \<Rightarrow> if ws_phase (fst sk) = Draining then set_phase sk Waiting else None
     | GetBufferFailed \<Rightarrow> if ws_phase (fst sk) = Draining then set_phase sk Ended else None
     | Packet p \<Rightarrow> if ws_phase (fst sk) = Draining
         then map_option (\<lambda>(sk', d). (sk', [d])) (deliver_packet onFrame sk p) else None)"

definition wasapi_stats :: "wasapi_stream \<Rightarrow> capture_stream_stats" where
  "wasapi_stats s = \<lparr>st_framesEmitted = ws_framesEmitted s, st_framesDropped = ws_framesDropped s,
     st_nextSequence = ws_nextSequence s\<rparr>"

section \<open>The device list\<close>

record endpoint =
  ep_id :: "string option" \<comment> \<open>\<open>None\<close>: the item or its id could not be read\<close>
  ep_friendlyName :: "string option"

record endpoint_api =
  en_created :: bool
  en_default :: "device_kind \<Rightarrow> string option"
  en_endpoints :: "device_kind \<Rightarrow> endpoint list option"

definition defaultEndpointId :: "endpoint_api \<Rightarrow> device_kind \<Rightarrow> string" where
  "defaultEndpointId api flow = (case en_default api flow of Some i \<Rightarrow> i | None \<Rightarrow> [])"

definition appendEndpoints :: "endpoint_api \<Rightarrow> device_kind \<Rightarrow> audio_device_info list \<Rightarrow> audio_device_info list" where
  "appendEndpoints api kind out =
     (let defaultId = defaultEndpointId api kind
      in case en_endpoints api kind of
        None \<Rightarrow> out
      | Some eps \<Rightarrow> out @ concat (map (\<lambda>ep. case ep_id ep of
          None \<Rightarrow> []
        | Some i \<Rightarrow> [\<lparr>dev_id = i, dev_name = (case ep_friendlyName ep of Some n \<Rightarrow> n | None \<Rightarrow> []),
            dev_kind = kind, dev_isDefault = (defaultId \<noteq> [] \<and> i = defaultId)\<rparr>]) eps))"

definition wasapi_devices :: "endpoint_api \<Rightarrow> audio_device_info list" where
  "wasapi_devices api =
     (if \<not> en_created api then []
      else appendEndpoints api RenderOutput (appendEndpoints api CaptureInput []))"

section \<open>The contract\<close>

definition wasapi_ledger :: "wasapi_stream \<times> 'k \<Rightarrow> ledger" where
  "wasapi_ledger sk = (let s = fst sk in \<lparr>lg_sequence = ws_nextSequence s,
     lg_pending = ws_pendingDiscontinuity s, lg_emitted = ws_framesEmitted s, lg_dropped = ws_framesDropped s\<rparr>)"

lemma deliver_packet_delivery:
  assumes "deliver_packet onFrame sk p = Some (sk', d)"
  shows "offer_ok (wasapi_ledger sk) d \<and> wasapi_ledger sk' = record_delivery (wasapi_ledger sk) d
    \<and> ws_phase (fst sk') = ws_phase (fst sk) \<and> ws_stopRequested (fst sk') = ws_stopRequested (fst sk)"
  using assms
  by (cases sk) (auto simp: deliver_packet_def Let_def split_beta bind_eq_Some_conv wasapi_ledger_def
      split: if_split_asm)

lemma capture_step_deliveries:
  assumes "capture_step onFrame sk ev = Some (sk', ds)"
  shows "deliveries (wasapi_ledger sk) ds (wasapi_ledger sk')"
proof (cases ev)
  case (Packet p)
  with assms show ?thesis
    by (auto simp: capture_step_def dest: deliver_packet_delivery split: if_splits)
qed (use assms in \<open>auto simp: capture_step_def set_phase_def wasapi_ledger_def Let_def split: if_splits\<close>)

lemma capture_step_ended:
  "ws_phase (fst sk) = Ended \<Longrightarrow> capture_step onFrame sk ev = Some (sk', ds) \<Longrightarrow>
   ds = [] \<and> ws_phase (fst sk') = Ended"
  by (cases ev) (auto simp: capture_step_def)

interpretation wasapi: frame_source "capture_step onFrame" wasapi_ledger "\<lambda>sk. ws_phase (fst sk) = Ended"
  for onFrame
  by unfold_locales (auto intro: capture_step_deliveries dest: capture_step_ended)

lemma decode_encode: "encode e \<noteq> 0 \<and> decode_result (encode e) = e"
  by (cases e) (simp_all add: encode_def decode_result_def capture_errors_def)

lemma wasapi_start_eq:
  "wasapi_start api config =
     (if \<not> api_createStopEvent api \<or> \<not> api_createInitDone api then Some (Inl BackendFailure)
      else map_option (map_sum id (new_wasapi_stream config)) (run_init api config))"
proof (cases "run_init api config")
  case (Some r)
  then show ?thesis by (cases r) (simp_all add: wasapi_start_def decode_encode)
qed (simp add: wasapi_start_def)

text \<open>
  What becomes of a packet: it is offered as one frame, with its data (or as many zeros), its time, and
  flagged if the device flagged it. A packet flagged \<open>DATA_DISCONTINUITY\<close> follows frames the device skipped;
  how many they were the code does not ask, so no \<open>Skipped\<close> delivery stands for them.
\<close>

fun packets :: "wasapi_event list \<Rightarrow> wasapi_packet list" where
  "packets [] = []"
| "packets (Packet p # evs) = p # packets evs"
| "packets (_ # evs) = packets evs"

definition frame_bytes :: "capture_config \<Rightarrow> wasapi_packet \<Rightarrow> nat" where
  "frame_bytes config p =
     unat (ucast (pk_frames p) * (of_nat (bytesPerSample (cc_format config)) * ucast (cc_channels config)) :: u64)"

definition offered_as :: "capture_config \<Rightarrow> wasapi_packet \<Rightarrow> delivery \<Rightarrow> bool" where
  "offered_as config p d \<longleftrightarrow> (\<exists>f. (d = Accepted f \<or> d = Refused f) \<and> fr_track f = cc_track config
     \<and> fr_timestamp f = sint (pk_qpcPosition p) * 100 \<and> (pk_discontinuity p \<longrightarrow> fr_discontinuity f)
     \<and> fr_payload f = (if pk_silent p then replicate (frame_bytes config p) 0 else take (frame_bytes config p) (pk_data p)))"

lemma deliver_packet_offered:
  assumes "deliver_packet onFrame sk p = Some (sk', d)"
  shows "offered_as (ws_config (fst sk)) p d \<and> ws_config (fst sk') = ws_config (fst sk)"
proof -
  obtain s k where sk: "sk = (s, k)" by fastforce
  from assms show ?thesis
    unfolding sk
    by (auto simp: deliver_packet_def Let_def split_beta bind_eq_Some_conv offered_as_def s64_eq_Some_iff
      simp flip: frame_bytes_def split: if_split_asm)
qed

lemma capture_step_offered:
  assumes "capture_step onFrame sk ev = Some (sk', ds)"
  shows "list_all2 (offered_as (ws_config (fst sk))) (packets [ev]) ds \<and> ws_config (fst sk') = ws_config (fst sk)"
proof (cases ev)
  case (Packet p)
  with assms show ?thesis by (auto simp: capture_step_def dest: deliver_packet_offered split: if_splits)
qed (use assms in \<open>auto simp: capture_step_def set_phase_def split: if_splits\<close>)

lemma packets_Cons: "packets (ev # evs) = packets [ev] @ packets evs"
  by (cases ev) simp_all

lemma run_offered:
  "frame_source.run (capture_step onFrame) sk evs = Some (sk', ds) \<Longrightarrow>
   list_all2 (offered_as (ws_config (fst sk))) (packets evs) ds"
proof (induction evs arbitrary: sk ds)
  case (Cons ev evs)
  then obtain sk1 d1 d2 where 1: "capture_step onFrame sk ev = Some (sk1, d1)"
    and 2: "frame_source.run (capture_step onFrame) sk1 evs = Some (sk', d2)" "ds = d1 @ d2"
    by (auto simp: bind_eq_Some_conv)
  from capture_step_offered [OF 1] Cons.IH [OF 2(1)] show ?case
    unfolding packets_Cons [of ev evs] 2(2) by (simp add: list_all2_appendI)
qed simp

lemma offered_lost: "list_all2 (offered_as config) ps ds \<Longrightarrow> length (accepted_frames ds) + lost_frames ds = length ps"
  by (induction ps ds rule: list_all2_induct) (auto simp: offered_as_def)

text \<open>C32: The WASAPI stream accounts for what it offers. A started stream, over any sequence of waits
  and packets its thread can see, offers every packet as one frame, with its data and time, flagged if
  the device flagged the packet or an earlier frame was refused; it counts the accepted and the
  refused frames, and numbers the packets. So \<open>framesDropped\<close> counts what the sink refused and no more:
  frames the device skipped are flagged but, other than \<open>capture.hpp\<close> says, neither counted nor numbered.\<close>

theorem wasapi_accounts_for_packets:
  assumes "wasapi_startCapture api config = Some (Inr s)"
    and "frame_source.run (capture_step onFrame) (s, k) evs = Some ((s', k'), ds)"
  shows "list_all2 (offered_as config) (packets evs) ds
    \<and> wasapi_stats s' = \<lparr>st_framesEmitted = of_nat (length (accepted_frames ds)),
       st_framesDropped = of_nat (length (packets evs) - length (accepted_frames ds)),
       st_nextSequence = of_nat (length (packets evs))\<rparr>
    \<and> no_silent_loss False 0 (accepted_frames ds)"
proof -
  have "\<exists>l. s = new_wasapi_stream config l"
  proof (cases "run_init api config")
    case (Some r)
    with assms(1) show ?thesis
      by (cases r) (auto simp: wasapi_startCapture_def wasapi_start_eq split: if_splits)
  qed (use assms(1) in \<open>auto simp: wasapi_startCapture_def wasapi_start_eq split: if_splits\<close>)
  then have l: "wasapi_ledger (s, k) = \<lparr>lg_sequence = 0, lg_pending = False, lg_emitted = 0, lg_dropped = 0\<rparr>"
    and c: "ws_config s = config" by (auto simp: wasapi_ledger_def new_wasapi_stream_def)
  have o: "list_all2 (offered_as config) (packets evs) ds" using run_offered [OF assms(2)] c by simp
  from offered_lost [OF this] have n: "length (packets evs) - length (accepted_frames ds) = lost_frames ds" by simp
  from wasapi.run_accounts [OF assms(2)] l o show ?thesis
    unfolding n by (simp add: wasapi_ledger_def wasapi_stats_def Let_def flip: offered_lost [OF o])
qed

definition all_ok_api :: wasapi_api where
  "all_ok_api = \<lparr>api_createStopEvent = True, api_createInitDone = True, api_createEnumerator = S_OK,
     api_getDevice = (\<lambda>_. S_OK), api_isRender = Some False, api_activate = S_OK,
     api_initialize = (\<lambda>_ _ _. S_OK), api_createDataEvent = True, api_setEventHandle = S_OK,
     api_getService = S_OK, api_start = S_OK\<rparr>"

definition wasapi_mic_config :: capture_config where
  "wasapi_mic_config = \<lparr>cc_deviceId = ''mic'', cc_track = Microphone, cc_sampleRate = 48000, cc_channels = 1,
     cc_format = PcmS16Le, cc_frameDuration = 10\<rparr>"

definition two_byte_packet :: wasapi_packet where
  "two_byte_packet = \<lparr>pk_frames = 1, pk_silent = False, pk_discontinuity = False, pk_qpcPosition = 5,
     pk_data = [1, 2]\<rparr>"

definition skipping_packet :: wasapi_packet where
  "skipping_packet = two_byte_packet\<lparr>pk_discontinuity := True\<rparr>"

theorem wasapi_accounts_for_packets_witness:
  "\<exists>s s' k' ds. wasapi_startCapture all_ok_api wasapi_mic_config = Some (Inr s)
    \<and> frame_source.run (capture_step (\<lambda>n f. (Suc n, odd n))) (s, 0)
        [WaitData, Packet two_byte_packet, Packet skipping_packet, NoPacket] = Some ((s', k'), ds)
    \<and> wasapi_stats s' = \<lparr>st_framesEmitted = 1, st_framesDropped = 1, st_nextSequence = 2\<rparr>
    \<and> no_silent_loss False 0 (accepted_frames ds)"
proof -
  let ?s = "new_wasapi_stream wasapi_mic_config False"
  have s: "wasapi_startCapture all_ok_api wasapi_mic_config = Some (Inr ?s)"
    by (simp add: wasapi_startCapture_def wasapi_start_eq run_init_def all_ok_api_def wasapi_mic_config_def
        s64_def in_s64_def)
  obtain s' k' ds where r: "frame_source.run (capture_step (\<lambda>n f. (Suc n, odd n))) (?s, 0)
      [WaitData, Packet two_byte_packet, Packet skipping_packet, NoPacket] = Some ((s', k'), ds)"
    and l: "length (accepted_frames ds) = 1"
    by (simp add: capture_step_def set_phase_def deliver_packet_def Let_def split_beta new_wasapi_stream_def
        two_byte_packet_def skipping_packet_def wasapi_mic_config_def s64_def in_s64_def)
  have "wasapi_stats s' = \<lparr>st_framesEmitted = 1, st_framesDropped = 1, st_nextSequence = 2\<rparr>
    \<and> no_silent_loss False 0 (accepted_frames ds)"
    using wasapi_accounts_for_packets [OF s r] l by simp
  with s r show ?thesis by blast
qed

text \<open>After a packet that follows skipped frames, with a sink that takes everything, nothing counts as dropped.\<close>

lemma skipped_frames_are_not_counted:
  "\<exists>s' k' ds. frame_source.run (capture_step (\<lambda>n f. (Suc n, True))) (new_wasapi_stream wasapi_mic_config False, 0)
      [WaitData, Packet two_byte_packet, Packet skipping_packet, NoPacket] = Some ((s', k'), ds)
    \<and> wasapi_stats s' = \<lparr>st_framesEmitted = 2, st_framesDropped = 0, st_nextSequence = 2\<rparr>"
  by (simp add: capture_step_def set_phase_def deliver_packet_def Let_def split_beta new_wasapi_stream_def
      two_byte_packet_def skipping_packet_def wasapi_mic_config_def s64_def in_s64_def wasapi_stats_def)

section \<open>Stopping\<close>

fun phase_rank :: "phase \<Rightarrow> nat" where
  "phase_rank Draining = 2"
| "phase_rank Waiting = 1"
| "phase_rank Ended = 0"

lemma capture_step_rank:
  assumes "capture_step onFrame sk ev = Some (sk', ds)" and "ws_stopRequested (fst sk)"
  shows "ws_stopRequested (fst sk') \<and> (if ev = RequestStop then 0 else 1) + phase_rank (ws_phase (fst sk'))
    \<le> length ds + phase_rank (ws_phase (fst sk))"
proof (cases ev)
  case (Packet p)
  with assms show ?thesis
    by (auto simp: capture_step_def dest: deliver_packet_delivery split: if_splits)
qed (use assms in \<open>auto simp: capture_step_def set_phase_def split: if_splits\<close>)

text \<open>C33: Stopping is deterministic: once the stop event is signalled, the capture thread performs at most
  two more API results beyond the packets it still delivers; when it waits, the stop ends
  it; and after it has ended (when \<open>stop\<close> has joined it) no frame is delivered any more.\<close>

theorem wasapi_stop_ends_the_thread:
  assumes "ws_stopRequested (fst sk)"
    and "frame_source.run (capture_step onFrame) sk evs = Some (sk', ds)"
  shows "length (filter (\<lambda>e. e \<noteq> RequestStop) evs) \<le> length ds + 2
    \<and> (ws_phase (fst sk) = Ended \<longrightarrow> ds = [])
    \<and> (ws_phase (fst sk') = Waiting \<longrightarrow> capture_step onFrame sk' WaitStop = set_phase sk' Ended)"
proof -
  have "ws_stopRequested (fst sk') \<and> length (filter (\<lambda>e. e \<noteq> RequestStop) evs) + phase_rank (ws_phase (fst sk'))
    \<le> length ds + phase_rank (ws_phase (fst sk))"
    using assms
  proof (induction evs arbitrary: sk ds)
    case (Cons e evs)
    then obtain sk1 d1 d2 where s: "capture_step onFrame sk e = Some (sk1, d1)"
      "wasapi.run onFrame sk1 evs = Some (sk', d2)" "ds = d1 @ d2"
      by (auto simp: bind_eq_Some_conv)
    from capture_step_rank [OF s(1) Cons.prems(1)] Cons.IH [OF _ s(2)] s(3) show ?case by auto
  qed simp
  moreover have "phase_rank (ws_phase (fst sk)) \<le> 2" by (cases "ws_phase (fst sk)") simp_all
  ultimately show ?thesis
    using wasapi.run_stopped [OF _ assms(2)] by (auto simp: capture_step_def)
qed

theorem wasapi_stop_ends_the_thread_witness:
  "\<exists>sk' ds. frame_source.run (capture_step (\<lambda>n f. (Suc n, True)))
      ((new_wasapi_stream wasapi_mic_config False)\<lparr>ws_stopRequested := True, ws_phase := Draining\<rparr>, 0 :: nat)
      [Packet two_byte_packet, NoPacket, WaitStop] = Some (sk', ds) \<and> 3 \<le> length ds + 2"
proof -
  let ?s = "(new_wasapi_stream wasapi_mic_config False)\<lparr>ws_stopRequested := True, ws_phase := Draining\<rparr>"
  obtain sk' ds where r: "frame_source.run (capture_step (\<lambda>n f. (Suc n, True))) (?s, 0 :: nat)
      [Packet two_byte_packet, NoPacket, WaitStop] = Some (sk', ds)"
    by (simp add: capture_step_def set_phase_def deliver_packet_def Let_def split_beta new_wasapi_stream_def
        two_byte_packet_def wasapi_mic_config_def s64_def in_s64_def)
  from wasapi_stop_ends_the_thread [OF _ r] r show ?thesis by simp
qed

end
