(* ===== verification/RecordingWriter.thy ===== *)
theory RecordingWriter
  imports AudioTypes
begin

text \<open>
  The recording writer (\<open>audio-core/include/voxmesh/audio/recording.hpp\<close>,
  \<open>media-container/src/ffmpeg_recording_writer.cpp\<close>). FFmpeg and the file system are a parameter:
  a record of the calls the code makes, over a state \<open>'e\<close> of their own. The writer keeps a trace
  of the calls that matter for what ends up in the file, with their success. The loops of
  the code may not end for a misbehaving encoder, so the operations are partial (\<open>None\<close>).
\<close>

section \<open>Data\<close>

datatype recording_writer_error = InvalidConfig | OpenFailed | FormatMismatch | WriteFailed
  | FinalizeFailed | InvalidState

fun writer_error_toString :: "recording_writer_error \<Rightarrow> string" where
  "writer_error_toString InvalidConfig = ''InvalidConfig''"
| "writer_error_toString OpenFailed = ''OpenFailed''"
| "writer_error_toString FormatMismatch = ''FormatMismatch''"
| "writer_error_toString WriteFailed = ''WriteFailed''"
| "writer_error_toString FinalizeFailed = ''FinalizeFailed''"
| "writer_error_toString InvalidState = ''InvalidState''"

record recording_track_config =
  rt_kind :: track_kind
  rt_format :: track_format
  rt_title :: string

record recording_writer_config =
  rc_outputFile :: string
  rc_tracks :: "recording_track_config list"

record recording_writer_stats =
  rs_framesWritten :: u64
  rs_samplesWrittenPerTrack :: "u64 list"

datatype writer_state = Closed | Open | Failed | Finalized | Aborted

text \<open>A sample frame is one sample of every channel, as bytes.\<close>

type_synonym sample_frame = "u8 list"

definition sample_frames :: "audio_frame \<Rightarrow> sample_frame list" where
  "sample_frames f = (let stride = bytesPerSample (fr_format f) * unat (fr_channels f)
     in map (\<lambda>i. take stride (drop (i * stride) (fr_payload f))) [0..<sampleCountPerChannel f])"

text \<open>
  What the code knows of an \<open>AVPacket\<close>: the stream it belongs to, its times (\<open>pts\<close>, \<open>dts\<close>, duration)
  and its payload. A time base is a fraction.
\<close>

type_synonym time_base = "int \<times> int"
type_synonym packet_times = "int \<times> int \<times> int"

record media_packet =
  mp_stream :: nat
  mp_times :: packet_times
  mp_data :: "u8 list"

datatype media_call =
    AllocOutput string | OpenFile string | WriteHeader
  | SendFrame nat int "sample_frame list" | Flush nat
  | ReceivePacket nat media_packet | WritePacket media_packet
  | WriteTrailer | CloseFile | RenameFile string string | RemoveFile string

record track_state =
  tk_codec :: bool
  tk_timeBase :: time_base \<comment> \<open>of the codec\<close>
  tk_stream :: bool
  tk_fifo :: bool
  tk_scratch :: bool
  tk_chunkSamples :: int
  tk_nextPts :: int

record writer =
  rw_config :: recording_writer_config
  rw_partialPath :: string
  rw_format :: bool
  rw_fileOpen :: bool
  rw_packet :: bool
  rw_tracks :: "track_state list"
  rw_state :: writer_state
  rw_lastError :: recording_writer_error
  rw_stats :: recording_writer_stats
  rw_trace :: "(media_call \<times> bool) list"

definition new_writer :: "recording_writer_config \<Rightarrow> writer" where
  "new_writer config = \<lparr>rw_config = config, rw_partialPath = [], rw_format = False, rw_fileOpen = False,
     rw_packet = False, rw_tracks = [], rw_state = Closed, rw_lastError = InvalidState,
     rw_stats = \<lparr>rs_framesWritten = 0, rs_samplesWrittenPerTrack = []\<rparr>, rw_trace = []\<rparr>"

section \<open>FFmpeg and the file system\<close>

datatype receive_result = TryAgain | EndOfFile | ReceiveError | GotPacket media_packet

text \<open>The answers while one track is opened: each call may fail; \<open>ta_frameSize\<close> is the encoder's.\<close>

record track_api =
  ta_findEncoder :: bool
  ta_allocContext :: bool
  ta_openCodec :: bool
  ta_newStream :: bool
  ta_parameters :: bool
  ta_frameSize :: int
  ta_allocFifo :: bool
  ta_allocFrame :: bool
  ta_frameBuffer :: bool

record 'e media_api =
  m_alloc_output :: "string \<Rightarrow> 'e \<Rightarrow> 'e \<times> bool"
  m_track :: "nat \<Rightarrow> recording_track_config \<Rightarrow> 'e \<Rightarrow> 'e \<times> track_api"
  m_alloc_packet :: "'e \<Rightarrow> 'e \<times> bool"
  m_open_file :: "string \<Rightarrow> 'e \<Rightarrow> 'e \<times> bool"
  m_write_header :: "'e \<Rightarrow> 'e \<times> bool"
  m_fifo_write :: "nat \<Rightarrow> sample_frame list \<Rightarrow> 'e \<Rightarrow> 'e \<times> int"
  m_fifo_size :: "nat \<Rightarrow> 'e \<Rightarrow> int"
  m_fifo_read :: "nat \<Rightarrow> int \<Rightarrow> 'e \<Rightarrow> 'e \<times> sample_frame list \<times> int"
  m_make_writable :: "nat \<Rightarrow> 'e \<Rightarrow> 'e \<times> bool"
  m_send_frame :: "nat \<Rightarrow> (int \<times> sample_frame list) option \<Rightarrow> 'e \<Rightarrow> 'e \<times> bool"
  m_receive_packet :: "nat \<Rightarrow> 'e \<Rightarrow> 'e \<times> receive_result"
  m_time_base :: "nat \<Rightarrow> 'e \<Rightarrow> time_base" \<comment> \<open>of the stream; writing the header may change it\<close>
  m_rescale_ts :: "time_base \<Rightarrow> time_base \<Rightarrow> packet_times \<Rightarrow> packet_times"
  m_write_packet :: "media_packet \<Rightarrow> 'e \<Rightarrow> 'e \<times> bool"
  m_write_trailer :: "'e \<Rightarrow> 'e \<times> bool"
  m_close_file :: "'e \<Rightarrow> 'e \<times> bool"
  m_rename :: "string \<Rightarrow> string \<Rightarrow> 'e \<Rightarrow> 'e \<times> bool"
  m_remove :: "string \<Rightarrow> 'e \<Rightarrow> 'e \<times> bool"

definition log_call :: "media_call \<Rightarrow> bool \<Rightarrow> writer \<Rightarrow> writer" where
  "log_call c success w = w\<lparr>rw_trace := rw_trace w @ [(c, success)]\<rparr>"

section \<open>Opening\<close>

definition kFallbackChunkSamples :: int where
  "kFallbackChunkSamples = 4096"

definition track_sane :: "recording_track_config \<Rightarrow> bool" where
  "track_sane track \<longleftrightarrow> tf_format (rt_format track) = PcmS16Le \<and> 0 < tf_sampleRate (rt_format track)
     \<and> 1 \<le> tf_channels (rt_format track) \<and> tf_channels (rt_format track) \<le> 8"

definition codec_time_base :: "recording_track_config \<Rightarrow> time_base" where
  "codec_time_base track = (1, sint (tf_sampleRate (rt_format track)))"

text \<open>\<open>openTrack\<close>: the track is registered as soon as the encoder was found.\<close>

definition openTrack :: "'e media_api \<Rightarrow> recording_track_config \<Rightarrow> writer \<times> 'e
    \<Rightarrow> (writer \<times> 'e) \<times> recording_writer_error option" where
  "openTrack m trackConfig = (\<lambda>(w, e).
     let index = length (rw_tracks w);
         (e, api) = m_track m index trackConfig e;
         put = (\<lambda>tk. w\<lparr>rw_tracks := rw_tracks w @ [tk]\<rparr>);
         fresh = \<lparr>tk_codec = False, tk_timeBase = (0, 1), tk_stream = False, tk_fifo = False, tk_scratch = False,
           tk_chunkSamples = 0, tk_nextPts = 0\<rparr>
     in if \<not> ta_findEncoder api then ((w, e), Some OpenFailed)
     else if \<not> ta_allocContext api then ((put fresh, e), Some OpenFailed)
     else let tk = fresh\<lparr>tk_codec := True, tk_timeBase := codec_time_base trackConfig\<rparr> in
     if \<not> ta_openCodec api \<or> \<not> ta_newStream api then ((put tk, e), Some OpenFailed)
     else let tk = tk\<lparr>tk_stream := True\<rparr> in
     if \<not> ta_parameters api then ((put tk, e), Some OpenFailed)
     else let tk = tk\<lparr>tk_chunkSamples := (if 0 < ta_frameSize api then ta_frameSize api
              else kFallbackChunkSamples)\<rparr> in
     if \<not> ta_allocFifo api then ((put tk, e), Some OpenFailed)
     else let tk = tk\<lparr>tk_fifo := True\<rparr> in
     if \<not> ta_allocFrame api then ((put tk, e), Some OpenFailed)
     else let tk = tk\<lparr>tk_scratch := True\<rparr> in
     if \<not> ta_frameBuffer api then ((put tk, e), Some OpenFailed)
     else ((put tk, e), None))"

fun openTracks :: "'e media_api \<Rightarrow> recording_track_config list \<Rightarrow> writer \<times> 'e
    \<Rightarrow> (writer \<times> 'e) \<times> recording_writer_error option" where
  "openTracks m [] we = (we, None)"
| "openTracks m (t # ts) we =
     (case openTrack m t we of
       (we', Some err) \<Rightarrow> (we', Some err)
     | (we', None) \<Rightarrow> openTracks m ts we')"

definition writer_open :: "'e media_api \<Rightarrow> writer \<times> 'e \<Rightarrow> (writer \<times> 'e) \<times> recording_writer_error option" where
  "writer_open m = (\<lambda>(w, e).
     let config = rw_config w in
     if rc_outputFile config = [] \<or> rc_tracks config = [] then ((w, e), Some InvalidConfig)
     else if \<not> list_all track_sane (rc_tracks config) then ((w, e), Some InvalidConfig)
     else
       let w = w\<lparr>rw_partialPath := rc_outputFile config @ ''.partial''\<rparr>;
           container = (if length (rc_tracks config) = 1 then ''flac'' else ''matroska'');
           (e, allocated) = m_alloc_output m container e;
           w = log_call (AllocOutput container) allocated w in
       if \<not> allocated then ((w, e), Some OpenFailed)
       else
         let w = w\<lparr>rw_format := True, rw_stats := (rw_stats w)\<lparr>rs_samplesWrittenPerTrack :=
                 replicate (length (rc_tracks config)) 0\<rparr>\<rparr> in
         (case openTracks m (rc_tracks config) (w, e) of
           (we, Some err) \<Rightarrow> (we, Some err)
         | ((w, e), None) \<Rightarrow>
             let (e, packet) = m_alloc_packet m e in
             if \<not> packet then ((w, e), Some OpenFailed)
             else
               let w = w\<lparr>rw_packet := True\<rparr>;
                   (e, opened) = m_open_file m (rw_partialPath w) e;
                   w = log_call (OpenFile (rw_partialPath w)) opened w in
               if \<not> opened then ((w, e), Some OpenFailed)
               else
                 let (e, header) = m_write_header m e;
                     w = log_call WriteHeader header (w\<lparr>rw_fileOpen := True\<rparr>) in
                 if \<not> header then ((w, e), Some OpenFailed)
                 else ((w\<lparr>rw_state := Open\<rparr>, e), None)))"

definition cleanup :: "'e media_api \<Rightarrow> writer \<times> 'e \<Rightarrow> writer \<times> 'e" where
  "cleanup m = (\<lambda>(w, e).
     let w = w\<lparr>rw_tracks := [], rw_packet := False\<rparr> in
     if rw_format w then
       (if rw_fileOpen w then
          (let (e, closed) = m_close_file m e
           in ((log_call CloseFile closed w)\<lparr>rw_fileOpen := False, rw_format := False\<rparr>, e))
        else (w\<lparr>rw_format := False\<rparr>, e))
     else (w, e))"

text \<open>A writer that fails to open is destroyed, which only releases its handles.\<close>

definition createRecordingWriter :: "'e media_api \<Rightarrow> recording_writer_config \<Rightarrow> 'e
    \<Rightarrow> (recording_writer_error + writer) \<times> 'e" where
  "createRecordingWriter m config e =
     (case writer_open m (new_writer config, e) of
       (we, Some err) \<Rightarrow> (Inl err, snd (cleanup m we))
     | ((w, e'), None) \<Rightarrow> (Inr w, e'))"

section \<open>Encoding\<close>

text \<open>A packet on its way from the encoder of track \<open>t\<close> to the container: the streams are numbered as the tracks.\<close>

definition stamped :: "'e media_api \<Rightarrow> nat \<Rightarrow> time_base \<Rightarrow> time_base \<Rightarrow> media_packet \<Rightarrow> media_packet" where
  "stamped m t codec stream p = p\<lparr>mp_stream := t, mp_times := m_rescale_ts m codec stream (mp_times p)\<rparr>"

partial_function (option) drainPackets :: "'e media_api \<Rightarrow> nat \<Rightarrow> writer \<Rightarrow> 'e
    \<Rightarrow> ((writer \<times> 'e) \<times> bool) option" where
  "drainPackets m t w e =
     (case m_receive_packet m t e of (e1, received) \<Rightarrow>
       (case received of
         TryAgain \<Rightarrow> Some ((w, e1), True)
       | EndOfFile \<Rightarrow> Some ((w, e1), True)
       | ReceiveError \<Rightarrow> Some ((w, e1), False)
       | GotPacket p \<Rightarrow>
           let packet = stamped m t (tk_timeBase (rw_tracks w ! t)) (m_time_base m t e1) p;
               (e2, written) = m_write_packet m packet e1;
               w = log_call (WritePacket packet) written (log_call (ReceivePacket t p) True w)
           in if \<not> written then Some ((w, e2), False) else drainPackets m t w e2))"

definition set_track :: "nat \<Rightarrow> track_state \<Rightarrow> writer \<Rightarrow> writer" where
  "set_track t tk w = w\<lparr>rw_tracks := (rw_tracks w)[t := tk]\<rparr>"

text \<open>One chunk: read it from the FIFO, stamp it, send it to the encoder and drain the packets.\<close>

definition encodeChunk :: "'e media_api \<Rightarrow> nat \<Rightarrow> int \<Rightarrow> writer \<Rightarrow> 'e \<Rightarrow> ((writer \<times> 'e) \<times> bool) option" where
  "encodeChunk m t chunk w e =
     (let (e, writable) = m_make_writable m t e in
      if \<not> writable then Some ((w, e), False)
      else
        let (e, samples, got) = m_fifo_read m t chunk e in
        if got < chunk then Some ((w, e), False)
        else do {
          let tk = rw_tracks w ! t;
          pts \<leftarrow> s64 (tk_nextPts tk + chunk);
          let (e, sent) = m_send_frame m t (Some (tk_nextPts tk, samples)) e;
          let w = log_call (SendFrame t (tk_nextPts tk) samples) sent (set_track t (tk\<lparr>tk_nextPts := pts\<rparr>) w);
          if \<not> sent then Some ((w, e), False) else drainPackets m t w e })"

partial_function (option) encodeBuffered :: "'e media_api \<Rightarrow> nat \<Rightarrow> bool \<Rightarrow> writer \<Rightarrow> 'e
    \<Rightarrow> ((writer \<times> 'e) \<times> bool) option" where
  "encodeBuffered m t drainAll w e =
     (let available = m_fifo_size m t e; chunkSamples = tk_chunkSamples (rw_tracks w ! t);
          chunk = (if chunkSamples \<le> available then chunkSamples
            else if drainAll \<and> 0 < available then available else 0)
      in if \<not> (chunkSamples \<le> available \<or> drainAll \<and> 0 < available) then Some ((w, e), True)
         else Option.bind (encodeChunk m t chunk w e)
           (\<lambda>((w', e'), success). if success then encodeBuffered m t drainAll w' e' else Some ((w', e'), False)))"

section \<open>The public operations\<close>

definition writer_fail :: "recording_writer_error \<Rightarrow> writer \<Rightarrow> writer" where
  "writer_fail err w = w\<lparr>rw_lastError := err, rw_state := Failed\<rparr>"

definition frame_matches :: "track_format \<Rightarrow> audio_frame \<Rightarrow> bool" where
  "frame_matches expected frame \<longleftrightarrow> \<not> (fr_format frame \<noteq> tf_format expected
     \<or> fr_sampleRate frame \<noteq> tf_sampleRate expected \<or> fr_channels frame \<noteq> tf_channels expected)"

definition writer_write :: "'e media_api \<Rightarrow> nat \<Rightarrow> audio_frame \<Rightarrow> writer \<times> 'e
    \<Rightarrow> ((writer \<times> 'e) \<times> bool) option" where
  "writer_write m trackIndex frame = (\<lambda>(w, e).
     if rw_state w \<noteq> Open \<or> length (rw_tracks w) \<le> trackIndex
     then Some ((w\<lparr>rw_lastError := InvalidState\<rparr>, e), False)
     else if \<not> frame_matches (rt_format (rc_tracks (rw_config w) ! trackIndex)) frame
     then Some ((w\<lparr>rw_lastError := FormatMismatch\<rparr>, e), False)
     else
       let samples = sint (of_nat (sampleCountPerChannel frame) :: 32 word);
           count = (\<lambda>w. w\<lparr>rw_stats := \<lparr>rs_framesWritten = rs_framesWritten (rw_stats w) + 1,
             rs_samplesWrittenPerTrack = (rs_samplesWrittenPerTrack (rw_stats w))[trackIndex :=
               rs_samplesWrittenPerTrack (rw_stats w) ! trackIndex + word_of_int samples]\<rparr>\<rparr>)
       in if 0 < samples then
            (let (e, stored) = m_fifo_write m trackIndex (take (nat samples) (sample_frames frame)) e in
             if stored < samples then Some ((writer_fail WriteFailed w, e), False)
             else do {
               ((w, e), success) \<leftarrow> encodeBuffered m trackIndex False w e;
               Some (if \<not> success then ((writer_fail WriteFailed w, e), False) else ((count w, e), True)) })
          else Some ((count w, e), True))"

text \<open>The loop of \<open>finalize\<close> over the tracks, from index \<open>t\<close> on.\<close>

definition finishTrack :: "'e media_api \<Rightarrow> nat \<Rightarrow> writer \<Rightarrow> 'e \<Rightarrow> ((writer \<times> 'e) \<times> bool) option" where
  "finishTrack m t w e = do {
     ((w, e), encoded) \<leftarrow> encodeBuffered m t True w e;
     if \<not> encoded then Some ((w, e), False)
     else
       let (e, sent) = m_send_frame m t None e; w = log_call (Flush t) sent w in
       if \<not> sent then Some ((w, e), False) else drainPackets m t w e }"

fun finishTracks :: "'e media_api \<Rightarrow> nat list \<Rightarrow> writer \<Rightarrow> 'e \<Rightarrow> ((writer \<times> 'e) \<times> bool) option" where
  "finishTracks m [] w e = Some ((w, e), True)"
| "finishTracks m (t # ts) w e = do {
     ((w, e), success) \<leftarrow> finishTrack m t w e;
     if \<not> success then Some ((w, e), False) else finishTracks m ts w e }"

definition writer_finalize :: "'e media_api \<Rightarrow> writer \<times> 'e \<Rightarrow> ((writer \<times> 'e) \<times> bool) option" where
  "writer_finalize m = (\<lambda>(w, e).
     if rw_state w \<noteq> Open then Some ((w\<lparr>rw_lastError := InvalidState\<rparr>, e), False)
     else do {
       ((w, e), finished) \<leftarrow> finishTracks m [0..<length (rw_tracks w)] w e;
       if \<not> finished then Some ((writer_fail FinalizeFailed w, e), False)
       else
         let (e, trailer) = m_write_trailer m e; w = log_call WriteTrailer trailer w in
         if \<not> trailer then Some ((writer_fail FinalizeFailed w, e), False)
         else
           let (e, closed) = m_close_file m e; w = (log_call CloseFile closed w)\<lparr>rw_fileOpen := False\<rparr> in
           if \<not> closed then Some ((writer_fail FinalizeFailed w, e), False)
           else
             let (e, renamed) = m_rename m (rw_partialPath w) (rc_outputFile (rw_config w)) e;
                 w = log_call (RenameFile (rw_partialPath w) (rc_outputFile (rw_config w))) renamed w in
             if \<not> renamed then Some ((writer_fail FinalizeFailed w, e), False)
             else Some (cleanup m (w\<lparr>rw_state := Finalized\<rparr>, e), True) })"

definition writer_abort :: "'e media_api \<Rightarrow> writer \<times> 'e \<Rightarrow> writer \<times> 'e" where
  "writer_abort m = (\<lambda>(w, e).
     if rw_state w = Open \<or> rw_state w = Failed then
       (let (w, e) = cleanup m (w, e);
            (e, removed) = m_remove m (rw_partialPath w) e
        in cleanup m ((log_call (RemoveFile (rw_partialPath w)) removed w)\<lparr>rw_state := Aborted\<rparr>, e))
     else cleanup m (w, e))"

section \<open>What an operation may change\<close>

fun content_call :: "media_call \<Rightarrow> bool" where
  "content_call (SendFrame _ _ _) = True"
| "content_call (Flush _) = True"
| "content_call (ReceivePacket _ _) = True"
| "content_call (WritePacket _) = True"
| "content_call _ = False"

fun packet_call :: "media_call \<Rightarrow> bool" where
  "packet_call (ReceivePacket _ _) = True"
| "packet_call (WritePacket _) = True"
| "packet_call _ = False"

lemma packet_content: "packet_call c \<Longrightarrow> content_call c"
  by (cases c) simp_all

definition settings :: "track_state \<Rightarrow> int \<times> time_base" where
  "settings tk = (tk_chunkSamples tk, tk_timeBase tk)"

lemma settings_nextPts [simp]: "settings (tk\<lparr>tk_nextPts := p\<rparr>) = settings tk"
  by (simp add: settings_def)

text \<open>Encoding appends content calls to the trace and advances the time stamps, nothing else.\<close>

definition encodes :: "writer \<Rightarrow> writer \<Rightarrow> (media_call \<times> bool) list \<Rightarrow> bool" where
  "encodes w w' cs \<longleftrightarrow> list_all (content_call \<circ> fst) cs
     \<and> (\<exists>tks. map settings tks = map settings (rw_tracks w)
          \<and> w' = w\<lparr>rw_tracks := tks, rw_trace := rw_trace w @ cs\<rparr>)"

lemma encodes_refl [simp]: "encodes w w []"
  by (auto simp: encodes_def intro!: exI [of _ "rw_tracks w"])

lemma encodes_trans: "encodes w w1 cs \<Longrightarrow> encodes w1 w2 ds \<Longrightarrow> encodes w w2 (cs @ ds)"
  by (auto simp: encodes_def)

lemma encodes_log: "content_call c \<Longrightarrow> encodes w (log_call c b w) [(c, b)]"
  by (auto simp: encodes_def log_call_def intro!: exI [of _ "rw_tracks w"])

lemma encodes_fields:
  assumes "encodes w w' cs"
  shows "rw_state w' = rw_state w" "rw_config w' = rw_config w" "rw_partialPath w' = rw_partialPath w"
    "rw_stats w' = rw_stats w" "length (rw_tracks w') = length (rw_tracks w)"
    "rw_trace w' = rw_trace w @ cs" "rw_fileOpen w' = rw_fileOpen w" "rw_format w' = rw_format w"
    "rw_lastError w' = rw_lastError w"
  using assms by (auto simp: encodes_def dest: map_eq_imp_length_eq)

definition drained :: "writer \<Rightarrow> writer \<Rightarrow> (media_call \<times> bool) list \<Rightarrow> bool" where
  "drained w w' cs \<longleftrightarrow> w' = w\<lparr>rw_trace := rw_trace w @ cs\<rparr> \<and> list_all (packet_call \<circ> fst) cs"

lemma drained_encodes:
  assumes "drained w w' cs"
  shows "encodes w w' cs" and "rw_tracks w' = rw_tracks w" and "list_all (packet_call \<circ> fst) cs"
  using assms by (auto simp: drained_def encodes_def list_all_iff packet_content intro!: exI [of _ "rw_tracks w"])

lemma drained_packet:
  "drained (log_call (WritePacket q) ok (log_call (ReceivePacket t p) True w)) w' cs \<Longrightarrow>
   drained w w' ([(ReceivePacket t p, True), (WritePacket q, ok)] @ cs)"
  by (simp add: drained_def log_call_def)

text \<open>One turn of the loop, whatever stands for the rest of it.\<close>

lemma drain_body_cases:
  assumes "(case m_receive_packet m t e of (e1, received) \<Rightarrow>
       (case received of
         TryAgain \<Rightarrow> Some ((w, e1), True)
       | EndOfFile \<Rightarrow> Some ((w, e1), True)
       | ReceiveError \<Rightarrow> Some ((w, e1), False)
       | GotPacket p \<Rightarrow>
           let packet = stamped m t (tk_timeBase (rw_tracks w ! t)) (m_time_base m t e1) p;
               (e2, written) = m_write_packet m packet e1;
               w = log_call (WritePacket packet) written (log_call (ReceivePacket t p) True w)
           in if \<not> written then Some ((w, e2), False) else drain m t w e2)) = Some r"
  obtains (ended) e1 a where "m_receive_packet m t e = (e1, a)" "a = TryAgain \<or> a = EndOfFile \<or> a = ReceiveError"
      "r = ((w, e1), a \<noteq> ReceiveError)"
  | (packet) e1 p q e2 ok where "m_receive_packet m t e = (e1, GotPacket p)"
      "q = stamped m t (tk_timeBase (rw_tracks w ! t)) (m_time_base m t e1) p" "m_write_packet m q e1 = (e2, ok)"
      "(if ok then drain m t (log_call (WritePacket q) ok (log_call (ReceivePacket t p) True w)) e2
        else Some ((log_call (WritePacket q) ok (log_call (ReceivePacket t p) True w), e2), False)) = Some r"
proof -
  obtain e1 a where a: "m_receive_packet m t e = (e1, a)" by fastforce
  show thesis
  proof (cases a)
    case (GotPacket p)
    define q where "q = stamped m t (tk_timeBase (rw_tracks w ! t)) (m_time_base m t e1) p"
    obtain e2 ok where k: "m_write_packet m q e1 = (e2, ok)" by fastforce
    from assms a k show thesis
      by (intro packet [of e1 p q e2 ok]) (auto simp: GotPacket Let_def q_def [symmetric])
  qed (use assms a in \<open>auto intro: ended\<close>)
qed

lemma drainPackets_drained':
  assumes "drainPackets m t w e = Some r"
  shows "\<exists>cs. drained w (fst (fst r)) cs"
proof (rule drainPackets.raw_induct [where P = "\<lambda>m t w e r. \<exists>cs. drained w (fst (fst r)) cs", OF _ assms])
  fix drain and m :: "'a media_api" and t w e r
  assume IH: "\<And>m t w e r. drain m t w e = Some r \<Longrightarrow> \<exists>cs. drained w (fst (fst r)) cs"
    and body: "(case m_receive_packet m t e of (e1, received) \<Rightarrow>
       (case received of
         TryAgain \<Rightarrow> Some ((w, e1), True)
       | EndOfFile \<Rightarrow> Some ((w, e1), True)
       | ReceiveError \<Rightarrow> Some ((w, e1), False)
       | GotPacket p \<Rightarrow>
           let packet = stamped m t (tk_timeBase (rw_tracks w ! t)) (m_time_base m t e1) p;
               (e2, written) = m_write_packet m packet e1;
               w = log_call (WritePacket packet) written (log_call (ReceivePacket t p) True w)
           in if \<not> written then Some ((w, e2), False) else drain m t w e2)) = Some r"
  from body show "\<exists>cs. drained w (fst (fst r)) cs"
  proof (cases rule: drain_body_cases)
    case (ended e1 a)
    then show ?thesis by (intro exI [of _ "[]"]) (simp add: drained_def)
  next
    case (packet e1 p q e2 ok)
    let ?w = "log_call (WritePacket q) ok (log_call (ReceivePacket t p) True w)"
    have "\<exists>cs. drained ?w (fst (fst r)) cs"
    proof (cases ok)
      case True
      with packet(4) IH show ?thesis by simp
    next
      case False
      with packet(4) show ?thesis by (intro exI [of _ "[]"]) (auto simp: drained_def)
    qed
    then show ?thesis using drained_packet by blast
  qed
qed

lemma drainPackets_drained: "drainPackets m t w e = Some ((w', e'), b) \<Longrightarrow> \<exists>cs. drained w w' cs"
  using drainPackets_drained' [of m t w e "((w', e'), b)"] by simp

lemma drainPackets_encodes: "drainPackets m t w e = Some ((w', e'), b) \<Longrightarrow> \<exists>cs. encodes w w' cs"
  by (blast dest: drainPackets_drained drained_encodes(1))

lemma encodeChunk_cases:
  assumes "encodeChunk m t chunk w e = Some ((w', e'), b)"
  obtains (failed) "w' = w" "\<not> b"
  | (unsent) xs p where "w' = log_call (SendFrame t (tk_nextPts (rw_tracks w ! t)) xs) False
        (set_track t ((rw_tracks w ! t)\<lparr>tk_nextPts := p\<rparr>) w)" "\<not> b"
  | (sent) e1 e2 e3 xs got where "m_make_writable m t e = (e1, True)" "m_fifo_read m t chunk e1 = (e2, xs, got)"
      "chunk \<le> got" "m_send_frame m t (Some (tk_nextPts (rw_tracks w ! t), xs)) e2 = (e3, True)"
      "in_s64 (tk_nextPts (rw_tracks w ! t) + chunk)"
      "drainPackets m t (log_call (SendFrame t (tk_nextPts (rw_tracks w ! t)) xs) True (set_track t
        ((rw_tracks w ! t)\<lparr>tk_nextPts := tk_nextPts (rw_tracks w ! t) + chunk\<rparr>) w)) e3 = Some ((w', e'), b)"
proof -
  obtain e1 k where 1: "m_make_writable m t e = (e1, k)" by fastforce
  obtain e2 xs got where 2: "m_fifo_read m t chunk e1 = (e2, xs, got)" by (metis prod_cases3)
  obtain e3 s where 3: "m_send_frame m t (Some (tk_nextPts (rw_tracks w ! t), xs)) e2 = (e3, s)" by fastforce
  show thesis
  proof (cases "k \<and> \<not> got < chunk")
    case True
    with assms 1 2 have "in_s64 (tk_nextPts (rw_tracks w ! t) + chunk)"
      by (auto simp: encodeChunk_def Let_def bind_eq_Some_conv s64_eq_Some_iff)
    with assms True 1 2 3 show thesis
      by (cases s) (auto simp: encodeChunk_def Let_def s64_Some intro: unsent sent)
  next
    case False
    with assms 1 2 show thesis by (cases k) (auto simp: encodeChunk_def intro: failed)
  qed
qed

lemma encodes_send:
  "encodes w (log_call (SendFrame t q xs) s (set_track t ((rw_tracks w ! t)\<lparr>tk_nextPts := p\<rparr>) w)) [(SendFrame t q xs, s)]"
proof -
  let ?tks = "(rw_tracks w)[t := (rw_tracks w ! t)\<lparr>tk_nextPts := p\<rparr>]"
  have "map settings ?tks = map settings (rw_tracks w)"
    by (cases "t < length (rw_tracks w)") (simp_all add: map_update list_update_same_conv list_update_beyond)
  then show ?thesis
    unfolding encodes_def by (intro conjI exI [of _ ?tks]) (simp_all add: log_call_def set_track_def)
qed

lemma encodeChunk_encodes:
  assumes "encodeChunk m t chunk w e = Some ((w', e'), b)"
  shows "\<exists>cs. encodes w w' cs"
  using assms
proof (cases rule: encodeChunk_cases)
  case failed
  then show ?thesis using encodes_refl by blast
next
  case (unsent xs p)
  then show ?thesis using encodes_send by blast
next
  case (sent e1 e2 e3 xs got)
  from drainPackets_encodes [OF sent(6)] encodes_trans [OF encodes_send] show ?thesis by blast
qed

lemma encodeBuffered_cases:
  assumes "encodeBuffered m t d w e = Some ((w', e'), b)"
  obtains (idle) "w' = w" "e' = e" "b" "m_fifo_size m t e < tk_chunkSamples (rw_tracks w ! t)"
      "d \<longrightarrow> m_fifo_size m t e \<le> 0"
  | (chunk) chunk w1 e1 b1 where "chunk = (if tk_chunkSamples (rw_tracks w ! t) \<le> m_fifo_size m t e
        then tk_chunkSamples (rw_tracks w ! t) else m_fifo_size m t e)"
      "tk_chunkSamples (rw_tracks w ! t) \<le> m_fifo_size m t e \<or> d \<and> 0 < m_fifo_size m t e"
      "encodeChunk m t chunk w e = Some ((w1, e1), b1)"
      "(if b1 then encodeBuffered m t d w1 e1 else Some ((w1, e1), False)) = Some ((w', e'), b)"
  using assms
  by (subst (asm) encodeBuffered.simps) (auto simp: Let_def bind_eq_Some_conv split: if_split_asm)

lemma encodeBuffered_encodes':
  assumes "encodeBuffered m t d w e = Some r"
  shows "\<exists>cs. encodes w (fst (fst r)) cs"
proof (rule encodeBuffered.raw_induct [where P = "\<lambda>m t d w e r. \<exists>cs. encodes w (fst (fst r)) cs", OF _ assms])
  fix enc and m :: "'a media_api" and t d w e r
  assume IH: "\<And>m t d w e r. enc m t d w e = Some r \<Longrightarrow> \<exists>cs. encodes w (fst (fst r)) cs"
    and body: "(let available = m_fifo_size m t e; chunkSamples = tk_chunkSamples (rw_tracks w ! t);
          chunk = (if chunkSamples \<le> available then chunkSamples
            else if d \<and> 0 < available then available else 0)
      in if \<not> (chunkSamples \<le> available \<or> d \<and> 0 < available) then Some ((w, e), True)
         else Option.bind (encodeChunk m t chunk w e)
           (\<lambda>((w', e'), success). if success then enc m t d w' e' else Some ((w', e'), False))) = Some r"
  from body consider "fst (fst r) = w"
    | chunk w1 e1 b1 where "encodeChunk m t chunk w e = Some ((w1, e1), b1)"
        "(if b1 then enc m t d w1 e1 else Some ((w1, e1), False)) = Some r"
    by (auto simp: Let_def bind_eq_Some_conv split: if_split_asm)
  then show "\<exists>cs. encodes w (fst (fst r)) cs"
  proof cases
    case 1
    then show ?thesis by (intro exI [of _ "[]"]) simp
  next
    case (2 chunk w1 e1 b1)
    from encodeChunk_encodes [OF 2(1)] obtain cs where "encodes w w1 cs" ..
    moreover have "\<exists>ds. encodes w1 (fst (fst r)) ds"
      using 2(2) IH [of m t d w1 e1 r] by (cases b1) (auto intro: exI [of _ "[]"])
    ultimately show ?thesis using encodes_trans by blast
  qed
qed

lemma encodeBuffered_encodes:
  "encodeBuffered m t d w e = Some ((w', e'), b) \<Longrightarrow> \<exists>cs. encodes w w' cs"
  using encodeBuffered_encodes' [of m t d w e "((w', e'), b)"] by simp

lemma finishTrack_encodes:
  "finishTrack m t w e = Some ((w', e'), b) \<Longrightarrow>
   \<exists>cs. encodes w w' cs \<and> (b \<longrightarrow> (Flush t, True) \<in> set cs)"
proof -
  assume f: "finishTrack m t w e = Some ((w', e'), b)"
  then obtain w1 e1 b1 where 1: "encodeBuffered m t True w e = Some ((w1, e1), b1)"
    by (auto simp: finishTrack_def bind_eq_Some_conv)
  from encodeBuffered_encodes [OF 1] obtain cs where cs: "encodes w w1 cs" ..
  obtain e2 s where s: "m_send_frame m t None e1 = (e2, s)" by fastforce
  show ?thesis
  proof (cases "b1 \<and> s")
    case True
    with f 1 s have "drainPackets m t (log_call (Flush t) True w1) e2 = Some ((w', e'), b)"
      by (simp add: finishTrack_def)
    from drainPackets_encodes [OF this] obtain ds where "encodes (log_call (Flush t) True w1) w' ds" by blast
    with cs have "encodes w w' (cs @ [(Flush t, True)] @ ds)"
      by (intro encodes_trans [OF cs] encodes_trans [OF encodes_log]) simp_all
    then show ?thesis by (intro exI [of _ "cs @ [(Flush t, True)] @ ds"]) simp
  next
    case False
    with f 1 s cs encodes_trans [OF cs encodes_log [of "Flush t" w1 False]] show ?thesis
      by (cases b1) (auto simp: finishTrack_def)
  qed
qed

lemma finishTracks_encodes:
  "finishTracks m ts w e = Some ((w', e'), b) \<Longrightarrow>
   \<exists>cs. encodes w w' cs \<and> (b \<longrightarrow> (\<forall>t \<in> set ts. (Flush t, True) \<in> set cs))"
proof (induction ts arbitrary: w e)
  case Nil
  then show ?case by (intro exI [of _ "[]"]) simp
next
  case (Cons t ts)
  then obtain w1 e1 b1 where 1: "finishTrack m t w e = Some ((w1, e1), b1)"
    and 2: "(if \<not> b1 then Some ((w1, e1), False) else finishTracks m ts w1 e1) = Some ((w', e'), b)"
    by (auto simp: bind_eq_Some_conv)
  from finishTrack_encodes [OF 1] obtain cs where cs: "encodes w w1 cs" "b1 \<longrightarrow> (Flush t, True) \<in> set cs"
    by blast
  show ?case
  proof (cases b1)
    case True
    with 2 Cons.IH [of w1 e1] obtain ds where "encodes w1 w' ds" "b \<longrightarrow> (\<forall>t \<in> set ts. (Flush t, True) \<in> set ds)"
      by auto
    with cs True encodes_trans [OF cs(1)] show ?thesis by (intro exI [of _ "cs @ ds"]) auto
  next
    case False
    with 2 cs show ?thesis by auto
  qed
qed

section \<open>When files appear and disappear\<close>

datatype writer_op = Write nat audio_frame | Finalize | Abort

fun writer_step :: "'e media_api \<Rightarrow> writer \<times> 'e \<Rightarrow> writer_op \<Rightarrow> ((writer \<times> 'e) \<times> bool) option" where
  "writer_step m we (Write t f) = writer_write m t f we"
| "writer_step m we Finalize = writer_finalize m we"
| "writer_step m we Abort = Some (writer_abort m we, True)"

fun writer_run :: "'e media_api \<Rightarrow> writer \<times> 'e \<Rightarrow> writer_op list \<Rightarrow> ((writer \<times> 'e) \<times> bool list) option" where
  "writer_run m we [] = Some (we, [])"
| "writer_run m we (op # ops) = do {
     (we', b) \<leftarrow> writer_step m we op;
     (we'', bs) \<leftarrow> writer_run m we' ops;
     Some (we'', b # bs) }"

text \<open>
  A trace is safe when it renames only the partial file onto the output file, right after the
  trailer was written and the file closed, with every track's encoder flushed before; and
  nothing is written after a rename or a removal.
\<close>

definition rename_ok :: "writer \<Rightarrow> nat \<Rightarrow> (media_call \<times> bool) list \<Rightarrow> media_call \<Rightarrow> bool" where
  "rename_ok w n pre c \<longleftrightarrow> c = RenameFile (rw_partialPath w) (rc_outputFile (rw_config w))
     \<and> (\<exists>pre'. pre = pre' @ [(WriteTrailer, True), (CloseFile, True)] \<and> (\<forall>t < n. (Flush t, True) \<in> set pre'))"

definition trace_safe :: "nat \<Rightarrow> writer \<Rightarrow> bool" where
  "trace_safe n w \<longleftrightarrow> (\<forall>pre a b ok post. rw_trace w = pre @ (RenameFile a b, ok) # post \<longrightarrow>
     rename_ok w n pre (RenameFile a b) \<and> list_all (\<lambda>c. \<not> content_call (fst c)) post)"

fun renames :: "(media_call \<times> bool) list \<Rightarrow> bool" where
  "renames [] = False"
| "renames ((RenameFile _ _, _) # cs) = True"
| "renames (_ # cs) = renames cs"

lemma renames_append [simp]: "renames (cs @ ds) \<longleftrightarrow> renames cs \<or> renames ds"
  by (induction cs rule: renames.induct) auto

lemma renames_split: "renames (pre @ (RenameFile a b, ok) # post)"
  by simp

lemma content_no_renames: "list_all (content_call \<circ> fst) cs \<Longrightarrow> \<not> renames cs"
  by (induction cs rule: renames.induct) auto

definition writer_inv :: "nat \<Rightarrow> writer \<Rightarrow> bool" where
  [inv_simps]: "writer_inv n w \<longleftrightarrow> trace_safe n w
     \<and> (rw_state w = Open \<longrightarrow> length (rw_tracks w) = n \<and> \<not> renames (rw_trace w))"

lemma trace_safe_extend:
  assumes "trace_safe n w" and "rw_trace w' = rw_trace w @ cs" and "\<not> renames cs"
    and "rw_partialPath w' = rw_partialPath w" and "rw_config w' = rw_config w"
    and "list_all (\<lambda>c. \<not> content_call (fst c)) cs \<or> \<not> renames (rw_trace w)"
  shows "trace_safe n w'"
  unfolding trace_safe_def
proof (intro allI impI)
  fix pre a b ok post
  assume t: "rw_trace w' = pre @ (RenameFile a b, ok) # post"
  then have "rw_trace w @ cs = pre @ (RenameFile a b, ok) # post" using assms(2) by simp
  then consider q where "rw_trace w = pre @ q" "q @ cs = (RenameFile a b, ok) # post"
    | q where "rw_trace w @ q = pre" "cs = q @ (RenameFile a b, ok) # post"
    by (auto simp: append_eq_append_conv2)
  then show "rename_ok w' n pre (RenameFile a b) \<and> list_all (\<lambda>c. \<not> content_call (fst c)) post"
  proof cases
    case (1 q)
    show ?thesis
    proof (cases q)
      case Nil
      with 1 assms(3) show ?thesis by simp
    next
      case (Cons x q')
      with 1 have "rw_trace w = pre @ (RenameFile a b, ok) # q'" "post = q' @ cs" by simp_all
      with assms show ?thesis by (auto simp: trace_safe_def rename_ok_def)
    qed
  next
    case (2 q)
    with assms(3) show ?thesis by simp
  qed
qed

lemma encodes_trace_safe:
  assumes "encodes w w' cs" and "trace_safe n w" and "\<not> renames (rw_trace w)"
  shows "trace_safe n w' \<and> \<not> renames (rw_trace w')"
proof -
  have c: "\<not> renames cs" using assms(1) by (intro content_no_renames) (simp add: encodes_def)
  note f = encodes_fields [OF assms(1)]
  have "trace_safe n w'"
    by (rule trace_safe_extend [OF assms(2) f(6) c f(3,2)]) (simp add: assms(3))
  with c assms(3) show ?thesis by (simp add: f(6))
qed

lemma cleanup_fields:
  assumes "cleanup m (w, e) = (w', e')"
  shows "rw_state w' = rw_state w" "rw_partialPath w' = rw_partialPath w" "rw_config w' = rw_config w"
    "rw_stats w' = rw_stats w" "rw_lastError w' = rw_lastError w"
    "\<exists>cs. rw_trace w' = rw_trace w @ cs \<and> set cs \<subseteq> {(CloseFile, True), (CloseFile, False)}"
    "rw_tracks w' = [] \<and> \<not> rw_packet w' \<and> \<not> rw_format w'"
  using assms by (auto simp: cleanup_def Let_def log_call_def split_beta split: if_splits)

lemma close_only:
  "set cs \<subseteq> {(CloseFile, True), (CloseFile, False)} \<Longrightarrow> \<not> renames cs \<and> list_all (\<lambda>c. \<not> content_call (fst c)) cs"
  by (induction cs rule: renames.induct) auto

lemma cleanup_trace_safe:
  assumes "cleanup m (w, e) = (w', e')" and "trace_safe n w"
  shows "trace_safe n w'"
proof -
  from cleanup_fields(6) [OF assms(1)] obtain cs where
    "rw_trace w' = rw_trace w @ cs" "set cs \<subseteq> {(CloseFile, True), (CloseFile, False)}" by blast
  with cleanup_fields [OF assms(1)] close_only [of cs] show ?thesis
    by (intro trace_safe_extend [OF assms(2)]) auto
qed

lemma trace_safe_cong:
  "rw_trace w' = rw_trace w \<Longrightarrow> rw_partialPath w' = rw_partialPath w \<Longrightarrow> rw_config w' = rw_config w \<Longrightarrow>
   trace_safe n w' = trace_safe n w"
  by (simp add: trace_safe_def rename_ok_def)

lemma writer_write_inv:
  assumes "writer_write m t f (w, e) = Some ((w', e'), b)" and "writer_inv n w"
  shows "writer_inv n w'"
proof -
  consider "w' = w\<lparr>rw_lastError := InvalidState\<rparr>" | "w' = w\<lparr>rw_lastError := FormatMismatch\<rparr>"
    | w1 cs st where "encodes w w1 cs" "rw_state w = Open" "w' = writer_fail WriteFailed w1 \<or> w' = w1\<lparr>rw_stats := st\<rparr>"
  proof (cases "rw_state w \<noteq> Open \<or> length (rw_tracks w) \<le> t
      \<or> \<not> frame_matches (rt_format (rc_tracks (rw_config w) ! t)) f")
    case True
    with assms(1) that(1,2) show thesis by (auto simp: writer_write_def split: if_splits)
  next
    case False
    then have open_: "rw_state w = Open" by simp
    let ?samples = "sint (of_nat (sampleCountPerChannel f) :: 32 word)"
    obtain e1 stored where s: "m_fifo_write m t (take (nat ?samples) (sample_frames f)) e = (e1, stored)" by fastforce
    show thesis
    proof (cases "0 < ?samples \<and> \<not> stored < ?samples")
      case True
      with assms(1) False s obtain w1 e2 b1 where 1: "encodeBuffered m t False w e1 = Some ((w1, e2), b1)"
        "w' = writer_fail WriteFailed w1 \<or> (\<exists>st. w' = w1\<lparr>rw_stats := st\<rparr>)"
        by (auto simp: writer_write_def Let_def bind_eq_Some_conv split: if_splits)
      from encodeBuffered_encodes [OF 1(1)] 1(2) that(3) open_ show thesis by blast
    next
      case no: False
      with assms(1) False s have "w' = writer_fail WriteFailed w \<or> (\<exists>st. w' = w\<lparr>rw_stats := st\<rparr>)"
        by (auto simp: writer_write_def Let_def split: if_splits)
      with that(3) open_ encodes_refl show thesis by blast
    qed
  qed
  then show ?thesis
  proof cases
    case (3 w1 cs st)
    with assms(2) have "trace_safe n w1 \<and> \<not> renames (rw_trace w1)"
      by (intro encodes_trace_safe [OF 3(1)]) (simp_all add: writer_inv_def)
    moreover have "length (rw_tracks w1) = n" "rw_state w1 = Open"
      using encodes_fields [OF 3(1)] 3(2) assms(2) by (simp_all add: writer_inv_def)
    ultimately show ?thesis using 3(3) trace_safe_cong [of w' w1 n]
      by (auto simp: writer_inv_def writer_fail_def)
  qed (use assms(2) trace_safe_cong [of w' w n] in \<open>simp_all add: writer_inv_def\<close>)
qed

lemma writer_finalize_cases:
  assumes "writer_finalize m (w, e) = Some ((w', e'), b)"
  obtains (refused) "rw_state w \<noteq> Open" "w' = w\<lparr>rw_lastError := InvalidState\<rparr>" "e' = e" "\<not> b"
  | (unfinished) w1 e1 k cs fo where "rw_state w = Open" "finishTracks m [0..<length (rw_tracks w)] w e = Some ((w1, e1), k)"
      "\<not> b" "\<not> renames cs" "cs = [] \<or> cs = [(WriteTrailer, False)] \<or> cs = [(WriteTrailer, True), (CloseFile, False)]"
      "w' = writer_fail FinalizeFailed (w1\<lparr>rw_fileOpen := fo, rw_trace := rw_trace w1 @ cs\<rparr>)"
  | (renamed) w1 e1 e4 ok w2 where "rw_state w = Open"
      "finishTracks m [0..<length (rw_tracks w)] w e = Some ((w1, e1), True)"
      "w2 = w1\<lparr>rw_fileOpen := False, rw_trace := rw_trace w1 @ [(WriteTrailer, True), (CloseFile, True),
         (RenameFile (rw_partialPath w1) (rc_outputFile (rw_config w1)), ok)]\<rparr>"
      "(if ok then b \<and> (w', e') = cleanup m (w2\<lparr>rw_state := Finalized\<rparr>, e4)
        else \<not> b \<and> w' = writer_fail FinalizeFailed w2)"
proof (cases "rw_state w = Open")
  case False
  with assms show thesis by (intro refused) (auto simp: writer_finalize_def)
next
  case True
  with assms obtain w1 e1 k where k: "finishTracks m [0..<length (rw_tracks w)] w e = Some ((w1, e1), k)"
    by (auto simp: writer_finalize_def bind_eq_Some_conv)
  obtain e2 tr where tr: "m_write_trailer m e1 = (e2, tr)" by fastforce
  obtain e3 cl where cl: "m_close_file m e2 = (e3, cl)" by fastforce
  obtain e4 ok where ok: "m_rename m (rw_partialPath w1) (rc_outputFile (rw_config w1)) e3 = (e4, ok)" by fastforce
  note d = writer_finalize_def log_call_def writer_fail_def Let_def
  show thesis
  proof (cases "k \<and> tr \<and> cl")
    case False
    then consider "\<not> k" | "k" "\<not> tr" | "k" "tr" "\<not> cl" by blast
    then show thesis
    proof cases
      case 1
      with assms k True show thesis
        by (intro unfinished [OF True k, where cs = "[]" and fo = "rw_fileOpen w1"]) (auto simp: d)
    next
      case 2
      with assms k tr True show thesis
        by (intro unfinished [OF True k, where cs = "[(WriteTrailer, False)]" and fo = "rw_fileOpen w1"])
          (auto simp: d)
    next
      case 3
      with assms k tr cl True show thesis
        by (intro unfinished [OF True k, where cs = "[(WriteTrailer, True), (CloseFile, False)]" and fo = False])
          (auto simp: d)
    qed
  next
    case t: True
    with assms k tr cl ok True show thesis
      by (intro renamed [OF True, of w1 e1 _ ok e4]) (auto simp: d split: if_splits)
  qed
qed

lemma snoc_rename_split:
  assumes "\<not> renames xs" and "xs @ [x] = pre @ (RenameFile a b, ok) # post"
  shows "pre = xs \<and> post = [] \<and> x = (RenameFile a b, ok)"
proof (cases post rule: rev_cases)
  case Nil
  with assms(2) show ?thesis by simp
next
  case (snoc ys y)
  with assms(2) have "xs @ [x] = (pre @ (RenameFile a b, ok) # ys) @ [y]" by simp
  then have "xs = pre @ (RenameFile a b, ok) # ys" unfolding append1_eq_conv by blast
  with assms(1) renames_split show ?thesis by blast
qed

lemma writer_finalize_inv:
  assumes "writer_finalize m (w, e) = Some ((w', e'), b)" and inv: "writer_inv n w"
  shows "writer_inv n w' \<and> (b \<longrightarrow> rw_state w' = Finalized)"
  using assms(1)
proof (cases rule: writer_finalize_cases)
  case refused
  with inv trace_safe_cong [of w' w n] show ?thesis by (simp add: writer_inv_def)
next
  case (unfinished w1 e1 k cs fo)
  from finishTracks_encodes [OF unfinished(2)] obtain ds where ds: "encodes w w1 ds" by blast
  have 1: "trace_safe n w1 \<and> \<not> renames (rw_trace w1)"
    using inv unfinished(1) by (intro encodes_trace_safe [OF ds]) (simp_all add: writer_inv_def)
  have "trace_safe n w'"
    using 1 unfinished(4) by (intro trace_safe_extend [of n w1 w' cs]) (simp_all add: unfinished(6) writer_fail_def)
  then show ?thesis using unfinished(3) by (simp add: writer_inv_def unfinished(6) writer_fail_def)
next
  case (renamed w1 e1 e4 ok w2)
  from finishTracks_encodes [OF renamed(2)] obtain ds where ds: "encodes w w1 ds"
    "\<forall>t < length (rw_tracks w). (Flush t, True) \<in> set ds" by auto
  have n: "length (rw_tracks w) = n" using inv renamed(1) by (simp add: writer_inv_def)
  have 1: "trace_safe n w1 \<and> \<not> renames (rw_trace w1)"
    using inv renamed(1) by (intro encodes_trace_safe [OF ds(1)]) (simp_all add: writer_inv_def)
  have fl: "\<forall>t < n. (Flush t, True) \<in> set (rw_trace w1)"
    using ds(2) encodes_fields(6) [OF ds(1)] n by auto
  have "trace_safe n w2"
    unfolding trace_safe_def
  proof (intro allI impI)
    fix pre a b ok' post
    assume t: "rw_trace w2 = pre @ (RenameFile a b, ok') # post"
    have "(rw_trace w1 @ [(WriteTrailer, True), (CloseFile, True)]) @
        [(RenameFile (rw_partialPath w1) (rc_outputFile (rw_config w1)), ok)] = pre @ (RenameFile a b, ok') # post"
      unfolding t [symmetric] by (simp add: renamed(3))
    from snoc_rename_split [OF _ this] 1
    have "pre = rw_trace w1 @ [(WriteTrailer, True), (CloseFile, True)] \<and> post = []
      \<and> a = rw_partialPath w1 \<and> b = rc_outputFile (rw_config w1)"
      by simp
    then show "rename_ok w2 n pre (RenameFile a b) \<and> list_all (\<lambda>c. \<not> content_call (fst c)) post"
      using fl by (simp add: rename_ok_def renamed(3))
  qed
  show ?thesis
  proof (cases ok)
    case True
    with renamed(4) have c: "cleanup m (w2\<lparr>rw_state := Finalized\<rparr>, e4) = (w', e')" and b by simp_all
    have "trace_safe n (w2\<lparr>rw_state := Finalized\<rparr>)"
      using \<open>trace_safe n w2\<close> trace_safe_cong [of "w2\<lparr>rw_state := Finalized\<rparr>" w2 n] by simp
    from cleanup_trace_safe [OF c this] cleanup_fields(1) [OF c] show ?thesis by (simp add: writer_inv_def)
  next
    case False
    with renamed(4) \<open>trace_safe n w2\<close> trace_safe_cong [of w' w2 n] show ?thesis
      by (simp add: writer_inv_def writer_fail_def)
  qed
qed

lemma writer_abort_inv:
  assumes "writer_abort m (w, e) = (w', e')" and "writer_inv n w"
  shows "writer_inv n w'"
proof (cases "rw_state w = Open \<or> rw_state w = Failed")
  case True
  obtain w1 e1 where c: "cleanup m (w, e) = (w1, e1)" by fastforce
  obtain e2 r where r: "m_remove m (rw_partialPath w1) e1 = (e2, r)" by fastforce
  let ?w = "(log_call (RemoveFile (rw_partialPath w1)) r w1)\<lparr>rw_state := Aborted\<rparr>"
  have 2: "cleanup m (?w, e2) = (w', e')" using assms(1) True c r by (simp add: writer_abort_def)
  have "trace_safe n ?w"
  proof (rule trace_safe_extend [of n w1 ?w "[(RemoveFile (rw_partialPath w1), r)]"])
    show "trace_safe n w1" using assms(2) by (intro cleanup_trace_safe [OF c]) (simp add: writer_inv_def)
  qed (simp_all add: log_call_def)
  then have "trace_safe n w'" by (rule cleanup_trace_safe [OF 2])
  moreover have "rw_state w' = Aborted" using cleanup_fields(1) [OF 2] by simp
  ultimately show ?thesis by (simp add: writer_inv_def)
next
  case False
  with assms(1) have "cleanup m (w, e) = (w', e')" by (auto simp: writer_abort_def)
  from cleanup_trace_safe [OF this] cleanup_fields(1) [OF this] assms(2) False show ?thesis
    by (simp add: writer_inv_def)
qed

text \<open>The paths a writer has removed, and what no operation changes.\<close>

definition removed_paths :: "writer \<Rightarrow> string set" where
  "removed_paths w = {p. \<exists>ok. (RemoveFile p, ok) \<in> set (rw_trace w)}"

lemma encodes_removed: "encodes w w' cs \<Longrightarrow> removed_paths w' = removed_paths w"
proof -
  assume e: "encodes w w' cs"
  have "(RemoveFile p, ok) \<notin> set cs" for p ok
    using e by (force simp: encodes_def list_all_iff)
  then show ?thesis by (auto simp: removed_paths_def encodes_fields(6) [OF e])
qed

lemma cleanup_removed: "cleanup m (w, e) = (w', e') \<Longrightarrow> removed_paths w' = removed_paths w"
  using cleanup_fields(6) [of m w e w' e'] by (auto simp: removed_paths_def)

lemma writer_write_cases:
  assumes "writer_write m t f (w, e) = Some ((w', e'), b)"
  obtains (refused) err where "w' = w\<lparr>rw_lastError := err\<rparr>" "e' = e" "\<not> b"
      "err = InvalidState \<and> (rw_state w \<noteq> Open \<or> length (rw_tracks w) \<le> t)
        \<or> err = FormatMismatch \<and> \<not> frame_matches (rt_format (rc_tracks (rw_config w) ! t)) f"
  | (failed) w1 cs where "rw_state w = Open" "encodes w w1 cs" "w' = writer_fail WriteFailed w1" "\<not> b"
  | (empty) st where "rw_state w = Open" "t < length (rw_tracks w)"
      "frame_matches (rt_format (rc_tracks (rw_config w) ! t)) f"
      "sint (of_nat (sampleCountPerChannel f) :: 32 word) \<le> 0" "w' = w\<lparr>rw_stats := st\<rparr>" "e' = e" "b"
  | (written) e1 stored w1 st where "rw_state w = Open" "t < length (rw_tracks w)"
      "frame_matches (rt_format (rc_tracks (rw_config w) ! t)) f"
      "m_fifo_write m t (take (nat (sint (of_nat (sampleCountPerChannel f) :: 32 word))) (sample_frames f)) e = (e1, stored)"
      "sint (of_nat (sampleCountPerChannel f) :: 32 word) \<le> stored"
      "encodeBuffered m t False w e1 = Some ((w1, e'), True)" "w' = w1\<lparr>rw_stats := st\<rparr>" "b"
proof (cases "rw_state w \<noteq> Open \<or> length (rw_tracks w) \<le> t
    \<or> \<not> frame_matches (rt_format (rc_tracks (rw_config w) ! t)) f")
  case True
  with assms show thesis by (auto simp: writer_write_def intro: refused split: if_splits)
next
  case False
  then have o: "rw_state w = Open" "t < length (rw_tracks w)"
    "frame_matches (rt_format (rc_tracks (rw_config w) ! t)) f" by simp_all
  let ?samples = "sint (of_nat (sampleCountPerChannel f) :: 32 word)"
  obtain e1 stored where s: "m_fifo_write m t (take (nat ?samples) (sample_frames f)) e = (e1, stored)" by fastforce
  consider "?samples \<le> 0" | "0 < ?samples" "stored < ?samples" | "0 < ?samples" "?samples \<le> stored" by linarith
  then show thesis
  proof cases
    case 1
    with assms o show thesis by (intro empty [OF o 1]) (auto simp: writer_write_def)
  next
    case 2
    with assms o s show thesis by (intro failed [OF o(1) encodes_refl]) (auto simp: writer_write_def)
  next
    case 3
    with assms o s obtain w1 e2 b1 where 1: "encodeBuffered m t False w e1 = Some ((w1, e2), b1)"
      by (auto simp: writer_write_def bind_eq_Some_conv)
    show thesis
    proof (cases b1)
      case True
      with assms o s 3 1 show thesis
        by (intro written [OF o s 3(2), of w1]) (auto simp: writer_write_def)
    next
      case False
      from encodeBuffered_encodes [OF 1] obtain cs where "encodes w w1 cs" by blast
      with assms o s 3 1 False show thesis
        by (intro failed [OF o(1), of w1 cs]) (auto simp: writer_write_def)
    qed
  qed
qed

lemma writer_step_fields:
  assumes "writer_step m (w, e) op = Some ((w', e'), b)"
  shows "rw_partialPath w' = rw_partialPath w \<and> rw_config w' = rw_config w
    \<and> removed_paths w' \<subseteq> removed_paths w \<union> (if op = Abort then {rw_partialPath w} else {})"
proof (cases op)
  case (Write t f)
  with assms have "writer_write m t f (w, e) = Some ((w', e'), b)" by simp
  then show ?thesis
  proof (cases rule: writer_write_cases)
    case (failed w1 cs)
    with encodes_fields [OF failed(2)] encodes_removed [OF failed(2)] show ?thesis
      by (auto simp: writer_fail_def removed_paths_def)
  next
    case (written e1 stored w1 st)
    from encodeBuffered_encodes [OF written(6)] obtain cs where cs: "encodes w w1 cs" by blast
    with written encodes_fields [OF cs] encodes_removed [OF cs] show ?thesis
      by (auto simp: removed_paths_def)
  qed (auto simp: removed_paths_def)
next
  case Finalize
  with assms have "writer_finalize m (w, e) = Some ((w', e'), b)" by simp
  then show ?thesis
  proof (cases rule: writer_finalize_cases)
    case (unfinished w1 e1 k cs fo)
    from finishTracks_encodes [OF unfinished(2)] obtain ds where ds: "encodes w w1 ds" by blast
    from unfinished(5) have "removed_paths w' = removed_paths w1"
      by (auto simp: unfinished(6) removed_paths_def writer_fail_def)
    with encodes_fields [OF ds] encodes_removed [OF ds] show ?thesis
      by (simp add: unfinished(6) writer_fail_def)
  next
    case (renamed w1 e1 e4 ok w2)
    from finishTracks_encodes [OF renamed(2)] obtain ds where ds: "encodes w w1 ds" by blast
    have 3: "removed_paths (w2\<lparr>rw_state := Finalized\<rparr>) = removed_paths w1"
      by (auto simp: renamed(3) removed_paths_def)
    show ?thesis
    proof (cases ok)
      case True
      with renamed(4) have c: "cleanup m (w2\<lparr>rw_state := Finalized\<rparr>, e4) = (w', e')" by simp
      from cleanup_fields(2,3) [OF c] cleanup_removed [OF c] 3 encodes_fields [OF ds] encodes_removed [OF ds]
      show ?thesis by (simp add: renamed(3))
    next
      case False
      with renamed(4) have w': "w' = writer_fail FinalizeFailed w2" by simp
      have "removed_paths w' = removed_paths w1" by (auto simp: w' writer_fail_def renamed(3) removed_paths_def)
      with encodes_fields [OF ds] encodes_removed [OF ds] show ?thesis
        by (simp add: w' renamed(3) writer_fail_def)
    qed
  qed (auto simp: removed_paths_def)
next
  case a: Abort
  with assms have ab: "writer_abort m (w, e) = (w', e')" by simp
  show ?thesis
  proof (cases "rw_state w = Open \<or> rw_state w = Failed")
    case True
    obtain w1 e1 where c: "cleanup m (w, e) = (w1, e1)" by fastforce
    obtain e2 r where r: "m_remove m (rw_partialPath w1) e1 = (e2, r)" by fastforce
    let ?w = "(log_call (RemoveFile (rw_partialPath w1)) r w1)\<lparr>rw_state := Aborted\<rparr>"
    have 2: "cleanup m (?w, e2) = (w', e')" using ab True c r by (simp add: writer_abort_def)
    have "removed_paths ?w = insert (rw_partialPath w1) (removed_paths w1)"
      by (auto simp: removed_paths_def log_call_def)
    with cleanup_fields(2,3) [OF c] cleanup_fields(2,3) [OF 2] cleanup_removed [OF c] cleanup_removed [OF 2] a
    show ?thesis by (simp add: log_call_def)
  next
    case False
    with ab have c: "cleanup m (w, e) = (w', e')" by (auto simp: writer_abort_def)
    from cleanup_fields(2,3) [OF c] cleanup_removed [OF c] show ?thesis by simp
  qed
qed

lemma writer_run_inv:
  "writer_run m (w, e) ops = Some ((w', e'), bs) \<Longrightarrow> writer_inv n w \<Longrightarrow>
   writer_inv n w' \<and> rw_partialPath w' = rw_partialPath w \<and> rw_config w' = rw_config w
   \<and> removed_paths w' \<subseteq> removed_paths w \<union> (if Abort \<in> set ops then {rw_partialPath w} else {})"
proof (induction ops arbitrary: w e bs)
  case (Cons op ops)
  then obtain w1 e1 b bs' where 1: "writer_step m (w, e) op = Some ((w1, e1), b)"
    and 2: "writer_run m (w1, e1) ops = Some ((w', e'), bs')"
    by (auto simp: bind_eq_Some_conv)
  have "writer_inv n w1"
    using 1 Cons.prems(2)
    by (cases op) (auto dest: writer_write_inv writer_finalize_inv writer_abort_inv)
  from Cons.IH [OF 2 this] writer_step_fields [OF 1] show ?case by (auto split: if_splits)
qed auto

section \<open>What reaches the encoders\<close>

text \<open>
  What the code relies on: the audio FIFO is a queue (\<open>cont\<close> is its content per track), no other
  call touches it, and an encoder hands out finitely many packets (\<open>backlog\<close>) before it asks
  for input again.
\<close>

definition media_laws :: "'e media_api \<Rightarrow> ('e \<Rightarrow> nat \<Rightarrow> sample_frame list) \<Rightarrow> ('e \<Rightarrow> nat \<Rightarrow> nat) \<Rightarrow> bool" where
  "media_laws m cont backlog \<longleftrightarrow>
     (\<forall>t xs e e' n. m_fifo_write m t xs e = (e', n) \<and> int (length xs) \<le> n \<longrightarrow>
        cont e' = (cont e)(t := cont e t @ xs))
   \<and> (\<forall>t e. m_fifo_size m t e = int (length (cont e t)))
   \<and> (\<forall>t c e e' xs n. m_fifo_read m t c e = (e', xs, n) \<and> 0 \<le> c \<and> c \<le> int (length (cont e t)) \<and> c \<le> n \<longrightarrow>
        xs = take (nat c) (cont e t) \<and> cont e' = (cont e)(t := drop (nat c) (cont e t)))
   \<and> (\<forall>t e. cont (fst (m_make_writable m t e)) = cont e)
   \<and> (\<forall>t x e. cont (fst (m_send_frame m t x e)) = cont e)
   \<and> (\<forall>t e. cont (fst (m_receive_packet m t e)) = cont e)
   \<and> (\<forall>p e. cont (fst (m_write_packet m p e)) = cont e)
   \<and> (\<forall>t e e' p. m_receive_packet m t e = (e', GotPacket p) \<longrightarrow> backlog e' t < backlog e t)
   \<and> (\<forall>p e. backlog (fst (m_write_packet m p e)) (mp_stream p) \<le> backlog e (mp_stream p))"

text \<open>The chunks an encoder received: time stamp and samples.\<close>

fun sent_chunks :: "nat \<Rightarrow> (media_call \<times> bool) list \<Rightarrow> (int \<times> sample_frame list) list" where
  "sent_chunks t [] = []"
| "sent_chunks t ((SendFrame i p xs, True) # cs) = (if i = t then [(p, xs)] else []) @ sent_chunks t cs"
| "sent_chunks t (_ # cs) = sent_chunks t cs"

fun contiguous :: "int \<Rightarrow> (int \<times> sample_frame list) list \<Rightarrow> bool" where
  "contiguous p [] = True"
| "contiguous p ((q, xs) # cs) = (q = p \<and> contiguous (p + int (length xs)) cs)"

definition chunk_samples :: "(int \<times> sample_frame list) list \<Rightarrow> sample_frame list" where
  "chunk_samples cs = concat (map snd cs)"

lemma sent_chunks_append [simp]: "sent_chunks t (cs @ ds) = sent_chunks t cs @ sent_chunks t ds"
  by (induction t cs rule: sent_chunks.induct) simp_all

lemma chunk_samples_simps [simp]:
  "chunk_samples [] = []" "chunk_samples (cs @ ds) = chunk_samples cs @ chunk_samples ds"
  "chunk_samples [(p, xs)] = xs"
  by (simp_all add: chunk_samples_def)

lemma contiguous_append:
  "contiguous p (cs @ ds) \<longleftrightarrow> contiguous p cs \<and> contiguous (p + int (length (chunk_samples cs))) ds"
  by (induction p cs rule: contiguous.induct) (auto simp: chunk_samples_def algebra_simps)

lemma sent_chunks_packets: "list_all (packet_call \<circ> fst) cs \<Longrightarrow> sent_chunks i cs = []"
  by (induction i cs rule: sent_chunks.induct) auto

lemma drainPackets_total:
  assumes "media_laws m cont backlog"
  shows "\<exists>w' e' b. drainPackets m t w e = Some ((w', e'), b) \<and> cont e' = cont e"
proof (induction "backlog e t" arbitrary: w e rule: less_induct)
  case less
  obtain e1 a where a: "m_receive_packet m t e = (e1, a)" by fastforce
  have c1: "cont e1 = cont e" using assms a unfolding media_laws_def by (metis fst_conv)
  show ?case
  proof (cases a)
    case (GotPacket p)
    define q where "q = stamped m t (tk_timeBase (rw_tracks w ! t)) (m_time_base m t e1) p"
    obtain e2 k where k: "m_write_packet m q e1 = (e2, k)" by fastforce
    have c2: "cont e2 = cont e1" using assms k unfolding media_laws_def by (metis fst_conv)
    let ?w = "log_call (WritePacket q) k (log_call (ReceivePacket t p) True w)"
    have body: "drainPackets m t w e = (if k then drainPackets m t ?w e2 else Some ((?w, e2), False))"
      using a k by (subst drainPackets.simps) (simp add: GotPacket Let_def q_def [symmetric])
    have "backlog e1 t < backlog e t" using assms a GotPacket unfolding media_laws_def by blast
    moreover have "backlog e2 t \<le> backlog e1 t"
    proof -
      have "mp_stream q = t" by (simp add: q_def stamped_def)
      moreover have "backlog (fst (m_write_packet m q e1)) (mp_stream q) \<le> backlog e1 (mp_stream q)"
        using assms unfolding media_laws_def by (elim conjE) (erule allE)+
      ultimately show ?thesis using k by simp
    qed
    ultimately obtain w' e' b where "drainPackets m t ?w e2 = Some ((w', e'), b)" "cont e' = cont e2"
      using less [of e2] by (meson order.strict_trans1)
    with body c1 c2 show ?thesis by (cases k) (simp_all add: ex_bool_eq)
  qed (subst drainPackets.simps, simp add: a c1 ex_bool_eq)+
qed

lemma encodeChunk_total:
  assumes laws: "media_laws m cont backlog" and t: "t < length (rw_tracks w)"
    and c: "0 \<le> chunk" "chunk \<le> int (length (cont e t))" and p: "in_s64 (tk_nextPts (rw_tracks w ! t) + chunk)"
  shows "\<exists>w' e' b. encodeChunk m t chunk w e = Some ((w', e'), b) \<and> (b \<longrightarrow>
      cont e' = (cont e)(t := drop (nat chunk) (cont e t))
    \<and> rw_tracks w' = (rw_tracks w)[t := (rw_tracks w ! t)\<lparr>tk_nextPts := tk_nextPts (rw_tracks w ! t) + chunk\<rparr>]
    \<and> (\<forall>i. sent_chunks i (rw_trace w') = sent_chunks i (rw_trace w)
         @ (if i = t then [(tk_nextPts (rw_tracks w ! t), take (nat chunk) (cont e t))] else [])))"
proof -
  obtain e1 k where 1: "m_make_writable m t e = (e1, k)" by fastforce
  obtain e2 xs got where 2: "m_fifo_read m t chunk e1 = (e2, xs, got)" by (metis prod_cases3)
  let ?tk = "rw_tracks w ! t"
  obtain e3 s where 3: "m_send_frame m t (Some (tk_nextPts ?tk, xs)) e2 = (e3, s)" by fastforce
  have e1: "cont e1 = cont e" using laws 1 unfolding media_laws_def by (metis fst_conv)
  have e3: "cont e3 = cont e2" using laws 3 unfolding media_laws_def by (metis fst_conv)
  let ?w = "log_call (SendFrame t (tk_nextPts ?tk) xs) True (set_track t (?tk\<lparr>tk_nextPts := tk_nextPts ?tk + chunk\<rparr>) w)"
  obtain w' e' b where d: "drainPackets m t ?w e3 = Some ((w', e'), b)" "cont e' = cont e3"
    using drainPackets_total [OF laws, of t ?w e3] by blast
  from drainPackets_drained [OF d(1)] obtain cs where "drained ?w w' cs" ..
  note cs = drained_encodes [OF this]
  have tr: "rw_trace w' = rw_trace w @ [(SendFrame t (tk_nextPts ?tk) xs, True)] @ cs"
    using encodes_fields(6) [OF cs(1)] by (simp add: log_call_def set_track_def)
  show ?thesis
  proof (cases "k \<and> chunk \<le> got \<and> s")
    case True
    then have "xs = take (nat chunk) (cont e t)" "cont e2 = (cont e)(t := drop (nat chunk) (cont e t))"
      using laws 2 c e1 unfolding media_laws_def by metis+
    with True 1 2 3 d e3 cs tr p show ?thesis
      by (simp add: encodeChunk_def s64_Some Let_def sent_chunks_packets [OF cs(3)] log_call_def set_track_def)
  next
    case False
    with 1 2 3 p show ?thesis by (cases k; cases "chunk \<le> got") (auto simp: encodeChunk_def s64_Some Let_def)
  qed
qed

text \<open>The effect of \<open>encodeBuffered\<close> on track \<open>t\<close>: the chunks \<open>ys\<close> went to the encoder.\<close>

definition encoded :: "('e \<Rightarrow> nat \<Rightarrow> sample_frame list) \<Rightarrow> nat \<Rightarrow> bool \<Rightarrow> writer \<Rightarrow> 'e \<Rightarrow> writer \<Rightarrow> 'e
    \<Rightarrow> (int \<times> sample_frame list) list \<Rightarrow> bool" where
  "encoded cont t d w e w' e' ys \<longleftrightarrow>
     (let tk = rw_tracks w ! t in
        chunk_samples ys @ cont e' t = cont e t \<and> (\<forall>i. i \<noteq> t \<longrightarrow> cont e' i = cont e i)
      \<and> (\<forall>i. sent_chunks i (rw_trace w') = sent_chunks i (rw_trace w) @ (if i = t then ys else []))
      \<and> rw_tracks w' = (rw_tracks w)[t := tk\<lparr>tk_nextPts := tk_nextPts tk + int (length (chunk_samples ys))\<rparr>]
      \<and> contiguous (tk_nextPts tk) ys \<and> (\<forall>y \<in> set ys. snd y \<noteq> [] \<and> int (length (snd y)) \<le> tk_chunkSamples tk)
      \<and> (\<forall>y \<in> set (butlast ys). int (length (snd y)) = tk_chunkSamples tk)
      \<and> (if d then cont e' t = [] else \<forall>y \<in> set ys. int (length (snd y)) = tk_chunkSamples tk))"

lemma encoded_Cons:
  assumes t: "t < length (rw_tracks w)" and c: "0 < c" "c \<le> length (cont e t)"
    and full: "int c = tk_chunkSamples (rw_tracks w ! t) \<or> d \<and> c = length (cont e t)"
    and most: "int c \<le> tk_chunkSamples (rw_tracks w ! t)"
    and s: "cont e1 = (cont e)(t := drop c (cont e t))"
      "rw_tracks w1 = (rw_tracks w)[t := (rw_tracks w ! t)\<lparr>tk_nextPts := tk_nextPts (rw_tracks w ! t) + int c\<rparr>]"
      "\<forall>i. sent_chunks i (rw_trace w1) = sent_chunks i (rw_trace w)
         @ (if i = t then [(tk_nextPts (rw_tracks w ! t), take c (cont e t))] else [])"
    and r: "encoded cont t d w1 e1 w' e' ys"
  shows "encoded cont t d w e w' e' ((tk_nextPts (rw_tracks w ! t), take c (cont e t)) # ys)"
proof -
  let ?x = "(tk_nextPts (rw_tracks w ! t), take c (cont e t))"
  have x: "chunk_samples (?x # ys) = take c (cont e t) @ chunk_samples ys" by (simp add: chunk_samples_def)
  have l: "length (take c (cont e t)) = c" "take c (cont e t) \<noteq> []" using c by auto
  have e: "chunk_samples ys @ cont e' t = drop c (cont e t)"
    using r s(1) by (simp add: encoded_def Let_def)
  have last: "int c = tk_chunkSamples (rw_tracks w ! t) \<or> ys = []"
  proof (cases "int c = tk_chunkSamples (rw_tracks w ! t)")
    case False
    with full e have "chunk_samples ys = []" by simp
    moreover have "\<forall>y \<in> set ys. snd y \<noteq> []" using r by (simp add: encoded_def Let_def)
    ultimately show ?thesis by (cases ys) (auto simp: chunk_samples_def)
  qed simp
  have full': "\<not> d \<Longrightarrow> int c = tk_chunkSamples (rw_tracks w ! t)" using full by simp
  from r e x l t s last full' most show ?thesis
    unfolding encoded_def Let_def by (auto simp: algebra_simps)
qed

lemma media_laws_size: "media_laws m cont backlog \<Longrightarrow> m_fifo_size m t e = int (length (cont e t))"
  unfolding media_laws_def by (elim conjE) simp

lemma encodeBuffered_total:
  assumes laws: "media_laws m cont backlog"
  shows "t < length (rw_tracks w) \<Longrightarrow> 0 < tk_chunkSamples (rw_tracks w ! t) \<Longrightarrow> 0 \<le> tk_nextPts (rw_tracks w ! t) \<Longrightarrow>
    tk_nextPts (rw_tracks w ! t) + int (length (cont e t)) < 2 ^ 63 \<Longrightarrow>
    \<exists>w' e' b. encodeBuffered m t d w e = Some ((w', e'), b) \<and> (b \<longrightarrow> (\<exists>ys. encoded cont t d w e w' e' ys))"
proof (induction "length (cont e t)" arbitrary: w e rule: less_induct)
  case less
  let ?tk = "rw_tracks w ! t" and ?n = "length (cont e t)"
  have size: "m_fifo_size m t e = int ?n" by (rule media_laws_size [OF laws])
  show ?case
  proof (cases "tk_chunkSamples ?tk \<le> int ?n \<or> d \<and> 0 < ?n")
    case False
    then have "encodeBuffered m t d w e = Some ((w, e), True)"
      by (subst encodeBuffered.simps) (simp add: Let_def size)
    moreover have "encoded cont t d w e w e []"
      using False less.prems(1) by (auto simp: encoded_def Let_def)
    ultimately show ?thesis by blast
  next
    case True
    define c where "c = (if tk_chunkSamples ?tk \<le> int ?n then nat (tk_chunkSamples ?tk) else ?n)"
    have c: "0 < c" "c \<le> ?n" "int c = tk_chunkSamples ?tk \<or> d \<and> c = ?n" "int c \<le> tk_chunkSamples ?tk"
      using True less.prems(2) by (auto simp: c_def)
    have chunk: "(if tk_chunkSamples ?tk \<le> int ?n then tk_chunkSamples ?tk
        else if d \<and> 0 < int ?n then int ?n else 0) = int c"
      using True less.prems(2) by (auto simp: c_def)
    have p: "in_s64 (tk_nextPts ?tk + int c)" using less.prems(3,4) c by (simp add: in_s64_def)
    have cc: "0 \<le> int c" "int c \<le> int ?n" using c by simp_all
    from encodeChunk_total [OF laws less.prems(1) cc p, unfolded nat_int] obtain w1 e1 b where
      1: "encodeChunk m t (int c) w e = Some ((w1, e1), b)" and
      2: "b \<longrightarrow> cont e1 = (cont e)(t := drop c (cont e t))
        \<and> rw_tracks w1 = (rw_tracks w)[t := ?tk\<lparr>tk_nextPts := tk_nextPts ?tk + int c\<rparr>]
        \<and> (\<forall>i. sent_chunks i (rw_trace w1) = sent_chunks i (rw_trace w)
             @ (if i = t then [(tk_nextPts ?tk, take c (cont e t))] else []))"
      by blast
    have step: "encodeBuffered m t d w e = (if b then encodeBuffered m t d w1 e1 else Some ((w1, e1), False))"
    proof -
      from True have "\<not> \<not> (tk_chunkSamples ?tk \<le> int ?n \<or> d \<and> 0 < int ?n)" by simp
      then show ?thesis
        unfolding encodeBuffered.simps [of m t d w e] Let_def size chunk by (simp only: if_False 1 bind.simps) simp
    qed
    show ?thesis
    proof (cases b)
      case False
      with step have "encodeBuffered m t d w e = Some ((w1, e1), False)" by simp
      then show ?thesis by blast
    next
      case b: True
      with 2 have s: "cont e1 = (cont e)(t := drop c (cont e t))"
        "rw_tracks w1 = (rw_tracks w)[t := ?tk\<lparr>tk_nextPts := tk_nextPts ?tk + int c\<rparr>]"
        "\<forall>i. sent_chunks i (rw_trace w1) = sent_chunks i (rw_trace w)
             @ (if i = t then [(tk_nextPts ?tk, take c (cont e t))] else [])" by simp_all
      have "\<exists>w' e' b. encodeBuffered m t d w1 e1 = Some ((w', e'), b) \<and> (b \<longrightarrow> (\<exists>ys. encoded cont t d w1 e1 w' e' ys))"
        using less.prems c s by (intro less.hyps) simp_all
      with encoded_Cons [OF less.prems(1) c s] step b show ?thesis by fastforce
    qed
  qed
qed

text \<open>
  What one track of an open recording holds: the samples sent to its encoder and those still
  in its FIFO are the accepted ones. Once a track is drained the last chunk may be short.
\<close>

definition track_rec :: "('e \<Rightarrow> nat \<Rightarrow> sample_frame list) \<Rightarrow> bool \<Rightarrow> sample_frame list \<Rightarrow> writer \<Rightarrow> 'e \<Rightarrow> nat \<Rightarrow> bool" where
  "track_rec cont d xs w e t \<longleftrightarrow>
     (let tk = rw_tracks w ! t; ys = sent_chunks t (rw_trace w);
          full = (\<lambda>y. int (length (snd y)) = tk_chunkSamples tk)
      in chunk_samples ys @ cont e t = xs \<and> contiguous 0 ys
       \<and> (if d then cont e t = [] \<and> (\<forall>y \<in> set (butlast ys). full y) else \<forall>y \<in> set ys. full y)
       \<and> (\<forall>y \<in> set ys. snd y \<noteq> [] \<and> int (length (snd y)) \<le> tk_chunkSamples tk)
       \<and> tk_nextPts tk = int (length (chunk_samples ys)) \<and> 0 < tk_chunkSamples tk)"

lemma track_rec_encoded:
  assumes "track_rec cont False xs w e t" and "t < length (rw_tracks w)" and "encoded cont t d w e w' e' ys"
  shows "track_rec cont d xs w' e' t"
proof -
  have "set (butlast (sent_chunks t (rw_trace w) @ ys)) \<subseteq> set (sent_chunks t (rw_trace w)) \<union> set (butlast ys)"
    by (auto simp: butlast_append dest: in_set_butlastD)
  with assms show ?thesis
    by (cases d) (auto simp: track_rec_def encoded_def Let_def contiguous_append)
qed

lemma track_rec_frame:
  assumes "encoded cont t d w e w' e' ys" and "i \<noteq> t"
  shows "track_rec cont k xs w' e' i = track_rec cont k xs w e i"
  using assms by (simp add: track_rec_def encoded_def Let_def)

lemma encoded_length: "encoded cont t d w e w' e' ys \<Longrightarrow> length (rw_tracks w') = length (rw_tracks w)"
  by (simp add: encoded_def Let_def)

lemma track_rec_encodeBuffered:
  assumes laws: "media_laws m cont backlog" and "t < length (rw_tracks w)"
    and r: "track_rec cont False xs w e t" and "int (length xs) < 2 ^ 63"
  shows "\<exists>w' e' b. encodeBuffered m t d w e = Some ((w', e'), b) \<and> (b \<longrightarrow> (\<exists>ys. encoded cont t d w e w' e' ys))"
proof -
  have "tk_nextPts (rw_tracks w ! t) + int (length (cont e t)) = int (length xs)"
    using r by (auto simp: track_rec_def Let_def)
  with assms show ?thesis
    by (intro encodeBuffered_total [OF laws]) (auto simp: track_rec_def Let_def)
qed

lemma finishTrack_total:
  assumes laws: "media_laws m cont backlog" and t: "t < length (rw_tracks w)"
    and r: "track_rec cont False xs w e t" and x: "int (length xs) < 2 ^ 63"
  shows "\<exists>w' e' b. finishTrack m t w e = Some ((w', e'), b) \<and> (b \<longrightarrow> (\<exists>ys. encoded cont t True w e w' e' ys))"
proof -
  from track_rec_encodeBuffered [OF assms] obtain w1 e1 b1 where
    1: "encodeBuffered m t True w e = Some ((w1, e1), b1)" and
    2: "b1 \<longrightarrow> (\<exists>ys. encoded cont t True w e w1 e1 ys)" by blast
  obtain e2 s where s: "m_send_frame m t None e1 = (e2, s)" by fastforce
  have c: "cont e2 = cont e1" using laws s unfolding media_laws_def by (metis fst_conv)
  obtain w3 e3 b3 where 3: "drainPackets m t (log_call (Flush t) True w1) e2 = Some ((w3, e3), b3)" "cont e3 = cont e2"
    using drainPackets_total [OF laws] by blast
  from drainPackets_drained [OF 3(1)] obtain cs where "drained (log_call (Flush t) True w1) w3 cs" ..
  note cs = drained_encodes [OF this]
  have tr: "sent_chunks i (rw_trace w3) = sent_chunks i (rw_trace w1)" for i
    using encodes_fields(6) [OF cs(1)] by (simp add: log_call_def sent_chunks_packets [OF cs(3)])
  show ?thesis
  proof (cases "b1 \<and> s")
    case True
    with 2 obtain ys where "encoded cont t True w e w1 e1 ys" by blast
    then have "encoded cont t True w e w3 e3 ys" by (auto simp: encoded_def Let_def tr cs(2) log_call_def 3(2) c)
    moreover have "finishTrack m t w e = Some ((w3, e3), b3)" using True 1 s 3 by (simp add: finishTrack_def)
    ultimately show ?thesis by blast
  next
    case False
    with 1 s have "finishTrack m t w e = Some (if b1 then ((log_call (Flush t) False w1, e2), False) else ((w1, e1), False))"
      by (simp add: finishTrack_def)
    then show ?thesis by (cases b1) (simp_all, blast+)
  qed
qed

lemma finishTracks_total:
  assumes laws: "media_laws m cont backlog"
  shows "distinct ts \<Longrightarrow> \<forall>t \<in> set ts. t < length (rw_tracks w) \<and> track_rec cont False (acc t) w e t
      \<and> int (length (acc t)) < 2 ^ 63 \<Longrightarrow>
    \<exists>w' e' b. finishTracks m ts w e = Some ((w', e'), b) \<and> (b \<longrightarrow> (\<forall>t \<in> set ts. track_rec cont True (acc t) w' e' t)
      \<and> (\<forall>i xs k. i \<notin> set ts \<longrightarrow> track_rec cont k xs w' e' i = track_rec cont k xs w e i))"
proof (induction ts arbitrary: w e)
  case (Cons t ts)
  then have t: "t < length (rw_tracks w)" "track_rec cont False (acc t) w e t" "int (length (acc t)) < 2 ^ 63"
    "t \<notin> set ts" "distinct ts" by simp_all
  from finishTrack_total [OF laws t(1-3)] obtain w1 e1 b1 where
    1: "finishTrack m t w e = Some ((w1, e1), b1)" and
    2: "b1 \<longrightarrow> (\<exists>ys. encoded cont t True w e w1 e1 ys)" by blast
  show ?case
  proof (cases b1)
    case False
    with 1 have "finishTracks m (t # ts) w e = Some ((w1, e1), False)" by simp
    then show ?thesis by blast
  next
    case b: True
    with 2 obtain ys where ys: "encoded cont t True w e w1 e1 ys" by blast
    note fr = track_rec_frame [OF ys]
    have "\<forall>i \<in> set ts. i < length (rw_tracks w1) \<and> track_rec cont False (acc i) w1 e1 i \<and> int (length (acc i)) < 2 ^ 63"
      using Cons.prems t(4) encoded_length [OF ys] fr by (metis list.set_intros(2))
    from Cons.IH [OF t(5) this] obtain w' e' b where
      3: "finishTracks m ts w1 e1 = Some ((w', e'), b)" and
      4: "b \<longrightarrow> (\<forall>t \<in> set ts. track_rec cont True (acc t) w' e' t)
        \<and> (\<forall>i xs k. i \<notin> set ts \<longrightarrow> track_rec cont k xs w' e' i = track_rec cont k xs w1 e1 i)" by blast
    from 1 3 b have "finishTracks m (t # ts) w e = Some ((w', e'), b)" by simp
    moreover have "track_rec cont True (acc t) w1 e1 t" by (rule track_rec_encoded [OF t(2,1) ys])
    ultimately show ?thesis using 4 t(4) fr by (intro exI conjI) auto
  qed
qed (auto intro: exI [of _ True])

text \<open>The audio a run offers to and accepts for a track; \<open>recording\<close> holds of an open writer.\<close>

fun accepted :: "nat \<Rightarrow> writer_op list \<Rightarrow> bool list \<Rightarrow> sample_frame list" where
  "accepted t (Write i f # ops) (b # bs) = (if i = t \<and> b then sample_frames f else []) @ accepted t ops bs"
| "accepted t (op # ops) (b # bs) = accepted t ops bs"
| "accepted t _ _ = []"

fun offered :: "writer_op list \<Rightarrow> int" where
  "offered [] = 0"
| "offered (Write i f # ops) = int (sampleCountPerChannel f) + offered ops"
| "offered (op # ops) = offered ops"

definition small_frames :: "writer_op list \<Rightarrow> bool" where
  "small_frames ops \<longleftrightarrow> (\<forall>t f. Write t f \<in> set ops \<longrightarrow> int (sampleCountPerChannel f) < 2 ^ 31)"

lemma offered_nonneg: "0 \<le> offered ops"
  by (induction ops rule: offered.induct) simp_all

lemma accepted_append:
  "length ops = length bs \<Longrightarrow> accepted t (ops @ ops') (bs @ bs') = accepted t ops bs @ accepted t ops' bs'"
  by (induction t ops bs rule: accepted.induct) (auto simp: neq_Nil_conv)

definition recording :: "('e \<Rightarrow> nat \<Rightarrow> sample_frame list) \<Rightarrow> (nat \<Rightarrow> sample_frame list) \<Rightarrow> writer \<Rightarrow> 'e \<Rightarrow> bool" where
  "recording cont acc w e \<longleftrightarrow> (\<forall>t < length (rw_tracks w). track_rec cont False (acc t) w e t)"

lemma sample_frames_length [simp]: "length (sample_frames f) = sampleCountPerChannel f"
  by (simp add: sample_frames_def Let_def)

lemma small_samples:
  assumes "int n < 2 ^ 31"
  shows "sint (of_nat n :: 32 word) = int n"
  using assms by (simp add: signed_of_nat signed_take_bit_int_eq_self)

lemma recording_cong:
  "rw_tracks w' = rw_tracks w \<Longrightarrow> rw_trace w' = rw_trace w \<Longrightarrow> recording cont acc w' e = recording cont acc w e"
  by (simp add: recording_def track_rec_def Let_def)

lemma recording_encoded:
  assumes "recording cont acc w e" and "t < length (rw_tracks w)" and "encoded cont t False w e w' e' ys"
  shows "recording cont acc w' e'"
  unfolding recording_def
proof (intro allI impI)
  fix i assume "i < length (rw_tracks w')"
  then have "track_rec cont False (acc i) w e i" using assms(1) encoded_length [OF assms(3)] by (simp add: recording_def)
  then show "track_rec cont False (acc i) w' e' i"
    using track_rec_encoded [OF _ assms(2,3)] track_rec_frame [OF assms(3)] by (cases "i = t") simp_all
qed

lemma recording_fifo_write:
  assumes "recording cont acc w e" and "cont e' = (cont e)(t := cont e t @ xs)"
  shows "recording cont (acc(t := acc t @ xs)) w e'"
  using assms by (auto simp: recording_def track_rec_def Let_def)

lemma writer_write_records:
  assumes laws: "media_laws m cont backlog" and o: "rw_state w = Open" and r: "recording cont acc w e"
    and n: "int (sampleCountPerChannel f) < 2 ^ 31"
    and total: "\<forall>i. int (length (acc i)) + int (sampleCountPerChannel f) < 2 ^ 63"
  shows "\<exists>w' e' b. writer_write m t f (w, e) = Some ((w', e'), b) \<and> (rw_state w' = Open \<longrightarrow>
    recording cont (acc(t := acc t @ (if b then sample_frames f else []))) w' e')"
proof -
  let ?n = "int (sampleCountPerChannel f)" and ?xs = "sample_frames f"
  have all: "take (sampleCountPerChannel f) ?xs = ?xs" by simp
  consider "length (rw_tracks w) \<le> t \<or> \<not> frame_matches (rt_format (rc_tracks (rw_config w) ! t)) f"
    | "t < length (rw_tracks w)" "frame_matches (rt_format (rc_tracks (rw_config w) ! t)) f" "?n = 0"
    | "t < length (rw_tracks w)" "frame_matches (rt_format (rc_tracks (rw_config w) ! t)) f" "0 < ?n"
    by linarith
  then show ?thesis
  proof cases
    case 1
    then show ?thesis using r o by (auto simp: writer_write_def recording_def track_rec_def Let_def)
  next
    case 2
    then have "?xs = []" by (simp flip: length_0_conv)
    with 2 r o show ?thesis by (simp add: writer_write_def recording_def track_rec_def Let_def ex_bool_eq)
  next
    case 3
    obtain e1 stored where s: "m_fifo_write m t ?xs e = (e1, stored)" by fastforce
    show ?thesis
    proof (cases "stored < ?n")
      case True
      with 3 o s all show ?thesis by (auto simp: writer_write_def small_samples [OF n] writer_fail_def)
    next
      case False
      then have "cont e1 = (cont e)(t := cont e t @ ?xs)" using laws s unfolding media_laws_def by simp
      with r have r1: "recording cont (acc(t := acc t @ ?xs)) w e1" by (rule recording_fifo_write)
      with 3 have "track_rec cont False (acc t @ ?xs) w e1 t" by (auto simp: recording_def)
      with total track_rec_encodeBuffered [OF laws 3(1), of "acc t @ ?xs" e1 False] obtain w1 e2 b where
        1: "encodeBuffered m t False w e1 = Some ((w1, e2), b)" and
        2: "b \<longrightarrow> (\<exists>ys. encoded cont t False w e1 w1 e2 ys)" by auto
      show ?thesis
      proof (cases b)
        case True
        with 2 obtain ys where "encoded cont t False w e1 w1 e2 ys" by blast
        from recording_encoded [OF r1 3(1) this] 1 3 o s False all True show ?thesis
          by (simp add: writer_write_def small_samples [OF n] recording_def track_rec_def Let_def ex_bool_eq)
      next
        case no: False
        with 1 3 o s False all show ?thesis
          by (simp add: writer_write_def small_samples [OF n] writer_fail_def ex_bool_eq)
      qed
    qed
  qed
qed

text \<open>
  A finalize that reports success sent every accepted sample; any other leaves the writer
  not open. \<open>all_sent\<close> is what the trace then says of a track whose encoder takes \<open>c\<close> samples at
  a time: the chunks are the samples, stamped without gap or overlap, \<open>c\<close> samples each but the
  last one, which may be shorter.
\<close>

definition all_sent :: "int \<Rightarrow> sample_frame list \<Rightarrow> nat \<Rightarrow> (media_call \<times> bool) list \<Rightarrow> bool" where
  "all_sent c xs t tr \<longleftrightarrow> chunk_samples (sent_chunks t tr) = xs \<and> contiguous 0 (sent_chunks t tr)
     \<and> (\<forall>y \<in> set (butlast (sent_chunks t tr)). int (length (snd y)) = c)
     \<and> (\<forall>y \<in> set (sent_chunks t tr). snd y \<noteq> [] \<and> int (length (snd y)) \<le> c)"

lemma track_rec_sent:
  "track_rec cont True xs w e t \<Longrightarrow> all_sent (tk_chunkSamples (rw_tracks w ! t)) xs t (rw_trace w)"
  by (auto simp: track_rec_def all_sent_def Let_def)

lemma no_sends: "list_all (\<lambda>c. \<not> content_call (fst c)) cs \<Longrightarrow> sent_chunks t cs = []"
  by (induction t cs rule: sent_chunks.induct) auto

lemma all_sent_extend:
  "all_sent c xs t tr \<Longrightarrow> list_all (\<lambda>c. \<not> content_call (fst c)) cs \<Longrightarrow> all_sent c xs t (tr @ cs)"
  by (simp add: all_sent_def no_sends)

lemma encodes_chunkSamples:
  assumes "encodes w w' cs" and "t < length (rw_tracks w)"
  shows "tk_chunkSamples (rw_tracks w' ! t) = tk_chunkSamples (rw_tracks w ! t)"
    and "tk_timeBase (rw_tracks w' ! t) = tk_timeBase (rw_tracks w ! t)"
proof -
  from assms(1) have "map settings (rw_tracks w') = map settings (rw_tracks w)" by (auto simp: encodes_def)
  with assms(2) encodes_fields(5) [OF assms(1)] have "settings (rw_tracks w' ! t) = settings (rw_tracks w ! t)"
    by (metis nth_map)
  then show "tk_chunkSamples (rw_tracks w' ! t) = tk_chunkSamples (rw_tracks w ! t)"
    and "tk_timeBase (rw_tracks w' ! t) = tk_timeBase (rw_tracks w ! t)" by (simp_all add: settings_def)
qed

lemma writer_finalize_records:
  assumes laws: "media_laws m cont backlog" and o: "rw_state w = Open" and r: "recording cont acc w e"
    and total: "\<forall>i. int (length (acc i)) < 2 ^ 63"
  shows "\<exists>w' e' b. writer_finalize m (w, e) = Some ((w', e'), b) \<and> rw_state w' \<noteq> Open
    \<and> (b \<longrightarrow> rw_state w' = Finalized \<and> (\<forall>t < length (rw_tracks w).
        all_sent (tk_chunkSamples (rw_tracks w ! t)) (acc t) t (rw_trace w')))"
proof -
  have "\<forall>t \<in> set [0..<length (rw_tracks w)]. t < length (rw_tracks w) \<and> track_rec cont False (acc t) w e t
      \<and> int (length (acc t)) < 2 ^ 63"
    using r total by (simp add: recording_def)
  from finishTracks_total [OF laws distinct_upt this] obtain w1 e1 b1 where
    1: "finishTracks m [0..<length (rw_tracks w)] w e = Some ((w1, e1), b1)" and
    tr: "b1 \<longrightarrow> (\<forall>t \<in> set [0..<length (rw_tracks w)]. track_rec cont True (acc t) w1 e1 t)" by blast
  from finishTracks_encodes [OF 1] obtain ds where ds: "encodes w w1 ds" by blast
  have 2: "all_sent (tk_chunkSamples (rw_tracks w ! t)) (acc t) t (rw_trace w1)" if "b1" "t < length (rw_tracks w)" for t
  proof -
    from tr that have "track_rec cont True (acc t) w1 e1 t" by simp
    from track_rec_sent [OF this] encodes_chunkSamples(1) [OF ds that(2)] show ?thesis by simp
  qed
  from 1 o have "writer_finalize m (w, e) \<noteq> None"
    by (cases b1) (simp_all add: writer_finalize_def split_beta Let_def ex_bool_eq)
  then obtain w' e' b where f: "writer_finalize m (w, e) = Some ((w', e'), b)" by auto
  from f show ?thesis
  proof (cases rule: writer_finalize_cases)
    case refused
    with o show ?thesis by simp
  next
    case (unfinished w2 e2 k cs fo)
    then have "rw_state w' = Failed" by (simp add: writer_fail_def)
    with f unfinished(3) show ?thesis by (simp add: ex_bool_eq)
  next
    case (renamed w2 e2 e4 ok w3)
    with 1 have w2: "w2 = w1" "b1" by simp_all
    show ?thesis
    proof (cases ok)
      case False
      with renamed(4) f show ?thesis by (auto simp: writer_fail_def)
    next
      case True
      with renamed(4) have c: "cleanup m (w3\<lparr>rw_state := Finalized\<rparr>, e4) = (w', e')" by simp
      from cleanup_fields(6) [OF c] obtain cs where
        cs: "rw_trace w' = rw_trace w3 @ cs" "set cs \<subseteq> {(CloseFile, True), (CloseFile, False)}" by auto
      have "all_sent (tk_chunkSamples (rw_tracks w ! t)) (acc t) t (rw_trace w')" if "t < length (rw_tracks w)" for t
        using 2 w2 that close_only [OF cs(2)] by (auto simp: cs(1) renamed(3) intro!: all_sent_extend)
      with f cleanup_fields(1) [OF c] show ?thesis by simp
    qed
  qed
qed

lemma abort_not_open: "writer_abort m (w, e) = (w', e') \<Longrightarrow> rw_state w' \<noteq> Open"
proof (cases "rw_state w = Open \<or> rw_state w = Failed")
  case True
  assume "writer_abort m (w, e) = (w', e')"
  with True obtain w1 e1 where "cleanup m (w1\<lparr>rw_state := Aborted\<rparr>, e1) = (w', e')"
    by (auto simp: writer_abort_def split_beta Let_def)
  from cleanup_fields(1) [OF this] show ?thesis by simp
next
  case False
  assume "writer_abort m (w, e) = (w', e')"
  with False have "cleanup m (w, e) = (w', e')" by (auto simp: writer_abort_def)
  from cleanup_fields(1) [OF this] False show ?thesis by simp
qed

text \<open>Every operation returns, and keeps \<open>recording\<close> as long as the writer is open.\<close>

lemma writer_step_records:
  assumes laws: "media_laws m cont backlog" and r: "rw_state w = Open \<longrightarrow> recording cont acc w e"
    and small: "small_frames [op]" and total: "\<forall>i. int (length (acc i)) + offered [op] < 2 ^ 63"
  shows "\<exists>w' e' b. writer_step m (w, e) op = Some ((w', e'), b)
    \<and> (rw_state w' = Open \<longrightarrow> recording cont (\<lambda>t. acc t @ accepted t [op] [b]) w' e')"
proof (cases op)
  case (Write t f)
  show ?thesis
  proof (cases "rw_state w = Open")
    case True
    with r Write small total writer_write_records [OF laws True, of acc e f t] obtain w' e' b where
      "writer_write m t f (w, e) = Some ((w', e'), b)"
      "rw_state w' = Open \<longrightarrow> recording cont (acc(t := acc t @ (if b then sample_frames f else []))) w' e'"
      by (auto simp: small_frames_def)
    moreover have "acc(t := acc t @ (if b then sample_frames f else [])) = (\<lambda>i. acc i @ accepted i [op] [b])"
      by (auto simp: Write)
    ultimately show ?thesis using Write by auto
  next
    case False
    with Write show ?thesis by (simp add: writer_write_def ex_bool_eq)
  qed
next
  case Finalize
  show ?thesis
  proof (cases "rw_state w = Open")
    case True
    with r total writer_finalize_records [OF laws True, of acc e] Finalize show ?thesis by auto
  next
    case False
    with Finalize show ?thesis by (simp add: writer_finalize_def ex_bool_eq)
  qed
next
  case Abort
  obtain w' e' where "writer_abort m (w, e) = (w', e')" by fastforce
  with Abort abort_not_open [OF this] show ?thesis by (simp add: ex_bool_eq)
qed

lemma accepted_length: "int (length (accepted t ops bs)) \<le> offered ops"
  by (induction t ops bs rule: accepted.induct) (auto simp: offered_nonneg add_increasing)

lemma offered_Cons: "offered (op # ops) = offered [op] + offered ops"
  by (cases op) simp_all

lemma accepted_Cons: "accepted t (op # ops) (b # bs) = accepted t [op] [b] @ accepted t ops bs"
  by (cases op) simp_all

lemma budget_Cons:
  assumes "\<forall>i. int (length (acc i)) + offered (op # ops) < N"
  shows "int (length (acc i)) + offered [op] < N"
    and "int (length (acc i @ accepted i [op] [b])) + offered ops < N"
proof -
  have "int (length (acc i)) + (offered [op] + offered ops) < N"
    using assms unfolding offered_Cons [of op ops] ..
  then show "int (length (acc i)) + offered [op] < N"
    and "int (length (acc i @ accepted i [op] [b])) + offered ops < N"
    using offered_nonneg [of ops] accepted_length [of i "[op]" "[b]"] by simp_all
qed

lemma writer_run_records:
  assumes laws: "media_laws m cont backlog"
  shows "rw_state w = Open \<longrightarrow> recording cont acc w e \<Longrightarrow> small_frames ops \<Longrightarrow>
    \<forall>i. int (length (acc i)) + offered ops < 2 ^ 63 \<Longrightarrow>
    \<exists>w' e' bs. writer_run m (w, e) ops = Some ((w', e'), bs) \<and> length bs = length ops
      \<and> (rw_state w' = Open \<longrightarrow> recording cont (\<lambda>t. acc t @ accepted t ops bs) w' e')"
proof (induction ops arbitrary: acc w e)
  case (Cons op ops)
  have "small_frames [op]" "small_frames ops" using Cons.prems(2) by (auto simp: small_frames_def)
  moreover have "\<forall>i. int (length (acc i)) + offered [op] < 2 ^ 63"
    using budget_Cons(1) [OF Cons.prems(3)] ..
  ultimately obtain w1 e1 b where 1: "writer_step m (w, e) op = Some ((w1, e1), b)"
    and r: "rw_state w1 = Open \<longrightarrow> recording cont (\<lambda>t. acc t @ accepted t [op] [b]) w1 e1"
    using writer_step_records [OF laws Cons.prems(1)] by blast
  have "\<forall>i. int (length (acc i @ accepted i [op] [b])) + offered ops < 2 ^ 63"
    using budget_Cons(2) [OF Cons.prems(3)] ..
  from Cons.IH [OF r \<open>small_frames ops\<close> this] obtain w' e' bs where
    2: "writer_run m (w1, e1) ops = Some ((w', e'), bs)" "length bs = length ops"
      "rw_state w' = Open \<longrightarrow> recording cont (\<lambda>t. (acc t @ accepted t [op] [b]) @ accepted t ops bs) w' e'" by blast
  have "recording cont (\<lambda>t. (acc t @ accepted t [op] [b]) @ accepted t ops bs) w' e'
      = recording cont (\<lambda>t. acc t @ accepted t (op # ops) (b # bs)) w' e'"
    by (simp only: accepted_Cons [of _ op ops b bs] append_assoc)
  with 1 2 show ?case by simp
qed simp

section \<open>A new recording\<close>

lemma openTrack_ok:
  assumes "openTrack m tc (w, e) = ((w', e'), None)"
  shows "\<exists>tk. w' = w\<lparr>rw_tracks := rw_tracks w @ [tk]\<rparr> \<and> 0 < tk_chunkSamples tk \<and> tk_nextPts tk = 0"
  using assms by (auto simp: openTrack_def Let_def kFallbackChunkSamples_def split_beta split: if_splits)

lemma openTracks_ok:
  "openTracks m ts (w, e) = ((w', e'), None) \<Longrightarrow>
   \<exists>tks. w' = w\<lparr>rw_tracks := rw_tracks w @ tks\<rparr> \<and> length tks = length ts
     \<and> (\<forall>tk \<in> set tks. 0 < tk_chunkSamples tk \<and> tk_nextPts tk = 0)"
proof (induction ts arbitrary: w e)
  case Nil
  then show ?case by (intro exI [of _ "[]"]) simp
next
  case (Cons t ts)
  from Cons.prems obtain w1 e1 where 1: "openTrack m t (w, e) = ((w1, e1), None)"
    and 2: "openTracks m ts (w1, e1) = ((w', e'), None)"
    by (auto split: prod.splits option.splits)
  from openTrack_ok [OF 1] obtain tk where "w1 = w\<lparr>rw_tracks := rw_tracks w @ [tk]\<rparr>"
    "0 < tk_chunkSamples tk" "tk_nextPts tk = 0" by blast
  moreover from Cons.IH [OF 2] obtain tks where "w' = w1\<lparr>rw_tracks := rw_tracks w1 @ tks\<rparr>"
    "length tks = length ts" "\<forall>tk \<in> set tks. 0 < tk_chunkSamples tk \<and> tk_nextPts tk = 0" by blast
  ultimately show ?case by (intro exI [of _ "tk # tks"]) simp
qed

lemma create_open:
  assumes "createRecordingWriter m config e = (Inr w, e')"
  shows "rw_state w = Open" "rw_config w = config" "rw_partialPath w = rc_outputFile config @ ''.partial''"
    "length (rw_tracks w) = length (rc_tracks config)" "rw_fileOpen w"
    "\<forall>t < length (rw_tracks w). 0 < tk_chunkSamples (rw_tracks w ! t) \<and> tk_nextPts (rw_tracks w ! t) = 0"
    "\<exists>c. rw_trace w = [(AllocOutput c, True), (OpenFile (rw_partialPath w), True), (WriteHeader, True)]"
    "list_all track_sane (rc_tracks config)" "rc_outputFile config \<noteq> []" "rc_tracks config \<noteq> []"
proof -
  from assms have o: "writer_open m (new_writer config, e) = ((w, e'), None)"
    by (auto simp: createRecordingWriter_def split: prod.splits option.splits)
  let ?p = "rc_outputFile config @ ''.partial''"
  from o have ok: "rc_outputFile config \<noteq> []" "rc_tracks config \<noteq> []" "list_all track_sane (rc_tracks config)"
    by (auto simp: writer_open_def new_writer_def Let_def split: if_splits)
  let ?c = "if length (rc_tracks config) = 1 then ''flac'' else ''matroska''"
  obtain e1 al where 1: "m_alloc_output m ?c e = (e1, al)" by fastforce
  let ?w = "(log_call (AllocOutput ?c) True ((new_writer config)\<lparr>rw_partialPath := ?p\<rparr>))\<lparr>rw_format := True,
    rw_stats := \<lparr>rs_framesWritten = 0, rs_samplesWrittenPerTrack = replicate (length (rc_tracks config)) 0\<rparr>\<rparr>"
  obtain w2 e2 r where 2: "openTracks m (rc_tracks config) (?w, e1) = ((w2, e2), r)" by (metis prod_cases3 surj_pair)
  obtain e3 pk where 3: "m_alloc_packet m e2 = (e3, pk)" by fastforce
  obtain e4 op where 4: "m_open_file m (rw_partialPath w2) e3 = (e4, op)" by fastforce
  obtain e5 hd where 5: "m_write_header m e4 = (e5, hd)" by fastforce
  have body: "al \<and> r = None \<and> pk \<and> op \<and> hd \<and> w = (log_call WriteHeader True ((log_call (OpenFile (rw_partialPath w2)) True
      (w2\<lparr>rw_packet := True\<rparr>))\<lparr>rw_fileOpen := True\<rparr>))\<lparr>rw_state := Open\<rparr>"
  proof -
    have cfg: "rw_config (new_writer config) = config" "rw_stats (new_writer config)
      = \<lparr>rs_framesWritten = 0, rs_samplesWrittenPerTrack = []\<rparr>" by (simp_all add: new_writer_def)
    from o ok 1 2 3 4 5 show ?thesis
      by (cases al; cases r; cases pk; cases op; cases hd) (simp_all add: writer_open_def cfg Let_def log_call_def)
  qed
  with 2 have "openTracks m (rc_tracks config) (?w, e1) = ((w2, e2), None)" by simp
  from openTracks_ok [OF this] obtain tks where tks: "w2 = ?w\<lparr>rw_tracks := rw_tracks ?w @ tks\<rparr>"
    "length tks = length (rc_tracks config)" "\<forall>tk \<in> set tks. 0 < tk_chunkSamples tk \<and> tk_nextPts tk = 0" by blast
  from body tks ok show "rw_state w = Open" "rw_config w = config" "rw_partialPath w = ?p"
    "length (rw_tracks w) = length (rc_tracks config)" "rw_fileOpen w"
    "\<forall>t < length (rw_tracks w). 0 < tk_chunkSamples (rw_tracks w ! t) \<and> tk_nextPts (rw_tracks w ! t) = 0"
    "\<exists>c. rw_trace w = [(AllocOutput c, True), (OpenFile (rw_partialPath w), True), (WriteHeader, True)]"
    "list_all track_sane (rc_tracks config)" "rc_outputFile config \<noteq> []" "rc_tracks config \<noteq> []"
    by (simp_all add: log_call_def new_writer_def)
qed

lemma create_recording:
  assumes c: "createRecordingWriter m config e = (Inr w, e')" and empty: "\<forall>t. cont e' t = []"
  shows "recording cont (\<lambda>_. []) w e'"
proof -
  from create_open(7) [OF c] have "sent_chunks t (rw_trace w) = []" for t by auto
  with create_open(6) [OF c] empty show ?thesis by (simp add: recording_def track_rec_def Let_def)
qed

lemma create_inv:
  assumes c: "createRecordingWriter m config e = (Inr w, e')"
  shows "writer_inv (length (rc_tracks config)) w \<and> removed_paths w = {}"
proof -
  from create_open(7) [OF c] obtain k where
    t: "rw_trace w = [(AllocOutput k, True), (OpenFile (rw_partialPath w), True), (WriteHeader, True)]" ..
  then have "\<not> renames (rw_trace w)" "removed_paths w = {}" by (simp_all add: removed_paths_def)
  moreover from this(1) have "trace_safe (length (rc_tracks config)) w"
    unfolding trace_safe_def by (metis renames_split)
  ultimately show ?thesis using create_open(4) [OF c] by (simp add: writer_inv_def)
qed

lemma writer_run_append:
  "writer_run m we (ops @ ops') = do {
     (we', bs) \<leftarrow> writer_run m we ops;
     (we'', bs') \<leftarrow> writer_run m we' ops';
     Some (we'', bs @ bs') }"
  by (induction ops arbitrary: we) (auto simp: split_beta split: Option.bind_splits)

section \<open>An instance\<close>

text \<open>
  An FFmpeg and a file system that never fail, with encoders of two samples, over a memory of
  cells: what a FIFO holds, what an encoder holds, what it has handed out, whether it was flushed.
  An encoder hands out all it holds as one packet, which spells the samples out byte by byte.
  The streams count in milliseconds. It meets the laws, and runs on it can be evaluated.
\<close>

datatype cell = Fifo nat | Encoder nat | Encoded nat | Flushed nat | Device nat

type_synonym memory = "cell \<Rightarrow> sample_frame list"

definition pack :: "sample_frame list \<Rightarrow> u8 list" where
  "pack xs = concat (map (\<lambda>x. concat (map (\<lambda>b. [1, b]) x) @ [0]) xs)"

fun unpack :: "sample_frame \<Rightarrow> u8 list \<Rightarrow> sample_frame list" where
  "unpack x [] = []"
| "unpack x (c # bs) = (if c = 0 then x # unpack [] bs else case bs of [] \<Rightarrow> [] | b # bs' \<Rightarrow> unpack (x @ [b]) bs')"

lemma unpack_bytes: "unpack x (concat (map (\<lambda>b. [1, b]) bs) @ 0 # cs) = (x @ bs) # unpack [] cs"
  by (induction bs arbitrary: x) simp_all

lemma unpack_pack [simp]: "unpack [] (pack xs) = xs"
  by (induction xs) (simp_all add: pack_def unpack_bytes)

text \<open>The packet an encoder hands out next, and the memory after it did.\<close>

definition memory_packet :: "nat \<Rightarrow> memory \<Rightarrow> media_packet" where
  "memory_packet t e = (let p = int (length (e (Encoded t))) in
     \<lparr>mp_stream = 0, mp_times = (p, p, int (length (e (Encoder t)))), mp_data = pack (e (Encoder t))\<rparr>)"

definition memory_handed :: "nat \<Rightarrow> memory \<Rightarrow> memory" where
  "memory_handed t e = e(Encoder t := [], Encoded t := e (Encoded t) @ e (Encoder t))"

definition memory_receive :: "nat \<Rightarrow> memory \<Rightarrow> memory \<times> receive_result" where
  "memory_receive t e =
     (if e (Encoder t) \<noteq> [] then (memory_handed t e, GotPacket (memory_packet t e))
      else (e, if e (Flushed t) \<noteq> [] then EndOfFile else TryAgain))"

definition memory_api :: "memory media_api" where
  "memory_api = \<lparr>m_alloc_output = \<lambda>_ e. (e, True),
     m_track = \<lambda>t _ e. (e(Fifo t := [], Encoder t := [], Encoded t := [], Flushed t := []),
       \<lparr>ta_findEncoder = True, ta_allocContext = True, ta_openCodec = True,
       ta_newStream = True, ta_parameters = True, ta_frameSize = 2, ta_allocFifo = True,
       ta_allocFrame = True, ta_frameBuffer = True\<rparr>),
     m_alloc_packet = \<lambda>e. (e, True), m_open_file = \<lambda>_ e. (e, True), m_write_header = \<lambda>e. (e, True),
     m_fifo_write = \<lambda>t xs e. (e(Fifo t := e (Fifo t) @ xs), int (length xs)),
     m_fifo_size = \<lambda>t e. int (length (e (Fifo t))),
     m_fifo_read = \<lambda>t c e. (e(Fifo t := drop (nat c) (e (Fifo t))), take (nat c) (e (Fifo t)),
       int (length (take (nat c) (e (Fifo t))))),
     m_make_writable = \<lambda>_ e. (e, True),
     m_send_frame = \<lambda>t x e. (case x of
         Some (p, xs) \<Rightarrow> e(Encoder t := e (Encoder t) @ xs)
       | None \<Rightarrow> e(Flushed t := [[]]), True),
     m_receive_packet = memory_receive, m_time_base = \<lambda>_ _. (1, 1000),
     m_rescale_ts = \<lambda>(n, d) (n', d') (pts, dts, dur).
       (pts * n * d' div (d * n'), dts * n * d' div (d * n'), dur * n * d' div (d * n')),
     m_write_packet = \<lambda>_ e. (e, True),
     m_write_trailer = \<lambda>e. (e, True), m_close_file = \<lambda>e. (e, True),
     m_rename = \<lambda>_ _ e. (e, True), m_remove = \<lambda>_ e. (e, True)\<rparr>"

lemma memory_fresh [simp]: "(\<lambda>_. [])(t := []) = (\<lambda>_. [])"
  by auto

definition fifos :: "memory \<Rightarrow> nat \<Rightarrow> sample_frame list" where
  "fifos e t = e (Fifo t)"

definition held_back :: "memory \<Rightarrow> nat \<Rightarrow> nat" where
  "held_back e t = length (e (Encoder t))"

lemma memory_simps:
  "m_fifo_write memory_api t xs e = (e(Fifo t := e (Fifo t) @ xs), int (length xs))"
  "m_fifo_size memory_api t e = int (length (e (Fifo t)))"
  "m_fifo_read memory_api t c e = (e(Fifo t := drop (nat c) (e (Fifo t))), take (nat c) (e (Fifo t)),
     int (length (take (nat c) (e (Fifo t)))))"
  "m_make_writable memory_api t e = (e, True)"
  "m_send_frame memory_api t (Some (p, xs)) e = (e(Encoder t := e (Encoder t) @ xs), True)"
  "m_send_frame memory_api t None e = (e(Flushed t := [[]]), True)"
  "m_write_trailer memory_api e = (e, True)" "m_close_file memory_api e = (e, True)"
  "m_rename memory_api a b e = (e, True)" "m_remove memory_api a e = (e, True)"
  by (simp_all add: memory_api_def)

lemma memory_packets:
  "m_receive_packet memory_api t e = memory_receive t e" "m_time_base memory_api t e = (1, 1000)"
  "m_write_packet memory_api p e = (e, True)"
  by (simp_all add: memory_api_def)

lemma fifos_simps [simp]:
  "fifos (e(Fifo t := xs)) = (fifos e)(t := xs)" "fifos (e(Encoder t := xs)) = fifos e"
  "fifos (e(Flushed t := xs)) = fifos e" "fifos (memory_handed t e) = fifos e"
  by (auto simp: fifos_def memory_handed_def)

lemma memory_send_fifos: "fifos (fst (m_send_frame memory_api t x e)) = fifos e"
  by (cases x) (auto simp: memory_simps)

lemma memory_receive_cases:
  "memory_receive t e = (e', r) \<Longrightarrow> e (Encoder t) = [] \<and> e' = e \<and> r \<noteq> ReceiveError \<and> (\<forall>p. r \<noteq> GotPacket p)
     \<and> (r = TryAgain \<longleftrightarrow> e (Flushed t) = [])
   \<or> e (Encoder t) \<noteq> [] \<and> e' = memory_handed t e \<and> r = GotPacket (memory_packet t e)"
  by (auto simp: memory_receive_def split: if_splits)

lemma memory_laws: "media_laws memory_api fifos held_back"
proof -
  have "fifos (fst (memory_receive t e)) = fifos e" for t e by (simp add: memory_receive_def)
  moreover have "held_back e' t < held_back e t" if "memory_receive t e = (e', GotPacket p)" for t e e' p
    using memory_receive_cases [OF that] by (auto simp: held_back_def memory_handed_def)
  ultimately show ?thesis
    by (auto simp: media_laws_def memory_packets memory_send_fifos) (auto simp: memory_simps fifos_def)
qed

lemma memory_drain [simp]:
  "e (Encoder t) = [] \<Longrightarrow> drainPackets memory_api t w e = Some ((w, e), True)"
  by (subst drainPackets.simps) (simp add: memory_packets memory_receive_def)

lemma memory_drain_packet [simp]:
  assumes "e (Encoder t) \<noteq> []"
  shows "drainPackets memory_api t w e
     = Some ((log_call (WritePacket (stamped memory_api t (tk_timeBase (rw_tracks w ! t)) (1, 1000) (memory_packet t e))) True
           (log_call (ReceivePacket t (memory_packet t e)) True w), memory_handed t e), True)"
proof -
  have "memory_handed t e (Encoder t) = []" by (simp add: memory_handed_def)
  from memory_drain [of "memory_handed t e" t, OF this] assms show ?thesis
    by (subst drainPackets.simps) (simp add: memory_packets memory_receive_def Let_def)
qed

lemma encodeBuffered_stop:
  "\<not> (tk_chunkSamples (rw_tracks w ! t) \<le> m_fifo_size m t e \<or> d \<and> 0 < m_fifo_size m t e) \<Longrightarrow>
   encodeBuffered m t d w e = Some ((w, e), True)"
  by (subst encodeBuffered.simps) (simp add: Let_def)

lemma encodeBuffered_more:
  "tk_chunkSamples (rw_tracks w ! t) \<le> m_fifo_size m t e \<or> d \<and> 0 < m_fifo_size m t e \<Longrightarrow>
   encodeBuffered m t d w e = Option.bind (encodeChunk m t (if tk_chunkSamples (rw_tracks w ! t) \<le> m_fifo_size m t e
      then tk_chunkSamples (rw_tracks w ! t) else m_fifo_size m t e) w e)
     (\<lambda>((w', e'), success). if success then encodeBuffered m t d w' e' else Some ((w', e'), False))"
  by (subst encodeBuffered.simps) (auto simp: Let_def)

definition demo_frame :: "u16 \<Rightarrow> u8 list \<Rightarrow> audio_frame" where
  "demo_frame ch bytes = \<lparr>fr_track = Microphone, fr_sequence = 0, fr_timestamp = 0, fr_sampleRate = 16000,
     fr_channels = ch, fr_format = PcmS16Le, fr_discontinuity = False, fr_payload = bytes\<rparr>"

definition demo_config :: recording_writer_config where
  "demo_config = \<lparr>rc_outputFile = ''m'', rc_tracks = [\<lparr>rt_kind = Microphone,
     rt_format = \<lparr>tf_sampleRate = 16000, tf_channels = 1, tf_format = PcmS16Le\<rparr>, rt_title = ''''\<rparr>]\<rparr>"

definition demo_writer :: writer where
  "demo_writer = \<lparr>rw_config = demo_config, rw_partialPath = ''m.partial'', rw_format = True,
     rw_fileOpen = True, rw_packet = True, rw_tracks = [\<lparr>tk_codec = True, tk_timeBase = (1, 16000), tk_stream = True,
       tk_fifo = True, tk_scratch = True, tk_chunkSamples = 2, tk_nextPts = 0\<rparr>], rw_state = Open, rw_lastError = InvalidState,
     rw_stats = \<lparr>rs_framesWritten = 0, rs_samplesWrittenPerTrack = [0]\<rparr>,
     rw_trace = [(AllocOutput ''flac'', True), (OpenFile ''m.partial'', True), (WriteHeader, True)]\<rparr>"

lemma demo_create: "createRecordingWriter memory_api demo_config (\<lambda>_. []) = (Inr demo_writer, \<lambda>_. [])"
  by (simp add: createRecordingWriter_def writer_open_def new_writer_def demo_config_def track_sane_def
    openTrack_def memory_api_def log_call_def Let_def demo_writer_def codec_time_base_def)

lemma demo_count: "sampleCountPerChannel (demo_frame 1 [a, b, c, d, e, f]) = 3"
  by (simp add: sampleCountPerChannel_def demo_frame_def Let_def)

lemma demo_samples: "sample_frames (demo_frame 1 [a, b, c, d, e, f]) = [[a, b], [c, d], [e, f]]"
  by (simp add: sample_frames_def demo_count Let_def upt_rec) (simp add: demo_frame_def)

lemmas demo_simps = encodeBuffered_more encodeBuffered_stop encodeChunk_def s64_Some in_s64_def log_call_def
  set_track_def memory_simps memory_handed_def

lemma demo_write:
  "\<exists>tr e'. writer_write memory_api 0 (demo_frame 1 [a, b, c, d, e, f]) (demo_writer\<lparr>rw_lastError := err\<rparr>, \<lambda>_. [])
   = Some ((demo_writer\<lparr>rw_tracks := [(rw_tracks demo_writer ! 0)\<lparr>tk_nextPts := 2\<rparr>], rw_lastError := err,
       rw_stats := \<lparr>rs_framesWritten = 1, rs_samplesWrittenPerTrack = [3]\<rparr>, rw_trace := tr\<rparr>, e'), True)
     \<and> e' (Fifo 0) = [[e, f]] \<and> e' (Encoder 0) = []"
proof -
  have "frame_matches (rt_format (rc_tracks demo_config ! 0)) (demo_frame 1 [a, b, c, d, e, f])"
    by (simp add: demo_config_def frame_matches_def demo_frame_def)
  then show ?thesis
    by (simp add: writer_write_def demo_count demo_samples demo_writer_def demo_simps)
qed

lemma demo_run:
  "\<exists>w e'. writer_run memory_api (demo_writer, \<lambda>_. []) [Write 0 (demo_frame 1 [a, b, c, d, e, f]), Finalize]
     = Some ((w, e'), [True, True])"
  using demo_write [of a b c d e f InvalidState]
  by (auto simp: demo_writer_def writer_finalize_def finishTrack_def demo_simps cleanup_def)

text \<open>
  \<open>recording.hpp\<close> promises that a writer refuses further writes once one has failed, until it
  is aborted. A frame of another format is refused without that: the next good frame is written.
\<close>

lemma write_after_mismatch:
  "\<exists>w e'. writer_run memory_api (demo_writer, \<lambda>_. []) [Write 0 (demo_frame 2 [a, b, c, d]),
       Write 0 (demo_frame 1 [a, b, c, d, e, f])] = Some ((w, e'), [False, True])"
proof -
  have "writer_write memory_api 0 (demo_frame 2 [a, b, c, d]) (demo_writer, \<lambda>_. [])
      = Some ((demo_writer\<lparr>rw_lastError := FormatMismatch\<rparr>, \<lambda>_. []), False)"
    by (simp add: writer_write_def demo_writer_def demo_config_def frame_matches_def demo_frame_def)
  with demo_write [of a b c d e f FormatMismatch] show ?thesis by auto
qed

section \<open>Properties\<close>

text \<open>
  C6: the writer always returns. For an FFmpeg whose FIFOs are queues and whose encoders hand
  out finitely many packets, every sequence of writes, finalizes and aborts on a new recording
  runs to its end, whatever calls fail on the way, as long as a frame holds fewer than
  \<open>2 ^ 31\<close> samples and the recording fewer than \<open>2 ^ 63\<close>.
\<close>

theorem writer_returns:
  assumes "media_laws m cont backlog" and "createRecordingWriter m config e = (Inr w, e')"
    and "\<forall>t. cont e' t = []" and "small_frames ops" and "offered ops < 2 ^ 63"
  shows "\<exists>w2 e2 bs. writer_run m (w, e') ops = Some ((w2, e2), bs) \<and> length bs = length ops"
  using writer_run_records [OF assms(1), of w "\<lambda>_. []" e' ops] create_recording [where cont = cont, OF assms(2,3)] assms(4,5)
  by auto

theorem writer_returns_witness:
  "\<exists>w2 e2 bs. writer_run memory_api (demo_writer, \<lambda>_. [])
     [Write 0 (demo_frame 1 [1, 2, 3, 4, 5, 6]), Abort, Finalize] = Some ((w2, e2), bs) \<and> length bs = 3"
  using writer_returns [OF memory_laws demo_create, of "[Write 0 (demo_frame 1 [1, 2, 3, 4, 5, 6]), Abort, Finalize]"]
  by (simp add: fifos_def small_frames_def demo_count numeral_3_eq_3 del: writer_run.simps)

text \<open>
  C5: files appear and disappear only when they should. Whatever an FFmpeg or a file system
  answers, a run on a new recording renames nothing but the partial file onto the output
  file, only after every encoder was flushed, the trailer written and the file closed, writes
  nothing afterwards, and removes nothing but the partial file, and that only if abort is called.
\<close>

theorem files_are_safe:
  assumes "createRecordingWriter m config e = (Inr w, e')" and "writer_run m (w, e') ops = Some ((w2, e2), bs)"
  shows "trace_safe (length (rc_tracks config)) w2 \<and> rw_config w2 = config
    \<and> rw_partialPath w2 = rc_outputFile config @ ''.partial''
    \<and> removed_paths w2 \<subseteq> (if Abort \<in> set ops then {rc_outputFile config @ ''.partial''} else {})"
  using writer_run_inv [OF assms(2), of "length (rc_tracks config)"] create_inv [OF assms(1)]
    create_open(2,3) [OF assms(1)]
  by (auto simp: writer_inv_def)

theorem files_are_safe_witness:
  "\<exists>w2 e2. writer_run memory_api (demo_writer, \<lambda>_. []) [Write 0 (demo_frame 1 [1, 2, 3, 4, 5, 6]), Finalize]
     = Some ((w2, e2), [True, True]) \<and> trace_safe 1 w2 \<and> removed_paths w2 = {}"
proof -
  obtain w2 e2 where r: "writer_run memory_api (demo_writer, \<lambda>_. [])
    [Write 0 (demo_frame 1 [1, 2, 3, 4, 5, 6]), Finalize] = Some ((w2, e2), [True, True])"
    using demo_run by blast
  from files_are_safe [OF demo_create r] r show ?thesis by (simp add: demo_config_def)
qed

end
