(* ===== verification/RecordedFile.thy ===== *)
theory RecordedFile
  imports RecordingWriter
begin

text \<open>
  From the encoders into the file. RecordingWriter follows the samples up to the encoders; here the
  packets they hand out are followed into the container (\<open>encodeBuffered\<close>, \<open>drainPackets\<close> and
  \<open>finalize\<close> of \<open>ffmpeg_recording_writer.cpp\<close>): every packet of a track is written to its stream, in
  order and with its times in the stream's time base, and once \<open>finalize\<close> reports success the file
  that was renamed to the output file decodes to the samples that were accepted.
\<close>

section \<open>What the code relies on\<close>

text \<open>
  What there is to know about FFmpeg's state: what the FIFOs hold, what the encoders were sent and
  have not handed out yet, which encoders were flushed, the frame sizes of the encoders and the
  time bases of the streams.
\<close>

record media_view =
  mv_fifo :: "nat \<Rightarrow> sample_frame list"
  mv_pending :: "nat \<Rightarrow> sample_frame list"
  mv_draining :: "nat \<Rightarrow> bool"
  mv_frameSize :: "nat \<Rightarrow> int"
  mv_timeBase :: "nat \<Rightarrow> time_base"

text \<open>
  The encoders are lossless: what a packet decodes to (\<open>decode\<close>, for FLAC a packet is a frame that
  can be decoded by itself) leads what its encoder was sent and has not handed out. An encoder
  that was flushed does not ask for more input but ends, and it ends with nothing held back.
\<close>

definition encoder_laws :: "'e media_api \<Rightarrow> ('e \<Rightarrow> media_view) \<Rightarrow> (nat \<Rightarrow> u8 list \<Rightarrow> sample_frame list) \<Rightarrow> bool" where
  "encoder_laws m v decode \<longleftrightarrow>
     (\<forall>t e. m_time_base m t e = mv_timeBase (v e) t)
   \<and> (\<forall>t xs e. \<exists>q. v (fst (m_fifo_write m t xs e)) = (v e)\<lparr>mv_fifo := q\<rparr>)
   \<and> (\<forall>t c e. \<exists>q. v (fst (m_fifo_read m t c e)) = (v e)\<lparr>mv_fifo := q\<rparr>)
   \<and> (\<forall>t e. v (fst (m_make_writable m t e)) = v e)
   \<and> (\<forall>t p xs e e'. m_send_frame m t (Some (p, xs)) e = (e', True) \<longrightarrow>
        v e' = (v e)\<lparr>mv_pending := (mv_pending (v e))(t := mv_pending (v e) t @ xs)\<rparr>)
   \<and> (\<forall>t e e'. m_send_frame m t None e = (e', True) \<longrightarrow>
        v e' = (v e)\<lparr>mv_draining := (mv_draining (v e))(t := True)\<rparr>)
   \<and> (\<forall>t e e' p. m_receive_packet m t e = (e', GotPacket p) \<longrightarrow>
        (\<exists>q. mv_pending (v e) t = decode t (mp_data p) @ q \<and> v e' = (v e)\<lparr>mv_pending := (mv_pending (v e))(t := q)\<rparr>))
   \<and> (\<forall>t e e'. m_receive_packet m t e = (e', TryAgain) \<longrightarrow> v e' = v e \<and> \<not> mv_draining (v e) t)
   \<and> (\<forall>t e e'. m_receive_packet m t e = (e', EndOfFile) \<longrightarrow> v e' = v e \<and> mv_pending (v e) t = [])
   \<and> (\<forall>p e. v (fst (m_write_packet m p e)) = v e)"

lemma encoder_lawsD:
  assumes "encoder_laws m v decode"
  shows "m_time_base m t e = mv_timeBase (v e) t"
    and "m_fifo_write m t xs e = (e', n) \<Longrightarrow> \<exists>q. v e' = (v e)\<lparr>mv_fifo := q\<rparr>"
    and "m_fifo_read m t c e = (e', ys, n) \<Longrightarrow> \<exists>q. v e' = (v e)\<lparr>mv_fifo := q\<rparr>"
    and "m_make_writable m t e = (e', b) \<Longrightarrow> v e' = v e"
    and "m_send_frame m t (Some (p, xs)) e = (e', True) \<Longrightarrow>
      v e' = (v e)\<lparr>mv_pending := (mv_pending (v e))(t := mv_pending (v e) t @ xs)\<rparr>"
    and "m_send_frame m t None e = (e', True) \<Longrightarrow> v e' = (v e)\<lparr>mv_draining := (mv_draining (v e))(t := True)\<rparr>"
    and "m_receive_packet m t e = (e', GotPacket k) \<Longrightarrow> \<exists>q. mv_pending (v e) t = decode t (mp_data k) @ q
      \<and> v e' = (v e)\<lparr>mv_pending := (mv_pending (v e))(t := q)\<rparr>"
    and "m_receive_packet m t e = (e', TryAgain) \<Longrightarrow> v e' = v e \<and> \<not> mv_draining (v e) t"
    and "m_receive_packet m t e = (e', EndOfFile) \<Longrightarrow> v e' = v e \<and> mv_pending (v e) t = []"
    and "m_write_packet m k e = (e', b) \<Longrightarrow> v e' = v e"
  using assms unfolding encoder_laws_def by (blast | metis fst_conv)+

text \<open>
  Opening: a new track has an empty FIFO and a new encoder, whose frame size is the one the code
  reads; opening the other parts of the file leaves them alone. Writing the header may choose
  the time bases of the streams.
\<close>

definition opening_laws :: "'e media_api \<Rightarrow> ('e \<Rightarrow> media_view) \<Rightarrow> bool" where
  "opening_laws m v \<longleftrightarrow>
     (\<forall>t k e e' api. m_track m t k e = (e', api) \<longrightarrow> v e' = (v e)\<lparr>mv_fifo := (mv_fifo (v e))(t := []),
        mv_pending := (mv_pending (v e))(t := []), mv_draining := (mv_draining (v e))(t := False),
        mv_frameSize := (mv_frameSize (v e))(t := ta_frameSize api), mv_timeBase := mv_timeBase (v e')\<rparr>)
   \<and> (\<forall>e. v (fst (m_alloc_packet m e)) = v e) \<and> (\<forall>p e. v (fst (m_open_file m p e)) = v e)
   \<and> (\<forall>e e' b. m_write_header m e = (e', b) \<longrightarrow> v e' = (v e)\<lparr>mv_timeBase := mv_timeBase (v e')\<rparr>)"

definition recorder_laws :: "'e media_api \<Rightarrow> ('e \<Rightarrow> media_view) \<Rightarrow> (nat \<Rightarrow> u8 list \<Rightarrow> sample_frame list)
    \<Rightarrow> ('e \<Rightarrow> nat \<Rightarrow> nat) \<Rightarrow> bool" where
  "recorder_laws m v decode backlog \<longleftrightarrow> media_laws m (\<lambda>e. mv_fifo (v e)) backlog \<and> encoder_laws m v decode"

section \<open>The packets of a track\<close>

fun received_packets :: "nat \<Rightarrow> (media_call \<times> bool) list \<Rightarrow> media_packet list" where
  "received_packets t [] = []"
| "received_packets t ((ReceivePacket i p, _) # cs) = (if i = t then [p] else []) @ received_packets t cs"
| "received_packets t (_ # cs) = received_packets t cs"

text \<open>What the container has of a stream.\<close>

fun stream_packets :: "nat \<Rightarrow> (media_call \<times> bool) list \<Rightarrow> media_packet list" where
  "stream_packets t [] = []"
| "stream_packets t ((WritePacket p, True) # cs) = (if mp_stream p = t then [p] else []) @ stream_packets t cs"
| "stream_packets t (_ # cs) = stream_packets t cs"

lemma packets_append [simp]:
  "received_packets t (cs @ ds) = received_packets t cs @ received_packets t ds"
  "stream_packets t (cs @ ds) = stream_packets t cs @ stream_packets t ds"
proof -
  show "received_packets t (cs @ ds) = received_packets t cs @ received_packets t ds"
    by (induction t cs rule: received_packets.induct) simp_all
  show "stream_packets t (cs @ ds) = stream_packets t cs @ stream_packets t ds"
    by (induction t cs rule: stream_packets.induct) simp_all
qed

definition decoded :: "(u8 list \<Rightarrow> sample_frame list) \<Rightarrow> media_packet list \<Rightarrow> sample_frame list" where
  "decoded decode ps = concat (map (\<lambda>p. decode (mp_data p)) ps)"

lemma decoded_simps [simp]:
  "decoded decode [] = []" "decoded decode (ps @ qs) = decoded decode ps @ decoded decode qs"
  "decoded decode [p] = decode (mp_data p)" "decoded decode (map (stamped m t a b) ps) = decoded decode ps"
  by (simp_all add: decoded_def stamped_def comp_def)

text \<open>The size of the encoder's chunks: its own, or the fallback.\<close>

definition chunk_size :: "int \<Rightarrow> int" where
  "chunk_size frameSize = (if 0 < frameSize then frameSize else kFallbackChunkSamples)"

text \<open>
  Between two operations on an open writer: the file was opened and its header written, every call
  since succeeded, and of every track what its encoder was sent is what the packets received so far
  decode to and what it still holds; all of them went to the track's stream.
\<close>

definition track_coded :: "'e media_api \<Rightarrow> ('e \<Rightarrow> media_view) \<Rightarrow> (nat \<Rightarrow> u8 list \<Rightarrow> sample_frame list)
    \<Rightarrow> writer \<Rightarrow> 'e \<Rightarrow> nat \<Rightarrow> bool" where
  "track_coded m v decode w e t \<longleftrightarrow>
     (let tk = rw_tracks w ! t; got = received_packets t (rw_trace w) in
        settings tk = (chunk_size (mv_frameSize (v e) t), codec_time_base (rc_tracks (rw_config w) ! t))
      \<and> chunk_samples (sent_chunks t (rw_trace w)) = decoded (decode t) got @ mv_pending (v e) t
      \<and> stream_packets t (rw_trace w) = map (stamped m t (tk_timeBase tk) (mv_timeBase (v e) t)) got)"

definition opening_calls :: "writer \<Rightarrow> string \<Rightarrow> (media_call \<times> bool) list" where
  "opening_calls w k = [(AllocOutput k, True), (OpenFile (rw_partialPath w), True), (WriteHeader, True)]"

definition all_good :: "(media_call \<times> bool) list \<Rightarrow> bool" where
  "all_good cs \<longleftrightarrow> list_all (\<lambda>c. content_call (fst c) \<and> snd c) cs"

lemma all_good_simps [simp]:
  "all_good []" "all_good (c # cs) \<longleftrightarrow> content_call (fst c) \<and> snd c \<and> all_good cs"
  "all_good (cs @ ds) \<longleftrightarrow> all_good cs \<and> all_good ds"
  by (simp_all add: all_good_def)

definition coded :: "'e media_api \<Rightarrow> ('e \<Rightarrow> media_view) \<Rightarrow> (nat \<Rightarrow> u8 list \<Rightarrow> sample_frame list)
    \<Rightarrow> writer \<Rightarrow> 'e \<Rightarrow> bool" where
  "coded m v decode w e \<longleftrightarrow> (\<exists>k cs. rw_trace w = opening_calls w k @ cs \<and> all_good cs)
     \<and> length (rw_tracks w) = length (rc_tracks (rw_config w))
     \<and> (\<forall>t < length (rw_tracks w). track_coded m v decode w e t)"

text \<open>What the operations on track \<open>t\<close> may do to FFmpeg's state.\<close>

definition touches :: "nat \<Rightarrow> media_view \<Rightarrow> media_view \<Rightarrow> bool" where
  "touches t V V' \<longleftrightarrow> (\<exists>f q d. V' = V\<lparr>mv_fifo := f, mv_pending := (mv_pending V)(t := q),
     mv_draining := (mv_draining V)(t := d)\<rparr>)"

lemma touchesD:
  assumes "touches t V V'"
  shows "mv_frameSize V' = mv_frameSize V" and "mv_timeBase V' = mv_timeBase V"
    and "i \<noteq> t \<Longrightarrow> mv_pending V' i = mv_pending V i"
  using assms by (auto simp: touches_def)

lemma touches_refl [simp]: "touches t V V"
  unfolding touches_def by (intro exI [of _ "mv_fifo V"] exI [of _ "mv_pending V t"] exI [of _ "mv_draining V t"]) simp

lemma touches_trans: "touches t V V' \<Longrightarrow> touches t V' V'' \<Longrightarrow> touches t V V''"
  unfolding touches_def by (elim exE) (rename_tac f q d f' q' d', rule_tac x = f' in exI, rule_tac x = q' in exI,
    rule_tac x = d' in exI, simp)

lemma touches_fields [simp]:
  "touches t V (V\<lparr>mv_fifo := f\<rparr>)" "touches t V (V\<lparr>mv_pending := (mv_pending V)(t := q)\<rparr>)"
  "touches t V (V\<lparr>mv_draining := (mv_draining V)(t := d)\<rparr>)"
proof -
  have "V\<lparr>mv_fifo := f\<rparr> = V\<lparr>mv_fifo := f, mv_pending := (mv_pending V)(t := mv_pending V t),
      mv_draining := (mv_draining V)(t := mv_draining V t)\<rparr>"
    "V\<lparr>mv_pending := (mv_pending V)(t := q)\<rparr> = V\<lparr>mv_fifo := mv_fifo V, mv_pending := (mv_pending V)(t := q),
      mv_draining := (mv_draining V)(t := mv_draining V t)\<rparr>"
    "V\<lparr>mv_draining := (mv_draining V)(t := d)\<rparr> = V\<lparr>mv_fifo := mv_fifo V, mv_pending := (mv_pending V)(t := mv_pending V t),
      mv_draining := (mv_draining V)(t := d)\<rparr>" by simp_all
  then show "touches t V (V\<lparr>mv_fifo := f\<rparr>)" "touches t V (V\<lparr>mv_pending := (mv_pending V)(t := q)\<rparr>)"
    "touches t V (V\<lparr>mv_draining := (mv_draining V)(t := d)\<rparr>)" unfolding touches_def by blast+
qed

section \<open>Encoding keeps it\<close>

lemma coded_packet:
  assumes laws: "encoder_laws m v decode" and co: "coded m v decode w e" and t: "t < length (rw_tracks w)"
    and r: "m_receive_packet m t e = (e1, GotPacket p)" and wr: "m_write_packet m q e1 = (e2, True)"
    and q: "q = stamped m t (tk_timeBase (rw_tracks w ! t)) (m_time_base m t e1) p"
  shows "coded m v decode (log_call (WritePacket q) True (log_call (ReceivePacket t p) True w)) e2
    \<and> touches t (v e) (v e2) \<and> mv_draining (v e2) = mv_draining (v e)"
proof -
  from encoder_lawsD(7) [OF laws r] obtain x where x: "mv_pending (v e) t = decode t (mp_data p) @ x"
    and e1: "v e1 = (v e)\<lparr>mv_pending := (mv_pending (v e))(t := x)\<rparr>" by blast
  have e2: "v e2 = v e1" by (rule encoder_lawsD(10) [OF laws wr])
  have tb: "m_time_base m t e1 = mv_timeBase (v e) t" using encoder_lawsD(1) [OF laws] e1 by simp
  have s: "mp_stream q = t" by (simp add: q stamped_def)
  let ?w = "log_call (WritePacket q) True (log_call (ReceivePacket t p) True w)"
  have tr: "rw_trace ?w = rw_trace w @ [(ReceivePacket t p, True), (WritePacket q, True)]" by (simp add: log_call_def)
  have "track_coded m v decode ?w e2 i" if i: "i < length (rw_tracks w)" for i
  proof -
    have "track_coded m v decode w e i" using co i by (simp add: coded_def)
    with x s show ?thesis
      by (auto simp: track_coded_def Let_def tr e2 e1 q tb) (simp_all add: log_call_def)
  qed
  moreover have "\<exists>k cs. rw_trace ?w = opening_calls ?w k @ cs \<and> all_good cs"
  proof -
    from co obtain k cs where "rw_trace w = opening_calls w k @ cs" "all_good cs" by (auto simp: coded_def)
    then show ?thesis
      by (intro exI [of _ k] exI [of _ "cs @ [(ReceivePacket t p, True), (WritePacket q, True)]"])
        (simp add: tr, simp add: opening_calls_def log_call_def)
  qed
  ultimately have "coded m v decode ?w e2" using co by (simp add: coded_def) (simp add: log_call_def)
  with e1 e2 show ?thesis by simp
qed

definition keeps_coded :: "'e media_api \<Rightarrow> ('e \<Rightarrow> media_view) \<Rightarrow> (nat \<Rightarrow> u8 list \<Rightarrow> sample_frame list)
    \<Rightarrow> nat \<Rightarrow> writer \<Rightarrow> 'e \<Rightarrow> writer \<Rightarrow> 'e \<Rightarrow> bool" where
  "keeps_coded m v decode t w e w' e' \<longleftrightarrow> (coded m v decode w e \<longrightarrow> t < length (rw_tracks w) \<longrightarrow>
     coded m v decode w' e' \<and> touches t (v e) (v e') \<and> length (rw_tracks w') = length (rw_tracks w))"

lemma drainPackets_coded':
  assumes "drainPackets m t w e = Some r"
  shows "encoder_laws m v decode \<longrightarrow> coded m v decode w e \<longrightarrow> t < length (rw_tracks w) \<longrightarrow> snd r \<longrightarrow> coded m v decode (fst (fst r)) (snd (fst r))
    \<and> touches t (v e) (v (snd (fst r))) \<and> (mv_draining (v e) t \<longrightarrow> mv_pending (v (snd (fst r))) t = [])"
    (is "?P m t w e r")
proof (rule drainPackets.raw_induct [where P = "\<lambda>m t w e r. ?P m t w e r", OF _ assms])
  fix drain and m :: "'a media_api" and t w e r
  assume IH: "\<And>m t w e r. drain m t w e = Some r \<Longrightarrow> ?P m t w e r"
    and body: "(case m_receive_packet m t e of (e1, received) \<Rightarrow>
       (case received of
         TryAgain \<Rightarrow> Some ((w, e1), True)
       | EndOfFile \<Rightarrow> Some ((w, e1), True)
       | ReceiveError \<Rightarrow> Some ((w, e1), False)
       | GotPacket p \<Rightarrow>
           let packet = stamped m t (tk_timeBase (rw_tracks w ! t)) (m_time_base m t e1) p;
               (e2, written) = m_write_packet m packet e1;
               w = log_call (WritePacket packet) written (log_call (ReceivePacket t p) True w)
           in if \<not> written then Some ((w, e2), False) else drain m t w e2)) = Some r"
  show "?P m t w e r"
  proof (intro impI)
    assume laws: "encoder_laws m v decode" and co: "coded m v decode w e" and t: "t < length (rw_tracks w)" and good: "snd r"
    from body show "coded m v decode (fst (fst r)) (snd (fst r)) \<and> touches t (v e) (v (snd (fst r)))
      \<and> (mv_draining (v e) t \<longrightarrow> mv_pending (v (snd (fst r))) t = [])"
    proof (cases rule: drain_body_cases)
      case (ended e1 a)
      with good have "a = TryAgain \<or> a = EndOfFile" by auto
      then have 1: "v e1 = v e" "mv_draining (v e) t \<longrightarrow> mv_pending (v e) t = []"
        using encoder_lawsD(8,9) [OF laws] ended(1) by metis+
      moreover from 1(1) co have "coded m v decode w e1" by (simp add: coded_def track_coded_def)
      ultimately show ?thesis using ended(3) by simp
    next
      case (packet e1 p q e2 ok)
      let ?w = "log_call (WritePacket q) True (log_call (ReceivePacket t p) True w)"
      have ok using packet(4) good by (auto split: if_splits)
      with packet have d: "drain m t ?w e2 = Some r" and wr: "m_write_packet m q e1 = (e2, True)" by simp_all
      note c = coded_packet [OF laws co t packet(1) wr packet(2)]
      have "?P m t ?w e2 r" by (rule IH [OF d])
      with laws c t good have 2: "coded m v decode (fst (fst r)) (snd (fst r))" "touches t (v e2) (v (snd (fst r)))"
        "mv_draining (v e) t \<longrightarrow> mv_pending (v (snd (fst r))) t = []" by (simp_all add: log_call_def)
      with c touches_trans show ?thesis by blast
    qed
  qed
qed

lemma drainPackets_coded:
  assumes "encoder_laws m v decode" and "drainPackets m t w e = Some ((w', e'), True)"
  shows "keeps_coded m v decode t w e w' e'"
    and "coded m v decode w e \<Longrightarrow> t < length (rw_tracks w) \<Longrightarrow> mv_draining (v e) t \<Longrightarrow> mv_pending (v e') t = []"
  using drainPackets_coded' [OF assms(2)] assms(1) drainPackets_encodes [OF assms(2)] encodes_fields(5)
  by (auto simp: keeps_coded_def)

lemma coded_view: "v e' = (v e)\<lparr>mv_fifo := q\<rparr> \<Longrightarrow> coded m v decode w e' = coded m v decode w e"
  by (simp add: coded_def track_coded_def)

lemma coded_send:
  assumes co: "coded m v decode w e" and t: "t < length (rw_tracks w)"
    and v: "v e' = (v e)\<lparr>mv_pending := (mv_pending (v e))(t := mv_pending (v e) t @ xs)\<rparr>"
  shows "coded m v decode (log_call (SendFrame t p xs) True (set_track t ((rw_tracks w ! t)\<lparr>tk_nextPts := n\<rparr>) w)) e'"
proof -
  let ?w = "log_call (SendFrame t p xs) True (set_track t ((rw_tracks w ! t)\<lparr>tk_nextPts := n\<rparr>) w)"
  have tr: "rw_trace ?w = rw_trace w @ [(SendFrame t p xs, True)]" by (simp add: log_call_def set_track_def)
  have tks: "rw_tracks ?w = (rw_tracks w)[t := (rw_tracks w ! t)\<lparr>tk_nextPts := n\<rparr>]" by (simp add: log_call_def set_track_def)
  have "track_coded m v decode ?w e' i" if i: "i < length (rw_tracks w)" for i
  proof -
    have "track_coded m v decode w e i" using co i by (simp add: coded_def)
    moreover have "settings (rw_tracks ?w ! i) = settings (rw_tracks w ! i)" "tk_timeBase (rw_tracks ?w ! i) = tk_timeBase (rw_tracks w ! i)"
      using t i by (cases "i = t"; simp add: tks)+
    moreover have "rw_config ?w = rw_config w" by (simp add: log_call_def set_track_def)
    ultimately show ?thesis by (auto simp: track_coded_def Let_def tr v)
  qed
  moreover have "\<exists>k cs. rw_trace ?w = opening_calls ?w k @ cs \<and> all_good cs"
  proof -
    from co obtain k cs where "rw_trace w = opening_calls w k @ cs" "all_good cs" by (auto simp: coded_def)
    then show ?thesis
      by (intro exI [of _ k] exI [of _ "cs @ [(SendFrame t p xs, True)]"])
        (simp add: tr, simp add: opening_calls_def log_call_def set_track_def)
  qed
  ultimately show ?thesis using co by (simp add: coded_def tks) (simp add: log_call_def set_track_def)
qed

lemma encodeChunk_coded:
  assumes laws: "encoder_laws m v decode" and en: "encodeChunk m t chunk w e = Some ((w', e'), True)"
  shows "keeps_coded m v decode t w e w' e'"
  unfolding keeps_coded_def
proof (intro impI)
  assume co: "coded m v decode w e" and t: "t < length (rw_tracks w)"
  from en show "coded m v decode w' e' \<and> touches t (v e) (v e') \<and> length (rw_tracks w') = length (rw_tracks w)"
  proof (cases rule: encodeChunk_cases)
    case (sent e1 e2 e3 xs got)
    let ?w = "log_call (SendFrame t (tk_nextPts (rw_tracks w ! t)) xs) True (set_track t
        ((rw_tracks w ! t)\<lparr>tk_nextPts := tk_nextPts (rw_tracks w ! t) + chunk\<rparr>) w)"
    have 1: "v e1 = v e" by (rule encoder_lawsD(4) [OF laws sent(1)])
    from encoder_lawsD(3) [OF laws sent(2)] obtain q where 2: "v e2 = (v e)\<lparr>mv_fifo := q\<rparr>" using 1 by auto
    note 3 = encoder_lawsD(5) [OF laws sent(4)]
    have "coded m v decode w e2" using co 2 by (simp add: coded_view)
    from coded_send [OF this t 3] have "coded m v decode ?w e3" .
    with drainPackets_coded(1) [OF laws sent(6)] t have "coded m v decode w' e'" "touches t (v e3) (v e')"
      "length (rw_tracks w') = length (rw_tracks w)" by (simp_all add: keeps_coded_def) (simp_all add: log_call_def set_track_def)
    moreover have "touches t (v e) (v e3)" unfolding 3 by (rule touches_trans [OF _ touches_fields(2)]) (simp add: 2)
    ultimately show ?thesis using touches_trans by blast
  qed simp_all
qed

lemma keeps_coded_trans:
  "keeps_coded m v decode t w e w1 e1 \<Longrightarrow> keeps_coded m v decode t w1 e1 w' e' \<Longrightarrow> keeps_coded m v decode t w e w' e'"
  using touches_trans by (fastforce simp: keeps_coded_def)

lemma encodeBuffered_coded':
  assumes "encodeBuffered m t d w e = Some r"
  shows "encoder_laws m v decode \<longrightarrow> snd r \<longrightarrow> keeps_coded m v decode t w e (fst (fst r)) (snd (fst r))"
proof (rule encodeBuffered.raw_induct [where P = "\<lambda>m t d w e r. encoder_laws m v decode \<longrightarrow> snd r
      \<longrightarrow> keeps_coded m v decode t w e (fst (fst r)) (snd (fst r))", OF _ assms])
  fix enc and m :: "'a media_api" and t d w e r
  assume IH: "\<And>m t d w e r. enc m t d w e = Some r \<Longrightarrow> encoder_laws m v decode \<longrightarrow> snd r
      \<longrightarrow> keeps_coded m v decode t w e (fst (fst r)) (snd (fst r))"
    and body: "(let available = m_fifo_size m t e; chunkSamples = tk_chunkSamples (rw_tracks w ! t);
          chunk = (if chunkSamples \<le> available then chunkSamples
            else if d \<and> 0 < available then available else 0)
      in if \<not> (chunkSamples \<le> available \<or> d \<and> 0 < available) then Some ((w, e), True)
         else Option.bind (encodeChunk m t chunk w e)
           (\<lambda>((w', e'), success). if success then enc m t d w' e' else Some ((w', e'), False))) = Some r"
  show "encoder_laws m v decode \<longrightarrow> snd r \<longrightarrow> keeps_coded m v decode t w e (fst (fst r)) (snd (fst r))"
  proof (intro impI)
    assume laws: "encoder_laws m v decode" and good: "snd r"
    from body consider "r = ((w, e), True)"
      | chunk w1 e1 b1 where "encodeChunk m t chunk w e = Some ((w1, e1), b1)"
          "(if b1 then enc m t d w1 e1 else Some ((w1, e1), False)) = Some r"
      by (auto simp: Let_def bind_eq_Some_conv split: if_split_asm)
    then show "keeps_coded m v decode t w e (fst (fst r)) (snd (fst r))"
    proof cases
      case 1
      then show ?thesis by (simp add: keeps_coded_def)
    next
      case (2 chunk w1 e1 b1)
      with good have b1 by (auto split: if_splits)
      with 2 have "enc m t d w1 e1 = Some r" and c: "encodeChunk m t chunk w e = Some ((w1, e1), True)" by simp_all
      from IH [OF this(1)] laws good have "keeps_coded m v decode t w1 e1 (fst (fst r)) (snd (fst r))" by blast
      with encodeChunk_coded [OF laws c] show ?thesis by (rule keeps_coded_trans)
    qed
  qed
qed

lemma encodeBuffered_coded:
  "encoder_laws m v decode \<Longrightarrow> encodeBuffered m t d w e = Some ((w', e'), True) \<Longrightarrow> keeps_coded m v decode t w e w' e'"
  using encodeBuffered_coded' [of m t d w e "((w', e'), True)" v decode] by simp

lemma coded_flush:
  assumes co: "coded m v decode w e" and v: "v e' = (v e)\<lparr>mv_draining := (mv_draining (v e))(t := True)\<rparr>"
  shows "coded m v decode (log_call (Flush t) True w) e'"
proof -
  let ?w = "log_call (Flush t) True w"
  have tr: "rw_trace ?w = rw_trace w @ [(Flush t, True)]" by (simp add: log_call_def)
  have "track_coded m v decode ?w e' i = track_coded m v decode w e i" for i
    by (simp add: track_coded_def Let_def tr v) (simp add: log_call_def)
  moreover have "\<exists>k cs. rw_trace ?w = opening_calls ?w k @ cs \<and> all_good cs"
  proof -
    from co obtain k cs where "rw_trace w = opening_calls w k @ cs" "all_good cs" by (auto simp: coded_def)
    then show ?thesis
      by (intro exI [of _ k] exI [of _ "cs @ [(Flush t, True)]"]) (simp add: tr, simp add: opening_calls_def log_call_def)
  qed
  ultimately show ?thesis using co by (simp add: coded_def) (simp add: log_call_def)
qed

lemma finishTrack_coded:
  assumes laws: "encoder_laws m v decode" and f: "finishTrack m t w e = Some ((w', e'), True)"
  shows "keeps_coded m v decode t w e w' e'"
    and "coded m v decode w e \<Longrightarrow> t < length (rw_tracks w) \<Longrightarrow> mv_pending (v e') t = []"
proof -
  from f obtain w1 e1 b1 where 1: "encodeBuffered m t True w e = Some ((w1, e1), b1)"
    by (auto simp: finishTrack_def bind_eq_Some_conv)
  obtain e2 s where s: "m_send_frame m t None e1 = (e2, s)" by fastforce
  have "b1 \<and> s" using f 1 s by (auto simp: finishTrack_def Let_def split: if_splits)
  with f 1 s have enc: "encodeBuffered m t True w e = Some ((w1, e1), True)"
    and fl: "m_send_frame m t None e1 = (e2, True)"
    and d: "drainPackets m t (log_call (Flush t) True w1) e2 = Some ((w', e'), True)"
    by (simp_all add: finishTrack_def)
  note v = encoder_lawsD(6) [OF laws fl] and d' = drainPackets_coded [OF laws d]
  have k: "keeps_coded m v decode t w1 e1 (log_call (Flush t) True w1) e2"
    using coded_flush [where v = v and e = e1 and e' = e2 and t = t, OF _ v] touches_fields(3) [of t "v e1" True] by (simp add: keeps_coded_def v) (simp add: log_call_def)
  note w1 = encodeBuffered_coded [OF laws enc]
  show "keeps_coded m v decode t w e w' e'" by (rule keeps_coded_trans [OF w1 keeps_coded_trans [OF k d'(1)]])
  show "mv_pending (v e') t = []" if "coded m v decode w e" "t < length (rw_tracks w)"
    using that w1 k d'(2) by (simp add: keeps_coded_def v log_call_def)
qed

lemma finishTracks_coded:
  assumes laws: "encoder_laws m v decode"
  shows "finishTracks m ts w e = Some ((w', e'), True) \<Longrightarrow> coded m v decode w e \<Longrightarrow> distinct ts \<Longrightarrow>
    \<forall>t \<in> set ts. t < length (rw_tracks w) \<Longrightarrow>
    coded m v decode w' e' \<and> (\<forall>t \<in> set ts. mv_pending (v e') t = [])
    \<and> (\<forall>t. t \<notin> set ts \<longrightarrow> mv_pending (v e') t = mv_pending (v e) t)
    \<and> mv_frameSize (v e') = mv_frameSize (v e) \<and> mv_timeBase (v e') = mv_timeBase (v e)"
proof (induction ts arbitrary: w e)
  case (Cons t ts)
  from Cons.prems(1) obtain w1 e1 b1 where "finishTrack m t w e = Some ((w1, e1), b1)"
    and "(if \<not> b1 then Some ((w1, e1), False) else finishTracks m ts w1 e1) = Some ((w', e'), True)"
    by (auto simp: bind_eq_Some_conv)
  then have 1: "finishTrack m t w e = Some ((w1, e1), True)" and 2: "finishTracks m ts w1 e1 = Some ((w', e'), True)"
    by (simp_all split: if_splits)
  have t: "t < length (rw_tracks w)" using Cons.prems(4) by simp
  from finishTrack_coded [OF laws 1] Cons.prems(2) t have c: "coded m v decode w1 e1" "touches t (v e) (v e1)"
    "length (rw_tracks w1) = length (rw_tracks w)" "mv_pending (v e1) t = []" by (simp_all add: keeps_coded_def)
  from Cons.IH [OF 2 c(1)] Cons.prems(3,4) c(3) have
    "coded m v decode w' e'" "\<forall>t \<in> set ts. mv_pending (v e') t = []"
    "\<forall>t. t \<notin> set ts \<longrightarrow> mv_pending (v e') t = mv_pending (v e1) t"
    "mv_frameSize (v e') = mv_frameSize (v e1)" "mv_timeBase (v e') = mv_timeBase (v e1)" by simp_all
  with c(4) touchesD [OF c(2)] Cons.prems(3) show ?case by auto
qed simp

lemma coded_cong:
  "rw_tracks w' = rw_tracks w \<Longrightarrow> rw_trace w' = rw_trace w \<Longrightarrow> rw_config w' = rw_config w \<Longrightarrow>
   rw_partialPath w' = rw_partialPath w \<Longrightarrow> coded m v decode w' e = coded m v decode w e"
  by (simp add: coded_def track_coded_def opening_calls_def)

text \<open>A write that succeeds; one that is refused changes nothing of it.\<close>

definition steady :: "media_view \<Rightarrow> media_view \<Rightarrow> bool" where
  "steady V V' \<longleftrightarrow> mv_frameSize V' = mv_frameSize V \<and> mv_timeBase V' = mv_timeBase V"

lemma writer_write_coded:
  assumes laws: "encoder_laws m v decode" and wr: "writer_write m t f (w, e) = Some ((w', e'), b)"
    and co: "coded m v decode w e" and o: "rw_state w' = Open"
  shows "coded m v decode w' e' \<and> steady (v e) (v e')"
  using wr
proof (cases rule: writer_write_cases)
  case (refused err)
  with co coded_cong [of w' w m v decode e] show ?thesis by (simp add: steady_def)
next
  case (failed w1 cs)
  with o show ?thesis by (simp add: writer_fail_def)
next
  case (empty st)
  with co coded_cong [of w' w m v decode e] show ?thesis by (simp add: steady_def)
next
  case (written e1 stored w1 st)
  from encoder_lawsD(2) [OF laws written(4)] obtain q where q: "v e1 = (v e)\<lparr>mv_fifo := q\<rparr>" by blast
  with co have "coded m v decode w e1" by (simp add: coded_view)
  with encodeBuffered_coded [OF laws written(6)] written(2) have "coded m v decode w1 e'" "touches t (v e1) (v e')"
    by (simp_all add: keeps_coded_def)
  with q coded_cong [of w' w1 m v decode e'] written(7) touchesD(1,2) [OF this(2)] show ?thesis by (simp add: steady_def)
qed

section \<open>The file that is saved\<close>

text \<open>
  What a saved recording holds of track \<open>t\<close>: the file was opened under its partial name, its header,
  packets and trailer were all written, it was closed and only then renamed (nothing failed and nothing
  follows); the packets in the track's stream decode to \<open>xs\<close>; they are the packets its encoder handed
  out, with their times in the stream's time base; and the encoder was sent \<open>xs\<close> in frames of its own
  size (the last one may be shorter), stamped without gap or overlap from 0 on.
\<close>

definition saved_file :: "writer \<Rightarrow> bool" where
  "saved_file w \<longleftrightarrow> rw_state w = Finalized \<and> (\<exists>k cs. all_good cs \<and> rw_trace w = opening_calls w k @ cs
     @ [(WriteTrailer, True), (CloseFile, True), (RenameFile (rw_partialPath w) (rc_outputFile (rw_config w)), True)])"

definition complete :: "'e media_api \<Rightarrow> ('e \<Rightarrow> media_view) \<Rightarrow> (nat \<Rightarrow> u8 list \<Rightarrow> sample_frame list)
    \<Rightarrow> sample_frame list \<Rightarrow> nat \<Rightarrow> 'e \<Rightarrow> writer \<Rightarrow> bool" where
  "complete m v decode xs t e w \<longleftrightarrow>
     decoded (decode t) (stream_packets t (rw_trace w)) = xs
   \<and> stream_packets t (rw_trace w) = map (stamped m t (codec_time_base (rc_tracks (rw_config w) ! t)) (m_time_base m t e))
       (received_packets t (rw_trace w))
   \<and> all_sent (chunk_size (mv_frameSize (v e) t)) xs t (rw_trace w)"

lemma no_packets:
  "list_all (\<lambda>c. \<not> content_call (fst c)) cs \<Longrightarrow> received_packets t cs = [] \<and> stream_packets t cs = []"
proof
  assume a: "list_all (\<lambda>c. \<not> content_call (fst c)) cs"
  then show "received_packets t cs = []" by (induction t cs rule: received_packets.induct) auto
  from a show "stream_packets t cs = []" by (induction t cs rule: stream_packets.induct) auto
qed

definition recorded :: "'e media_api \<Rightarrow> ('e \<Rightarrow> media_view) \<Rightarrow> (nat \<Rightarrow> u8 list \<Rightarrow> sample_frame list)
    \<Rightarrow> (nat \<Rightarrow> sample_frame list) \<Rightarrow> writer \<Rightarrow> 'e \<Rightarrow> bool" where
  "recorded m v decode acc w e \<longleftrightarrow> recording (\<lambda>e. mv_fifo (v e)) acc w e \<and> coded m v decode w e"

lemma recorder_lawsD:
  "recorder_laws m v decode backlog \<Longrightarrow> media_laws m (\<lambda>e. mv_fifo (v e)) backlog"
  "recorder_laws m v decode backlog \<Longrightarrow> encoder_laws m v decode"
  by (simp_all add: recorder_laws_def)

lemma writer_write_recorded:
  assumes laws: "recorder_laws m v decode backlog" and o: "rw_state w = Open" and r: "recorded m v decode acc w e"
    and n: "int (sampleCountPerChannel f) < 2 ^ 31"
    and total: "\<forall>i. int (length (acc i)) + int (sampleCountPerChannel f) < 2 ^ 63"
  shows "\<exists>w' e' b. writer_write m t f (w, e) = Some ((w', e'), b) \<and> (rw_state w' = Open \<longrightarrow>
    recorded m v decode (acc(t := acc t @ (if b then sample_frames f else []))) w' e' \<and> steady (v e) (v e'))"
proof -
  note d = r [unfolded recorded_def]
  from writer_write_records [OF recorder_lawsD(1) [OF laws] o conjunct1 [OF d] n total, of t] obtain w' e' b where
    1: "writer_write m t f (w, e) = Some ((w', e'), b)"
    "rw_state w' = Open \<longrightarrow> recording (\<lambda>e. mv_fifo (v e)) (acc(t := acc t @ (if b then sample_frames f else []))) w' e'" by blast
  with writer_write_coded [OF recorder_lawsD(2) [OF laws] 1(1) conjunct2 [OF d]] show ?thesis
    unfolding recorded_def by blast
qed

lemma writer_finalize_recorded:
  assumes laws: "recorder_laws m v decode backlog" and o: "rw_state w = Open" and r: "recorded m v decode acc w e"
    and total: "\<forall>i. int (length (acc i)) < 2 ^ 63"
  shows "\<exists>w' e' b. writer_finalize m (w, e) = Some ((w', e'), b) \<and> rw_state w' \<noteq> Open
    \<and> (b \<longrightarrow> saved_file w' \<and> rw_config w' = rw_config w
        \<and> (\<forall>t < length (rw_tracks w). complete m v decode (acc t) t e w'))"
proof -
  note el = recorder_lawsD(2) [OF laws] and d = r [unfolded recorded_def]
  from writer_finalize_records [OF recorder_lawsD(1) [OF laws] o conjunct1 [OF d] total] obtain w' e' b where
    f: "writer_finalize m (w, e) = Some ((w', e'), b)" "rw_state w' \<noteq> Open" and
    sent: "b \<longrightarrow> rw_state w' = Finalized \<and> (\<forall>t < length (rw_tracks w).
        all_sent (tk_chunkSamples (rw_tracks w ! t)) (acc t) t (rw_trace w'))" by blast
  have "saved_file w' \<and> rw_config w' = rw_config w \<and> (\<forall>t < length (rw_tracks w). complete m v decode (acc t) t e w')" if b
    using f(1)
  proof (cases rule: writer_finalize_cases)
    case (renamed w1 e1 e4 ok w2)
    with \<open>b\<close> have ok by (cases ok) simp_all
    with renamed(4) have c: "cleanup m (w2\<lparr>rw_state := Finalized\<rparr>, e4) = (w', e')" by simp
    let ?final = "[(WriteTrailer, True), (CloseFile, True), (RenameFile (rw_partialPath w1) (rc_outputFile (rw_config w1)), True)]"
    have tr: "rw_trace w' = rw_trace w1 @ ?final" using c renamed(3) \<open>ok\<close> by (auto simp: cleanup_def Let_def split: if_splits)
    have same: "rw_config w' = rw_config w1" "rw_partialPath w' = rw_partialPath w1"
      using cleanup_fields(2,3) [OF c] by (simp_all add: renamed(3))
    from finishTracks_encodes [OF renamed(2)] obtain ds where ds: "encodes w w1 ds" by blast
    from finishTracks_coded [OF el renamed(2) conjunct2 [OF d]] have co: "coded m v decode w1 e1"
      "\<forall>t < length (rw_tracks w). mv_pending (v e1) t = []" "mv_timeBase (v e1) = mv_timeBase (v e)" by auto
    have "saved_file w'"
    proof -
      from co(1) obtain k cs where "rw_trace w1 = opening_calls w1 k @ cs" "all_good cs" by (auto simp: coded_def)
      then show ?thesis using sent \<open>b\<close> unfolding saved_file_def
        by (intro conjI exI [of _ k] exI [of _ cs]) (simp_all add: tr same opening_calls_def)
    qed
    moreover have "complete m v decode (acc t) t e w'" if t: "t < length (rw_tracks w)" for t
    proof -
      have np: "received_packets t ?final = []" "stream_packets t ?final = []" by simp_all
      have "track_coded m v decode w1 e1 t" using co(1) t encodes_fields(5) [OF ds] by (simp add: coded_def)
      then have "chunk_samples (sent_chunks t (rw_trace w1)) = decoded (decode t) (received_packets t (rw_trace w1))"
        "stream_packets t (rw_trace w1) = map (stamped m t (codec_time_base (rc_tracks (rw_config w1) ! t)) (m_time_base m t e))
           (received_packets t (rw_trace w1))"
        using co(2,3) t encoder_lawsD(1) [OF el] by (simp_all add: track_coded_def Let_def settings_def)
      moreover have "all_sent (chunk_size (mv_frameSize (v e) t)) (acc t) t (rw_trace w')"
        using sent \<open>b\<close> t conjunct2 [OF d] by (simp add: coded_def track_coded_def Let_def settings_def)
      moreover from this have "chunk_samples (sent_chunks t (rw_trace w1)) = acc t" by (simp add: all_sent_def tr)
      ultimately show ?thesis by (simp add: complete_def tr same)
    qed
    ultimately show ?thesis using same(1) encodes_fields(2) [OF ds] by simp
  qed (use \<open>b\<close> in simp_all)
  with f show ?thesis by blast
qed

section \<open>A new file\<close>

lemma openTrack_api:
  assumes "openTrack m tc (w, e) = ((w', e'), None)"
  shows "\<exists>tk api. m_track m (length (rw_tracks w)) tc e = (e', api) \<and> w' = w\<lparr>rw_tracks := rw_tracks w @ [tk]\<rparr>
    \<and> settings tk = (chunk_size (ta_frameSize api), codec_time_base tc)"
proof -
  obtain e1 api where "m_track m (length (rw_tracks w)) tc e = (e1, api)" by fastforce
  with assms show ?thesis by (auto simp: openTrack_def Let_def settings_def chunk_size_def split: if_splits)
qed

lemma openTracks_new:
  assumes laws: "opening_laws m v"
  shows "openTracks m ts (w, e) = ((w', e'), None) \<Longrightarrow>
    \<forall>t < length (rw_tracks w). mv_fifo (v e) t = [] \<and> mv_pending (v e) t = []
      \<and> tk_chunkSamples (rw_tracks w ! t) = chunk_size (mv_frameSize (v e) t) \<Longrightarrow>
    (\<forall>t < length (rw_tracks w'). mv_fifo (v e') t = [] \<and> mv_pending (v e') t = []
      \<and> tk_chunkSamples (rw_tracks w' ! t) = chunk_size (mv_frameSize (v e') t))
    \<and> map tk_timeBase (rw_tracks w') = map tk_timeBase (rw_tracks w) @ map codec_time_base ts"
proof (induction ts arbitrary: w e)
  case (Cons k ts)
  from Cons.prems(1) obtain w1 e1 where 1: "openTrack m k (w, e) = ((w1, e1), None)"
    and 2: "openTracks m ts (w1, e1) = ((w', e'), None)" by (auto split: prod.splits option.splits)
  let ?n = "length (rw_tracks w)"
  from openTrack_api [OF 1] obtain tk api where tk: "m_track m ?n k e = (e1, api)"
    "w1 = w\<lparr>rw_tracks := rw_tracks w @ [tk]\<rparr>" "tk_chunkSamples tk = chunk_size (ta_frameSize api)"
    "tk_timeBase tk = codec_time_base k" by (auto simp: settings_def)
  from laws tk(1) have v: "v e1 = (v e)\<lparr>mv_fifo := (mv_fifo (v e))(?n := []),
        mv_pending := (mv_pending (v e))(?n := []), mv_draining := (mv_draining (v e))(?n := False),
        mv_frameSize := (mv_frameSize (v e))(?n := ta_frameSize api), mv_timeBase := mv_timeBase (v e1)\<rparr>"
    unfolding opening_laws_def by blast
  have f: "mv_fifo (v e1) = (mv_fifo (v e))(?n := [])" "mv_pending (v e1) = (mv_pending (v e))(?n := [])"
    "mv_frameSize (v e1) = (mv_frameSize (v e))(?n := ta_frameSize api)" by (subst v, simp)+
  have "\<forall>t < length (rw_tracks w1). mv_fifo (v e1) t = [] \<and> mv_pending (v e1) t = []
      \<and> tk_chunkSamples (rw_tracks w1 ! t) = chunk_size (mv_frameSize (v e1) t)"
    using Cons.prems(2) tk(2,3) by (auto simp: f less_Suc_eq nth_append)
  from Cons.IH [OF 2 this] tk(2,4) show ?case by simp
qed simp

lemma create_recorded:
  assumes laws: "opening_laws m v" and c: "createRecordingWriter m config e = (Inr w, e')"
  shows "recorded m v decode (\<lambda>_. []) w e'"
proof -
  from c have o: "writer_open m (new_writer config, e) = ((w, e'), None)"
    by (auto simp: createRecordingWriter_def split: prod.splits option.splits)
  then obtain w0 e0 w1 e1 e2 e3 where 1: "openTracks m (rc_tracks config) (w0, e0) = ((w1, e1), None)" "rw_tracks w0 = []"
    "rw_tracks w = rw_tracks w1" "e2 = fst (m_alloc_packet m e1)" "e3 = fst (m_open_file m (rw_partialPath w1) e2)"
    "e' = fst (m_write_header m e3)"
    by (auto simp: writer_open_def new_writer_def Let_def log_call_def split: if_splits prod.splits option.splits)
  from openTracks_new [OF laws 1(1)] have new: "\<forall>t < length (rw_tracks w). mv_fifo (v e1) t = [] \<and> mv_pending (v e1) t = []
      \<and> tk_chunkSamples (rw_tracks w ! t) = chunk_size (mv_frameSize (v e1) t)"
    "map tk_timeBase (rw_tracks w) = map codec_time_base (rc_tracks config)" using 1(2,3) by simp_all
  have "v e3 = v e1" using laws 1(4,5) by (simp add: opening_laws_def)
  moreover have "v e' = (v e3)\<lparr>mv_timeBase := mv_timeBase (v e')\<rparr>"
    using laws 1(6) unfolding opening_laws_def by (metis prod.collapse)
  ultimately have v: "mv_fifo (v e') = mv_fifo (v e1)" "mv_pending (v e') = mv_pending (v e1)"
    "mv_frameSize (v e') = mv_frameSize (v e1)" by (metis media_view.select_convs(1-4) media_view.surjective media_view.update_convs(5))+
  from create_open(7) [OF c] obtain k where tr: "rw_trace w = opening_calls w k" by (auto simp: opening_calls_def)
  have none: "sent_chunks t (rw_trace w) = []" "received_packets t (rw_trace w) = []" "stream_packets t (rw_trace w) = []" for t
    by (simp_all add: tr opening_calls_def)
  have len: "length (rw_tracks w) = length (rc_tracks config)" by (rule create_open(4) [OF c])
  have tb: "tk_timeBase (rw_tracks w ! t) = codec_time_base (rc_tracks config ! t)" if "t < length (rw_tracks w)" for t
    using new(2) that len by (metis nth_map)
  have "recording (\<lambda>e. mv_fifo (v e)) (\<lambda>_. []) w e'"
    using create_open(6) [OF c] new(1) none by (simp add: recording_def track_rec_def Let_def v)
  moreover have "\<exists>k cs. rw_trace w = opening_calls w k @ cs \<and> all_good cs"
    using tr by (intro exI [of _ k] exI [of _ "[]"]) simp
  then have "coded m v decode w e'"
    using new(1) none tb len create_open(2) [OF c]
    by (simp add: coded_def track_coded_def Let_def v settings_def)
  ultimately show ?thesis by (simp add: recorded_def)
qed

section \<open>Runs of a writer\<close>

lemma finalize_not_open:
  assumes "writer_finalize m (w, e) = Some ((w', e'), b)"
  shows "rw_state w' \<noteq> Open"
  using assms
proof (cases rule: writer_finalize_cases)
  case (renamed w1 e1 e4 ok w2)
  then show ?thesis by (cases ok) (auto simp: writer_fail_def dest!: cleanup_fields(1) [OF sym])
qed (simp_all add: writer_fail_def)

lemma writer_step_recorded:
  assumes laws: "recorder_laws m v decode backlog" and r: "rw_state w = Open \<longrightarrow> recorded m v decode acc w e \<and> steady V (v e)"
    and small: "small_frames [op]" and total: "\<forall>i. int (length (acc i)) + offered [op] < 2 ^ 63"
  shows "\<exists>w' e' b. writer_step m (w, e) op = Some ((w', e'), b) \<and> (rw_state w' = Open \<longrightarrow>
    recorded m v decode (\<lambda>t. acc t @ accepted t [op] [b]) w' e' \<and> steady V (v e'))"
proof -
  have "rw_state w = Open \<longrightarrow> recording (\<lambda>e. mv_fifo (v e)) acc w e" using r by (simp add: recorded_def)
  from writer_step_records [OF recorder_lawsD(1) [OF laws] this small total] obtain w' e' b where
    1: "writer_step m (w, e) op = Some ((w', e'), b)"
    "rw_state w' = Open \<longrightarrow> recording (\<lambda>e. mv_fifo (v e)) (\<lambda>t. acc t @ accepted t [op] [b]) w' e'" by blast
  have "coded m v decode w' e' \<and> steady V (v e')" if o: "rw_state w' = Open"
  proof (cases op)
    case (Write t f)
    with 1(1) have wr: "writer_write m t f (w, e) = Some ((w', e'), b)" by simp
    with o have "rw_state w = Open" by (auto simp: writer_fail_def elim: writer_write_cases)
    with r writer_write_coded [OF recorder_lawsD(2) [OF laws] wr _ o] show ?thesis
      by (auto simp: recorded_def steady_def)
  next
    case Finalize
    with 1(1) have "writer_finalize m (w, e) = Some ((w', e'), b)" by simp
    from finalize_not_open [OF this] o show ?thesis by simp
  next
    case Abort
    with 1(1) have "writer_abort m (w, e) = (w', e')" by auto
    from abort_not_open [OF this] o show ?thesis by simp
  qed
  with 1 show ?thesis unfolding recorded_def by blast
qed

lemma writer_run_recorded:
  assumes laws: "recorder_laws m v decode backlog"
  shows "rw_state w = Open \<longrightarrow> recorded m v decode acc w e \<and> steady V (v e) \<Longrightarrow> small_frames ops \<Longrightarrow>
    \<forall>i. int (length (acc i)) + offered ops < 2 ^ 63 \<Longrightarrow>
    \<exists>w' e' bs. writer_run m (w, e) ops = Some ((w', e'), bs) \<and> length bs = length ops
      \<and> (rw_state w' = Open \<longrightarrow> recorded m v decode (\<lambda>t. acc t @ accepted t ops bs) w' e' \<and> steady V (v e'))"
proof (induction ops arbitrary: acc w e)
  case (Cons op ops)
  have small: "small_frames [op]" "small_frames ops" using Cons.prems(2) by (auto simp: small_frames_def)
  have "\<forall>i. int (length (acc i)) + offered [op] < 2 ^ 63" using budget_Cons(1) [OF Cons.prems(3)] ..
  from writer_step_recorded [OF laws Cons.prems(1) small(1) this] obtain w1 e1 b where
    1: "writer_step m (w, e) op = Some ((w1, e1), b)" and
    r: "rw_state w1 = Open \<longrightarrow> recorded m v decode (\<lambda>t. acc t @ accepted t [op] [b]) w1 e1 \<and> steady V (v e1)" by blast
  have "\<forall>i. int (length (acc i @ accepted i [op] [b])) + offered ops < 2 ^ 63"
    using budget_Cons(2) [OF Cons.prems(3)] ..
  from Cons.IH [OF r small(2) this] obtain w' e' bs where
    2: "writer_run m (w1, e1) ops = Some ((w', e'), bs)" "length bs = length ops"
      "rw_state w' = Open \<longrightarrow> recorded m v decode (\<lambda>t. (acc t @ accepted t [op] [b]) @ accepted t ops bs) w' e' \<and> steady V (v e')"
    by blast
  have "(\<lambda>t. (acc t @ accepted t [op] [b]) @ accepted t ops bs) = (\<lambda>t. acc t @ accepted t (op # ops) (b # bs))"
    by (simp only: accepted_Cons [of _ op ops b bs] append_assoc)
  with 1 2 show ?case by simp
qed simp

lemma complete_steady:
  assumes "encoder_laws m v decode" and "steady (v e) (v e')"
  shows "complete m v decode xs t e' w = complete m v decode xs t e w"
  using assms(2) by (simp add: complete_def steady_def encoder_lawsD(1) [OF assms(1)])

section \<open>The instance\<close>

definition memory_view :: "memory \<Rightarrow> media_view" where
  "memory_view e = \<lparr>mv_fifo = fifos e, mv_pending = \<lambda>t. e (Encoder t), mv_draining = \<lambda>t. e (Flushed t) \<noteq> [],
     mv_frameSize = \<lambda>_. 2, mv_timeBase = \<lambda>_. (1, 1000)\<rparr>"

lemma memory_view_simps [simp]:
  "memory_view (e(Fifo t := xs)) = (memory_view e)\<lparr>mv_fifo := (fifos e)(t := xs)\<rparr>"
  "memory_view (e(Encoder t := xs)) = (memory_view e)\<lparr>mv_pending := (\<lambda>i. e (Encoder i))(t := xs)\<rparr>"
  "memory_view (e(Flushed t := xs)) = (memory_view e)\<lparr>mv_draining := (\<lambda>i. e (Flushed i) \<noteq> [])(t := xs \<noteq> [])\<rparr>"
  "memory_view (e(Encoded t := xs)) = memory_view e"
  by (auto simp: memory_view_def fifos_def)

lemma memory_view_fields [simp]:
  "mv_fifo (memory_view e) = fifos e" "mv_pending (memory_view e) t = e (Encoder t)"
  "mv_draining (memory_view e) t = (e (Flushed t) \<noteq> [])" "mv_timeBase (memory_view e) t = (1, 1000)"
  by (simp_all add: memory_view_def)

lemma memory_view_funs [simp]:
  "mv_pending (memory_view e) = (\<lambda>i. e (Encoder i))" "mv_draining (memory_view e) = (\<lambda>i. e (Flushed i) \<noteq> [])"
  by (simp_all add: memory_view_def)

lemma memory_encoder_laws: "encoder_laws memory_api memory_view (\<lambda>_. unpack [])"
  unfolding encoder_laws_def
proof (intro conjI allI impI)
  fix t e e' p assume "m_receive_packet memory_api t e = (e', GotPacket p)"
  then have "memory_receive t e = (e', GotPacket p)" by (simp add: memory_packets)
  with memory_receive_cases [OF this] show "\<exists>q. mv_pending (memory_view e) t = unpack [] (mp_data p) @ q
      \<and> memory_view e' = (memory_view e)\<lparr>mv_pending := (mv_pending (memory_view e))(t := q)\<rparr>"
    by (intro exI [of _ "[]"]) (auto simp: memory_handed_def memory_packet_def Let_def)
next
  fix t e e' assume "m_receive_packet memory_api t e = (e', TryAgain)"
  then have "memory_receive t e = (e', TryAgain)" by (simp add: memory_packets)
  from memory_receive_cases [OF this] show "memory_view e' = memory_view e" "\<not> mv_draining (memory_view e) t" by auto
next
  fix t e e' assume "m_receive_packet memory_api t e = (e', EndOfFile)"
  then have "memory_receive t e = (e', EndOfFile)" by (simp add: memory_packets)
  from memory_receive_cases [OF this] show "memory_view e' = memory_view e" "mv_pending (memory_view e) t = []" by auto
qed (auto simp: memory_simps memory_packets)

lemma memory_recorder: "recorder_laws memory_api memory_view (\<lambda>_. unpack []) held_back"
  using memory_laws memory_encoder_laws by (simp add: recorder_laws_def)

lemma memory_opening: "opening_laws memory_api memory_view"
proof -
  have "memory_view (e(Fifo t := [], Encoder t := [], Encoded t := [], Flushed t := [])) = (memory_view e)
    \<lparr>mv_fifo := (mv_fifo (memory_view e))(t := []), mv_pending := (mv_pending (memory_view e))(t := []),
      mv_draining := (mv_draining (memory_view e))(t := False), mv_frameSize := (mv_frameSize (memory_view e))(t := 2),
      mv_timeBase := \<lambda>_. (1, 1000)\<rparr>" for e :: memory and t
    by (rule media_view.equality) (auto simp: memory_view_def fifos_def)
  then show ?thesis
    by (auto simp: opening_laws_def memory_api_def simp del: memory_view_simps)
qed

section \<open>The property\<close>

text \<open>
  C4: a recording whose finalize reports success is in the file, exactly as accepted. The output
  file is the partial file, closed with its header and trailer written and nothing failed on the
  way. For every track of it, the packets in the stream decode to the samples of the frames that
  write accepted, in order; they are the packets of the track's encoder, their times put into the
  stream's time base; and the encoder was given those samples in frames of its own size, stamped
  without gap or overlap, only the last one shorter. The hypotheses are the documented behaviour
  of FFmpeg's FIFOs and of a lossless encoder, and 64-bit sample counts.
\<close>

theorem recording_is_complete:
  assumes "recorder_laws m v decode backlog" and "opening_laws m v"
    and "createRecordingWriter m config e = (Inr w, e')" and "small_frames ops" and "offered ops < 2 ^ 63"
    and "writer_run m (w, e') (ops @ [Finalize]) = Some ((w2, e2), bs @ [True])"
  shows "saved_file w2 \<and> rw_config w2 = config
    \<and> (\<forall>t < length (rc_tracks config). complete m v decode (accepted t ops bs) t e' w2)"
proof -
  have "\<forall>i. int (length ((\<lambda>_. []) i)) + offered ops < 2 ^ 63" using assms(5) by simp
  from writer_run_recorded [OF assms(1) _ assms(4) this, of w e' "v e'"] create_recorded [OF assms(2,3)]
  obtain w1 e1 bs' where 1: "writer_run m (w, e') ops = Some ((w1, e1), bs')"
    and r: "rw_state w1 = Open \<longrightarrow> recorded m v decode (\<lambda>t. accepted t ops bs') w1 e1 \<and> steady (v e') (v e1)"
    by (auto simp: steady_def)
  from assms(6) 1 have 2: "writer_finalize m (w1, e1) = Some ((w2, e2), True)" "bs' = bs"
    by (auto simp: writer_run_append bind_eq_Some_conv)
  then have o: "rw_state w1 = Open" by (auto simp: writer_finalize_def split: if_splits)
  have b: "\<forall>i. int (length (accepted i ops bs)) < 2 ^ 63"
    using accepted_length assms(5) by (meson order.strict_trans1)
  have w1: "length (rw_tracks w1) = length (rc_tracks config)" "rw_config w1 = config"
    using writer_run_inv [OF 1, of "length (rc_tracks config)"] create_inv [OF assms(3)] create_open(2) [OF assms(3)] o
    by (simp_all add: writer_inv_def)
  from writer_finalize_recorded [OF assms(1) o, of "\<lambda>t. accepted t ops bs" e1] r o b 2 w1
    complete_steady [OF recorder_lawsD(2) [OF assms(1)]]
  show ?thesis by auto
qed

theorem recording_is_complete_witness:
  "\<exists>w2 e2. writer_run memory_api (demo_writer, \<lambda>_. []) [Write 0 (demo_frame 1 [1, 2, 3, 4, 5, 6]), Finalize]
     = Some ((w2, e2), [True, True]) \<and> saved_file w2
     \<and> decoded (unpack []) (stream_packets 0 (rw_trace w2)) = [[1, 2], [3, 4], [5, 6]]
     \<and> complete memory_api memory_view (\<lambda>_. unpack []) [[1, 2], [3, 4], [5, 6]] 0 (\<lambda>_. []) w2"
proof -
  let ?ops = "[Write 0 (demo_frame 1 [1, 2, 3, 4, 5, 6])]"
  obtain w2 e2 where r: "writer_run memory_api (demo_writer, \<lambda>_. []) (?ops @ [Finalize]) = Some ((w2, e2), [True] @ [True])"
    using demo_run by fastforce
  have "small_frames ?ops" "offered ?ops < 2 ^ 63" by (simp_all add: small_frames_def demo_count)
  from recording_is_complete [OF memory_recorder memory_opening demo_create this r]
  have "saved_file w2" "complete memory_api memory_view (\<lambda>_. unpack []) (accepted 0 ?ops [True]) 0 (\<lambda>_. []) w2"
    by (simp_all add: demo_config_def)
  then have "saved_file w2" "complete memory_api memory_view (\<lambda>_. unpack []) [[1, 2], [3, 4], [5, 6]] 0 (\<lambda>_. []) w2"
    by (simp_all add: demo_samples)
  moreover from this(2) have "decoded (unpack []) (stream_packets 0 (rw_trace w2)) = [[1, 2], [3, 4], [5, 6]]"
    unfolding complete_def by blast
  ultimately show ?thesis using r by auto
qed

end
