(* ===== verification/SttClient.thy ===== *)
theory SttClient
  imports AudioTypes "HOL-Library.Sublist"
begin

text \<open>
  The streaming transcription client (\<open>streaming-client/src/grpc_stt_stream_client.cpp\<close>,
  \<open>stt_stream_client.hpp\<close>). The caller's \<open>start\<close>, \<open>sendFrame\<close> and \<open>stop\<close>, the writer thread
  and the reader thread interleave at their locked sections and at the answers of gRPC, which
  are the labels of a step relation. A history records what no field of the client does: how
  many frames were offered and which requests were accepted and written.
\<close>

section \<open>Data\<close>

record stt_session_info =
  si_tenantId :: string
  si_meetingId :: string
  si_sessionId :: string
  si_trackId :: string
  si_provider :: string

record stt_client_config =
  sc_endpoint :: string
  sc_session :: stt_session_info
  sc_sendQueueCapacity :: nat
  sc_connectTimeoutMs :: int

record transcript_update =
  tu_segmentId :: string
  tu_revision :: u32
  tu_isFinal :: bool
  tu_stableText :: string
  tu_mutableText :: string
  tu_audioStartMs :: int
  tu_audioEndMs :: int

record stt_client_stats =
  cs_framesSent :: u64
  cs_framesDropped :: u64
  cs_updatesReceived :: u64

text \<open>The fields of the protocol messages that the code sets and reads.\<close>

datatype audio_encoding = EncodingUnspecified | EncodingPcmS16Le | EncodingPcmF32Le | EncodingFlac | EncodingOpus

record request =
  rq_session :: stt_session_info
  rq_sequence :: u64
  rq_capturedAtUnixMs :: int
  rq_monotonicTimestampNs :: int
  rq_sampleRateHz :: u32
  rq_channels :: u32
  rq_encoding :: audio_encoding
  rq_payload :: "u8 list"
  rq_discontinuity :: bool

datatype segment_status = StatusUnspecified | Partial | Final

record segment =
  sg_segmentId :: string
  sg_revision :: u32
  sg_status :: segment_status
  sg_stableText :: string
  sg_mutableText :: string
  sg_audioStartMs :: int
  sg_audioEndMs :: int

text \<open>Where the two threads are; \<open>WIdle\<close> and \<open>RIdle\<close>: there is none (not started, or joined).\<close>

datatype writer_pc = WIdle | WWaiting | WWriting request | WClosing | WDone

datatype reader_pc = RIdle | RReading | RDone

record stt_client =
  cl_config :: stt_client_config
  cl_callback :: bool
  cl_channel :: bool
  cl_stub :: bool
  cl_context :: bool
  cl_stream :: bool
  cl_queue :: "request list"
  cl_running :: bool
  cl_stopRequested :: bool
  cl_streamBroken :: bool
  cl_stopping :: bool \<comment> \<open>a call of \<open>stop\<close> waits for the threads\<close>
  cl_writer :: writer_pc
  cl_reader :: reader_pc
  cl_framesSent :: u64
  cl_framesDropped :: u64
  cl_updatesReceived :: u64
  cl_delivered :: "transcript_update list" \<comment> \<open>what the callback was called with\<close>

definition createGrpcSttStreamClient :: "stt_client_config \<Rightarrow> stt_client" where
  "createGrpcSttStreamClient config = \<lparr>cl_config = config, cl_callback = False, cl_channel = False,
     cl_stub = False, cl_context = False, cl_stream = False, cl_queue = [], cl_running = False,
     cl_stopRequested = False, cl_streamBroken = False, cl_stopping = False, cl_writer = WIdle,
     cl_reader = RIdle, cl_framesSent = 0, cl_framesDropped = 0, cl_updatesReceived = 0, cl_delivered = []\<rparr>"

section \<open>The operations\<close>

text \<open>\<open>connected\<close> and \<open>opened\<close> are the answers of \<open>WaitForConnected\<close> and \<open>StreamTranscription\<close>.\<close>

definition client_start :: "bool \<Rightarrow> bool \<Rightarrow> bool \<Rightarrow> stt_client \<Rightarrow> stt_client \<times> bool" where
  "client_start callback connected opened c =
     (if cl_running c then (c, False)
      else
        let c = c\<lparr>cl_callback := callback, cl_channel := True\<rparr> in
        if \<not> connected then (c\<lparr>cl_channel := False\<rparr>, False)
        else
          let c = c\<lparr>cl_stub := True, cl_context := True, cl_stream := opened\<rparr> in
          if \<not> opened then (c\<lparr>cl_context := False, cl_stub := False, cl_channel := False\<rparr>, False)
          else (c\<lparr>cl_stopRequested := False, cl_streamBroken := False, cl_running := True,
                  cl_writer := WWaiting, cl_reader := RReading\<rparr>, True))"

definition toRequest :: "stt_client_config \<Rightarrow> int \<Rightarrow> audio_frame \<Rightarrow> request" where
  "toRequest config now f = \<lparr>rq_session = sc_session config, rq_sequence = fr_sequence f,
     rq_capturedAtUnixMs = now, rq_monotonicTimestampNs = fr_timestamp f, rq_sampleRateHz = fr_sampleRate f,
     rq_channels = ucast (fr_channels f), rq_encoding = EncodingPcmS16Le, rq_payload = fr_payload f, rq_discontinuity = fr_discontinuity f\<rparr>"

definition sendFrame :: "int \<Rightarrow> audio_frame \<Rightarrow> stt_client \<Rightarrow> stt_client \<times> bool" where
  "sendFrame now f c =
     (if \<not> cl_running c \<or> cl_streamBroken c \<or> sc_sendQueueCapacity (cl_config c) \<le> length (cl_queue c)
      then (c\<lparr>cl_framesDropped := cl_framesDropped c + 1\<rparr>, False)
      else (c\<lparr>cl_queue := cl_queue c @ [toRequest (cl_config c) now f]\<rparr>, True))"

text \<open>\<open>stop\<close> up to its joins, and from there on.\<close>

definition stop_request :: "stt_client \<Rightarrow> stt_client" where
  "stop_request c = (if \<not> cl_running c then c else c\<lparr>cl_stopRequested := True, cl_stopping := True\<rparr>)"

definition stop_finish :: "stt_client \<Rightarrow> stt_client" where
  "stop_finish c = c\<lparr>cl_writer := WIdle, cl_reader := RIdle, cl_stream := False, cl_context := False,
     cl_stub := False, cl_channel := False, cl_running := False, cl_queue := [], cl_stopping := False\<rparr>"

definition client_stats :: "stt_client \<Rightarrow> stt_client_stats" where
  "client_stats c = \<lparr>cs_framesSent = cl_framesSent c, cs_framesDropped = cl_framesDropped c,
     cs_updatesReceived = cl_updatesReceived c\<rparr>"

text \<open>\<open>writeLoop\<close>: the locked section after the wait, and what follows the answer of \<open>Write\<close>.\<close>

definition writer_wakes :: "stt_client \<Rightarrow> bool" where
  "writer_wakes c \<longleftrightarrow> cl_stopRequested c \<or> cl_queue c \<noteq> []"

definition writer_take :: "stt_client \<Rightarrow> stt_client" where
  "writer_take c =
     (case cl_queue c of
       [] \<Rightarrow> c\<lparr>cl_writer := WClosing\<rparr>
     | r # rs \<Rightarrow> c\<lparr>cl_writer := WWriting r, cl_queue := rs\<rparr>)"

definition writer_written :: "bool \<Rightarrow> stt_client \<Rightarrow> stt_client" where
  "writer_written success c =
     (if \<not> success
      then c\<lparr>cl_streamBroken := True, cl_framesDropped := cl_framesDropped c + of_nat (length (cl_queue c) + 1),
             cl_queue := [], cl_writer := WClosing\<rparr>
      else c\<lparr>cl_framesSent := cl_framesSent c + 1, cl_writer := WWaiting\<rparr>)"

text \<open>\<open>readLoop\<close>: one response.\<close>

definition toUpdate :: "segment \<Rightarrow> transcript_update" where
  "toUpdate s = \<lparr>tu_segmentId = sg_segmentId s, tu_revision = sg_revision s, tu_isFinal = (sg_status s = Final),
     tu_stableText = sg_stableText s, tu_mutableText = sg_mutableText s,
     tu_audioStartMs = sg_audioStartMs s, tu_audioEndMs = sg_audioEndMs s\<rparr>"

definition reader_got :: "segment \<Rightarrow> stt_client \<Rightarrow> stt_client" where
  "reader_got s c =
     (let c = c\<lparr>cl_updatesReceived := cl_updatesReceived c + 1\<rparr>
      in if cl_callback c then c\<lparr>cl_delivered := cl_delivered c @ [toUpdate s]\<rparr> else c)"

section \<open>The threads together\<close>

text \<open>\<open>start\<close> and \<open>stop\<close> come from one thread, which is inside \<open>stop\<close> while \<open>cl_stopping\<close>.\<close>

datatype client_event = Start bool bool bool | Send int audio_frame | StopCall | StopReturn
  | Take | Written bool | HalfClosed | Response segment | StreamEnd

inductive client_step :: "stt_client \<Rightarrow> client_event \<Rightarrow> stt_client \<Rightarrow> bool" where
  starts: "\<not> cl_stopping c \<Longrightarrow> client_step c (Start cb k s) (fst (client_start cb k s c))"
| sends: "client_step c (Send now f) (fst (sendFrame now f c))"
| stops: "\<not> cl_stopping c \<Longrightarrow> client_step c StopCall (stop_request c)"
| joins: "cl_stopping c \<Longrightarrow> cl_writer c = WDone \<Longrightarrow> cl_reader c = RDone \<Longrightarrow>
    client_step c StopReturn (stop_finish c)"
| takes: "cl_writer c = WWaiting \<Longrightarrow> writer_wakes c \<Longrightarrow> client_step c Take (writer_take c)"
| writes: "cl_writer c = WWriting r \<Longrightarrow> client_step c (Written success) (writer_written success c)"
| half_closes: "cl_writer c = WClosing \<Longrightarrow> client_step c HalfClosed (c\<lparr>cl_writer := WDone\<rparr>)"
| reads: "cl_reader c = RReading \<Longrightarrow> client_step c (Response s) (reader_got s c)"
| ends: "cl_reader c = RReading \<Longrightarrow> client_step c StreamEnd (c\<lparr>cl_reader := RDone\<rparr>)"

inductive_simps client_step_simps:
  "client_step c (Start cb k s) c'" "client_step c (Send now f) c'" "client_step c StopCall c'"
  "client_step c StopReturn c'" "client_step c Take c'" "client_step c (Written success) c'"
  "client_step c HalfClosed c'" "client_step c (Response s) c'" "client_step c StreamEnd c'"

text \<open>What happened so far; requests are those of the current stream.\<close>

record client_history =
  hs_offered :: nat
  hs_accepted :: "request list"
  hs_wire :: "request list" \<comment> \<open>written successfully, in order\<close>
  hs_late :: nat \<comment> \<open>frames accepted after \<open>stop\<close> was called\<close>
  hs_cleared :: nat \<comment> \<open>frames in the queue when \<open>stop\<close> clears it\<close>

definition no_history :: client_history where
  "no_history = \<lparr>hs_offered = 0, hs_accepted = [], hs_wire = [], hs_late = 0, hs_cleared = 0\<rparr>"

fun observe :: "client_event \<Rightarrow> stt_client \<Rightarrow> client_history \<Rightarrow> client_history" where
  "observe (Start cb k s) c h = (if snd (client_start cb k s c) then h\<lparr>hs_accepted := [], hs_wire := []\<rparr> else h)"
| "observe (Send now f) c h =
     (if snd (sendFrame now f c)
      then h\<lparr>hs_offered := hs_offered h + 1, hs_accepted := hs_accepted h @ [toRequest (cl_config c) now f],
             hs_late := hs_late h + (if cl_stopRequested c then 1 else 0)\<rparr>
      else h\<lparr>hs_offered := hs_offered h + 1\<rparr>)"
| "observe (Written success) c h =
     (case cl_writer c of WWriting r \<Rightarrow> if success then h\<lparr>hs_wire := hs_wire h @ [r]\<rparr> else h | _ \<Rightarrow> h)"
| "observe StopReturn c h = h\<lparr>hs_cleared := hs_cleared h + length (cl_queue c)\<rparr>"
| "observe _ c h = h"

inductive client_run :: "stt_client_config \<Rightarrow> stt_client \<Rightarrow> client_history \<Rightarrow> bool" for config where
  created: "client_run config (createGrpcSttStreamClient config) no_history"
| stepped: "client_run config c h \<Longrightarrow> client_step c ev c' \<Longrightarrow> client_run config c' (observe ev c h)"

section \<open>No frame goes missing\<close>

fun in_flight :: "writer_pc \<Rightarrow> request list" where
  "in_flight (WWriting r) = [r]"
| "in_flight _ = []"

definition closed :: "stt_client \<Rightarrow> bool" where
  "closed c \<longleftrightarrow> cl_writer c = WClosing \<or> cl_writer c = WDone"

definition threads_ok :: "stt_client \<Rightarrow> bool" where
  [inv_simps]: "threads_ok c \<longleftrightarrow>
     (cl_running c \<longleftrightarrow> cl_writer c \<noteq> WIdle) \<and> (cl_running c \<longleftrightarrow> cl_reader c \<noteq> RIdle)
   \<and> (cl_running c \<longleftrightarrow> cl_stream c) \<and> (\<not> cl_running c \<longrightarrow> cl_queue c = [])
   \<and> (cl_stopping c \<longrightarrow> cl_running c \<and> cl_stopRequested c)
   \<and> (cl_running c \<and> cl_streamBroken c \<longrightarrow> closed c \<and> cl_queue c = [])
   \<and> (closed c \<longrightarrow> cl_stopRequested c \<or> cl_streamBroken c)
   \<and> length (cl_queue c) \<le> sc_sendQueueCapacity (cl_config c)"

definition order_ok :: "stt_client \<Rightarrow> client_history \<Rightarrow> bool" where
  [inv_simps]: "order_ok c h \<longleftrightarrow> prefix (hs_wire h) (hs_accepted h)
     \<and> (cl_running c \<and> \<not> cl_streamBroken c \<longrightarrow>
          hs_accepted h = hs_wire h @ in_flight (cl_writer c) @ cl_queue c)"

definition count_ok :: "stt_client \<Rightarrow> client_history \<Rightarrow> bool" where
  [inv_simps]: "count_ok c h \<longleftrightarrow>
     cl_framesSent c + cl_framesDropped c
       + of_nat (length (in_flight (cl_writer c)) + length (cl_queue c) + hs_cleared h) = of_nat (hs_offered h)
   \<and> hs_cleared h + (if closed c then length (cl_queue c) else 0) \<le> hs_late h"

lemmas client_ops = client_start_def sendFrame_def stop_request_def stop_finish_def writer_take_def
  writer_written_def reader_got_def writer_wakes_def closed_def Let_def

lemma step_config: "client_step c ev c' \<Longrightarrow> cl_config c' = cl_config c"
  by (cases ev) (auto simp: client_step_simps client_ops split: list.splits)

lemma step_threads:
  assumes "threads_ok c" and "client_step c ev c'"
  shows "threads_ok c'"
  using assms by (cases ev) (auto simp: client_step_simps client_ops threads_ok_def split: list.splits)

lemma step_order:
  assumes "threads_ok c" and "order_ok c h" and "client_step c ev c'"
  shows "order_ok c' (observe ev c h)"
  using assms(3)
  by (cases rule: client_step.cases)
    (use assms(1,2) in \<open>auto simp: client_ops threads_ok_def order_ok_def split: list.splits if_splits\<close>)

lemma step_count:
  assumes "threads_ok c" and "count_ok c h" and "client_step c ev c'"
  shows "count_ok c' (observe ev c h)"
  using assms(3)
  by (cases rule: client_step.cases)
    (use assms(1,2) in \<open>auto simp: client_ops threads_ok_def count_ok_def algebra_simps split: list.splits if_splits\<close>)

lemma run_ok: "client_run config c h \<Longrightarrow> cl_config c = config \<and> threads_ok c \<and> order_ok c h \<and> count_ok c h"
proof (induction rule: client_run.induct)
  case created
  then show ?case
    by (simp add: createGrpcSttStreamClient_def no_history_def threads_ok_def order_ok_def count_ok_def closed_def)
next
  case (stepped c h ev c')
  then show ?case
    using step_config [OF stepped(2)] step_threads [OF _ stepped(2)] step_order [OF _ _ stepped(2)]
      step_count [OF _ _ stepped(2)] by simp
qed

text \<open>The writer thread's steps, and how many it has left once it no longer waits for frames.\<close>

fun writer_event :: "client_event \<Rightarrow> bool" where
  "writer_event Take = True"
| "writer_event (Written _) = True"
| "writer_event HalfClosed = True"
| "writer_event _ = False"

definition steps_left :: "stt_client \<Rightarrow> nat" where
  "steps_left c = (case cl_writer c of
     WIdle \<Rightarrow> 0 | WDone \<Rightarrow> 0 | WClosing \<Rightarrow> 1
   | WWaiting \<Rightarrow> 2 * length (cl_queue c) + 2 | WWriting _ \<Rightarrow> 2 * length (cl_queue c) + 3)"

inductive client_steps :: "stt_client \<Rightarrow> client_event list \<Rightarrow> stt_client \<Rightarrow> bool" where
  none: "client_steps c [] c"
| more: "client_step c ev c1 \<Longrightarrow> client_steps c1 evs c2 \<Longrightarrow> client_steps c (ev # evs) c2"

lemma writer_event_step:
  assumes "client_step c ev c'" and "writer_event ev" and "cl_stopRequested c"
  shows "steps_left c' < steps_left c \<and> cl_stopRequested c' \<and> (cl_writer c \<noteq> WIdle \<longrightarrow> cl_writer c' \<noteq> WIdle)"
  using assms(1)
  by (cases rule: client_step.cases)
    (use assms(2,3) in \<open>auto simp: client_ops steps_left_def split: list.splits writer_pc.splits\<close>)

lemma writer_can_step:
  assumes "cl_stopRequested c" and "steps_left c \<noteq> 0"
  shows "\<exists>ev c'. writer_event ev \<and> client_step c ev c'"
proof (cases "cl_writer c")
  case WWaiting
  with assms show ?thesis using client_step.takes [of c] by (auto simp: writer_wakes_def intro!: exI [of _ Take])
next
  case (WWriting r)
  then show ?thesis using client_step.writes [of c r True] by (auto intro!: exI [of _ "Written True"])
next
  case WClosing
  then show ?thesis using client_step.half_closes [of c] by (auto intro!: exI [of _ HalfClosed])
qed (use assms in \<open>simp_all add: steps_left_def\<close>)

lemma writer_events_run:
  "client_steps c evs c' \<Longrightarrow> list_all writer_event evs \<Longrightarrow> cl_stopRequested c \<Longrightarrow> cl_writer c \<noteq> WIdle \<Longrightarrow>
   length evs + steps_left c' \<le> steps_left c \<and> cl_stopRequested c' \<and> cl_writer c' \<noteq> WIdle"
proof (induction rule: client_steps.induct)
  case (more c ev c1 evs c2)
  with writer_event_step [OF more.hyps(1)] show ?case by simp
qed simp

section \<open>Running the client\<close>

text \<open>The relation as a function: an event happens in one way or not at all.\<close>

fun client_exec :: "client_event \<Rightarrow> stt_client \<Rightarrow> stt_client option" where
  "client_exec (Start cb k s) c = (if cl_stopping c then None else Some (fst (client_start cb k s c)))"
| "client_exec (Send now f) c = Some (fst (sendFrame now f c))"
| "client_exec StopCall c = (if cl_stopping c then None else Some (stop_request c))"
| "client_exec StopReturn c =
     (if cl_stopping c \<and> cl_writer c = WDone \<and> cl_reader c = RDone then Some (stop_finish c) else None)"
| "client_exec Take c = (if cl_writer c = WWaiting \<and> writer_wakes c then Some (writer_take c) else None)"
| "client_exec (Written success) c =
     (case cl_writer c of WWriting r \<Rightarrow> Some (writer_written success c) | _ \<Rightarrow> None)"
| "client_exec HalfClosed c = (if cl_writer c = WClosing then Some (c\<lparr>cl_writer := WDone\<rparr>) else None)"
| "client_exec (Response s) c = (if cl_reader c = RReading then Some (reader_got s c) else None)"
| "client_exec StreamEnd c = (if cl_reader c = RReading then Some (c\<lparr>cl_reader := RDone\<rparr>) else None)"

lemma client_exec_iff: "client_exec ev c = Some c' \<longleftrightarrow> client_step c ev c'"
  by (cases ev) (auto simp: client_step_simps split: writer_pc.splits)

fun client_events :: "client_event list \<Rightarrow> stt_client \<times> client_history \<Rightarrow> (stt_client \<times> client_history) option" where
  "client_events [] ch = Some ch"
| "client_events (ev # evs) (c, h) =
     (case client_exec ev c of None \<Rightarrow> None | Some c' \<Rightarrow> client_events evs (c', observe ev c h))"

lemma client_events_run:
  "client_events evs (c, h) = Some (c', h') \<Longrightarrow> client_run config c h \<Longrightarrow> client_run config c' h'"
proof (induction evs arbitrary: c h)
  case (Cons ev evs)
  then show ?case by (auto simp: client_exec_iff intro: client_run.stepped split: option.splits)
qed simp

definition demo_client_config :: stt_client_config where
  "demo_client_config = \<lparr>sc_endpoint = ''localhost:1'', sc_session = \<lparr>si_tenantId = ''t'', si_meetingId = ''m'',
     si_sessionId = ''s'', si_trackId = ''stt'', si_provider = ''desktop''\<rparr>, sc_sendQueueCapacity = 2,
     sc_connectTimeoutMs = 2000\<rparr>"

definition demo_stt_frame :: audio_frame where
  "demo_stt_frame = \<lparr>fr_track = SttStream, fr_sequence = 0, fr_timestamp = 0, fr_sampleRate = 16000,
     fr_channels = 1, fr_format = PcmS16Le, fr_discontinuity = False, fr_payload = [1, 2]\<rparr>"

definition demo_client :: "client_event list \<Rightarrow> (stt_client \<times> client_history) option" where
  "demo_client evs = client_events evs (createGrpcSttStreamClient demo_client_config, no_history)"

lemma demo_client_run: "demo_client evs = Some (c, h) \<Longrightarrow> client_run demo_client_config c h"
  unfolding demo_client_def by (erule client_events_run) (rule client_run.created)

text \<open>
  \<open>stt_stream_client.hpp\<close> says of the drop counter that a loss is never silent. A frame that
  is accepted after the writer has drained the queue for \<open>stop\<close>, and before \<open>stop\<close> returns, is
  neither sent nor counted.
\<close>

lemma late_frame_is_lost_silently:
  "\<exists>c h. client_run demo_client_config c h \<and> \<not> cl_running c \<and> hs_offered h = 1
     \<and> cl_framesSent c = 0 \<and> cl_framesDropped c = 0"
proof -
  have "\<exists>c h. demo_client [Start True True True, StopCall, Take, Send 0 demo_stt_frame, HalfClosed, StreamEnd,
      StopReturn] = Some (c, h) \<and> \<not> cl_running c \<and> hs_offered h = 1 \<and> cl_framesSent c = 0 \<and> cl_framesDropped c = 0"
    by (simp add: demo_client_def demo_client_config_def createGrpcSttStreamClient_def no_history_def client_ops)
  then show ?thesis using demo_client_run by blast
qed

section \<open>Properties\<close>

text \<open>
  C17: frames are accounted for and leave in order. In every reachable state of the client,
  whatever the network answers and however the threads interleave, every offered frame is
  counted as sent, counted as dropped, being written, queued, or among those that the end of
  \<open>stop\<close> cleared, and of the last there are at most as many as were accepted after \<open>stop\<close> was
  called. What was written is a prefix of what was accepted, and until a write fails
  nothing in between is missing. The queue never exceeds its capacity.
\<close>

theorem client_accounts_for_frames:
  assumes "client_run config c h"
  shows "cl_framesSent c + cl_framesDropped c
      + of_nat (length (in_flight (cl_writer c)) + length (cl_queue c) + hs_cleared h) = of_nat (hs_offered h)
    \<and> hs_cleared h \<le> hs_late h \<and> prefix (hs_wire h) (hs_accepted h)
    \<and> (cl_running c \<and> \<not> cl_streamBroken c \<longrightarrow> hs_accepted h = hs_wire h @ in_flight (cl_writer c) @ cl_queue c)
    \<and> length (cl_queue c) \<le> sc_sendQueueCapacity config"
  using run_ok [OF assms] by (auto simp: threads_ok_def order_ok_def count_ok_def)

theorem client_accounts_for_frames_witness:
  "\<exists>c h. demo_client [Start True True True, Send 0 demo_stt_frame, Send 1 demo_stt_frame, Take, Written True,
       Send 2 demo_stt_frame, Send 3 demo_stt_frame, Take] = Some (c, h)
     \<and> cl_framesSent c + cl_framesDropped c
         + of_nat (length (in_flight (cl_writer c)) + length (cl_queue c) + hs_cleared h) = of_nat (hs_offered h)
     \<and> hs_offered h = 4 \<and> cl_framesSent c = 1 \<and> cl_framesDropped c = 1 \<and> prefix (hs_wire h) (hs_accepted h)"
proof -
  have "\<exists>c h. demo_client [Start True True True, Send 0 demo_stt_frame, Send 1 demo_stt_frame, Take, Written True,
       Send 2 demo_stt_frame, Send 3 demo_stt_frame, Take] = Some (c, h)
     \<and> hs_offered h = 4 \<and> cl_framesSent c = 1 \<and> cl_framesDropped c = 1"
    by (simp add: demo_client_def demo_client_config_def createGrpcSttStreamClient_def no_history_def client_ops)
  then show ?thesis using client_accounts_for_frames [OF demo_client_run] by fastforce
qed

text \<open>
  C18: \<open>stop\<close> lets the writer drain and end. Once \<open>stop\<close> has been called and no frame is
  offered any more, the writer thread takes at most two steps per queued frame and three
  more, whatever the writes answer, and it can take one until it is done.
\<close>

theorem stop_drains_the_writer:
  assumes "client_run config c h" and "cl_stopping c" and "client_steps c evs c'" and "list_all writer_event evs"
  shows "length evs \<le> 2 * length (cl_queue c) + 3
    \<and> (cl_writer c' = WDone \<or> (\<exists>ev c''. writer_event ev \<and> client_step c' ev c''))"
proof -
  have c: "cl_stopRequested c" "cl_writer c \<noteq> WIdle"
    using run_ok [OF assms(1)] assms(2) by (auto simp: threads_ok_def)
  from writer_events_run [OF assms(3,4) c] have r: "length evs + steps_left c' \<le> steps_left c"
    "cl_stopRequested c'" "cl_writer c' \<noteq> WIdle" by simp_all
  moreover have "steps_left c \<le> 2 * length (cl_queue c) + 3"
    by (auto simp: steps_left_def split: writer_pc.splits)
  moreover have "cl_writer c' = WDone" if "steps_left c' = 0"
    using that r(3) by (auto simp: steps_left_def split: writer_pc.splits)
  ultimately show ?thesis using writer_can_step [OF r(2)] by auto
qed

theorem stop_drains_the_writer_witness:
  "\<exists>c h c'. demo_client [Start True True True, Send 0 demo_stt_frame, StopCall] = Some (c, h)
     \<and> client_steps c [Take, Written True] c' \<and> (\<exists>ev c''. writer_event ev \<and> client_step c' ev c'')"
proof -
  have "\<exists>c h c1 c'. demo_client [Start True True True, Send 0 demo_stt_frame, StopCall] = Some (c, h)
      \<and> cl_stopping c \<and> client_exec Take c = Some c1 \<and> client_exec (Written True) c1 = Some c' \<and> cl_writer c' \<noteq> WDone"
    by (simp add: demo_client_def demo_client_config_def createGrpcSttStreamClient_def no_history_def client_ops)
  then obtain c h c1 c' where r: "demo_client [Start True True True, Send 0 demo_stt_frame, StopCall] = Some (c, h)"
    "cl_stopping c" "client_exec Take c = Some c1" "client_exec (Written True) c1 = Some c'" "cl_writer c' \<noteq> WDone"
    by blast
  have "client_steps c [Take, Written True] c'"
    using r(3,4) unfolding client_exec_iff by (blast intro: client_steps.intros)
  with r stop_drains_the_writer [OF demo_client_run [OF r(1)] r(2) this] show ?thesis by auto
qed

end
