(* ===== verification/MockServer.thy ===== *)
theory MockServer
  imports SttClient Version
begin

text \<open>
  The scripted transcription server (\<open>streaming-client/src/testing/mock_stt_server.cpp\<close>): the
  handler of one stream as a step per request, with its local variables as the state and the
  answer of each \<open>Write\<close> as an input. A modulo by zero is undefined behaviour and gives \<open>None\<close>.
\<close>

section \<open>Data\<close>

record mock_options =
  mo_framesPerUpdate :: u64
  mo_revisionsPerSegment :: u64

record mock_stats =
  mk_framesReceived :: u64
  mk_invalidFrames :: u64
  mk_updatesSent :: u64
  mk_sessionsServed :: u64

record mock_session =
  ms_framesInSession :: u64
  ms_segmentIndex :: u64
  ms_revision :: u64
  ms_segmentStartMs :: int

definition new_mock_session :: mock_session where
  "new_mock_session = \<lparr>ms_framesInSession = 0, ms_segmentIndex = 0, ms_revision = 0, ms_segmentStartMs = 0\<rparr>"

definition kWords :: "string list" where
  "kWords = [''voxmesh'', ''records'', ''meetings'', ''and'', ''transcribes'', ''them'',
     ''with'', ''partial'', ''results'', ''under'', ''one'', ''second'']"

definition scriptedWord :: "u64 \<Rightarrow> string" where
  "scriptedWord index = kWords ! unat (index mod 12)"

text \<open>\<open>snprintf\<close> with \<open>seg-%04zu\<close> into 16 bytes, the terminator included.\<close>

definition segmentId :: "u64 \<Rightarrow> string" where
  "segmentId index = (let digits = to_string (unat index)
     in take 15 (''seg-'' @ replicate (4 - length digits) (CHR ''0'') @ digits))"

definition validSttFrame :: "request \<Rightarrow> bool" where
  "validSttFrame r \<longleftrightarrow> rq_sampleRateHz r = 16000 \<and> rq_channels r = 1 \<and> rq_encoding r = EncodingPcmS16Le"

fun add_word :: "string \<Rightarrow> string \<Rightarrow> string" where
  "add_word text word = (if text \<noteq> [] then text @ '' '' @ word else word)"

text \<open>The words \<open>0 .. r - 1\<close> of the segment, joined by blanks.\<close>

fun stable_words :: "u64 \<Rightarrow> nat \<Rightarrow> string" where
  "stable_words wordBase 0 = []"
| "stable_words wordBase (Suc w) = add_word (stable_words wordBase w) (scriptedWord (wordBase + of_nat w))"

section \<open>One request\<close>

definition is_final :: "mock_options \<Rightarrow> mock_session \<Rightarrow> bool" where
  "is_final opt s \<longleftrightarrow> mo_revisionsPerSegment opt \<le> ms_revision s + 1"

definition frameMs :: "mock_options \<Rightarrow> int option" where
  "frameMs opt = s64 (sint (mo_framesPerUpdate opt) * 100)"

definition mock_response :: "mock_options \<Rightarrow> mock_session \<Rightarrow> segment option" where
  "mock_response opt s = do {
     let wordBase = ms_segmentIndex s * mo_revisionsPerSegment opt;
     let words = stable_words wordBase (unat (ms_revision s));
     let word = scriptedWord (wordBase + ms_revision s);
     ms \<leftarrow> frameMs opt;
     duration \<leftarrow> s64 (sint (ms_revision s + 1) * ms);
     end_ms \<leftarrow> s64 (ms_segmentStartMs s + duration);
     Some \<lparr>sg_segmentId = segmentId (ms_segmentIndex s), sg_revision = ucast (ms_revision s + 1),
       sg_status = (if is_final opt s then Final else Partial),
       sg_stableText = (if is_final opt s then add_word words word else words),
       sg_mutableText = (if is_final opt s then [] else word),
       sg_audioStartMs = ms_segmentStartMs s, sg_audioEndMs = end_ms\<rparr> }"

definition next_update :: "mock_options \<Rightarrow> mock_session \<Rightarrow> mock_session option" where
  "next_update opt s =
     (if is_final opt s then do {
        ms \<leftarrow> frameMs opt;
        duration \<leftarrow> s64 (sint (mo_revisionsPerSegment opt) * ms);
        start \<leftarrow> s64 (ms_segmentStartMs s + duration);
        Some (s\<lparr>ms_segmentStartMs := start, ms_segmentIndex := ms_segmentIndex s + 1, ms_revision := 0\<rparr>) }
      else Some (s\<lparr>ms_revision := ms_revision s + 1\<rparr>))"

text \<open>The result: the response, if one was written, and whether the loop goes on.\<close>

definition mock_request :: "mock_options \<Rightarrow> bool \<Rightarrow> request \<Rightarrow> mock_session \<times> mock_stats
    \<Rightarrow> ((mock_session \<times> mock_stats) \<times> segment option \<times> bool) option" where
  "mock_request opt written r = (\<lambda>(s, st).
     let s = s\<lparr>ms_framesInSession := ms_framesInSession s + 1\<rparr>;
         st = st\<lparr>mk_framesReceived := mk_framesReceived st + 1\<rparr> in
     if \<not> validSttFrame r then Some ((s, st\<lparr>mk_invalidFrames := mk_invalidFrames st + 1\<rparr>), None, True)
     else if mo_framesPerUpdate opt = 0 then None
     else if ms_framesInSession s mod mo_framesPerUpdate opt \<noteq> 0 then Some ((s, st), None, True)
     else do {
       response \<leftarrow> mock_response opt s;
       if \<not> written then Some ((s, st), None, False)
       else do {
         s \<leftarrow> next_update opt s;
         Some ((s, st\<lparr>mk_updatesSent := mk_updatesSent st + 1\<rparr>), Some response, True) } })"

text \<open>\<open>StreamTranscription\<close>: every request of the stream with the answer of the write it may cause.\<close>

fun mock_loop :: "mock_options \<Rightarrow> (request \<times> bool) list \<Rightarrow> mock_session \<times> mock_stats
    \<Rightarrow> (mock_stats \<times> segment list) option" where
  "mock_loop opt [] sst = Some (snd sst, [])"
| "mock_loop opt ((r, written) # rs) sst = do {
     (sst, response, continue) \<leftarrow> mock_request opt written r sst;
     if \<not> continue then Some (snd sst, [])
     else do {
       (st, responses) \<leftarrow> mock_loop opt rs sst;
       Some (st, (case response of None \<Rightarrow> responses | Some x \<Rightarrow> x # responses)) } }"

definition mock_StreamTranscription :: "mock_options \<Rightarrow> (request \<times> bool) list \<Rightarrow> mock_stats
    \<Rightarrow> (mock_stats \<times> segment list) option" where
  "mock_StreamTranscription opt rs st =
     mock_loop opt rs (new_mock_session, st\<lparr>mk_sessionsServed := mk_sessionsServed st + 1\<rparr>)"

section \<open>The server\<close>

text \<open>
  \<open>sv_server\<close>: there is a gRPC server. \<open>built\<close> and \<open>port\<close> are what \<open>BuildAndStart\<close> answers and
  stores; its \<open>Shutdown\<close> waits for the handlers that are running.
\<close>

record mock_server =
  sv_options :: mock_options
  sv_server :: bool
  sv_port :: int
  sv_stats :: mock_stats

definition default_mock_options :: mock_options where
  "default_mock_options = \<lparr>mo_framesPerUpdate = 5, mo_revisionsPerSegment = 3\<rparr>"

definition new_mock_server :: "mock_options \<Rightarrow> mock_server" where
  "new_mock_server options = \<lparr>sv_options = options, sv_server = False, sv_port = 0,
     sv_stats = \<lparr>mk_framesReceived = 0, mk_invalidFrames = 0, mk_updatesSent = 0, mk_sessionsServed = 0\<rparr>\<rparr>"

definition mock_start :: "bool \<Rightarrow> int \<Rightarrow> mock_server \<Rightarrow> mock_server \<times> bool" where
  "mock_start built port sv = (sv\<lparr>sv_port := port, sv_server := built\<rparr>, built \<and> port \<noteq> 0)"

definition mock_shutdown :: "mock_server \<Rightarrow> mock_server" where
  "mock_shutdown sv = (if sv_server sv then sv\<lparr>sv_server := False\<rparr> else sv)"

section \<open>The script\<close>

text \<open>Update \<open>j\<close> of a stream, and the handler's variables after \<open>n\<close> requests and \<open>j\<close> updates.\<close>

definition seg_len :: "mock_options \<Rightarrow> nat" where
  "seg_len opt = unat (mo_revisionsPerSegment opt)"

definition update_ms :: "mock_options \<Rightarrow> int" where
  "update_ms opt = uint (mo_framesPerUpdate opt) * 100"

definition scripted_update :: "mock_options \<Rightarrow> nat \<Rightarrow> segment" where
  "scripted_update opt j =
     (let seg = j div seg_len opt; rev = j mod seg_len opt; base = of_nat (seg * seg_len opt);
          word = scriptedWord (base + of_nat rev); words = stable_words base rev; final = (rev + 1 = seg_len opt)
      in \<lparr>sg_segmentId = segmentId (of_nat seg), sg_revision = of_nat (rev + 1),
          sg_status = (if final then Final else Partial),
          sg_stableText = (if final then add_word words word else words),
          sg_mutableText = (if final then [] else word),
          sg_audioStartMs = int (seg * seg_len opt) * update_ms opt, sg_audioEndMs = int (j + 1) * update_ms opt\<rparr>)"

definition session_at :: "mock_options \<Rightarrow> nat \<Rightarrow> nat \<Rightarrow> mock_session" where
  "session_at opt n j =
     \<lparr>ms_framesInSession = of_nat n, ms_segmentIndex = of_nat (j div seg_len opt),
      ms_revision = of_nat (j mod seg_len opt),
      ms_segmentStartMs = int (j div seg_len opt * seg_len opt) * update_ms opt\<rparr>"

fun updates_due :: "nat \<Rightarrow> nat \<Rightarrow> request list \<Rightarrow> nat" where
  "updates_due k n [] = 0"
| "updates_due k n (r # rs) = (if validSttFrame r \<and> k dvd n + 1 then 1 else 0) + updates_due k (n + 1) rs"

lemma sint_of_nat_u64: "int n < 2 ^ 63 \<Longrightarrow> sint (of_nat n :: u64) = int n"
  by (simp add: signed_of_nat signed_take_bit_int_eq_self)

lemma unat_of_nat_u64: "int n < 2 ^ 64 \<Longrightarrow> unat (of_nat n :: u64) = n"
  by (simp add: unat_of_nat)

lemma update_ms_nonneg: "0 \<le> update_ms opt"
  by (simp add: update_ms_def)

lemma frameMs_Some: "update_ms opt < 2 ^ 63 \<Longrightarrow> frameMs opt = Some (update_ms opt)"
proof -
  assume b: "update_ms opt < 2 ^ 63"
  with update_ms_nonneg have "in_s64 (update_ms opt)" by (rule in_s64_nonneg)
  moreover have "sint (mo_framesPerUpdate opt) = uint (mo_framesPerUpdate opt)"
    using b by (intro sint_small) (simp add: update_ms_def)
  ultimately show ?thesis by (simp only: frameMs_def s64_Some update_ms_def)
qed

lemma revision_next:
  assumes "0 < r"
  shows "Suc j div r = (if Suc (j mod r) = r then Suc (j div r) else j div r)"
    and "Suc j mod r = (if Suc (j mod r) = r then 0 else Suc (j mod r))"
  using assms by (auto simp: div_Suc mod_Suc)

lemma is_final_at:
  assumes r: "0 < seg_len opt"
  shows "is_final opt (session_at opt n j) \<longleftrightarrow> j mod seg_len opt + 1 = seg_len opt"
proof -
  have "seg_len opt < 2 ^ 64" unfolding seg_len_def
    by (rule unat_less_of_uint) (use uint_lt2p [of "mo_revisionsPerSegment opt"] in simp)
  moreover have "j mod seg_len opt < seg_len opt" using r by simp
  moreover have "unat (of_nat (j mod seg_len opt + 1) :: u64) = (j mod seg_len opt + 1) mod 2 ^ 64"
    by (simp only: unat_of_nat) simp
  ultimately show ?thesis
    by (cases "j mod seg_len opt + 1 = 2 ^ 64")
      (auto simp: is_final_def session_at_def word_le_nat_alt add.commute simp flip: seg_len_def)
qed

lemma mock_response_at:
  assumes r: "0 < seg_len opt" and ms: "int (j + 1) * update_ms opt < 2 ^ 63" and j: "int (j + 1) < 2 ^ 63"
  shows "mock_response opt (session_at opt n j) = Some (scripted_update opt j)"
proof -
  let ?r = "seg_len opt" and ?ms = "update_ms opt"
  note nn = update_ms_nonneg [of opt]
  have le: "j mod ?r + 1 \<le> j + 1" by simp
  then have "int (j mod ?r + 1) * ?ms \<le> int (j + 1) * ?ms" using nn by (intro mult_right_mono) simp_all
  with ms have 1: "int (j mod ?r + 1) * ?ms < 2 ^ 63" by linarith
  have "j div ?r * ?r + (j mod ?r + 1) = j + 1" by simp
  then have "int (j div ?r * ?r) + int (j mod ?r + 1) = int (j + 1)" by (metis of_nat_add)
  then have 2: "int (j div ?r * ?r) * ?ms + int (j mod ?r + 1) * ?ms = int (j + 1) * ?ms"
    by (simp only: flip: distrib_right)
  have "1 * ?ms \<le> int (j + 1) * ?ms" using nn by (intro mult_right_mono) simp_all
  with ms have 3: "?ms < 2 ^ 63" by linarith
  have "int (j mod ?r) < 2 ^ 63" using j le by linarith
  then have 4: "unat (of_nat (j mod ?r) :: u64) = j mod ?r" by (intro unat_of_nat_u64) simp
  have 5: "sint (of_nat (j mod ?r + 1) :: u64) = int (j mod ?r + 1)" using j le by (intro sint_of_nat_u64) linarith
  have 6: "ucast (of_nat (j mod ?r + 1) :: u64) = (of_nat (j mod ?r + 1) :: u32)"
    by (simp only: unsigned_of_nat) (simp add: word_of_nat_eq_iff del: of_nat_Suc of_nat_add)
  have 7: "in_s64 (int (j mod ?r + 1) * ?ms)" "in_s64 (int (j + 1) * ?ms)"
    using 1 ms nn by (intro in_s64_nonneg; simp)+
  have 8: "(of_nat (j mod ?r) :: u64) + 1 = of_nat (j mod ?r + 1)"
    "(of_nat (j div ?r) :: u64) * mo_revisionsPerSegment opt = of_nat (j div ?r * ?r)" by (simp_all add: seg_len_def)
  from is_final_at [OF r, of n j] have 9: "is_final opt (session_at opt n j) \<longleftrightarrow> j mod ?r + 1 = ?r" .
  show ?thesis
    unfolding mock_response_def Let_def 9 frameMs_Some [OF 3] bind.simps
    unfolding session_at_def mock_session.simps 8 5 s64_Some [OF 7(1)] bind.simps 2 s64_Some [OF 7(2)] 4 6
    by (simp add: scripted_update_def Let_def)
qed

lemma next_update_at:
  assumes r: "0 < seg_len opt" and ms: "int (j + 1) * update_ms opt < 2 ^ 63" and j: "int (j + 1) < 2 ^ 63"
  shows "next_update opt (session_at opt n j) = Some (session_at opt n (Suc j))"
proof (cases "Suc (j mod seg_len opt) = seg_len opt")
  case False
  then show ?thesis
    using is_final_at [OF r, of n j] revision_next [OF r, of j]
    by (simp add: next_update_def session_at_def add.commute)
next
  case True
  let ?r = "seg_len opt" and ?ms = "update_ms opt"
  note nn = update_ms_nonneg [of opt]
  have d: "j div ?r * ?r + ?r = j + 1" using True div_mult_mod_eq [of j ?r] by linarith
  then have le: "?r \<le> j + 1" by linarith
  then have "int ?r * ?ms \<le> int (j + 1) * ?ms" using nn by (intro mult_right_mono) simp_all
  with ms have 1: "int ?r * ?ms < 2 ^ 63" by linarith
  have "1 * ?ms \<le> int (j + 1) * ?ms" using nn by (intro mult_right_mono) simp_all
  with ms have 2: "frameMs opt = Some ?ms" by (intro frameMs_Some) linarith
  define stop_ms where "stop_ms = int (j + 1) * ?ms"
  have "int (j div ?r * ?r) + int ?r = int (j + 1)" using d by (metis of_nat_add)
  then have 3: "int (j div ?r * ?r) * ?ms + int ?r * ?ms = stop_ms"
    by (simp only: stop_ms_def flip: distrib_right)
  have "int ?r < 2 ^ 63" using le j by linarith
  then have 4: "sint (mo_revisionsPerSegment opt) = int ?r"
    using sint_small [of "mo_revisionsPerSegment opt"] by (simp add: seg_len_def)
  have 5: "in_s64 (int ?r * ?ms)" "in_s64 stop_ms"
    unfolding stop_ms_def using 1 ms nn by (intro in_s64_nonneg; simp)+
  have 6: "Suc j div ?r * ?r = j + 1" "Suc j mod ?r = 0" "Suc j div ?r = Suc (j div ?r)"
    using revision_next [OF r, of j] True d by simp_all
  have "is_final opt (session_at opt n j)" using True is_final_at [OF r, of n j] by simp
  then have "next_update opt (session_at opt n j) = Some ((session_at opt n j)\<lparr>ms_segmentStartMs := stop_ms,
      ms_segmentIndex := ms_segmentIndex (session_at opt n j) + 1, ms_revision := 0\<rparr>)"
    unfolding next_update_def if_True 2 4 bind.simps s64_Some [OF 5(1)]
    by (simp add: session_at_def 3 s64_Some [OF 5(2)] del: of_nat_mult)
  also have "\<dots> = Some (session_at opt n (Suc j))"
    unfolding session_at_def 6(1) by (simp add: 6(2,3) stop_ms_def add.commute)
  finally show ?thesis .
qed

lemma session_at_frames: "(session_at opt n j)\<lparr>ms_framesInSession := of_nat m\<rparr> = session_at opt m j"
  by (simp add: session_at_def)

lemma mod_due:
  assumes "int m < 2 ^ 63"
  shows "(of_nat m :: u64) mod k = 0 \<longleftrightarrow> unat k dvd m"
proof -
  have "unat ((of_nat m :: u64) mod k) = m mod unat k"
    using assms by (simp add: unat_mod unat_of_nat)
  then show ?thesis by (simp add: dvd_eq_mod_eq_0 unat_eq_0 [symmetric])
qed

text \<open>The counters after a stream.\<close>

definition count_stream :: "request list \<Rightarrow> nat \<Rightarrow> mock_stats \<Rightarrow> mock_stats" where
  "count_stream rs k st = st\<lparr>mk_framesReceived := mk_framesReceived st + of_nat (length rs),
     mk_invalidFrames := mk_invalidFrames st + of_nat (length (filter (\<lambda>r. \<not> validSttFrame r) rs)),
     mk_updatesSent := mk_updatesSent st + of_nat k\<rparr>"

lemma mock_loop_scripted:
  assumes r: "0 < seg_len opt" and k: "mo_framesPerUpdate opt \<noteq> 0"
  shows "100 * int (n + length rs) < 2 ^ 63 \<Longrightarrow> j * unat (mo_framesPerUpdate opt) \<le> n \<Longrightarrow>
    mock_loop opt (map (\<lambda>r. (r, True)) rs) (session_at opt n j, st)
      = Some (count_stream rs (updates_due (unat (mo_framesPerUpdate opt)) n rs) st,
          map (scripted_update opt) [j..<j + updates_due (unat (mo_framesPerUpdate opt)) n rs])"
proof (induction rs arbitrary: n j st)
  case Nil
  then show ?case by (simp add: count_stream_def)
next
  case (Cons q rs)
  let ?k = "unat (mo_framesPerUpdate opt)"
  have frames: "(session_at opt n j)\<lparr>ms_framesInSession := ms_framesInSession (session_at opt n j) + 1\<rparr>
      = session_at opt (n + 1) j"
    by (simp add: session_at_def add.commute)
  have now: "ms_framesInSession (session_at opt (n + 1) j) = of_nat (n + 1)" by (simp add: session_at_def)
  have m: "int (n + 1) < 2 ^ 63" using Cons.prems(1) by simp
  note due = mod_due [OF m, of "mo_framesPerUpdate opt"]
  show ?case
  proof (cases "validSttFrame q \<and> ?k dvd n + 1")
    case False
    then have step: "mock_request opt True q (session_at opt n j, st) = Some ((session_at opt (n + 1) j,
        count_stream [q] 0 st), None, True)"
      unfolding mock_request_def Let_def prod.case frames now due using k by (simp add: count_stream_def)
    from Cons.prems have ih: "100 * int (n + 1 + length rs) < 2 ^ 63" "j * ?k \<le> n + 1" by simp_all
    from Cons.IH [OF ih, of "count_stream [q] 0 st"] False show ?thesis
      by (auto simp: step count_stream_def algebra_simps)
  next
    case True
    then obtain c where c: "n + 1 = ?k * c" by (auto elim: dvdE)
    have "0 < ?k" using k by (simp add: unat_gt_0)
    have "j < c" using c Cons.prems(2) \<open>0 < ?k\<close> by (metis add.commute le_imp_less_Suc mult.commute mult_less_cancel1 plus_1_eq_Suc)
    then have le: "Suc j * ?k \<le> n + 1" using c by (metis Suc_leI mult.commute mult_le_mono1)
    define due_ms where "due_ms = int (Suc j * ?k)"
    have "due_ms \<le> int (n + 1)" using le unfolding due_ms_def by (simp only: of_nat_le_iff)
    moreover have "int (j + 1) * update_ms opt = 100 * due_ms" by (simp add: update_ms_def due_ms_def algebra_simps)
    ultimately have ms: "int (j + 1) * update_ms opt < 2 ^ 63" using Cons.prems(1) by simp
    have "Suc j * 1 \<le> Suc j * ?k" using \<open>0 < ?k\<close> by (intro mult_le_mono) simp_all
    from order.trans [OF this le] have "Suc j \<le> n + 1" by simp
    with m have j: "int (j + 1) < 2 ^ 63" by simp
    have step: "mock_request opt True q (session_at opt n j, st) = Some ((session_at opt (n + 1) (Suc j),
        count_stream [q] 1 st), Some (scripted_update opt j), True)"
      unfolding mock_request_def Let_def prod.case frames now due mock_response_at [OF r ms j] next_update_at [OF r ms j]
      using True k by (simp add: count_stream_def del: Suc_eq_plus1)
    from Cons.prems(1) le have ih: "100 * int (n + 1 + length rs) < 2 ^ 63" "Suc j * ?k \<le> n + 1" by simp_all
    from Cons.IH [OF ih, of "count_stream [q] 1 st"] True show ?thesis
      by (auto simp: step count_stream_def algebra_simps upt_conv_Cons simp del: upt_Suc)
  qed
qed

section \<open>Properties\<close>

text \<open>
  C38: the mock server follows its script. For a stream whose writes all succeed, update \<open>j\<close> is
  caused by the \<open>j\<close>-th request that is valid and at a multiple of \<open>framesPerUpdate\<close>; it carries
  revision \<open>j mod n + 1\<close> of segment \<open>j div n\<close> (\<open>n\<close> revisions a segment), which is final
  exactly for the last one, starts where the segment before it ended and ends one update
  later than the update before it. The counters are exact.
\<close>

theorem mock_server_follows_script:
  assumes "mo_framesPerUpdate opt \<noteq> 0" and "mo_revisionsPerSegment opt \<noteq> 0" and "100 * int (length rs) < 2 ^ 63"
  shows "mock_StreamTranscription opt (map (\<lambda>r. (r, True)) rs) st
    = Some (count_stream rs (updates_due (unat (mo_framesPerUpdate opt)) 0 rs)
          (st\<lparr>mk_sessionsServed := mk_sessionsServed st + 1\<rparr>),
        map (scripted_update opt) [0..<updates_due (unat (mo_framesPerUpdate opt)) 0 rs])"
proof -
  have "0 < seg_len opt" using assms(2) by (simp add: seg_len_def unat_gt_0)
  from mock_loop_scripted [OF this assms(1), of 0 rs 0] assms(3) show ?thesis
    by (simp add: mock_StreamTranscription_def new_mock_session_def session_at_def)
qed

definition demo_request :: request where
  "demo_request = toRequest demo_client_config 0 demo_stt_frame"

theorem mock_server_follows_script_witness:
  "\<exists>st u v. mock_StreamTranscription \<lparr>mo_framesPerUpdate = 1, mo_revisionsPerSegment = 2\<rparr>
       (map (\<lambda>r. (r, True)) [demo_request, demo_request\<lparr>rq_channels := 2\<rparr>, demo_request])
       \<lparr>mk_framesReceived = 0, mk_invalidFrames = 0, mk_updatesSent = 0, mk_sessionsServed = 0\<rparr> = Some (st, [u, v])
     \<and> mk_invalidFrames st = 1 \<and> sg_status u = Partial \<and> sg_status v = Final
     \<and> sg_audioStartMs v = 0 \<and> sg_audioEndMs v = 200"
proof -
  have v: "validSttFrame demo_request" "\<not> validSttFrame (demo_request\<lparr>rq_channels := 2\<rparr>)"
    by (simp_all add: validSttFrame_def demo_request_def toRequest_def demo_stt_frame_def)
  then have u: "updates_due 1 0 [demo_request, demo_request\<lparr>rq_channels := 2\<rparr>, demo_request] = 2" by simp
  show ?thesis
    by (subst mock_server_follows_script)
      (use u v in \<open>simp_all add: count_stream_def scripted_update_def seg_len_def update_ms_def Let_def upt_rec\<close>)
qed

end
