(* ===== verification/Com.thy ===== *)
theory Com
  imports Wasapi
begin

text \<open>
  The COM helpers (\<open>platform/windows/audio-wasapi/src/com_utils.hpp\<close>, \<open>com_utils.cpp\<close>) and
  the device enumerator on top of them: initialising COM on a thread, the strings and
  property values that own memory of COM, and the text conversions. The two conversion
  functions of Windows and the answers of the device API are parameters; what the code does
  with memory and COM is kept as a list of calls.
\<close>

section \<open>Text conversion\<close>

text \<open>
  \<open>WideCharToMultiByte\<close> and \<open>MultiByteToWideChar\<close>, for UTF-8: what a call writes and what it
  returns. A wide text is the units before its terminator; a size of 0 asks for the size.
\<close>

record text_api =
  wide_to_multi :: "u16 list \<Rightarrow> int \<Rightarrow> string \<times> int"
  multi_to_wide :: "string \<Rightarrow> int \<Rightarrow> int \<Rightarrow> u16 list \<times> int"

abbreviation NUL :: char where "NUL \<equiv> CHR 0x00"

text \<open>
  The buffer is a \<open>std::string\<close> of one byte less than needed: the terminator goes where the
  string keeps its own. Writing past it, or anything else there, would be undefined.
\<close>

definition narrow :: "text_api \<Rightarrow> u16 list option \<Rightarrow> string option" where
  "narrow T wide = (case wide of
     None \<Rightarrow> Some []
   | Some w \<Rightarrow>
       if w = [] then Some []
       else let needed = snd (wide_to_multi T w 0) in
         if needed \<le> 1 then Some []
         else let written = fst (wide_to_multi T w needed); size = nat (needed - 1) in
           if size + 1 < length written \<or> length written = size + 1 \<and> last written \<noteq> NUL then None
           else Some (take size written @ replicate (size - length written) NUL))"

definition widen :: "text_api \<Rightarrow> string \<Rightarrow> u16 list option" where
  "widen T utf8 =
     (if utf8 = [] then Some []
      else let len = sint (of_nat (length utf8) :: u32); needed = snd (multi_to_wide T utf8 len 0) in
        if needed \<le> 0 then Some []
        else let written = fst (multi_to_wide T utf8 len needed) in
          if nat needed < length written then None
          else Some (written @ replicate (nat needed - length written) 0))"

text \<open>
  What the code relies on: a well-formed UTF-16 text is converted to its UTF-8 encoding \<open>enc\<close>
  with a terminator, of the size asked for before, and that back to the text.
\<close>

definition text_laws :: "text_api \<Rightarrow> (u16 list \<Rightarrow> string) \<Rightarrow> (u16 list \<Rightarrow> bool) \<Rightarrow> bool" where
  "text_laws T enc utf16 \<longleftrightarrow> (\<forall>w. utf16 w \<and> w \<noteq> [] \<and> 0 \<notin> set w \<and> length (enc w) < 2 ^ 31 - 1 \<longrightarrow>
     wide_to_multi T w 0 = ([], int (length (enc w)) + 1)
   \<and> wide_to_multi T w (int (length (enc w)) + 1) = (enc w @ [NUL], int (length (enc w)) + 1)
   \<and> multi_to_wide T (enc w) (int (length (enc w))) 0 = ([], int (length w))
   \<and> multi_to_wide T (enc w) (int (length (enc w))) (int (length w)) = (w, int (length w))
   \<and> enc w \<noteq> [])"

section \<open>COM on a thread\<close>

text \<open>\<open>RPC_E_CHANGED_MODE\<close> is one of the other failures: COM can be used, but is not ours to end.\<close>

definition S_FALSE :: hresult where
  "S_FALSE = OtherSuccess 1"

datatype com_call = CoInitialize hresult | CoUninitialize | MemFree "nat option"
  | VariantInit | VariantClear "nat option"

text \<open>The constructor and the destructor of \<open>ComApartment\<close>.\<close>

definition enter_apartment :: "hresult \<Rightarrow> com_call list" where
  "enter_apartment hr = [CoInitialize hr]"

definition leave_apartment :: "hresult \<Rightarrow> com_call list" where
  "leave_apartment hr = (if hr = S_OK \<or> hr = S_FALSE then [CoUninitialize] else [])"

text \<open>\<open>CoTaskString\<close> owns the block it received, if any; \<open>PropVariant\<close> the block of its value.\<close>

definition destroy_task_string :: "nat option \<Rightarrow> com_call list" where
  "destroy_task_string value = [MemFree value]"

definition with_variant :: "nat option \<Rightarrow> com_call list" where
  "with_variant received = [VariantInit] @ [VariantClear received]"

section \<open>The enumerator\<close>

text \<open>A text with the block it is in, and what a property value can be.\<close>

type_synonym owned_text = "nat \<times> u16 list"

datatype prop_value = TextValue owned_text | OtherValue

record raw_endpoint =
  raw_item :: bool \<comment> \<open>\<open>IMMDeviceCollection::Item\<close> succeeded\<close>
  raw_id :: "owned_text option" \<comment> \<open>\<open>IMMDevice::GetId\<close>\<close>
  raw_store :: bool \<comment> \<open>\<open>OpenPropertyStore\<close> succeeded\<close>
  raw_name :: "prop_value option" \<comment> \<open>\<open>GetValue\<close> of the friendly name\<close>

record raw_devices =
  rd_com :: hresult
  rd_created :: bool
  rd_defaultFound :: "device_kind \<Rightarrow> bool"
  rd_defaultId :: "device_kind \<Rightarrow> owned_text option"
  rd_collection :: "device_kind \<Rightarrow> raw_endpoint list option" \<comment> \<open>\<open>None\<close>: not enumerated or not counted\<close>

definition default_endpoint_id :: "text_api \<Rightarrow> raw_devices \<Rightarrow> device_kind \<Rightarrow> (string \<times> com_call list) option" where
  "default_endpoint_id T R flow =
     (if \<not> rd_defaultFound R flow then Some ([], [])
      else case rd_defaultId R flow of
        None \<Rightarrow> Some ([], destroy_task_string None)
      | Some (block, w) \<Rightarrow> do { i \<leftarrow> narrow T (Some w); Some (i, destroy_task_string (Some block)) })"

definition endpoint_name :: "text_api \<Rightarrow> raw_endpoint \<Rightarrow> (string \<times> com_call list) option" where
  "endpoint_name T r =
     (if \<not> raw_store r then Some ([], [])
      else case raw_name r of
        Some (TextValue (block, w)) \<Rightarrow> do { n \<leftarrow> narrow T (Some w); Some (n, with_variant (Some block)) }
      | _ \<Rightarrow> Some ([], with_variant None))"

definition endpoint_info :: "text_api \<Rightarrow> device_kind \<Rightarrow> string \<Rightarrow> raw_endpoint
    \<Rightarrow> (audio_device_info list \<times> com_call list) option" where
  "endpoint_info T kind defaultId r =
     (if \<not> raw_item r then Some ([], [])
      else case raw_id r of
        None \<Rightarrow> Some ([], destroy_task_string None)
      | Some (block, w) \<Rightarrow> do {
          (name, calls) \<leftarrow> endpoint_name T r;
          i \<leftarrow> narrow T (Some w);
          Some ([\<lparr>dev_id = i, dev_name = name, dev_kind = kind, dev_isDefault = (defaultId \<noteq> [] \<and> i = defaultId)\<rparr>],
            calls @ destroy_task_string (Some block)) })"

fun endpoint_infos :: "text_api \<Rightarrow> device_kind \<Rightarrow> string \<Rightarrow> raw_endpoint list
    \<Rightarrow> (audio_device_info list \<times> com_call list) option" where
  "endpoint_infos T kind defaultId [] = Some ([], [])"
| "endpoint_infos T kind defaultId (r # rs) = do {
     (infos, calls) \<leftarrow> endpoint_info T kind defaultId r;
     (infos', calls') \<leftarrow> endpoint_infos T kind defaultId rs;
     Some (infos @ infos', calls @ calls') }"

definition append_endpoints :: "text_api \<Rightarrow> raw_devices \<Rightarrow> device_kind \<Rightarrow> (audio_device_info list \<times> com_call list) option" where
  "append_endpoints T R kind = do {
     (defaultId, calls) \<leftarrow> default_endpoint_id T R kind;
     case rd_collection R kind of
       None \<Rightarrow> Some ([], calls)
     | Some rs \<Rightarrow> do {
         (infos, calls') \<leftarrow> endpoint_infos T kind defaultId rs;
         Some (infos, calls @ calls') } }"

definition enumerate :: "text_api \<Rightarrow> raw_devices \<Rightarrow> (audio_device_info list \<times> com_call list) option" where
  "enumerate T R =
     (if \<not> rd_created R then Some ([], enter_apartment (rd_com R) @ leave_apartment (rd_com R))
      else do {
        (captures, calls) \<leftarrow> append_endpoints T R CaptureInput;
        (renders, calls') \<leftarrow> append_endpoints T R RenderOutput;
        Some (captures @ renders, enter_apartment (rd_com R) @ calls @ calls' @ leave_apartment (rd_com R)) })"

section \<open>Texts\<close>

definition good_text :: "(u16 list \<Rightarrow> string) \<Rightarrow> (u16 list \<Rightarrow> bool) \<Rightarrow> u16 list \<Rightarrow> bool" where
  "good_text enc utf16 w \<longleftrightarrow> utf16 w \<and> 0 \<notin> set w \<and> length (enc w) < 2 ^ 31 - 1"

lemma narrow_good:
  assumes "text_laws T enc utf16" and "good_text enc utf16 w"
  shows "narrow T (Some w) = Some (if w = [] then [] else enc w)"
proof (cases "w = []")
  case False
  with assms have "wide_to_multi T w 0 = ([], int (length (enc w)) + 1)" "enc w \<noteq> []"
    "wide_to_multi T w (int (length (enc w)) + 1) = (enc w @ [NUL], int (length (enc w)) + 1)"
    by (auto simp: text_laws_def good_text_def)
  with False show ?thesis by (simp add: narrow_def Let_def)
qed (simp add: narrow_def)

lemma int_length_32: "n < 2 ^ 31 \<Longrightarrow> sint (of_nat n :: u32) = int n"
  by (simp add: signed_of_nat signed_take_bit_int_eq_self_iff)

lemma widen_good:
  assumes "text_laws T enc utf16" and "good_text enc utf16 w" and "w \<noteq> []"
  shows "widen T (enc w) = Some w"
proof -
  from assms have "multi_to_wide T (enc w) (int (length (enc w))) 0 = ([], int (length w))" "enc w \<noteq> []"
    "multi_to_wide T (enc w) (int (length (enc w))) (int (length w)) = (w, int (length w))" "length (enc w) < 2 ^ 31"
    by (auto simp: text_laws_def good_text_def)
  with assms(3) show ?thesis by (simp add: widen_def Let_def int_length_32)
qed

lemma narrow_widen:
  assumes "text_laws T enc utf16" and "good_text enc utf16 w" and "narrow T (Some w) = Some s"
  shows "widen T s = Some w"
  using assms widen_good [OF assms(1,2)] by (cases "w = []") (auto simp: narrow_good widen_def)

section \<open>What the enumerator sees and what it releases\<close>

text \<open>The answers as the enumerator's abstract model takes them.\<close>

definition narrowed :: "text_api \<Rightarrow> owned_text \<Rightarrow> string" where
  "narrowed T t = the (narrow T (Some (snd t)))"

definition seen_endpoint :: "text_api \<Rightarrow> raw_endpoint \<Rightarrow> endpoint" where
  "seen_endpoint T r = \<lparr>ep_id = (if raw_item r then map_option (narrowed T) (raw_id r) else None),
     ep_friendlyName = (if raw_store r then (case raw_name r of Some (TextValue t) \<Rightarrow> Some (narrowed T t) | _ \<Rightarrow> None) else None)\<rparr>"

definition seen_devices :: "text_api \<Rightarrow> raw_devices \<Rightarrow> endpoint_api" where
  "seen_devices T R = \<lparr>en_created = rd_created R,
     en_default = (\<lambda>kind. if rd_defaultFound R kind then map_option (narrowed T) (rd_defaultId R kind) else None),
     en_endpoints = (\<lambda>kind. map_option (map (seen_endpoint T)) (rd_collection R kind))\<rparr>"

text \<open>The blocks COM hands to the enumerator, in the order in which it gives them back.\<close>

definition handed_endpoint :: "raw_endpoint \<Rightarrow> nat list" where
  "handed_endpoint r = (if \<not> raw_item r then [] else case raw_id r of
     None \<Rightarrow> []
   | Some (block, w) \<Rightarrow> (case raw_name r of Some (TextValue (b, _)) \<Rightarrow> if raw_store r then [b] else [] | _ \<Rightarrow> []) @ [block])"

definition handed_kind :: "raw_devices \<Rightarrow> device_kind \<Rightarrow> nat list" where
  "handed_kind R kind = (if rd_defaultFound R kind then (case rd_defaultId R kind of None \<Rightarrow> [] | Some (b, _) \<Rightarrow> [b]) else [])
     @ (case rd_collection R kind of None \<Rightarrow> [] | Some rs \<Rightarrow> concat (map handed_endpoint rs))"

fun given_back :: "com_call list \<Rightarrow> nat list" where
  "given_back [] = []"
| "given_back (MemFree (Some b) # cs) = b # given_back cs"
| "given_back (VariantClear (Some b) # cs) = b # given_back cs"
| "given_back (_ # cs) = given_back cs"

lemma given_back_append [simp]: "given_back (cs @ ds) = given_back cs @ given_back ds"
  by (induction cs rule: given_back.induct) simp_all

lemma apartment_gives_nothing [simp]: "given_back (enter_apartment hr) = []" "given_back (leave_apartment hr) = []"
  by (simp_all add: enter_apartment_def leave_apartment_def)

text \<open>How often COM is initialised for the thread, by what the calls return.\<close>

fun com_level :: "com_call list \<Rightarrow> int" where
  "com_level [] = 0"
| "com_level (CoInitialize hr # cs) = (if hr = S_OK \<or> hr = S_FALSE then 1 else 0) + com_level cs"
| "com_level (CoUninitialize # cs) = - 1 + com_level cs"
| "com_level (_ # cs) = com_level cs"

lemma com_level_append [simp]: "com_level (cs @ ds) = com_level cs + com_level ds"
  by (induction cs rule: com_level.induct) simp_all

lemma apartment_balanced: "com_level (enter_apartment hr) + com_level (leave_apartment hr) = 0"
  by (simp add: enter_apartment_def leave_apartment_def)

lemma endpoint_info_seen:
  assumes "endpoint_info T kind d r = Some (infos, calls)"
  shows "infos = (case ep_id (seen_endpoint T r) of None \<Rightarrow> [] | Some i \<Rightarrow>
      [\<lparr>dev_id = i, dev_name = (case ep_friendlyName (seen_endpoint T r) of Some n \<Rightarrow> n | None \<Rightarrow> []),
        dev_kind = kind, dev_isDefault = (d \<noteq> [] \<and> i = d)\<rparr>])"
    and "given_back calls = handed_endpoint r" and "com_level calls = 0"
proof -
  have "infos = (case ep_id (seen_endpoint T r) of None \<Rightarrow> [] | Some i \<Rightarrow>
      [\<lparr>dev_id = i, dev_name = (case ep_friendlyName (seen_endpoint T r) of Some n \<Rightarrow> n | None \<Rightarrow> []),
        dev_kind = kind, dev_isDefault = (d \<noteq> [] \<and> i = d)\<rparr>])
    \<and> given_back calls = handed_endpoint r \<and> com_level calls = 0"
    using assms
    by (auto simp: endpoint_info_def endpoint_name_def seen_endpoint_def narrowed_def handed_endpoint_def
        destroy_task_string_def with_variant_def bind_Some_iff split: if_splits option.splits prop_value.splits)
  then show "infos = (case ep_id (seen_endpoint T r) of None \<Rightarrow> [] | Some i \<Rightarrow>
      [\<lparr>dev_id = i, dev_name = (case ep_friendlyName (seen_endpoint T r) of Some n \<Rightarrow> n | None \<Rightarrow> []),
        dev_kind = kind, dev_isDefault = (d \<noteq> [] \<and> i = d)\<rparr>])"
    and "given_back calls = handed_endpoint r" and "com_level calls = 0" by blast+
qed

lemma endpoint_infos_seen:
  "endpoint_infos T kind d rs = Some (infos, calls) \<Longrightarrow>
   infos = concat (map (\<lambda>ep. case ep_id ep of None \<Rightarrow> [] | Some i \<Rightarrow>
      [\<lparr>dev_id = i, dev_name = (case ep_friendlyName ep of Some n \<Rightarrow> n | None \<Rightarrow> []),
        dev_kind = kind, dev_isDefault = (d \<noteq> [] \<and> i = d)\<rparr>]) (map (seen_endpoint T) rs))
   \<and> given_back calls = concat (map handed_endpoint rs) \<and> com_level calls = 0"
proof (induction rs arbitrary: infos calls)
  case (Cons r rs)
  then obtain i1 c1 i2 c2 where 1: "endpoint_info T kind d r = Some (i1, c1)" "endpoint_infos T kind d rs = Some (i2, c2)"
    "infos = i1 @ i2" "calls = c1 @ c2" by (auto simp: bind_Some_iff)
  from Cons.IH [OF 1(2)] endpoint_info_seen [OF 1(1)] 1(3,4) show ?case by simp
qed simp

lemma append_endpoints_seen:
  assumes "append_endpoints T R kind = Some (infos, calls)"
  shows "appendEndpoints (seen_devices T R) kind out = out @ infos"
    and "given_back calls = handed_kind R kind" and "com_level calls = 0"
proof -
  from assms obtain d c where 1: "default_endpoint_id T R kind = Some (d, c)"
    and 2: "(case rd_collection R kind of None \<Rightarrow> Some ([], c)
      | Some rs \<Rightarrow> do { (infos, calls') \<leftarrow> endpoint_infos T kind d rs; Some (infos, c @ calls') }) = Some (infos, calls)"
    by (auto simp: append_endpoints_def bind_Some_iff)
  have d: "d = defaultEndpointId (seen_devices T R) kind" "com_level c = 0"
    "given_back c = (if rd_defaultFound R kind then (case rd_defaultId R kind of None \<Rightarrow> [] | Some (b, _) \<Rightarrow> [b]) else [])"
    using 1 by (auto simp: default_endpoint_id_def defaultEndpointId_def seen_devices_def narrowed_def destroy_task_string_def
        bind_Some_iff split: if_splits option.splits)
  have "appendEndpoints (seen_devices T R) kind out = out @ infos \<and> given_back calls = handed_kind R kind \<and> com_level calls = 0"
  proof (cases "rd_collection R kind")
    case None
    with 2 d show ?thesis by (auto simp: appendEndpoints_def seen_devices_def handed_kind_def Let_def)
  next
    case (Some rs)
    with 2 obtain calls' where 3: "endpoint_infos T kind d rs = Some (infos, calls')" "calls = c @ calls'"
      by (auto simp: bind_Some_iff)
    have "en_endpoints (seen_devices T R) kind = Some (map (seen_endpoint T) rs)" using Some by (simp add: seen_devices_def)
    with endpoint_infos_seen [OF 3(1)] have "appendEndpoints (seen_devices T R) kind out = out @ infos"
      by (simp add: appendEndpoints_def Let_def flip: d(1))
    moreover have "given_back calls = handed_kind R kind \<and> com_level calls = 0"
      using endpoint_infos_seen [OF 3(1)] 3(2) d(2,3) Some by (simp add: handed_kind_def)
    ultimately show ?thesis by simp
  qed
  then show "appendEndpoints (seen_devices T R) kind out = out @ infos"
    and "given_back calls = handed_kind R kind" and "com_level calls = 0" by blast+
qed

lemma enumerate_seen:
  assumes "enumerate T R = Some (infos, calls)"
  shows "infos = wasapi_devices (seen_devices T R) \<and> com_level calls = 0
    \<and> given_back calls = (if rd_created R then handed_kind R CaptureInput @ handed_kind R RenderOutput else [])"
proof (cases "rd_created R")
  case False
  with assms apartment_balanced [of "rd_com R"] show ?thesis
    by (auto simp: enumerate_def wasapi_devices_def seen_devices_def)
next
  case True
  with assms obtain i1 c1 i2 c2 where 1: "append_endpoints T R CaptureInput = Some (i1, c1)"
    "append_endpoints T R RenderOutput = Some (i2, c2)" and 2: "infos = i1 @ i2"
    "calls = enter_apartment (rd_com R) @ c1 @ c2 @ leave_apartment (rd_com R)"
    by (auto simp: enumerate_def bind_Some_iff)
  have "en_created (seen_devices T R)" using True by (simp add: seen_devices_def)
  with append_endpoints_seen [OF 1(1)] append_endpoints_seen [OF 1(2)] 2 True apartment_balanced [of "rd_com R"]
  show ?thesis by (simp add: wasapi_devices_def)
qed

text \<open>Where an entry of the list comes from.\<close>

lemma enumerate_entry:
  assumes "enumerate T R = Some (infos, calls)" and "info \<in> set infos"
  shows "\<exists>kind rs r block w. rd_collection R kind = Some rs \<and> r \<in> set rs \<and> raw_id r = Some (block, w)
    \<and> narrow T (Some w) = Some (dev_id info)"
proof -
  have "\<exists>r \<in> set rs. \<exists>block w. raw_id r = Some (block, w) \<and> narrow T (Some w) = Some (dev_id info)"
    if "endpoint_infos T kind d rs = Some (is, cs)" "info \<in> set is" for kind d rs "is" cs
    using that
  proof (induction rs arbitrary: "is" cs)
    case (Cons r rs)
    then obtain i1 c1 i2 c2 where 1: "endpoint_info T kind d r = Some (i1, c1)" "endpoint_infos T kind d rs = Some (i2, c2)"
      "is = i1 @ i2" by (auto simp: bind_Some_iff)
    show ?case
    proof (cases "info \<in> set i2")
      case True
      from Cons.IH [OF 1(2) True] show ?thesis by auto
    next
      case False
      with Cons.prems(2) 1(1,3) show ?thesis
        by (auto simp: endpoint_info_def bind_Some_iff split: if_splits option.splits)
    qed
  qed simp
  with assms show ?thesis
    by (auto simp: enumerate_def append_endpoints_def bind_Some_iff split: if_splits option.splits) blast+
qed

text \<open>All the texts of the machine's devices.\<close>

definition texts_ok :: "(u16 list \<Rightarrow> bool) \<Rightarrow> raw_devices \<Rightarrow> bool" where
  "texts_ok good R \<longleftrightarrow> (\<forall>kind. (\<forall>t. rd_defaultId R kind = Some t \<longrightarrow> good (snd t))
     \<and> (\<forall>rs. rd_collection R kind = Some rs \<longrightarrow> (\<forall>r \<in> set rs. (\<forall>t. raw_id r = Some t \<longrightarrow> good (snd t))
         \<and> (\<forall>t. raw_name r = Some (TextValue t) \<longrightarrow> good (snd t)))))"

lemma endpoint_infos_return:
  assumes laws: "text_laws T enc utf16"
  shows "\<forall>r \<in> set rs. (\<forall>t. raw_id r = Some t \<longrightarrow> good_text enc utf16 (snd t))
      \<and> (\<forall>t. raw_name r = Some (TextValue t) \<longrightarrow> good_text enc utf16 (snd t)) \<Longrightarrow>
    endpoint_infos T kind d rs \<noteq> None"
proof (induction rs)
  case (Cons r rs)
  have "endpoint_name T r \<noteq> None"
    using Cons.prems by (auto simp: endpoint_name_def narrow_good [OF laws] split: option.split prop_value.split)
  then have "endpoint_info T kind d r \<noteq> None"
    using Cons.prems by (auto simp: endpoint_info_def narrow_good [OF laws] split: option.split)
  with Cons show ?case by auto
qed simp

lemma append_endpoints_return:
  assumes laws: "text_laws T enc utf16" and "texts_ok (good_text enc utf16) R"
  shows "append_endpoints T R kind \<noteq> None"
proof -
  have "default_endpoint_id T R kind \<noteq> None"
    using assms(2) by (auto simp: texts_ok_def default_endpoint_id_def narrow_good [OF laws] split: option.split)
  then obtain d c where d: "default_endpoint_id T R kind = Some (d, c)" by auto
  show ?thesis
  proof (cases "rd_collection R kind")
    case (Some rs)
    with assms(2) have "endpoint_infos T kind d rs \<noteq> None"
      by (intro endpoint_infos_return [OF laws]) (simp add: texts_ok_def)
    with d Some show ?thesis by (auto simp: append_endpoints_def)
  qed (simp add: append_endpoints_def d)
qed

lemma enumerate_returns:
  assumes "text_laws T enc utf16" and "texts_ok (good_text enc utf16) R"
  shows "enumerate T R \<noteq> None"
  using append_endpoints_return [OF assms, of CaptureInput] append_endpoints_return [OF assms, of RenderOutput]
  by (auto simp: enumerate_def)

section \<open>A machine with one microphone\<close>

text \<open>Windows on texts of ASCII characters.\<close>

definition ascii :: "u16 list \<Rightarrow> string" where
  "ascii = map (\<lambda>u. char_of (unat u))"

definition ascii_api :: text_api where
  "ascii_api = \<lparr>wide_to_multi = \<lambda>w n. (if n = 0 then [] else ascii w @ [NUL], int (length w) + 1),
     multi_to_wide = \<lambda>s len n. (if n = 0 then [] else map (\<lambda>c. of_nat (of_char c)) s, len)\<rparr>"

lemma ascii_laws: "text_laws ascii_api ascii (\<lambda>w. \<forall>u \<in> set w. unat u < 128)"
proof -
  have "map ((\<lambda>c. of_nat (of_char c)) \<circ> (\<lambda>u. char_of (unat u))) w = w" if "\<forall>u \<in> set w. unat u < 128" for w :: "u16 list"
  proof (rule map_idI)
    fix u assume "u \<in> set w"
    with that have "unat u mod 256 = unat u" by fastforce
    then show "((\<lambda>c. of_nat (of_char c)) \<circ> (\<lambda>u. char_of (unat u))) u = u" by simp
  qed
  then show ?thesis by (simp add: text_laws_def ascii_api_def ascii_def)
qed

definition one_microphone :: raw_devices where
  "one_microphone = \<lparr>rd_com = S_OK, rd_created = True, rd_defaultFound = (\<lambda>kind. kind = CaptureInput),
     rd_defaultId = (\<lambda>kind. if kind = CaptureInput then Some (1, [109, 105, 99]) else None),
     rd_collection = (\<lambda>kind. if kind = CaptureInput then Some [\<lparr>raw_item = True, raw_id = Some (2, [109, 105, 99]),
       raw_store = True, raw_name = Some (TextValue (3, [77]))\<rparr>] else None)\<rparr>"

lemma one_microphone_texts: "texts_ok (good_text ascii (\<lambda>w. \<forall>u \<in> set w. unat u < 128)) one_microphone"
  by (auto simp: texts_ok_def one_microphone_def good_text_def ascii_def)

lemma one_microphone_listed:
  "\<exists>calls. enumerate ascii_api one_microphone = Some ([\<lparr>dev_id = ''mic'', dev_name = ''M'', dev_kind = CaptureInput,
     dev_isDefault = True\<rparr>], calls)"
  by (simp add: enumerate_def one_microphone_def append_endpoints_def default_endpoint_id_def endpoint_info_def
      endpoint_name_def narrow_def ascii_api_def ascii_def Let_def char_of_eq_iff)

section \<open>Properties\<close>

text \<open>
  C34: a listed device can be opened again. The id the enumerator reports is the narrowed id of
  an endpoint of the machine, and starting a capture stream with it asks Windows for exactly
  that endpoint: widening the id gives the endpoint's own id back.
\<close>

theorem listed_ids_open_their_endpoint:
  assumes "text_laws T enc utf16" and "texts_ok (good_text enc utf16) R"
    and "enumerate T R = Some (infos, calls)" and "info \<in> set infos"
  shows "\<exists>kind rs r block w. rd_collection R kind = Some rs \<and> r \<in> set rs \<and> raw_id r = Some (block, w)
    \<and> widen T (dev_id info) = Some w"
proof -
  from enumerate_entry [OF assms(3,4)] obtain kind rs r block w where
    1: "rd_collection R kind = Some rs" "r \<in> set rs" "raw_id r = Some (block, w)" and n: "narrow T (Some w) = Some (dev_id info)"
    by blast
  with assms(2) have "good_text enc utf16 w" by (fastforce simp: texts_ok_def)
  from narrow_widen [OF assms(1) this n] 1 show ?thesis by blast
qed

theorem listed_ids_open_their_endpoint_witness:
  "\<exists>infos calls info. enumerate ascii_api one_microphone = Some (infos, calls) \<and> info \<in> set infos
    \<and> dev_id info = ''mic'' \<and> widen ascii_api (dev_id info) = Some [109, 105, 99]"
proof -
  from one_microphone_listed obtain calls where e: "enumerate ascii_api one_microphone = Some ([\<lparr>dev_id = ''mic'',
    dev_name = ''M'', dev_kind = CaptureInput, dev_isDefault = True\<rparr>], calls)" ..
  with listed_ids_open_their_endpoint [OF ascii_laws one_microphone_texts e list.set_intros(1)] show ?thesis
    by (auto simp: one_microphone_def split: if_splits)
qed

text \<open>
  C35: the enumerator releases everything. When the machine's texts are well-formed it returns;
  its list is the abstract enumerator's; every block COM handed out (ids, property values) is
  given back exactly once; and COM is as initialised on the thread as it was before, also
  when the thread had it in another mode.
\<close>

theorem enumeration_releases_everything:
  assumes "text_laws T enc utf16" and "texts_ok (good_text enc utf16) R"
  shows "\<exists>calls. enumerate T R = Some (wasapi_devices (seen_devices T R), calls) \<and> com_level calls = 0
    \<and> given_back calls = (if rd_created R then handed_kind R CaptureInput @ handed_kind R RenderOutput else [])"
  using enumerate_returns [OF assms] enumerate_seen [of T R] by fastforce

theorem enumeration_releases_everything_witness:
  "\<exists>calls. enumerate ascii_api one_microphone = Some (wasapi_devices (seen_devices ascii_api one_microphone), calls)
    \<and> given_back calls = [1, 3, 2]"
  using enumeration_releases_everything [OF ascii_laws one_microphone_texts]
  by (auto simp: handed_kind_def handed_endpoint_def one_microphone_def)

end
