(* ===== verification/WasapiLifetime.thy ===== *)
theory WasapiLifetime
  imports Events Com
begin

text \<open>
  The life of a WASAPI capture stream (\<open>wasapi_capture_stream.cpp\<close>): the calls that the
  caller's thread (\<open>start\<close>, \<open>stop\<close>, the destructor) and the capture thread (\<open>run\<close>) make on
  events, on each other and on COM, in every interleaving. A call on an event that is not
  open is recorded as a fault.
\<close>

section \<open>The two threads\<close>

datatype event_handle = StopEvent | InitDone | DataEvent

datatype thread_call = CreateEvent event_handle bool | SetEvent event_handle
  | CloseHandle "event_handle option" \<comment> \<open>\<open>None\<close> is the null handle\<close>
  | WaitFor event_handle | SpawnThread | JoinThread
  | CaptureLoop bool \<comment> \<open>waits for the stop event and, unless loopback, the data event\<close>
  | StopAudio | RegisterMmcss bool | RevertMmcss | ComCall com_call

record life_api = wasapi_api +
  la_com :: hresult \<comment> \<open>\<open>CoInitializeEx\<close> on the capture thread\<close>
  la_mmcss :: bool

definition com_enter :: "life_api \<Rightarrow> thread_call list" where
  "com_enter api = map ComCall (enter_apartment (la_com api))"

definition com_leave :: "life_api \<Rightarrow> thread_call list" where
  "com_leave api = map ComCall (leave_apartment (la_com api))"

text \<open>\<open>failInit\<close>, and the return that destroys the apartment.\<close>

definition fail_init :: "life_api \<Rightarrow> thread_call list \<Rightarrow> capture_error \<Rightarrow> (thread_call list \<times> (capture_error + bool)) option" where
  "fail_init api calls err = Some (com_enter api @ calls @ [SetEvent InitDone] @ com_leave api, Inl err)"

text \<open>What \<open>run\<close> does after the initialisation succeeded.\<close>

definition run_rest :: "life_api \<Rightarrow> bool \<Rightarrow> thread_call list" where
  "run_rest api loopback = [RegisterMmcss (la_mmcss api), CaptureLoop loopback, StopAudio]
     @ (if la_mmcss api then [RevertMmcss] else [])
     @ (if loopback then [] else [CloseHandle (Some DataEvent)]) @ com_leave api"

text \<open>
  \<open>run\<close> up to the data event: the calls and the error, or whether the stream is a loopback.
  \<open>None\<close> is overflow, as in \<open>run_init\<close>.
\<close>

definition run_setup :: "life_api \<Rightarrow> capture_config \<Rightarrow> (thread_call list \<times> capture_error + bool) option" where
  "run_setup api config =
     (if failed (api_createEnumerator api) then Some (Inl ([], BackendFailure))
      else if failed (api_getDevice api (cc_deviceId config)) then Some (Inl ([], DeviceNotFound))
      else let loopback = (case api_isRender api of Some r \<Rightarrow> r | None \<Rightarrow> False) in
      if failed (api_activate api) then Some (Inl ([], mapInitializeError (api_activate api)))
      else do {
        ticks \<leftarrow> s64 (cc_frameDuration config * 10000);
        bufferDuration \<leftarrow> s64 (ticks * 4);
        let hr = api_initialize api (makeFormat config) bufferDuration loopback;
        Some (if failed hr then Inl ([], mapInitializeError hr)
          else if \<not> loopback \<and> \<not> api_createDataEvent api
          then Inl ([CreateEvent DataEvent False], BackendFailure)
          else if \<not> loopback \<and> failed (api_setEventHandle api)
          then Inl ([CreateEvent DataEvent True, CloseHandle (Some DataEvent)], BackendFailure)
          else Inr loopback) })"

text \<open>The calls of \<open>run\<close>, and what it reports to \<open>start\<close>.\<close>

definition run_program :: "life_api \<Rightarrow> capture_config \<Rightarrow> (thread_call list \<times> (capture_error + bool)) option" where
  "run_program api config = do {
     opened \<leftarrow> run_setup api config;
     case opened of
       Inl (calls, err) \<Rightarrow> fail_init api calls err
     | Inr loopback \<Rightarrow>
         let calls = (if loopback then [] else [CreateEvent DataEvent True]) in
         if failed (api_getService api) \<or> failed (api_start api)
         then fail_init api (calls @ [CloseHandle (if loopback then None else Some DataEvent)]) BackendFailure
         else Some (com_enter api @ calls @ [SetEvent InitDone] @ run_rest api loopback, Inr loopback) }"

text \<open>\<open>stop\<close>, while the thread can be joined and afterwards; \<open>n\<close> stops and then the destructor.\<close>

definition stop_program :: "bool \<Rightarrow> thread_call list" where
  "stop_program joinable = [SetEvent StopEvent] @ (if joinable then [JoinThread] else [])"

fun destroy_program :: "nat \<Rightarrow> bool \<Rightarrow> thread_call list" where
  "destroy_program 0 joinable = stop_program joinable @ [CloseHandle (Some StopEvent)]"
| "destroy_program (Suc n) joinable = stop_program joinable @ destroy_program n False"

text \<open>The caller: \<open>start\<close>, and if it gives a stream, \<open>n\<close> calls of \<open>stop\<close> and the destructor.\<close>

definition caller_program :: "life_api \<Rightarrow> nat \<Rightarrow> capture_error + bool \<Rightarrow> thread_call list" where
  "caller_program api n result =
     [CreateEvent StopEvent (api_createStopEvent api), CreateEvent InitDone (api_createInitDone api)]
     @ (if \<not> api_createStopEvent api \<or> \<not> api_createInitDone api
        then (if api_createInitDone api then [CloseHandle (Some InitDone)] else [])
          @ (if api_createStopEvent api then destroy_program 0 False else [])
        else [SpawnThread, WaitFor InitDone, CloseHandle (Some InitDone)]
          @ (case result of Inl _ \<Rightarrow> [JoinThread] @ destroy_program 0 False | Inr _ \<Rightarrow> destroy_program n True))"

section \<open>Interleavings\<close>

record life =
  lf_caller :: "thread_call list" \<comment> \<open>what is left to do\<close>
  lf_spawned :: bool
  lf_thread :: "thread_call list"
  lf_open :: "event_handle set"
  lf_signalled :: "event_handle set"
  lf_lost :: bool \<comment> \<open>the device is lost, so the capture loop ends\<close>
  lf_com :: int \<comment> \<open>how often COM is initialised on the capture thread\<close>
  lf_faults :: "thread_call list"

definition new_life :: "thread_call list \<Rightarrow> thread_call list \<Rightarrow> life" where
  "new_life caller thread = \<lparr>lf_caller = caller, lf_spawned = False, lf_thread = thread, lf_open = {},
     lf_signalled = {}, lf_lost = False, lf_com = 0, lf_faults = []\<rparr>"

fun handles_used :: "thread_call \<Rightarrow> event_handle set" where
  "handles_used (SetEvent h) = {h}"
| "handles_used (CloseHandle (Some h)) = {h}"
| "handles_used (WaitFor h) = {h}"
| "handles_used (CaptureLoop loopback) = (if loopback then {StopEvent} else {StopEvent, DataEvent})"
| "handles_used _ = {}"

fun ready :: "thread_call \<Rightarrow> life \<Rightarrow> bool" where
  "ready (WaitFor h) s \<longleftrightarrow> h \<in> lf_signalled s"
| "ready JoinThread s \<longleftrightarrow> lf_thread s = []"
| "ready (CaptureLoop _) s \<longleftrightarrow> StopEvent \<in> lf_signalled s \<or> lf_lost s"
| "ready _ s \<longleftrightarrow> True"

fun effect :: "thread_call \<Rightarrow> life \<Rightarrow> life" where
  "effect (CreateEvent h created) s = (if created then s\<lparr>lf_open := insert h (lf_open s)\<rparr> else s)"
| "effect (SetEvent h) s = s\<lparr>lf_signalled := insert h (lf_signalled s)\<rparr>"
| "effect (CloseHandle (Some h)) s = s\<lparr>lf_open := lf_open s - {h}\<rparr>"
| "effect SpawnThread s = s\<lparr>lf_spawned := True\<rparr>"
| "effect (ComCall c) s = s\<lparr>lf_com := lf_com s + com_level [c]\<rparr>"
| "effect _ s = s"

definition perform :: "thread_call \<Rightarrow> life \<Rightarrow> life" where
  "perform c s = effect c (if handles_used c \<subseteq> lf_open s \<and> c \<noteq> CloseHandle None then s
     else s\<lparr>lf_faults := lf_faults s @ [c]\<rparr>)"

datatype life_event = CallerMoves | ThreadMoves | DeviceLost

fun life_step :: "life_event \<Rightarrow> life \<Rightarrow> life option" where
  "life_step CallerMoves s = (case lf_caller s of
     [] \<Rightarrow> None
   | c # cs \<Rightarrow> if ready c s then Some (perform c (s\<lparr>lf_caller := cs\<rparr>)) else None)"
| "life_step ThreadMoves s = (case lf_thread s of
     [] \<Rightarrow> None
   | c # cs \<Rightarrow> if lf_spawned s \<and> ready c s then Some (perform c (s\<lparr>lf_thread := cs\<rparr>)) else None)"
| "life_step DeviceLost s = Some (s\<lparr>lf_lost := True\<rparr>)"

fun life_run :: "life_event list \<Rightarrow> life \<Rightarrow> life option" where
  "life_run [] s = Some s"
| "life_run (ev # evs) s = Option.bind (life_step ev s) (life_run evs)"

interpretation life: event_system life_step life_run
  by unfold_locales simp_all

text \<open>Without its two events a stream has no thread.\<close>

definition stream_life :: "life_api \<Rightarrow> capture_config \<Rightarrow> nat \<Rightarrow> life option" where
  "stream_life api config n = do {
     (calls, result) \<leftarrow> run_program api config;
     Some (new_life (caller_program api n result)
       (if api_createStopEvent api \<and> api_createInitDone api then calls else [])) }"

section \<open>What is left to do\<close>

text \<open>The caller's calls, given which of its events are open; the thread's, given the data event.\<close>

fun caller_ok :: "event_handle set \<Rightarrow> thread_call list \<Rightarrow> bool" where
  "caller_ok H [] \<longleftrightarrow> H = {}"
| "caller_ok H (CreateEvent h created # cs) \<longleftrightarrow> h \<noteq> DataEvent \<and> caller_ok (if created then insert h H else H) cs"
| "caller_ok H (CloseHandle (Some h) # cs) \<longleftrightarrow> h \<in> H \<and> caller_ok (H - {h}) cs"
| "caller_ok H (SetEvent h # cs) \<longleftrightarrow> h = StopEvent \<and> h \<in> H \<and> caller_ok H cs"
| "caller_ok H (WaitFor h # cs) \<longleftrightarrow> h = InitDone \<and> h \<in> H \<and> caller_ok H cs"
| "caller_ok H (SpawnThread # cs) \<longleftrightarrow> {StopEvent, InitDone} \<subseteq> H \<and> caller_ok H cs"
| "caller_ok H (JoinThread # cs) \<longleftrightarrow> caller_ok H cs"
| "caller_ok H (_ # cs) \<longleftrightarrow> False"

fun thread_ok :: "bool \<Rightarrow> thread_call list \<Rightarrow> bool" where
  "thread_ok D [] \<longleftrightarrow> \<not> D"
| "thread_ok D (CreateEvent h created # cs) \<longleftrightarrow> h = DataEvent \<and> \<not> D \<and> thread_ok created cs"
| "thread_ok D (CloseHandle (Some h) # cs) \<longleftrightarrow> h = DataEvent \<and> D \<and> thread_ok False cs"
| "thread_ok D (CloseHandle None # cs) \<longleftrightarrow> thread_ok D cs"
| "thread_ok D (SetEvent h # cs) \<longleftrightarrow> h = InitDone \<and> SetEvent InitDone \<notin> set cs \<and> thread_ok D cs"
| "thread_ok D (CaptureLoop loopback # cs) \<longleftrightarrow> (loopback \<or> D) \<and> SetEvent InitDone \<notin> set cs \<and> thread_ok D cs"
| "thread_ok D (WaitFor h # cs) \<longleftrightarrow> False"
| "thread_ok D (SpawnThread # cs) \<longleftrightarrow> False"
| "thread_ok D (JoinThread # cs) \<longleftrightarrow> False"
| "thread_ok D (_ # cs) \<longleftrightarrow> thread_ok D cs"

fun before :: "'a \<Rightarrow> 'a \<Rightarrow> 'a list \<Rightarrow> bool" where
  "before a b [] \<longleftrightarrow> True"
| "before a b (x # xs) \<longleftrightarrow> x = a \<or> x \<noteq> b \<and> before a b xs"

fun com_calls :: "thread_call list \<Rightarrow> int" where
  "com_calls [] = 0"
| "com_calls (ComCall c # cs) = com_level [c] + com_calls cs"
| "com_calls (_ # cs) = com_calls cs"

definition null_closes :: "thread_call list \<Rightarrow> thread_call list" where
  "null_closes cs = filter (\<lambda>c. c = CloseHandle None) cs"

definition loops :: "thread_call list \<Rightarrow> bool" where
  "loops cs \<longleftrightarrow> (\<exists>loopback. CaptureLoop loopback \<in> set cs)"

lemma null_closes_simps [simp]:
  "null_closes [] = []" "null_closes (c # cs) = (if c = CloseHandle None then c # null_closes cs else null_closes cs)"
  "null_closes (cs @ ds) = null_closes cs @ null_closes ds"
  by (simp_all add: null_closes_def)

lemma loops_simps [simp]:
  "\<not> loops []" "loops (c # cs) \<longleftrightarrow> (\<exists>l. c = CaptureLoop l) \<or> loops cs" "loops (cs @ ds) \<longleftrightarrow> loops cs \<or> loops ds"
  by (auto simp: loops_def)

text \<open>Events: who has what open, and that nobody closes what the other still needs.\<close>

definition handles_ok :: "life \<Rightarrow> bool" where
  "handles_ok s \<longleftrightarrow> (\<exists>H D. lf_open s = H \<union> (if D then {DataEvent} else {}) \<and> DataEvent \<notin> H
     \<and> caller_ok H (lf_caller s) \<and> thread_ok D (lf_thread s)
     \<and> (lf_spawned s \<and> SetEvent InitDone \<in> set (lf_thread s) \<longrightarrow> InitDone \<in> H)
     \<and> (lf_spawned s \<and> loops (lf_thread s) \<longrightarrow> StopEvent \<in> H))
   \<and> (SetEvent InitDone \<in> set (lf_thread s) \<longrightarrow>
        before (WaitFor InitDone) (CloseHandle (Some InitDone)) (lf_caller s) \<and> InitDone \<notin> lf_signalled s)
   \<and> (loops (lf_thread s) \<longrightarrow> before JoinThread (CloseHandle (Some StopEvent)) (lf_caller s))"

text \<open>Who still waits for whom.\<close>

definition waits_ok :: "life \<Rightarrow> bool" where
  "waits_ok s \<longleftrightarrow>
     (\<not> lf_spawned s \<longrightarrow> before SpawnThread (WaitFor InitDone) (lf_caller s) \<and> before SpawnThread JoinThread (lf_caller s))
   \<and> (WaitFor InitDone \<in> set (lf_caller s) \<longrightarrow> InitDone \<in> lf_signalled s \<or> SetEvent InitDone \<in> set (lf_thread s))
   \<and> (lf_thread s \<noteq> [] \<longrightarrow> JoinThread \<in> set (lf_caller s))
   \<and> (loops (lf_thread s) \<longrightarrow> StopEvent \<in> lf_signalled s \<or> before (SetEvent StopEvent) JoinThread (lf_caller s))"

definition life_ok :: "thread_call list \<Rightarrow> life \<Rightarrow> bool" where
  "life_ok faults s \<longleftrightarrow> handles_ok s \<and> waits_ok s \<and> lf_faults s @ null_closes (lf_thread s) = faults
     \<and> lf_com s + com_calls (lf_thread s) = 0"

section \<open>The programs are well-formed\<close>

lemma com_calls_append [simp]: "com_calls (cs @ ds) = com_calls cs + com_calls ds"
  by (induction cs rule: com_calls.induct) simp_all

lemma com_calls_map: "com_calls (map ComCall cs) = com_level cs"
proof (induction cs)
  case (Cons c cs)
  then show ?case using com_level_append [of "[c]" cs] by simp
qed simp

lemma com_balanced: "com_calls (com_enter api) + com_calls (com_leave api) = 0"
  using apartment_balanced [of "la_com api"] by (simp add: com_enter_def com_leave_def com_calls_map)

lemma com_parts:
  "com_enter api = [ComCall (CoInitialize (la_com api))]" "com_leave api = [] \<or> com_leave api = [ComCall CoUninitialize]"
  by (simp_all add: com_enter_def com_leave_def enter_apartment_def leave_apartment_def)

text \<open>A run of the thread ends in an error without a loop, or has the loop after the signal.\<close>

definition late_loopback_failure :: "life_api \<Rightarrow> capture_config \<Rightarrow> bool" where
  "late_loopback_failure api config \<longleftrightarrow>
     run_setup api config = Some (Inr True) \<and> (failed (api_getService api) \<or> failed (api_start api))"

lemma run_setup_calls:
  "run_setup api config = Some (Inl (calls, err)) \<Longrightarrow>
   calls \<in> {[], [CreateEvent DataEvent False], [CreateEvent DataEvent True, CloseHandle (Some DataEvent)]}"
  by (auto simp: run_setup_def Let_def bind_Some_iff split: if_splits)

lemma thread_ok_parts [simp]:
  "thread_ok D (com_enter api @ cs) = thread_ok D cs"
  "thread_ok D (com_leave api) = (\<not> D)"
  "SetEvent h \<notin> set (com_leave api)" "\<not> loops (com_leave api)" "\<not> loops (com_enter api)"
  "SetEvent h \<notin> set (com_enter api)" "null_closes (com_leave api) = []" "null_closes (com_enter api) = []"
  using com_parts(2) [of api] by (auto simp: com_parts(1))

lemma fail_init_ok:
  assumes "fail_init api calls err = Some (cs, result)" and "calls \<in> {[], [CreateEvent DataEvent False],
    [CreateEvent DataEvent True, CloseHandle (Some DataEvent)], [CloseHandle None]}"
  shows "thread_ok False cs \<and> SetEvent InitDone \<in> set cs \<and> \<not> loops cs \<and> com_calls cs = 0
    \<and> null_closes cs = null_closes calls \<and> result = Inl err"
  using assms com_balanced [of api] by (auto simp: fail_init_def)

lemma run_rest_ok:
  "thread_ok (\<not> l) (run_rest api l)" "SetEvent InitDone \<notin> set (run_rest api l)" "loops (run_rest api l)"
  "com_calls (run_rest api l) = com_calls (com_leave api)" "null_closes (run_rest api l) = []"
  by (simp_all add: run_rest_def)

lemma run_program_ok:
  assumes "run_program api config = Some (cs, result)"
  shows "thread_ok False cs \<and> SetEvent InitDone \<in> set cs \<and> com_calls cs = 0
    \<and> (loops cs \<longrightarrow> (\<exists>l. result = Inr l))
    \<and> null_closes cs = (if late_loopback_failure api config then [CloseHandle None] else [])"
proof -
  from assms obtain opened where o: "run_setup api config = Some opened"
    and r: "(case opened of Inl (calls, err) \<Rightarrow> fail_init api calls err
     | Inr loopback \<Rightarrow> let calls = (if loopback then [] else [CreateEvent DataEvent True]) in
         if failed (api_getService api) \<or> failed (api_start api)
         then fail_init api (calls @ [CloseHandle (if loopback then None else Some DataEvent)]) BackendFailure
         else Some (com_enter api @ calls @ [SetEvent InitDone] @ run_rest api loopback, Inr loopback)) = Some (cs, result)"
    by (auto simp: run_program_def bind_Some_iff)
  consider calls err where "fail_init api calls err = Some (cs, result)" "calls \<in> {[], [CreateEvent DataEvent False],
      [CreateEvent DataEvent True, CloseHandle (Some DataEvent)], [CloseHandle None]}"
      "calls = [CloseHandle None] \<longleftrightarrow> late_loopback_failure api config"
    | l where "cs = com_enter api @ (if l then [] else [CreateEvent DataEvent True]) @ [SetEvent InitDone] @ run_rest api l"
      "result = Inr l" "\<not> late_loopback_failure api config"
  proof (cases opened)
    case (Inl p)
    with o r run_setup_calls that(1) show ?thesis by (cases p) (fastforce simp: late_loopback_failure_def)
  next
    case (Inr l)
    show ?thesis
    proof (cases "failed (api_getService api) \<or> failed (api_start api)")
      case True
      with o r Inr that(1) [of "if l then [CloseHandle None] else [CreateEvent DataEvent True, CloseHandle (Some DataEvent)]" BackendFailure]
      show ?thesis by (auto simp: late_loopback_failure_def Let_def split: if_splits)
    next
      case False
      with o r Inr that(2) [of l] show ?thesis by (simp add: late_loopback_failure_def Let_def)
    qed
  qed
  then show ?thesis
  proof cases
    case (1 calls err)
    from fail_init_ok [OF 1(1,2)] 1(2,3) show ?thesis by auto
  next
    case (2 l)
    with run_rest_ok [where l = l and api = api] com_balanced [of api] show ?thesis by (cases l) auto
  qed
qed

section \<open>Every step keeps the order\<close>

lemma perform_fine: "handles_used c \<subseteq> lf_open s \<Longrightarrow> c \<noteq> CloseHandle None \<Longrightarrow> perform c s = effect c s"
  by (simp add: perform_def)

lemma effect_frame [simp]:
  "lf_caller (effect c s) = lf_caller s" "lf_thread (effect c s) = lf_thread s" "lf_faults (effect c s) = lf_faults s"
  "lf_lost (effect c s) = lf_lost s"
  by (cases "(c, s)" rule: effect.cases; simp)+

lemma life_okI:
  assumes "lf_open s = H \<union> (if D then {DataEvent} else {})" and "DataEvent \<notin> H"
    and "caller_ok H (lf_caller s)" and "thread_ok D (lf_thread s)"
    and "lf_spawned s \<Longrightarrow> SetEvent InitDone \<in> set (lf_thread s) \<Longrightarrow> InitDone \<in> H"
    and "lf_spawned s \<Longrightarrow> loops (lf_thread s) \<Longrightarrow> StopEvent \<in> H"
    and "SetEvent InitDone \<in> set (lf_thread s) \<Longrightarrow>
        before (WaitFor InitDone) (CloseHandle (Some InitDone)) (lf_caller s) \<and> InitDone \<notin> lf_signalled s"
    and "loops (lf_thread s) \<Longrightarrow> before JoinThread (CloseHandle (Some StopEvent)) (lf_caller s)"
    and "waits_ok s" and "lf_faults s @ null_closes (lf_thread s) = faults" and "lf_com s + com_calls (lf_thread s) = 0"
  shows "life_ok faults s"
  unfolding life_ok_def handles_ok_def using assms by blast

lemma caller_uses_open:
  assumes "caller_ok H (c # cs)" and "H \<subseteq> lf_open s"
  shows "perform c s = effect c s"
  using assms by (intro perform_fine) (cases c; auto split: option.splits simp: subset_iff; case_tac x3; auto)+

lemma caller_moves_ok:
  assumes "life_ok faults s" and "life_step CallerMoves s = Some s'"
  shows "life_ok faults s'"
proof -
  from assms(2) obtain c cs where c: "lf_caller s = c # cs" "ready c s" "s' = perform c (s\<lparr>lf_caller := cs\<rparr>)"
    by (auto split: list.splits if_splits)
  from assms(1) obtain H D where h: "lf_open s = H \<union> (if D then {DataEvent} else {})" "DataEvent \<notin> H"
    "caller_ok H (c # cs)" "thread_ok D (lf_thread s)"
    "lf_spawned s \<and> SetEvent InitDone \<in> set (lf_thread s) \<longrightarrow> InitDone \<in> H"
    "lf_spawned s \<and> loops (lf_thread s) \<longrightarrow> StopEvent \<in> H"
    and o: "SetEvent InitDone \<in> set (lf_thread s) \<longrightarrow>
        before (WaitFor InitDone) (CloseHandle (Some InitDone)) (c # cs) \<and> InitDone \<notin> lf_signalled s"
      "loops (lf_thread s) \<longrightarrow> before JoinThread (CloseHandle (Some StopEvent)) (c # cs)"
    and w: "waits_ok s"
    and f: "lf_faults s @ null_closes (lf_thread s) = faults" "lf_com s + com_calls (lf_thread s) = 0"
    by (auto simp: life_ok_def handles_ok_def c(1))
  have s': "s' = effect c (s\<lparr>lf_caller := cs\<rparr>)"
    using caller_uses_open [OF h(3), of "s\<lparr>lf_caller := cs\<rparr>"] h(1) c(3) by simp
  show ?thesis
  proof (cases c)
    case (CreateEvent x b)
    with h(3) have x: "caller_ok (if b then insert x H else H) cs" "x \<noteq> DataEvent" by simp_all
    show ?thesis unfolding s' using h(2,4-) x o w f CreateEvent
      by (cases b; intro life_okI [where H = "if b then insert x H else H" and D = D])
        (simp_all add: c(1) h(1) waits_ok_def insert_commute)
  next
    case (SetEvent x)
    with h o w f show ?thesis unfolding s'
      by (intro life_okI [where H = H and D = D]) (auto simp: c(1) waits_ok_def)
  next
    case (CloseHandle x)
    with h(3) obtain y where y: "x = Some y" "y \<in> H" "caller_ok (H - {y}) cs" by (cases x) auto
    with h o w f CloseHandle show ?thesis unfolding s'
      by (intro life_okI [where H = "H - {y}" and D = D]) (auto simp: c(1) waits_ok_def)
  next
    case (WaitFor x)
    with h o w f c(2) show ?thesis unfolding s'
      by (intro life_okI [where H = H and D = D]) (auto simp: c(1) waits_ok_def)
  next
    case SpawnThread
    with h o w f show ?thesis unfolding s'
      by (intro life_okI [where H = H and D = D]) (auto simp: c(1) waits_ok_def)
  next
    case JoinThread
    with h o w f c(2) show ?thesis unfolding s'
      by (intro life_okI [where H = H and D = D]) (auto simp: c(1) waits_ok_def)
  qed (use h(3) in simp_all)
qed

lemma thread_uses_open:
  assumes "thread_ok D (c # cs)" and "c \<noteq> CloseHandle None" and "D \<longrightarrow> DataEvent \<in> lf_open s"
    and "c = SetEvent InitDone \<longrightarrow> InitDone \<in> lf_open s" and "loops [c] \<longrightarrow> StopEvent \<in> lf_open s"
  shows "perform c s = effect c s"
proof (rule perform_fine)
  show "handles_used c \<subseteq> lf_open s"
  proof (cases c)
    case (CloseHandle x)
    with assms show ?thesis by (cases x) auto
  qed (use assms in auto)
qed (fact assms(2))

lemma thread_moves_ok:
  assumes "life_ok faults s" and "life_step ThreadMoves s = Some s'"
  shows "life_ok faults s'"
proof -
  from assms(2) obtain c cs where c: "lf_thread s = c # cs" "ready c s" "lf_spawned s" "s' = perform c (s\<lparr>lf_thread := cs\<rparr>)"
    by (auto split: list.splits if_splits)
  from assms(1) obtain H D where h: "lf_open s = H \<union> (if D then {DataEvent} else {})" "DataEvent \<notin> H"
    "caller_ok H (lf_caller s)" "thread_ok D (c # cs)"
    "SetEvent InitDone \<in> set (c # cs) \<longrightarrow> InitDone \<in> H" "loops (c # cs) \<longrightarrow> StopEvent \<in> H"
    and o: "SetEvent InitDone \<in> set (c # cs) \<longrightarrow>
        before (WaitFor InitDone) (CloseHandle (Some InitDone)) (lf_caller s) \<and> InitDone \<notin> lf_signalled s"
      "loops (c # cs) \<longrightarrow> before JoinThread (CloseHandle (Some StopEvent)) (lf_caller s)"
    and w: "waits_ok s"
    and f: "lf_faults s @ null_closes (c # cs) = faults" "lf_com s + com_calls (c # cs) = 0"
    using c(3) by (auto simp: life_ok_def handles_ok_def c(1))
  have join: "JoinThread \<in> set (lf_caller s)" using w c(1) by (simp add: waits_ok_def)
  have fine: "s' = effect c (s\<lparr>lf_thread := cs\<rparr>)" if "c \<noteq> CloseHandle None"
    using thread_uses_open [OF h(4) that, of "s\<lparr>lf_thread := cs\<rparr>"] h(1,5,6) c(4) by (auto split: if_splits)
  show ?thesis
  proof (cases "c = CloseHandle None")
    case True
    then have "s' = s\<lparr>lf_thread := cs, lf_faults := lf_faults s @ [c]\<rparr>" using c(4) by (simp add: perform_def)
    with True h o w f c(3) join show ?thesis 
      by (intro life_okI [where H = H and D = D]) (auto simp: c(1) waits_ok_def)
  next
    case False
    note s' = fine [OF False]
    show ?thesis
    proof (cases c)
      case (CreateEvent x b)
      with h(4) have x: "x = DataEvent" "\<not> D" "thread_ok b cs" by simp_all
      show ?thesis unfolding s' using h(2,3,5-) x o w f c(3) join CreateEvent
        by (cases b; intro life_okI [where H = H and D = b]) (simp_all add: c(1) h(1) waits_ok_def)
    next
      case (CloseHandle x)
      with False h(4) have "x = Some DataEvent" "thread_ok False cs" by (cases x; auto)+
      with CloseHandle h o w f c(3) join show ?thesis unfolding s'
        by (intro life_okI [where H = H and D = False]) (auto simp: c(1) waits_ok_def)
    next
      case (SetEvent x)
      with h o w f c(2,3) join show ?thesis unfolding s'
        by (intro life_okI [where H = H and D = D]) (auto simp: c(1) waits_ok_def)
    next
      case (CaptureLoop x)
      with h o w f c(2,3) join show ?thesis unfolding s'
        by (intro life_okI [where H = H and D = D]) (auto simp: c(1) waits_ok_def)
    next
      case StopAudio
      with h o w f c(2,3) join show ?thesis unfolding s'
        by (intro life_okI [where H = H and D = D]) (auto simp: c(1) waits_ok_def)
    next
      case (RegisterMmcss x)
      with h o w f c(2,3) join show ?thesis unfolding s'
        by (intro life_okI [where H = H and D = D]) (auto simp: c(1) waits_ok_def)
    next
      case RevertMmcss
      with h o w f c(2,3) join show ?thesis unfolding s'
        by (intro life_okI [where H = H and D = D]) (auto simp: c(1) waits_ok_def)
    next
      case (ComCall x)
      with h o w f c(2,3) join show ?thesis unfolding s'
        by (intro life_okI [where H = H and D = D]) (auto simp: c(1) waits_ok_def)
    qed (use h(4) in simp_all)
  qed
qed

lemma device_lost_ok: "life_ok faults s \<Longrightarrow> life_ok faults (s\<lparr>lf_lost := True\<rparr>)"
  by (simp add: life_ok_def handles_ok_def waits_ok_def)

lemma life_step_ok: "life_step ev s = Some s' \<Longrightarrow> life_ok faults s \<Longrightarrow> life_ok faults s'"
  by (cases ev) (auto intro: caller_moves_ok thread_moves_ok device_lost_ok simp del: life_step.simps(1,2))

section \<open>Nobody waits for ever\<close>

lemma stuck_thread:
  assumes "life_ok faults s" and "lf_thread s \<noteq> []" and "life_step ThreadMoves s = None"
  shows "\<not> lf_spawned s \<or> loops (lf_thread s) \<and> SetEvent InitDone \<notin> set (lf_thread s) \<and> StopEvent \<notin> lf_signalled s"
proof -
  from assms(2) obtain c cs where c: "lf_thread s = c # cs" by (cases "lf_thread s") auto
  from assms(1) obtain D where "thread_ok D (c # cs)" by (auto simp: life_ok_def handles_ok_def c)
  with assms(3) c show ?thesis by (cases c) (auto split: if_splits)
qed

lemma never_stuck:
  assumes "life_ok faults s" and "lf_caller s \<noteq> [] \<or> lf_thread s \<noteq> []"
  shows "life_step CallerMoves s \<noteq> None \<or> life_step ThreadMoves s \<noteq> None"
proof (rule ccontr)
  assume "\<not> ?thesis"
  then have n: "life_step CallerMoves s = None" "life_step ThreadMoves s = None" by simp_all
  have w: "waits_ok s" using assms(1) by (simp add: life_ok_def)
  with assms(2) obtain c cs where c: "lf_caller s = c # cs" by (cases "lf_caller s") (auto simp: waits_ok_def)
  with n(1) have "\<not> ready c s" by (auto split: if_splits)
  from assms(1) obtain H where "caller_ok H (c # cs)" by (auto simp: life_ok_def handles_ok_def c)
  with \<open>\<not> ready c s\<close> consider "c = WaitFor InitDone" "InitDone \<notin> lf_signalled s" | "c = JoinThread" "lf_thread s \<noteq> []"
    by (cases c) auto
  then show False
  proof cases
    case 1
    with w c have "SetEvent InitDone \<in> set (lf_thread s)" "lf_spawned s" by (auto simp: waits_ok_def)
    moreover from this have "lf_thread s \<noteq> []" by force
    ultimately show False using stuck_thread [OF assms(1) _ n(2)] by auto
  next
    case 2
    with stuck_thread [OF assms(1) 2(2) n(2)] w c show False by (auto simp: waits_ok_def)
  qed
qed

text \<open>Every step but the loss of the device does one of the calls.\<close>

definition calls_left :: "life \<Rightarrow> nat" where
  "calls_left s = length (lf_caller s) + length (lf_thread s)"

lemma step_does_a_call:
  "life_step ev s = Some s' \<Longrightarrow> calls_left s = calls_left s' + (if ev = DeviceLost then 0 else 1)"
  by (cases ev) (auto simp: calls_left_def perform_def split: list.splits if_splits)

lemma run_does_calls:
  "life_run evs s = Some s' \<Longrightarrow> calls_left s = calls_left s' + length (filter (\<lambda>ev. ev \<noteq> DeviceLost) evs)"
proof (induction evs arbitrary: s)
  case (Cons ev evs)
  then obtain s1 where "life_step ev s = Some s1" "life_run evs s1 = Some s'" by (rule_tac life.run_ConsE)
  with Cons.IH [of s1] step_does_a_call [of ev s s1] show ?case by simp
qed simp

lemma reaches_the_end:
  "life_ok faults s \<Longrightarrow> \<exists>evs s'. life_run evs s = Some s' \<and> calls_left s' = 0"
proof (induction "calls_left s" arbitrary: s rule: less_induct)
  case less
  show ?case
  proof (cases "calls_left s = 0")
    case True
    then show ?thesis by (metis life_run.simps(1))
  next
    case False
    then have "lf_caller s \<noteq> [] \<or> lf_thread s \<noteq> []" by (auto simp: calls_left_def)
    with never_stuck [OF less.prems] obtain ev s1 where 1: "life_step ev s = Some s1" "ev \<noteq> DeviceLost" by blast
    from step_does_a_call [OF 1(1)] 1(2) less.hyps [OF _ life_step_ok [OF 1(1) less.prems]]
    obtain evs s' where "life_run evs s1 = Some s'" "calls_left s' = 0" by auto
    with 1(1) show ?thesis by (metis life.run_Cons bind.bind_lunit)
  qed
qed

section \<open>The life of a stream\<close>

lemma destroy_program_ok:
  "caller_ok {StopEvent} (destroy_program n j)" "WaitFor h \<notin> set (destroy_program n j)"
  "SpawnThread \<notin> set (destroy_program n j)" "JoinThread \<in> set (destroy_program n j) \<longleftrightarrow> j"
  "before (SetEvent StopEvent) JoinThread (destroy_program n j)" "CloseHandle (Some InitDone) \<notin> set (destroy_program n j)"
  by (induction n j rule: destroy_program.induct) (auto simp: stop_program_def)

lemma destroy_joins_first: "before JoinThread (CloseHandle (Some StopEvent)) (destroy_program n True)"
  by (cases n) (simp_all add: stop_program_def)

lemma before_absent: "b \<notin> set xs \<Longrightarrow> before a b xs"
  by (induction xs) auto

lemma stream_life_ok:
  assumes "stream_life api config n = Some s"
  shows "life_ok (if api_createStopEvent api \<and> api_createInitDone api \<and> late_loopback_failure api config
      then [CloseHandle None] else []) s"
proof -
  from assms obtain cs result where r: "run_program api config = Some (cs, result)"
    and s: "s = new_life (caller_program api n result) (if api_createStopEvent api \<and> api_createInitDone api then cs else [])"
    by (auto simp: stream_life_def bind_Some_iff)
  note p = run_program_ok [OF r]
  show ?thesis
  proof (cases "api_createStopEvent api \<and> api_createInitDone api")
    case True
    have "life_ok (null_closes cs) s"
      using p True by (intro life_okI [where H = "{}" and D = False])
        (auto simp: s new_life_def caller_program_def waits_ok_def destroy_program_ok destroy_joins_first before_absent
          stop_program_def split: sum.splits)
    with p True show ?thesis by simp
  next
    case False
    have "life_ok [] s"
      using False by (intro life_okI [where H = "{}" and D = False])
        (auto simp: s new_life_def caller_program_def waits_ok_def stop_program_def)
    with False show ?thesis by auto
  qed
qed

text \<open>The thread's program is the initialisation of the capture component.\<close>

lemma run_program_is_run_init:
  "map_option snd (run_program api config) = run_init (wasapi_api.truncate api) config"
  by (auto simp: run_program_def run_setup_def run_init_def wasapi_api.truncate_def fail_init_def Let_def
      split: Option.bind_splits option.splits)

section \<open>Properties\<close>

text \<open>
  C31: a capture stream ends cleanly. In every interleaving of the caller (a start, any number
  of stops, the destructor) and the capture thread: no event is used that is not open, but
  for the null handle that a loopback stream closes when its last calls fail; somebody can
  always go on, and every step is one of finitely many calls, so the stop returns; and when
  both are through every event is closed and COM is as initialised on the thread as before.
\<close>

theorem stream_ends_cleanly:
  assumes "stream_life api config n = Some s0" and "life_run evs s0 = Some s"
  shows "(lf_faults s = [] \<or> late_loopback_failure api config \<and> lf_faults s = [CloseHandle None])
    \<and> (calls_left s \<noteq> 0 \<longrightarrow> life_step CallerMoves s \<noteq> None \<or> life_step ThreadMoves s \<noteq> None)
    \<and> length (filter (\<lambda>ev. ev \<noteq> DeviceLost) evs) + calls_left s = calls_left s0
    \<and> (calls_left s = 0 \<longrightarrow> lf_open s = {} \<and> lf_com s = 0
        \<and> (lf_faults s = [CloseHandle None] \<longleftrightarrow> api_createStopEvent api \<and> api_createInitDone api \<and> late_loopback_failure api config))"
proof -
  define faults where "faults = (if api_createStopEvent api \<and> api_createInitDone api \<and> late_loopback_failure api config
      then [CloseHandle None] else [])"
  have "life_ok faults s0" using stream_life_ok [OF assms(1)] by (simp add: faults_def)
  with life.run_invariant [OF assms(2), of "life_ok faults"] life_step_ok have ok: "life_ok faults s" by blast
  then obtain H D where h: "lf_open s = H \<union> (if D then {DataEvent} else {})" "caller_ok H (lf_caller s)" "thread_ok D (lf_thread s)"
    and f: "lf_faults s @ null_closes (lf_thread s) = faults" "lf_com s + com_calls (lf_thread s) = 0"
    by (auto simp: life_ok_def handles_ok_def)
  have "lf_faults s = [] \<or> late_loopback_failure api config \<and> lf_faults s = [CloseHandle None]"
    using f(1) by (cases "lf_faults s") (auto simp: faults_def split: if_splits)
  moreover have "lf_open s = {} \<and> lf_com s = 0 \<and> lf_faults s = faults" if "calls_left s = 0"
    using that h f by (auto simp: calls_left_def)
  moreover have "lf_caller s \<noteq> [] \<or> lf_thread s \<noteq> []" if "calls_left s \<noteq> 0" using that by (auto simp: calls_left_def)
  ultimately show ?thesis
    using never_stuck [OF ok] run_does_calls [OF assms(2)] by (auto simp: faults_def split: if_splits)
qed

definition silent_loopback :: life_api where
  "silent_loopback = \<lparr>api_createStopEvent = True, api_createInitDone = True, api_createEnumerator = S_OK,
     api_getDevice = \<lambda>_. S_OK, api_isRender = Some True, api_activate = S_OK, api_initialize = \<lambda>_ _ _. S_OK,
     api_createDataEvent = True, api_setEventHandle = S_OK, api_getService = S_OK, api_start = OtherFailure 1,
     la_com = S_FALSE, la_mmcss = True\<rparr>"

definition loopback_config :: capture_config where
  "loopback_config = \<lparr>cc_deviceId = ''speakers'', cc_track = SystemOutput, cc_sampleRate = 48000, cc_channels = 2,
     cc_format = PcmS16Le, cc_frameDuration = 10\<rparr>"

theorem stream_ends_cleanly_witness:
  "\<exists>s0 evs s. stream_life silent_loopback loopback_config 0 = Some s0 \<and> life_run evs s0 = Some s
    \<and> lf_faults s = [CloseHandle None] \<and> lf_open s = {} \<and> lf_com s = 0 \<and> length evs = 12"
proof -
  have late: "late_loopback_failure silent_loopback loopback_config"
    by (simp add: late_loopback_failure_def run_setup_def silent_loopback_def loopback_config_def s64_def in_s64_def)
  let ?evs = "[CallerMoves, CallerMoves, CallerMoves, ThreadMoves, ThreadMoves, ThreadMoves, ThreadMoves,
    CallerMoves, CallerMoves, CallerMoves, CallerMoves, CallerMoves]"
  have "\<exists>s0 s. stream_life silent_loopback loopback_config 0 = Some s0 \<and> life_run ?evs s0 = Some s \<and> calls_left s = 0"
    by (simp add: stream_life_def run_program_def run_setup_def silent_loopback_def loopback_config_def s64_def in_s64_def
      fail_init_def com_enter_def com_leave_def enter_apartment_def leave_apartment_def new_life_def caller_program_def
      stop_program_def perform_def calls_left_def)
  then obtain s0 s where 1: "stream_life silent_loopback loopback_config 0 = Some s0" "life_run ?evs s0 = Some s"
    "calls_left s = 0" by blast
  from stream_ends_cleanly [OF 1(1,2)] 1(3) late have "lf_faults s = [CloseHandle None]" "lf_open s = {}" "lf_com s = 0"
    by (simp_all add: silent_loopback_def)
  with 1(1,2) show ?thesis by (intro exI [of _ s0] exI [of _ ?evs] exI [of _ s]) simp
qed

end
