(* ===== verification/Controller.thy ===== *)
theory Controller
  imports Events Session RingBuffer ClockSync Config SttProducer SttClient RecordingWriter Version
begin

text \<open>
  The desktop recorder's controller (\<open>apps/desktop-recorder/src/recorder_controller.cpp\<close>,
  \<open>recorder_controller.hpp\<close>): it owns the session, the two capture pipelines, the recording
  writer and the transcription client, and composes their models. The outside world (devices,
  capture streams, files, clocks, the connection to the transcription service, FFmpeg) is a
  record of the calls the code makes, over a state \<open>'e\<close>. Qt's signals are left out, except
  that the session's listener log is kept; an error message is a constructor.
\<close>

section \<open>The outside world\<close>

record 'e world =
  w_media :: "'e media_api"
  w_devices :: "'e \<Rightarrow> 'e \<times> audio_device_info list"
  w_startCapture :: "capture_config \<Rightarrow> 'e \<Rightarrow> 'e \<times> (capture_error + nat)" \<comment> \<open>the stream's handle\<close>
  w_stopStream :: "nat \<Rightarrow> 'e \<Rightarrow> 'e \<times> audio_frame list" \<comment> \<open>the frames delivered until it has stopped\<close>
  w_streamDropped :: "nat \<Rightarrow> 'e \<Rightarrow> u64"
  w_connect :: "string \<Rightarrow> 'e \<Rightarrow> 'e \<times> bool \<times> bool" \<comment> \<open>channel connected, stream opened\<close>
  w_mkpath :: "string \<Rightarrow> 'e \<Rightarrow> 'e \<times> bool"
  w_filePath :: "string \<Rightarrow> string \<Rightarrow> string"
  w_exists :: "string \<Rightarrow> 'e \<Rightarrow> bool"
  w_stamp :: "'e \<Rightarrow> string" \<comment> \<open>local time as \<open>yyyyMMdd-HHmmss\<close>\<close>
  w_isoTime :: "'e \<Rightarrow> string"
  w_unixMs :: "'e \<Rightarrow> int"
  w_moved_from :: "audio_frame \<Rightarrow> audio_frame" \<comment> \<open>what a move leaves in a ring slot\<close>

section \<open>The controller's state\<close>

datatype ui_message = NoDevices | CaptureFailed string capture_error | CannotCreateFolder
  | CannotOpenRecording recording_writer_error | WriteInterrupted | NothingCaptured
  | NotFinalized recording_writer_error | TranscriptionUnavailable | TranscriptionUnreachable
  | SavingFailed

record 'd track_pipeline =
  tp_buffer :: "audio_frame ring_buffer option"
  tp_stream :: "nat option"
  tp_synchronizer :: "'d track_sync option"
  tp_writerTrack :: int
  tp_feedsSttStream :: bool

definition no_pipeline :: "'d track_pipeline" where
  "no_pipeline = \<lparr>tp_buffer = None, tp_stream = None, tp_synchronizer = None, tp_writerTrack = - 1,
     tp_feedsSttStream = False\<rparr>"

record 'd controller =
  ct_session :: recording_session
  ct_config :: recorder_config
  ct_microphones :: "audio_device_info list"
  ct_systemOutputs :: "audio_device_info list"
  ct_selectedMicrophone :: int
  ct_selectedSystemOutput :: int
  ct_microphonePipeline :: "'d track_pipeline"
  ct_systemOutputPipeline :: "'d track_pipeline"
  ct_writer :: "writer option"
  ct_sttProducer :: "'d stt_producer option"
  ct_sttClient :: "stt_client option"
  ct_framesCaptured :: u64
  ct_writerFailed :: bool
  ct_writerFailureReported :: bool
  ct_outputDirectory :: string
  ct_pendingOutputFile :: string
  ct_lastRecordingFile :: string
  ct_writerMicrophoneTrack :: int
  ct_writerSystemOutputTrack :: int
  ct_sttEndpoint :: string
  ct_sttActive :: bool
  ct_transcriptLines :: "string list"
  ct_transcriptSegmentIds :: "string list"
  ct_lastError :: "ui_message option"
  ct_statsTimer :: bool

definition new_controller :: "string \<Rightarrow> 'd controller" where
  "new_controller directory = \<lparr>ct_session = new_session True, ct_config = default_config,
     ct_microphones = [], ct_systemOutputs = [], ct_selectedMicrophone = - 1, ct_selectedSystemOutput = - 1,
     ct_microphonePipeline = no_pipeline, ct_systemOutputPipeline = no_pipeline, ct_writer = None,
     ct_sttProducer = None, ct_sttClient = None, ct_framesCaptured = 0, ct_writerFailed = False,
     ct_writerFailureReported = False, ct_outputDirectory = directory, ct_pendingOutputFile = [],
     ct_lastRecordingFile = [], ct_writerMicrophoneTrack = - 1, ct_writerSystemOutputTrack = - 1,
     ct_sttEndpoint = [], ct_sttActive = False, ct_transcriptLines = [], ct_transcriptSegmentIds = [],
     ct_lastError = None, ct_statsTimer = False\<rparr>"

datatype which = MicrophoneTrack | SystemOutputTrack

fun pipeline :: "which \<Rightarrow> 'd controller \<Rightarrow> 'd track_pipeline" where
  "pipeline MicrophoneTrack c = ct_microphonePipeline c"
| "pipeline SystemOutputTrack c = ct_systemOutputPipeline c"

fun set_pipeline :: "which \<Rightarrow> 'd track_pipeline \<Rightarrow> 'd controller \<Rightarrow> 'd controller" where
  "set_pipeline MicrophoneTrack p c = c\<lparr>ct_microphonePipeline := p\<rparr>"
| "set_pipeline SystemOutputTrack p c = c\<lparr>ct_systemOutputPipeline := p\<rparr>"

definition ui_fail :: "ui_message \<Rightarrow> 'd controller \<Rightarrow> 'd controller" where
  "ui_fail message c = c\<lparr>ct_lastError := Some message\<rparr>"

definition fire :: "session_event \<Rightarrow> 'd controller \<Rightarrow> 'd controller \<times> bool" where
  "fire ev c = (let (s, good) = handle (ct_session c) ev in (c\<lparr>ct_session := s\<rparr>, good))"

section \<open>Devices and settings\<close>

fun first_default :: "audio_device_info list \<Rightarrow> nat \<Rightarrow> int option" where
  "first_default [] i = None"
| "first_default (d # ds) i = (if dev_isDefault d then Some (int i) else first_default ds (Suc i))"

definition defaultIndex :: "audio_device_info list \<Rightarrow> int" where
  "defaultIndex ds = (case first_default ds 0 of Some i \<Rightarrow> i | None \<Rightarrow> if ds = [] then - 1 else 0)"

definition refreshDevices :: "'e world \<Rightarrow> 'd controller \<times> 'e \<Rightarrow> 'd controller \<times> 'e" where
  "refreshDevices W = (\<lambda>(c, e).
     let (e, ds) = w_devices W e;
         mics = filter (\<lambda>d. dev_kind d = CaptureInput) ds;
         outputs = filter (\<lambda>d. dev_kind d \<noteq> CaptureInput) ds
     in (c\<lparr>ct_microphones := mics, ct_systemOutputs := outputs, ct_selectedMicrophone := defaultIndex mics,
           ct_selectedSystemOutput := defaultIndex outputs\<rparr>, e))"

definition selected :: "int \<Rightarrow> audio_device_info list \<Rightarrow> bool" where
  "selected i ds \<longleftrightarrow> 0 \<le> i \<and> i < int (length ds)"

definition microphoneSelected :: "'d controller \<Rightarrow> bool" where
  "microphoneSelected c = selected (ct_selectedMicrophone c) (ct_microphones c)"

definition systemOutputSelected :: "'d controller \<Rightarrow> bool" where
  "systemOutputSelected c = selected (ct_selectedSystemOutput c) (ct_systemOutputs c)"

definition setSelectedMicrophone :: "int \<Rightarrow> 'd controller \<Rightarrow> 'd controller" where
  "setSelectedMicrophone i c =
     (if - 1 \<le> i \<and> i < int (length (ct_microphones c)) \<and> i \<noteq> ct_selectedMicrophone c
      then c\<lparr>ct_selectedMicrophone := i\<rparr> else c)"

definition setSelectedSystemOutput :: "int \<Rightarrow> 'd controller \<Rightarrow> 'd controller" where
  "setSelectedSystemOutput i c =
     (if - 1 \<le> i \<and> i < int (length (ct_systemOutputs c)) \<and> i \<noteq> ct_selectedSystemOutput c
      then c\<lparr>ct_selectedSystemOutput := i\<rparr> else c)"

definition isIdle :: "'d controller \<Rightarrow> bool" where
  "isIdle c \<longleftrightarrow> rs_state (ct_session c) = Idle"

definition isRecording :: "'d controller \<Rightarrow> bool" where
  "isRecording c \<longleftrightarrow> rs_state (ct_session c) = Recording"

definition isPaused :: "'d controller \<Rightarrow> bool" where
  "isPaused c \<longleftrightarrow> rs_state (ct_session c) = Paused"

definition setOutputDirectory :: "string \<Rightarrow> 'd controller \<Rightarrow> 'd controller" where
  "setOutputDirectory directory c =
     (if \<not> isIdle c \<or> directory = [] \<or> directory = ct_outputDirectory c then c
      else c\<lparr>ct_outputDirectory := directory\<rparr>)"

definition setSttEndpoint :: "string \<Rightarrow> 'd controller \<Rightarrow> 'd controller" where
  "setSttEndpoint endpoint c =
     (if \<not> isIdle c \<or> endpoint = ct_sttEndpoint c then c else c\<lparr>ct_sttEndpoint := endpoint\<rparr>)"

definition device_label :: "audio_device_info \<Rightarrow> string" where
  "device_label d = (if dev_name d = [] then dev_id d else dev_name d)"

definition microphoneNames :: "'d controller \<Rightarrow> string list" where
  "microphoneNames c = map device_label (ct_microphones c)"

definition systemOutputNames :: "'d controller \<Rightarrow> string list" where
  "systemOutputNames c = map device_label (ct_systemOutputs c)"

definition framesDropped :: "'e world \<Rightarrow> 'd controller \<times> 'e \<Rightarrow> u64" where
  "framesDropped W = (\<lambda>(c, e).
     (case tp_stream (ct_microphonePipeline c) of None \<Rightarrow> 0 | Some h \<Rightarrow> w_streamDropped W h e)
   + (case tp_stream (ct_systemOutputPipeline c) of None \<Rightarrow> 0 | Some h \<Rightarrow> w_streamDropped W h e))"

section \<open>Capture and drain\<close>

text \<open>\<open>RingSink::onFrame\<close>, on a capture thread.\<close>

definition onFrame :: "which \<Rightarrow> audio_frame \<Rightarrow> 'd controller \<Rightarrow> 'd controller" where
  "onFrame x f c = (case tp_buffer (pipeline x c) of
     None \<Rightarrow> c
   | Some b \<Rightarrow> set_pipeline x ((pipeline x c)\<lparr>tp_buffer := Some (fst (tryPush b f))\<rparr>) c)"

fun send_all :: "int \<Rightarrow> audio_frame list \<Rightarrow> stt_client \<Rightarrow> stt_client" where
  "send_all now [] cl = cl"
| "send_all now (f # fs) cl = send_all now fs (fst (sendFrame now f cl))"

fun feed_stt :: "'d float_ops \<Rightarrow> int \<Rightarrow> audio_frame list \<Rightarrow> 'd stt_producer \<Rightarrow> stt_client
    \<Rightarrow> ('d stt_producer \<times> stt_client) option" where
  "feed_stt F now [] p cl = Some (p, cl)"
| "feed_stt F now (f # fs) p cl = do {
     (p, outputs) \<leftarrow> stt_process F p f;
     feed_stt F now fs p (send_all now outputs cl) }"

definition feed :: "'d float_ops \<Rightarrow> int \<Rightarrow> bool \<Rightarrow> audio_frame list \<Rightarrow> 'd controller \<Rightarrow> 'd controller option" where
  "feed F now feeds outs c =
     (case (feeds, ct_sttProducer c, ct_sttClient c) of
       (True, Some p, Some cl) \<Rightarrow> do {
         (p, cl) \<leftarrow> feed_stt F now outs p cl;
         Some (c\<lparr>ct_sttProducer := Some p, ct_sttClient := Some cl\<rparr>) }
     | _ \<Rightarrow> Some c)"

fun write_all :: "'e media_api \<Rightarrow> nat \<Rightarrow> audio_frame list \<Rightarrow> writer \<times> 'e \<Rightarrow> ((writer \<times> 'e) \<times> bool) option" where
  "write_all m t [] we = Some (we, True)"
| "write_all m t (f # fs) we = do {
     (we, good) \<leftarrow> writer_write m t f we;
     if good then write_all m t fs we else Some (we, False) }"

definition store :: "'e media_api \<Rightarrow> int \<Rightarrow> audio_frame list \<Rightarrow> 'd controller \<times> 'e \<Rightarrow> ('d controller \<times> 'e) option" where
  "store m t outs = (\<lambda>(c, e).
     case ct_writer c of
       None \<Rightarrow> Some (c, e)
     | Some w \<Rightarrow>
         if t < 0 \<or> ct_writerFailed c then Some (c, e)
         else do {
           ((w, e), good) \<leftarrow> write_all m (nat t) outs (w, e);
           Some (c\<lparr>ct_writer := Some w, ct_writerFailed := \<not> good\<rparr>, e) })"

text \<open>The body of the loop of \<open>drainPipelineLocked\<close>, and one turn of the loop.\<close>

definition drain_frame :: "'d float_ops \<Rightarrow> 'e world \<Rightarrow> which \<Rightarrow> audio_frame \<Rightarrow> 'd controller \<times> 'e
    \<Rightarrow> ('d controller \<times> 'e) option" where
  "drain_frame F W x frame = (\<lambda>(c, e). do {
     s \<leftarrow> tp_synchronizer (pipeline x c);
     (s, outs) \<leftarrow> process F s frame;
     let p = (pipeline x c)\<lparr>tp_synchronizer := Some s\<rparr>;
     let c = (set_pipeline x p c)\<lparr>ct_framesCaptured := ct_framesCaptured c + of_nat (length outs)\<rparr>;
     c \<leftarrow> feed F (w_unixMs W e) (tp_feedsSttStream p) outs c;
     store (w_media W) (tp_writerTrack p) outs (c, e) })"

definition drain_one :: "'d float_ops \<Rightarrow> 'e world \<Rightarrow> which \<Rightarrow> 'd controller \<times> 'e
    \<Rightarrow> (('d controller \<times> 'e) \<times> bool) option" where
  "drain_one F W x = (\<lambda>(c, e).
     case (tp_buffer (pipeline x c), tp_synchronizer (pipeline x c)) of
       (Some b, Some s) \<Rightarrow>
         (case tryPop (w_moved_from W) b of
           (b', None) \<Rightarrow> Some ((c, e), False)
         | (b', Some frame) \<Rightarrow> do {
             ce \<leftarrow> drain_frame F W x frame (set_pipeline x ((pipeline x c)\<lparr>tp_buffer := Some b'\<rparr>) c, e);
             Some (ce, True) })
     | _ \<Rightarrow> Some ((c, e), False))"

partial_function (option) drainPipelineLocked :: "'d float_ops \<Rightarrow> 'e world \<Rightarrow> which \<Rightarrow> 'd controller \<Rightarrow> 'e
    \<Rightarrow> ('d controller \<times> 'e) option" where
  "drainPipelineLocked F W k c e =
     Option.bind (drain_one F W k (c, e))
       (\<lambda>((c', e'), again). if again then drainPipelineLocked F W k c' e' else Some (c', e'))"

section \<open>Streams\<close>

definition stop_stream :: "'e world \<Rightarrow> which \<Rightarrow> 'd controller \<times> 'e \<Rightarrow> 'd controller \<times> 'e" where
  "stop_stream W x = (\<lambda>(c, e).
     case tp_stream (pipeline x c) of
       None \<Rightarrow> (c, e)
     | Some h \<Rightarrow> let (e, frames) = w_stopStream W h e in (fold (onFrame x) frames c, e))"

definition stopStreams :: "'d float_ops \<Rightarrow> 'e world \<Rightarrow> 'd controller \<times> 'e \<Rightarrow> ('d controller \<times> 'e) option" where
  "stopStreams F W ce = do {
     let (c, e) = stop_stream W SystemOutputTrack (stop_stream W MicrophoneTrack ce);
     (c, e) \<leftarrow> drainPipelineLocked F W MicrophoneTrack c e;
     (c, e) \<leftarrow> drainPipelineLocked F W SystemOutputTrack c e;
     Some (c\<lparr>ct_microphonePipeline := no_pipeline, ct_systemOutputPipeline := no_pipeline\<rparr>, e) }"

definition empty_frame :: audio_frame where
  "empty_frame = \<lparr>fr_track = Microphone, fr_sequence = 0, fr_timestamp = 0, fr_sampleRate = 0, fr_channels = 0,
     fr_format = PcmS16Le, fr_discontinuity = False, fr_payload = []\<rparr>"

definition startTrack :: "'d float_ops \<Rightarrow> 'e world \<Rightarrow> which \<Rightarrow> audio_device_info \<Rightarrow> track_kind \<Rightarrow> channel_count
    \<Rightarrow> int \<Rightarrow> bool \<Rightarrow> 'd controller \<times> 'e \<Rightarrow> ('d controller \<times> 'e) \<times> bool" where
  "startTrack F W x device track channels writerTrack feedsSttStream = (\<lambda>(c, e).
     let ring = new_ring empty_frame (unat (ringBufferCapacityFrames (ct_config c)));
         capture = \<lparr>cc_deviceId = dev_id device, cc_track = track, cc_sampleRate = 48000, cc_channels = channels,
           cc_format = PcmS16Le, cc_frameDuration = captureFrameDuration (ct_config c)\<rparr>;
         (e, result) = w_startCapture W capture e
     in case result of
       Inl err \<Rightarrow> ((ui_fail (CaptureFailed (device_label device) err) c, e), False)
     | Inr h \<Rightarrow> ((set_pipeline x \<lparr>tp_buffer = Some ring, tp_stream = Some h,
           tp_synchronizer = Some (new_track_sync F (app_sync_config channels)), tp_writerTrack = writerTrack,
           tp_feedsSttStream = feedsSttStream\<rparr> c, e), True))"

definition startStreams :: "'d float_ops \<Rightarrow> 'e world \<Rightarrow> 'd controller \<times> 'e \<Rightarrow> ('d controller \<times> 'e) \<times> bool" where
  "startStreams F W = (\<lambda>(c, e).
     let mic = microphoneSelected c;
         ((c, e), good) = (if mic then startTrack F W MicrophoneTrack
             (ct_microphones c ! nat (ct_selectedMicrophone c)) Microphone 1 (ct_writerMicrophoneTrack c) True (c, e)
           else ((c, e), True))
     in if \<not> good then ((c, e), False)
     else
       let out = systemOutputSelected c;
           ((c, e), good) = (if out then startTrack F W SystemOutputTrack
               (ct_systemOutputs c ! nat (ct_selectedSystemOutput c)) SystemOutput 2
               (ct_writerSystemOutputTrack c) (\<not> mic) (c, e)
             else ((c, e), True))
       in ((c, e), good \<and> (mic \<or> out)))"

section \<open>The recording file\<close>

text \<open>
  The search for a file name that is not taken: \<open>suffix\<close> is an \<open>int\<close>, whose increment past
  its range is undefined.
\<close>

partial_function (option) fresh_name :: "(string \<Rightarrow> bool) \<Rightarrow> (nat \<Rightarrow> string) \<Rightarrow> string \<Rightarrow> nat \<Rightarrow> string option" where
  "fresh_name taken name candidate n =
     (if \<not> taken candidate then Some candidate
      else if n = 2 ^ 31 - 1 then None
      else fresh_name taken name (name n) (n + 1))"

definition archival_track :: "track_kind \<Rightarrow> channel_count \<Rightarrow> string \<Rightarrow> recording_track_config" where
  "archival_track kind channels title = \<lparr>rt_kind = kind,
     rt_format = \<lparr>tf_sampleRate = 48000, tf_channels = channels, tf_format = PcmS16Le\<rparr>, rt_title = title\<rparr>"

definition writer_tracks :: "bool \<Rightarrow> bool \<Rightarrow> recording_track_config list" where
  "writer_tracks mic out = (if mic then [archival_track Microphone 1 ''Microphone''] else [])
     @ (if out then [archival_track SystemOutput 2 ''System output''] else [])"

definition recording_candidate :: "'e world \<Rightarrow> string \<Rightarrow> recording_track_config list \<Rightarrow> 'e \<Rightarrow> string option" where
  "recording_candidate W directory tracks e =
     (let extension = (if length tracks = 1 then ''.flac'' else ''.mka'');
          base = ''voxmesh-'' @ w_stamp W e;
          path = w_filePath W directory
      in fresh_name (\<lambda>p. w_exists W p e) (\<lambda>n. path (base @ ''-'' @ to_string n @ extension)) (path (base @ extension)) 2)"

definition createWriter :: "'e world \<Rightarrow> 'd controller \<times> 'e \<Rightarrow> (('d controller \<times> 'e) \<times> bool) option" where
  "createWriter W = (\<lambda>(c, e).
     let mic = microphoneSelected c; out = systemOutputSelected c; tracks = writer_tracks mic out;
         c = c\<lparr>ct_writerMicrophoneTrack := (if mic then 0 else - 1),
               ct_writerSystemOutputTrack := (if out then (if mic then 1 else 0) else - 1)\<rparr>;
         (e, made) = w_mkpath W (ct_outputDirectory c) e
     in if \<not> made then Some ((ui_fail CannotCreateFolder c, e), False)
     else do {
       candidate \<leftarrow> recording_candidate W (ct_outputDirectory c) tracks e;
       let (result, e) = createRecordingWriter (w_media W) \<lparr>rc_outputFile = candidate, rc_tracks = tracks\<rparr> e;
       Some (case result of
         Inl err \<Rightarrow> ((ui_fail (CannotOpenRecording err) c, e), False)
       | Inr w \<Rightarrow> ((c\<lparr>ct_writer := Some w, ct_writerFailed := False, ct_writerFailureReported := False,
             ct_pendingOutputFile := candidate\<rparr>, e), True)) })"

definition discardWriter :: "'e world \<Rightarrow> 'd controller \<times> 'e \<Rightarrow> 'd controller \<times> 'e" where
  "discardWriter W = (\<lambda>(c, e).
     let (c, e) = (case ct_writer c of
           None \<Rightarrow> (c, e)
         | Some w \<Rightarrow> (c\<lparr>ct_writer := None\<rparr>, snd (writer_abort (w_media W) (w, e))))
     in (c\<lparr>ct_pendingOutputFile := []\<rparr>, e))"

section \<open>Streaming transcription\<close>

definition stt_producer_config :: "'d controller \<Rightarrow> stt_stream_config" where
  "stt_producer_config c = \<lparr>sc_input = \<lparr>tf_sampleRate = 48000, tf_channels = (if microphoneSelected c then 1 else 2),
     tf_format = PcmS16Le\<rparr>, sc_output = sttStream (ct_config c), sc_frameDuration = sttFrameDuration (ct_config c)\<rparr>"

definition stt_client_config_for :: "string \<Rightarrow> string \<Rightarrow> stt_client_config" where
  "stt_client_config_for endpoint session = \<lparr>sc_endpoint = endpoint, sc_session = \<lparr>si_tenantId = ''local'',
     si_meetingId = [], si_sessionId = session, si_trackId = ''stt'', si_provider = ''desktop''\<rparr>,
     sc_sendQueueCapacity = 64, sc_connectTimeoutMs = 2000\<rparr>"

definition startSttStreaming :: "'d float_ops \<Rightarrow> 'e world \<Rightarrow> 'd controller \<times> 'e \<Rightarrow> 'd controller \<times> 'e" where
  "startSttStreaming F W = (\<lambda>(c, e).
     if ct_sttEndpoint c = [] then (c, e)
     else
       let c = c\<lparr>ct_transcriptLines := [], ct_transcriptSegmentIds := []\<rparr> in
       (case SttProducer.create F (stt_producer_config c) of
         None \<Rightarrow> (ui_fail TranscriptionUnavailable c, e)
       | Some producer \<Rightarrow>
           let client = createGrpcSttStreamClient (stt_client_config_for (ct_sttEndpoint c) (w_isoTime W e));
               (e, connected, opened) = w_connect W (ct_sttEndpoint c) e;
               (client, started) = client_start True connected opened client
           in if \<not> started then (ui_fail TranscriptionUnreachable c, e)
              else (c\<lparr>ct_sttProducer := Some producer, ct_sttClient := Some client, ct_sttActive := True\<rparr>, e)))"

text \<open>The client leaves the controller; its \<open>stop\<close> is the one of \<open>SttClient\<close>.\<close>

definition stopSttStreaming :: "'d controller \<Rightarrow> 'd controller" where
  "stopSttStreaming c = (let c = c\<lparr>ct_sttClient := None, ct_sttProducer := None\<rparr>
     in if ct_sttActive c then c\<lparr>ct_sttActive := False\<rparr> else c)"

text \<open>The ellipsis is the three bytes of its UTF-8 form.\<close>

definition transcript_line :: "transcript_update \<Rightarrow> string" where
  "transcript_line u = (if tu_mutableText u = [] then tu_stableText u
     else tu_stableText u @ (if tu_stableText u = [] then [] else '' '') @ tu_mutableText u
       @ [CHR 0xE2, CHR 0x80, CHR 0xA6])"

fun index_of :: "string \<Rightarrow> string list \<Rightarrow> nat \<Rightarrow> nat option" where
  "index_of x [] i = None"
| "index_of x (y # ys) i = (if y = x then Some i else index_of x ys (Suc i))"

definition applyTranscript :: "transcript_update \<Rightarrow> 'd controller \<Rightarrow> 'd controller" where
  "applyTranscript u c =
     (case index_of (tu_segmentId u) (ct_transcriptSegmentIds c) 0 of
       Some i \<Rightarrow> c\<lparr>ct_transcriptLines := (ct_transcriptLines c)[i := transcript_line u]\<rparr>
     | None \<Rightarrow> c\<lparr>ct_transcriptLines := ct_transcriptLines c @ [transcript_line u],
         ct_transcriptSegmentIds := ct_transcriptSegmentIds c @ [tu_segmentId u]\<rparr>)"

section \<open>The transport controls\<close>

definition start_op :: "'d float_ops \<Rightarrow> 'e world \<Rightarrow> 'd controller \<times> 'e \<Rightarrow> (('d controller \<times> 'e) \<times> bool) option" where
  "start_op F W = (\<lambda>(c, e).
     if \<not> isIdle c then Some ((c, e), False)
     else
       let (c, e) = (if ct_microphones c = [] \<and> ct_systemOutputs c = [] then refreshDevices W (c, e) else (c, e)) in
       if ct_selectedMicrophone c < 0 \<and> ct_selectedSystemOutput c < 0 then Some ((ui_fail NoDevices c, e), False)
       else do {
         ((c, e), created) \<leftarrow> createWriter W (c\<lparr>ct_lastError := None\<rparr>, e);
         if \<not> created then Some ((c, e), False)
         else
           let (c, good) = fire session_event.Start c in
           if \<not> good then Some (discardWriter W (c, e), False)
           else
             let ((c, e), started) = startStreams F W (startSttStreaming F W (c, e)) in
             if \<not> started then do {
               ce \<leftarrow> stopStreams F W (c, e);
               let (c, e) = discardWriter W ce;
               let c = fst (fire Reset (fst (fire Fault (stopSttStreaming c))));
               Some ((c, e), False) }
             else Some ((c\<lparr>ct_statsTimer := True\<rparr>, e), True) })"

definition pause_op :: "'d float_ops \<Rightarrow> 'e world \<Rightarrow> 'd controller \<times> 'e \<Rightarrow> (('d controller \<times> 'e) \<times> bool) option" where
  "pause_op F W = (\<lambda>(c, e).
     let (c, good) = fire Pause c in
     if \<not> good then Some ((c, e), False)
     else do { ce \<leftarrow> stopStreams F W (c, e); Some (ce, True) })"

definition resume_op :: "'d float_ops \<Rightarrow> 'e world \<Rightarrow> 'd controller \<times> 'e \<Rightarrow> ('d controller \<times> 'e) \<times> bool" where
  "resume_op F W = (\<lambda>(c, e).
     if rs_state (ct_session c) \<noteq> Paused then ((c, e), False)
     else
       let ((c, e), started) = startStreams F W (c, e) in
       if \<not> started then ((fst (fire Fault c), e), False)
       else let (c, good) = fire Resume c in ((c, e), good))"

text \<open>The locked block of \<open>stop\<close>: what becomes of the writer, the saved file and the error.\<close>

definition finish_writer :: "'e world \<Rightarrow> 'd controller \<times> 'e \<Rightarrow> (('d controller \<times> 'e) \<times> string \<times> ui_message option) option" where
  "finish_writer W = (\<lambda>(c, e).
     case ct_writer c of
       None \<Rightarrow> Some ((c, e), [], None)
     | Some w \<Rightarrow>
         let drop_writer = c\<lparr>ct_writer := None\<rparr> in
         if ct_writerFailed c then Some ((drop_writer, snd (cleanup (w_media W) (w, e))), [], Some WriteInterrupted)
         else if rs_framesWritten (rw_stats w) = 0
         then Some ((drop_writer, snd (writer_abort (w_media W) (w, e))), [], Some NothingCaptured)
         else do {
           ((w, e), good) \<leftarrow> writer_finalize (w_media W) (w, e);
           Some ((drop_writer, snd (cleanup (w_media W) (w, e))),
             if good then (ct_pendingOutputFile c, None) else ([], Some (NotFinalized (rw_lastError w)))) })"

definition stop_op :: "'d float_ops \<Rightarrow> 'e world \<Rightarrow> 'd controller \<times> 'e \<Rightarrow> (('d controller \<times> 'e) \<times> bool) option" where
  "stop_op F W = (\<lambda>(c, e).
     let (c, good) = fire Stop c in
     if \<not> good then Some ((c, e), False)
     else do {
       (c, e) \<leftarrow> stopStreams F W (c, e);
       ((c, e), savedFile, finalizeError) \<leftarrow> finish_writer W (c\<lparr>ct_statsTimer := False\<rparr>, e);
       let c = stopSttStreaming (c\<lparr>ct_pendingOutputFile := []\<rparr>);
       let c = (if savedFile \<noteq> [] then c\<lparr>ct_lastRecordingFile := savedFile\<rparr>
         else case finalizeError of None \<Rightarrow> c | Some message \<Rightarrow> ui_fail message c);
       let c = fst (fire Reset (fst (fire StopComplete c)));
       Some ((c, e), True) })"

definition onStatsTick :: "'d controller \<Rightarrow> 'd controller" where
  "onStatsTick c = (if ct_writerFailed c \<and> \<not> ct_writerFailureReported c
     then ui_fail SavingFailed (c\<lparr>ct_writerFailureReported := True\<rparr>) else c)"

definition destroy :: "'d float_ops \<Rightarrow> 'e world \<Rightarrow> 'd controller \<times> 'e \<Rightarrow> ('d controller \<times> 'e) option" where
  "destroy F W ce = do {
     (c, e) \<leftarrow> stopStreams F W ce;
     Some (stopSttStreaming c, e) }"

section \<open>Draining\<close>

text \<open>What no capture or drain step changes: who exists, and everything the transport controls set.\<close>

definition shape :: "'d track_pipeline \<Rightarrow> bool \<times> bool \<times> bool" where
  "shape p = (tp_buffer p = None, tp_stream p = None, tp_synchronizer p = None)"

definition skeleton :: "'d controller \<Rightarrow> recording_session \<times> recorder_config \<times> (bool \<times> bool \<times> bool)
    \<times> (bool \<times> bool \<times> bool) \<times> bool \<times> bool \<times> bool \<times> bool \<times> bool \<times> string" where
  "skeleton c = (ct_session c, ct_config c, shape (ct_microphonePipeline c), shape (ct_systemOutputPipeline c),
     ct_writer c = None, ct_sttProducer c = None, ct_sttClient c = None, ct_sttActive c, ct_statsTimer c,
     ct_pendingOutputFile c)"

definition rings_ok :: "'d controller \<Rightarrow> bool" where
  [inv_simps]: "rings_ok c \<longleftrightarrow> (\<forall>b. tp_buffer (ct_microphonePipeline c) = Some b \<longrightarrow> ring_inv b)
     \<and> (\<forall>b. tp_buffer (ct_systemOutputPipeline c) = Some b \<longrightarrow> ring_inv b)"

lemma pipeline_set [simp]:
  "pipeline y (set_pipeline x p c) = (if y = x then p else pipeline y c)"
  by (cases x; cases y) simp_all

lemma set_pipeline_set [simp]: "set_pipeline x q (set_pipeline x p c) = set_pipeline x q c"
  by (cases x) simp_all

lemma set_pipeline_fields [simp]:
  "ct_writer (set_pipeline x p c) = ct_writer c" "ct_writerFailed (set_pipeline x p c) = ct_writerFailed c"
  "ct_sttProducer (set_pipeline x p c) = ct_sttProducer c" "ct_sttClient (set_pipeline x p c) = ct_sttClient c"
  "ct_framesCaptured (set_pipeline x p c) = ct_framesCaptured c" "ct_session (set_pipeline x p c) = ct_session c"
  by (cases x; simp)+

lemma feed_cases:
  assumes "feed F now feeds outs c = Some c'"
  obtains "c' = c"
  | p cl where "c' = c\<lparr>ct_sttProducer := Some p, ct_sttClient := Some cl\<rparr>" "ct_sttProducer c \<noteq> None" "ct_sttClient c \<noteq> None"
  using assms by (auto simp: feed_def bind_eq_Some_conv split: bool.splits option.splits)

lemma store_cases:
  assumes "store m t outs (c, e) = Some (c', e')"
  obtains "c' = c" "e' = e" "ct_writer c = None \<or> t < 0 \<or> ct_writerFailed c"
  | w w' good where "ct_writer c = Some w" "0 \<le> t" "\<not> ct_writerFailed c"
      "write_all m (nat t) outs (w, e) = Some ((w', e'), good)" "c' = c\<lparr>ct_writer := Some w', ct_writerFailed := \<not> good\<rparr>"
proof (cases "ct_writer c")
  case None
  with assms that(1) show thesis by (simp add: store_def)
next
  case (Some w)
  show thesis
  proof (cases "t < 0 \<or> ct_writerFailed c")
    case True
    with assms Some that(1) show thesis by (simp add: store_def)
  next
    case False
    with assms Some obtain w' e1 good where "write_all m (nat t) outs (w, e) = Some ((w', e1), good)"
      "c' = c\<lparr>ct_writer := Some w', ct_writerFailed := \<not> good\<rparr> \<and> e' = e1"
      by (auto simp: store_def bind_eq_Some_conv)
    with that(2) [of w w' good] Some False show thesis by simp
  qed
qed

lemma drain_frame_cases:
  assumes "drain_frame F W x f (c, e) = Some (c', e')"
  obtains s s' outs c1 where "tp_synchronizer (pipeline x c) = Some s" "process F s f = Some (s', outs)"
    "feed F (w_unixMs W e) (tp_feedsSttStream (pipeline x c)) outs ((set_pipeline x
       ((pipeline x c)\<lparr>tp_synchronizer := Some s'\<rparr>) c)\<lparr>ct_framesCaptured := ct_framesCaptured c + of_nat (length outs)\<rparr>)
     = Some c1"
    "store (w_media W) (tp_writerTrack (pipeline x c)) outs (c1, e) = Some (c', e')"
  using assms by (auto simp: drain_frame_def bind_eq_Some_conv Let_def)

lemma skeleton_sync:
  "tp_synchronizer (pipeline x c) = Some s \<Longrightarrow>
   skeleton (set_pipeline x ((pipeline x c)\<lparr>tp_synchronizer := Some s'\<rparr>) c) = skeleton c"
  by (cases x) (simp_all add: skeleton_def shape_def)

lemma skeleton_captured:
  "skeleton (c\<lparr>ct_framesCaptured := n\<rparr>) = skeleton c" "pipeline y (c\<lparr>ct_framesCaptured := n\<rparr>) = pipeline y c"
  by (simp add: skeleton_def, cases y, simp_all)

lemma feed_frame: "feed F now feeds outs c = Some c' \<Longrightarrow> skeleton c' = skeleton c \<and> pipeline y c' = pipeline y c"
  by (erule feed_cases; cases y) (auto simp: skeleton_def)

lemma store_frame: "store m t outs (c, e) = Some (c', e') \<Longrightarrow> skeleton c' = skeleton c \<and> pipeline y c' = pipeline y c"
  by (erule store_cases; cases y) (auto simp: skeleton_def)

lemma drain_frame_frame:
  assumes "drain_frame F W x f (c, e) = Some (c', e')"
  shows "skeleton c' = skeleton c \<and> tp_buffer (pipeline y c') = tp_buffer (pipeline y c)"
proof -
  from assms obtain s s' outs c1 where 1: "tp_synchronizer (pipeline x c) = Some s" and
    "process F s f = Some (s', outs)" and f: "feed F (w_unixMs W e) (tp_feedsSttStream (pipeline x c)) outs ((set_pipeline x
       ((pipeline x c)\<lparr>tp_synchronizer := Some s'\<rparr>) c)\<lparr>ct_framesCaptured := ct_framesCaptured c + of_nat (length outs)\<rparr>)
     = Some c1" and
    st: "store (w_media W) (tp_writerTrack (pipeline x c)) outs (c1, e) = Some (c', e')"
    by (rule drain_frame_cases)
  let ?c = "(set_pipeline x ((pipeline x c)\<lparr>tp_synchronizer := Some s'\<rparr>) c)
    \<lparr>ct_framesCaptured := ct_framesCaptured c + of_nat (length outs)\<rparr>"
  have "skeleton ?c = skeleton c" "tp_buffer (pipeline y ?c) = tp_buffer (pipeline y c)"
    using skeleton_sync [OF 1] by (simp_all add: skeleton_captured)
  moreover have "skeleton c1 = skeleton ?c \<and> pipeline y c1 = pipeline y ?c"
    by (rule feed_frame [OF f])
  moreover have "skeleton c' = skeleton c1 \<and> pipeline y c' = pipeline y c1"
    by (rule store_frame [OF st])
  ultimately show ?thesis by simp
qed

lemma rings_ok_cong:
  "\<forall>y. tp_buffer (pipeline y c') = tp_buffer (pipeline y c) \<Longrightarrow> rings_ok c' = rings_ok c"
  using pipeline.simps by (metis rings_ok_def)

lemma skeleton_buffer:
  "tp_buffer (pipeline x c) = Some b \<Longrightarrow>
   skeleton (set_pipeline x ((pipeline x c)\<lparr>tp_buffer := Some b'\<rparr>) c) = skeleton c"
  by (cases x) (simp_all add: skeleton_def shape_def)

lemma rings_ok_buffer:
  "rings_ok c \<Longrightarrow> ring_inv b' \<Longrightarrow> rings_ok (set_pipeline x ((pipeline x c)\<lparr>tp_buffer := Some b'\<rparr>) c)"
  by (cases x) (simp_all add: rings_ok_def)

lemma rings_okD: "rings_ok c \<Longrightarrow> tp_buffer (pipeline x c) = Some b \<Longrightarrow> ring_inv b"
  by (cases x) (simp_all add: rings_ok_def)

lemma onFrame_frame: "rings_ok c \<Longrightarrow> rings_ok (onFrame x f c) \<and> skeleton (onFrame x f c) = skeleton c"
  by (auto simp: onFrame_def skeleton_buffer split: option.splits
      intro: rings_ok_buffer ring.push_invar rings_okD)

lemma onFrames_frame: "rings_ok c \<Longrightarrow> rings_ok (fold (onFrame x) fs c) \<and> skeleton (fold (onFrame x) fs c) = skeleton c"
  by (induction fs arbitrary: c) (auto simp: onFrame_frame)

lemma drain_one_cases:
  assumes "drain_one F W x (c, e) = Some ((c', e'), again)"
  obtains (nothing) "c' = c" "e' = e"
  | (frame) b s f b' where "tp_buffer (pipeline x c) = Some b" "tp_synchronizer (pipeline x c) = Some s"
      "tryPop (w_moved_from W) b = (b', Some f)"
      "drain_frame F W x f (set_pipeline x ((pipeline x c)\<lparr>tp_buffer := Some b'\<rparr>) c, e) = Some (c', e')"
  using assms by (auto simp: drain_one_def bind_eq_Some_conv split: option.splits prod.splits)

lemma drain_one_frame:
  assumes "drain_one F W x (c, e) = Some ((c', e'), again)" and "rings_ok c"
  shows "skeleton c' = skeleton c \<and> rings_ok c'"
  using assms(1)
proof (cases rule: drain_one_cases)
  case (frame b s f b')
  from drain_frame_frame [OF frame(4)] have "skeleton c' = skeleton (set_pipeline x ((pipeline x c)\<lparr>tp_buffer := Some b'\<rparr>) c)"
    and "\<forall>y. tp_buffer (pipeline y c') = tp_buffer (pipeline y (set_pipeline x ((pipeline x c)\<lparr>tp_buffer := Some b'\<rparr>) c))" by blast+
  moreover from rings_ok_cong [OF this(2)] have "rings_ok c' = rings_ok (set_pipeline x ((pipeline x c)\<lparr>tp_buffer := Some b'\<rparr>) c)" .
  moreover have "ring_inv b'" using ring.pop_invar [of b "w_moved_from W"] rings_okD [OF assms(2) frame(1)] frame(3) by simp
  ultimately show ?thesis using skeleton_buffer [OF frame(1)] rings_ok_buffer [OF assms(2)] by simp
qed (use assms(2) in simp)

text \<open>What every turn of the loop keeps, the whole drain keeps.\<close>

lemma drain_rule:
  assumes "drainPipelineLocked F W x c e = Some ce'" and "I c"
    and step: "\<And>c e c' e' again. drain_one F W x (c, e) = Some ((c', e'), again) \<Longrightarrow> I c \<Longrightarrow> I c'"
  shows "I (fst ce')"
proof -
  have "F = F \<longrightarrow> W = W \<longrightarrow> x = x \<longrightarrow> I c \<longrightarrow> I (fst ce')"
  proof (rule drainPipelineLocked.raw_induct [where P =
      "\<lambda>F' W' x' c e ce'. F' = F \<longrightarrow> W' = W \<longrightarrow> x' = x \<longrightarrow> I c \<longrightarrow> I (fst ce')", OF _ assms(1)], intro impI)
    fix drain F' and W' :: "'b world" and x' c e ce'
    assume IH: "\<And>F' W' x' c e ce'. drain F' W' x' c e = Some ce' \<Longrightarrow> F' = F \<longrightarrow> W' = W \<longrightarrow> x' = x \<longrightarrow> I c \<longrightarrow> I (fst ce')"
      and body: "Option.bind (drain_one F' W' x' (c, e))
        (\<lambda>((c', e'), again). if again then drain F' W' x' c' e' else Some (c', e')) = Some ce'"
      and eqs: "F' = F" "W' = W" "x' = x" and c: "I c"
    from body [unfolded eqs] obtain c1 e1 again where s: "drain_one F W x (c, e) = Some ((c1, e1), again)"
      "(if again then drain F W x c1 e1 else Some (c1, e1)) = Some ce'" by (auto simp: bind_eq_Some_conv)
    with step [OF s(1) c] IH [of F W x c1 e1 ce'] show "I (fst ce')" by (cases again) auto
  qed
  with assms(2) show ?thesis by simp
qed

lemma drain_frame_rule:
  assumes "drainPipelineLocked F W x c e = Some ce'" and "rings_ok c"
  shows "skeleton (fst ce') = skeleton c \<and> rings_ok (fst ce')"
  using drain_rule [OF assms(1), of "\<lambda>c1. skeleton c1 = skeleton c \<and> rings_ok c1"] assms(2) drain_one_frame by fastforce

section \<open>The controller's invariant\<close>

text \<open>
  Everything that can happen to a controller: calls from the user interface, the stats timer, a
  queued transcript update, a frame delivered on a capture thread, a turn of the drain thread's
  loop, and a step of the transcription client's threads.
\<close>

datatype app_event = Refresh | StartPressed | PausePressed | ResumePressed | StopPressed
  | SelectMicrophone int | SelectSystemOutput int | SetOutputDirectory string | SetSttEndpoint string
  | Tick | TranscriptArrived transcript_update | FrameCaptured which audio_frame | DrainTurn which
  | ClientStep client_event

fun thread_event :: "client_event \<Rightarrow> bool" where
  "thread_event (SttClient.Start _ _ _) = False"
| "thread_event (Send _ _) = False"
| "thread_event StopCall = False"
| "thread_event StopReturn = False"
| "thread_event _ = True"

definition client_thread_step :: "client_event \<Rightarrow> 'd controller \<Rightarrow> 'd controller" where
  "client_thread_step ev c = (case ct_sttClient c of
     None \<Rightarrow> c
   | Some cl \<Rightarrow> (case (if thread_event ev then client_exec ev cl else None) of
       None \<Rightarrow> c | Some cl' \<Rightarrow> c\<lparr>ct_sttClient := Some cl'\<rparr>))"

fun app_step :: "'d float_ops \<Rightarrow> 'e world \<Rightarrow> app_event \<Rightarrow> 'd controller \<times> 'e \<Rightarrow> ('d controller \<times> 'e) option" where
  "app_step F W Refresh ce = Some (refreshDevices W ce)"
| "app_step F W StartPressed ce = map_option fst (start_op F W ce)"
| "app_step F W PausePressed ce = map_option fst (pause_op F W ce)"
| "app_step F W ResumePressed ce = Some (fst (resume_op F W ce))"
| "app_step F W StopPressed ce = map_option fst (stop_op F W ce)"
| "app_step F W (SelectMicrophone i) (c, e) = Some (setSelectedMicrophone i c, e)"
| "app_step F W (SelectSystemOutput i) (c, e) = Some (setSelectedSystemOutput i c, e)"
| "app_step F W (SetOutputDirectory d) (c, e) = Some (setOutputDirectory d c, e)"
| "app_step F W (SetSttEndpoint s) (c, e) = Some (setSttEndpoint s c, e)"
| "app_step F W Tick (c, e) = Some (onStatsTick c, e)"
| "app_step F W (TranscriptArrived u) (c, e) = Some (applyTranscript u c, e)"
| "app_step F W (FrameCaptured x f) (c, e) = Some (onFrame x f c, e)"
| "app_step F W (DrainTurn x) ce = map_option fst (drain_one F W x ce)"
| "app_step F W (ClientStep ev) (c, e) = Some (client_thread_step ev c, e)"

fun app_run :: "'d float_ops \<Rightarrow> 'e world \<Rightarrow> app_event list \<Rightarrow> 'd controller \<times> 'e \<Rightarrow> ('d controller \<times> 'e) option" where
  "app_run F W [] ce = Some ce"
| "app_run F W (ev # evs) ce = do { ce \<leftarrow> app_step F W ev ce; app_run F W evs ce }"

interpretation app: event_system "app_step F W" "app_run F W" for F W
  by unfold_locales simp_all

definition app_state :: "'d controller \<Rightarrow> session_state" where
  "app_state c = rs_state (ct_session c)"

definition gone :: "bool \<times> bool \<times> bool" where
  "gone = (True, True, True)"

definition running :: "bool \<times> bool \<times> bool" where
  "running = (False, False, False)"

definition controller_ok :: "'d controller \<Rightarrow> bool" where
  [inv_simps]: "controller_ok c \<longleftrightarrow>
     app_state c \<in> {Idle, Recording, Paused, session_state.Failed}
   \<and> (app_state c = Idle \<longleftrightarrow> ct_writer c = None) \<and> (app_state c = Idle \<longleftrightarrow> \<not> ct_statsTimer c)
   \<and> (app_state c = Idle \<longleftrightarrow> ct_pendingOutputFile c = []) \<and> (app_state c = Idle \<longrightarrow> ct_sttClient c = None)
   \<and> (app_state c \<in> {Idle, Paused} \<longrightarrow> shape (ct_microphonePipeline c) = gone \<and> shape (ct_systemOutputPipeline c) = gone)
   \<and> (app_state c = Recording \<longrightarrow> shape (ct_microphonePipeline c) = running \<or> shape (ct_systemOutputPipeline c) = running)
   \<and> shape (ct_microphonePipeline c) \<in> {gone, running} \<and> shape (ct_systemOutputPipeline c) \<in> {gone, running}
   \<and> (ct_sttActive c \<longleftrightarrow> ct_sttClient c \<noteq> None) \<and> (ct_sttActive c \<longleftrightarrow> ct_sttProducer c \<noteq> None)
   \<and> ct_config c = default_config \<and> rings_ok c"

lemma controller_ok_cong:
  "skeleton c' = skeleton c \<Longrightarrow> rings_ok c' = rings_ok c \<Longrightarrow> controller_ok c' = controller_ok c"
  by (simp add: controller_ok_def skeleton_def app_state_def)

lemma shape_no_pipeline [simp]: "shape no_pipeline = gone"
  by (simp add: shape_def no_pipeline_def gone_def)

lemma gone_running [simp]: "gone \<noteq> running" "running \<noteq> gone"
  by (simp_all add: gone_def running_def)

lemma stop_stream_frame:
  assumes "stop_stream W x (c, e) = (c', e')" and "rings_ok c"
  shows "skeleton c' = skeleton c \<and> rings_ok c'"
  using assms onFrames_frame [OF assms(2)]
  by (auto simp: stop_stream_def split_beta Let_def split: option.splits)

text \<open>What the stop and the start of the streams leave unchanged.\<close>

definition stopped_skeleton :: "'d controller \<Rightarrow> recording_session \<times> recorder_config \<times> bool \<times> bool \<times> bool \<times> bool \<times> bool \<times> string" where
  "stopped_skeleton c = (ct_session c, ct_config c, ct_writer c = None, ct_sttProducer c = None,
     ct_sttClient c = None, ct_sttActive c, ct_statsTimer c, ct_pendingOutputFile c)"

lemma skeleton_stopped: "skeleton c' = skeleton c \<Longrightarrow> stopped_skeleton c' = stopped_skeleton c"
  by (simp add: skeleton_def stopped_skeleton_def)

lemma stopStreams_cases:
  assumes "stopStreams F W (c, e) = Some (c', e')"
  obtains c1 e1 c2 e2 c3 e3 c4 where "stop_stream W MicrophoneTrack (c, e) = (c1, e1)"
    "stop_stream W SystemOutputTrack (c1, e1) = (c2, e2)" "drainPipelineLocked F W MicrophoneTrack c2 e2 = Some (c3, e3)"
    "drainPipelineLocked F W SystemOutputTrack c3 e3 = Some (c4, e')"
    "c' = c4\<lparr>ct_microphonePipeline := no_pipeline, ct_systemOutputPipeline := no_pipeline\<rparr>"
proof -
  obtain c1 e1 where 1: "stop_stream W MicrophoneTrack (c, e) = (c1, e1)" by fastforce
  obtain c2 e2 where 2: "stop_stream W SystemOutputTrack (c1, e1) = (c2, e2)" by fastforce
  from assms that [OF 1 2] 1 2 show thesis by (auto simp: stopStreams_def bind_eq_Some_conv)
qed

text \<open>What stopping a stream, a turn of the drain and dropping the pipelines keep, the stop of the streams keeps.\<close>

lemma stopStreams_rule:
  assumes "stopStreams F W (c, e) = Some (c', e')" and "I c"
    and "\<And>y c e c' e'. stop_stream W y (c, e) = (c', e') \<Longrightarrow> I c \<Longrightarrow> I c'"
    and "\<And>y c e c' e' again. drain_one F W y (c, e) = Some ((c', e'), again) \<Longrightarrow> I c \<Longrightarrow> I c'"
    and "\<And>c. I c \<Longrightarrow> I (c\<lparr>ct_microphonePipeline := no_pipeline, ct_systemOutputPipeline := no_pipeline\<rparr>)"
  shows "I c'"
  using assms(1)
proof (cases rule: stopStreams_cases)
  case (1 c1 e1 c2 e2 c3 e3 c4)
  have "I c2" by (rule assms(3) [OF 1(2) assms(3) [OF 1(1) assms(2)]])
  from drain_rule [where I = I, OF 1(3) this assms(4)] have "I c3" by simp
  from drain_rule [where I = I, OF 1(4) this assms(4)] assms(5) show ?thesis by (simp add: 1(5))
qed

lemma stopStreams_frame:
  assumes "stopStreams F W (c, e) = Some (c', e')" and "rings_ok c"
  shows "stopped_skeleton c' = stopped_skeleton c \<and> rings_ok c' \<and> ct_microphonePipeline c' = no_pipeline
    \<and> ct_systemOutputPipeline c' = no_pipeline"
proof -
  have "stopped_skeleton c' = stopped_skeleton c \<and> rings_ok c'"
  proof (rule stopStreams_rule [where I = "\<lambda>d. stopped_skeleton d = stopped_skeleton c \<and> rings_ok d", OF assms(1)])
    fix y c1 e1 c2 e2
    assume "stop_stream W y (c1, e1) = (c2, e2)" and i: "stopped_skeleton c1 = stopped_skeleton c \<and> rings_ok c1"
    from stop_stream_frame [OF this(1) conjunct2 [OF i]] skeleton_stopped [of c2 c1] i
    show "stopped_skeleton c2 = stopped_skeleton c \<and> rings_ok c2" by simp
  next
    fix y c1 e1 c2 e2 again
    assume "drain_one F W y (c1, e1) = Some ((c2, e2), again)" and i: "stopped_skeleton c1 = stopped_skeleton c \<and> rings_ok c1"
    from drain_one_frame [OF this(1) conjunct2 [OF i]] skeleton_stopped [of c2 c1] i
    show "stopped_skeleton c2 = stopped_skeleton c \<and> rings_ok c2" by simp
  qed (use assms(2) in \<open>simp_all add: stopped_skeleton_def rings_ok_def no_pipeline_def\<close>)
  moreover have "ct_microphonePipeline c' = no_pipeline \<and> ct_systemOutputPipeline c' = no_pipeline"
    using assms(1) by (cases rule: stopStreams_cases) simp
  ultimately show ?thesis by simp
qed

lemma startTrack_frame:
  assumes "startTrack F W x device track channels wt feeds (c, e) = ((c', e'), good)" and "rings_ok c"
  shows "stopped_skeleton c' = stopped_skeleton c \<and> rings_ok c' \<and> shape (pipeline x c') = (if good then running else shape (pipeline x c))
    \<and> (y \<noteq> x \<longrightarrow> pipeline y c' = pipeline y c)"
  using assms new_ring_inv [of empty_frame]
  by (cases x; cases y)
    (auto simp: startTrack_def Let_def stopped_skeleton_def rings_ok_def shape_def running_def ui_fail_def
      split: prod.splits sum.splits)

text \<open>The microphone's track, and then the system output's.\<close>

lemma startStreams_cases:
  assumes "startStreams F W (c, e) = ((c', e'), good)"
  obtains c1 e1 good1 good2 where
    "(if microphoneSelected c then startTrack F W MicrophoneTrack (ct_microphones c ! nat (ct_selectedMicrophone c)) Microphone 1
        (ct_writerMicrophoneTrack c) True (c, e) else ((c, e), True)) = ((c1, e1), good1)"
    "(if good1 \<and> systemOutputSelected c1 then startTrack F W SystemOutputTrack (ct_systemOutputs c1 ! nat (ct_selectedSystemOutput c1))
        SystemOutput 2 (ct_writerSystemOutputTrack c1) (\<not> microphoneSelected c) (c1, e1) else ((c1, e1), True)) = ((c', e'), good2)"
    "good \<longleftrightarrow> good1 \<and> good2 \<and> (microphoneSelected c \<or> systemOutputSelected c1)"
proof -
  obtain c1 e1 good1 where 1: "(if microphoneSelected c then startTrack F W MicrophoneTrack (ct_microphones c ! nat (ct_selectedMicrophone c))
      Microphone 1 (ct_writerMicrophoneTrack c) True (c, e) else ((c, e), True)) = ((c1, e1), good1)" by (metis prod.collapse)
  obtain c2 e2 good2 where 2: "(if good1 \<and> systemOutputSelected c1 then startTrack F W SystemOutputTrack
      (ct_systemOutputs c1 ! nat (ct_selectedSystemOutput c1)) SystemOutput 2 (ct_writerSystemOutputTrack c1)
      (\<not> microphoneSelected c) (c1, e1) else ((c1, e1), True)) = ((c2, e2), good2)" by (metis prod.collapse)
  have "c' = c2 \<and> e' = e2 \<and> (good \<longleftrightarrow> good1 \<and> good2 \<and> (microphoneSelected c \<or> systemOutputSelected c1))"
    using assms 1 2 by (auto simp: startStreams_def Let_def split: if_splits)
  with that 1 2 show thesis by blast
qed

lemma startStreams_rule:
  assumes "startStreams F W (c, e) = ((c', e'), good)" and "P c e"
    and "\<And>device c' e' good. microphoneSelected c \<Longrightarrow>
      startTrack F W MicrophoneTrack device Microphone 1 (ct_writerMicrophoneTrack c) True (c, e) = ((c', e'), good) \<Longrightarrow> P c' e'"
    and "\<And>c1 e1. P c1 e1 \<Longrightarrow> Q c1 e1"
    and "\<And>device c1 e1 c' e' good. P c1 e1 \<Longrightarrow> startTrack F W SystemOutputTrack device SystemOutput 2
      (ct_writerSystemOutputTrack c1) (\<not> microphoneSelected c) (c1, e1) = ((c', e'), good) \<Longrightarrow> Q c' e'"
  shows "Q c' e'"
  using assms(1)
proof (cases rule: startStreams_cases)
  case (1 c1 e1 good1 good2)
  have "P c1 e1" using 1(1) assms(2,3) by (auto split: if_splits)
  with 1(2) assms(4,5) show ?thesis by (auto split: if_splits)
qed

lemma startStreams_frame:
  assumes "startStreams F W (c, e) = ((c', e'), good)" and "rings_ok c"
    and "shape (ct_microphonePipeline c) = gone" and "shape (ct_systemOutputPipeline c) = gone"
  shows "stopped_skeleton c' = stopped_skeleton c \<and> rings_ok c'
    \<and> shape (ct_microphonePipeline c') \<in> {gone, running} \<and> shape (ct_systemOutputPipeline c') \<in> {gone, running}
    \<and> (good \<longrightarrow> shape (ct_microphonePipeline c') = running \<or> shape (ct_systemOutputPipeline c') = running)"
  using assms(1)
proof (cases rule: startStreams_cases)
  case (1 c1 e1 good1 good2)
  have m: "stopped_skeleton c1 = stopped_skeleton c \<and> rings_ok c1 \<and> shape (ct_systemOutputPipeline c1) = gone
    \<and> shape (ct_microphonePipeline c1) = (if microphoneSelected c \<and> good1 then running else gone)"
    using 1(1) startTrack_frame [OF _ assms(2), where x = MicrophoneTrack and y = SystemOutputTrack] assms(2-4)
    by (fastforce split: if_splits)
  have "stopped_skeleton c' = stopped_skeleton c1 \<and> rings_ok c' \<and> ct_microphonePipeline c' = ct_microphonePipeline c1
      \<and> shape (ct_systemOutputPipeline c') = (if good1 \<and> systemOutputSelected c1 \<and> good2 then running else gone)"
    using 1(2) startTrack_frame [where x = SystemOutputTrack and y = MicrophoneTrack] m by (fastforce split: if_splits)
  with m 1(3) show ?thesis by auto
qed

lemma fire_state:
  "fire ev c = (c', good) \<Longrightarrow> app_state c' = (case transition (app_state c) ev of None \<Rightarrow> app_state c | Some to \<Rightarrow> to)
     \<and> (good \<longleftrightarrow> transition (app_state c) ev \<noteq> None) \<and> (\<exists>s. c' = c\<lparr>ct_session := s\<rparr>)"
  using handle_state [of "ct_session c" ev] handle_result [of "ct_session c" ev]
  by (auto simp: fire_def app_state_def split_beta Let_def)

lemma app_state_session: "app_state (c\<lparr>ct_session := s\<rparr>) = rs_state s"
  by (simp add: app_state_def)

text \<open>The part of the state that the invariant speaks of and the writer's operations leave alone.\<close>

definition streams_part :: "'d controller \<Rightarrow> recording_session \<times> recorder_config \<times> 'd track_pipeline
    \<times> 'd track_pipeline \<times> 'd stt_producer option \<times> stt_client option \<times> bool \<times> bool" where
  "streams_part c = (ct_session c, ct_config c, ct_microphonePipeline c, ct_systemOutputPipeline c,
     ct_sttProducer c, ct_sttClient c, ct_sttActive c, ct_statsTimer c)"

lemma createWriter_cases:
  assumes "createWriter W (c, e) = Some ((c', e'), good)"
  obtains (failed) msg i j where "c' = ui_fail msg (c\<lparr>ct_writerMicrophoneTrack := i, ct_writerSystemOutputTrack := j\<rparr>)" "\<not> good"
  | (opened) w candidate e1 i j where "good"
      "c' = c\<lparr>ct_writerMicrophoneTrack := i, ct_writerSystemOutputTrack := j, ct_writer := Some w,
         ct_writerFailed := False, ct_writerFailureReported := False, ct_pendingOutputFile := candidate\<rparr>"
      "w_mkpath W (ct_outputDirectory c) e = (e1, True)"
      "recording_candidate W (ct_outputDirectory c) (writer_tracks (microphoneSelected c) (systemOutputSelected c)) e1 = Some candidate"
      "createRecordingWriter (w_media W) \<lparr>rc_outputFile = candidate,
         rc_tracks = writer_tracks (microphoneSelected c) (systemOutputSelected c)\<rparr> e1 = (Inr w, e')"
      "i = (if microphoneSelected c then 0 else - 1)"
      "j = (if systemOutputSelected c then (if microphoneSelected c then 1 else 0) else - 1)"
proof -
  let ?tracks = "writer_tracks (microphoneSelected c) (systemOutputSelected c)"
  obtain e1 made where 1: "w_mkpath W (ct_outputDirectory c) e = (e1, made)" by fastforce
  show thesis
  proof (cases made)
    case False
    with assms 1 show thesis by (intro failed) (auto simp: createWriter_def Let_def)
  next
    case True
    with assms 1 obtain cand where 2: "recording_candidate W (ct_outputDirectory c) ?tracks e1 = Some cand"
      by (auto simp: createWriter_def Let_def bind_eq_Some_conv)
    obtain r e2 where 3: "createRecordingWriter (w_media W) \<lparr>rc_outputFile = cand, rc_tracks = ?tracks\<rparr> e1 = (r, e2)"
      by fastforce
    show thesis
    proof (cases r)
      case (Inl err)
      with assms 1 2 3 True show thesis by (intro failed) (auto simp: createWriter_def Let_def)
    next
      case (Inr w)
      with assms 1 2 3 True show thesis by (intro opened [where w = w and candidate = cand]) (auto simp: createWriter_def Let_def)
    qed
  qed
qed

lemma createWriter_frame:
  assumes "createWriter W (c, e) = Some ((c', e'), good)"
  shows "streams_part c' = streams_part c
    \<and> (if good then ct_writer c' \<noteq> None \<and> ct_pendingOutputFile c' \<noteq> []
        else ct_writer c' = ct_writer c \<and> ct_pendingOutputFile c' = ct_pendingOutputFile c)"
  using assms
proof (cases rule: createWriter_cases)
  case failed
  then show ?thesis by (simp add: streams_part_def ui_fail_def)
next
  case opened
  from create_open(9) [OF opened(5)] show ?thesis by (simp add: opened(1,2) streams_part_def)
qed

lemma discardWriter_frame:
  assumes "discardWriter W (c, e) = (c', e')"
  shows "streams_part c' = streams_part c \<and> ct_writer c' = None \<and> ct_pendingOutputFile c' = []"
  using assms by (auto simp: discardWriter_def Let_def streams_part_def split: option.splits)

lemma finish_writer_frame:
  assumes "finish_writer W (c, e) = Some ((c', e'), saved, err)"
  shows "streams_part c' = streams_part c \<and> ct_writer c' = None \<and> ct_pendingOutputFile c' = ct_pendingOutputFile c"
  using assms
  by (auto simp: finish_writer_def Let_def streams_part_def bind_eq_Some_conv split: option.splits if_splits)

lemma refreshDevices_frame:
  "refreshDevices W (c, e) = (c', e') \<Longrightarrow> streams_part c' = streams_part c \<and> ct_writer c' = ct_writer c
    \<and> ct_pendingOutputFile c' = ct_pendingOutputFile c"
  by (auto simp: refreshDevices_def Let_def split_beta streams_part_def)

lemma startSttStreaming_frame:
  assumes "startSttStreaming F W (c, e) = (c', e')"
    and "ct_sttActive c \<longleftrightarrow> ct_sttClient c \<noteq> None" and "ct_sttActive c \<longleftrightarrow> ct_sttProducer c \<noteq> None"
  shows "ct_session c' = ct_session c \<and> ct_config c' = ct_config c \<and> ct_microphonePipeline c' = ct_microphonePipeline c
    \<and> ct_systemOutputPipeline c' = ct_systemOutputPipeline c \<and> ct_writer c' = ct_writer c \<and> ct_statsTimer c' = ct_statsTimer c
    \<and> ct_pendingOutputFile c' = ct_pendingOutputFile c
    \<and> (ct_sttActive c' \<longleftrightarrow> ct_sttClient c' \<noteq> None) \<and> (ct_sttActive c' \<longleftrightarrow> ct_sttProducer c' \<noteq> None)"
  using assms
  by (auto simp: startSttStreaming_def Let_def split_beta ui_fail_def split: if_splits option.splits)

lemma stopStt_fields [simp]:
  "ct_sttClient (stopSttStreaming c) = None" "ct_sttProducer (stopSttStreaming c) = None"
  "\<not> ct_sttActive (stopSttStreaming c)" "ct_session (stopSttStreaming c) = ct_session c"
  "ct_config (stopSttStreaming c) = ct_config c" "ct_writer (stopSttStreaming c) = ct_writer c"
  "ct_microphonePipeline (stopSttStreaming c) = ct_microphonePipeline c"
  "ct_systemOutputPipeline (stopSttStreaming c) = ct_systemOutputPipeline c"
  "ct_statsTimer (stopSttStreaming c) = ct_statsTimer c"
  "ct_pendingOutputFile (stopSttStreaming c) = ct_pendingOutputFile c"
  by (simp_all add: stopSttStreaming_def Let_def)

text \<open>An idle controller without pipelines, writer and transcription.\<close>

definition idle_clean :: "'d controller \<Rightarrow> bool" where
  "idle_clean c \<longleftrightarrow> app_state c = Idle \<and> ct_writer c = None \<and> \<not> ct_statsTimer c \<and> ct_sttClient c = None
     \<and> ct_sttProducer c = None \<and> \<not> ct_sttActive c \<and> ct_pendingOutputFile c = []
     \<and> shape (ct_microphonePipeline c) = gone \<and> shape (ct_systemOutputPipeline c) = gone
     \<and> ct_config c = default_config"

lemma idle_clean_ok: "idle_clean c \<Longrightarrow> controller_ok c"
  by (auto simp: idle_clean_def controller_ok_def rings_ok_def shape_def gone_def)

lemma ok_idle_clean: "controller_ok c \<Longrightarrow> app_state c = Idle \<Longrightarrow> idle_clean c"
  by (auto simp: idle_clean_def controller_ok_def)

lemma idle_clean_rings: "idle_clean c \<Longrightarrow> rings_ok c"
  using idle_clean_ok [of c] by (simp add: controller_ok_def)

lemma isIdle_state: "isIdle c \<longleftrightarrow> app_state c = Idle"
  by (simp add: isIdle_def app_state_def)

lemma idle_clean_frame:
  "streams_part c' = streams_part c \<Longrightarrow> ct_writer c' = ct_writer c \<Longrightarrow> ct_pendingOutputFile c' = ct_pendingOutputFile c \<Longrightarrow>
   idle_clean c' = idle_clean c"
  by (simp add: idle_clean_def streams_part_def app_state_def)

lemma start_op_ok:
  assumes "start_op F W (c, e) = Some ((c', e'), good)" and "controller_ok c"
  shows "controller_ok c' \<and> (good \<longrightarrow> app_state c' = Recording)
    \<and> (\<not> good \<longrightarrow> app_state c' = app_state c)"
proof (cases "isIdle c")
  case False
  with assms show ?thesis by (auto simp: start_op_def)
next
  case True
  then have "idle_clean c" using assms(2) ok_idle_clean by (simp add: isIdle_state)
  obtain c1 e1 where 1: "(if ct_microphones c = [] \<and> ct_systemOutputs c = [] then refreshDevices W (c, e) else (c, e)) = (c1, e1)"
    by fastforce
  have c1: "idle_clean c1"
  proof (cases "ct_microphones c = [] \<and> ct_systemOutputs c = []")
    case True
    with 1 have "refreshDevices W (c, e) = (c1, e1)" by simp
    from refreshDevices_frame [OF this] idle_clean_frame [of c1 c] \<open>idle_clean c\<close> show ?thesis by simp
  next
    case False
    with 1 \<open>idle_clean c\<close> show ?thesis by simp
  qed
  then have idle: "app_state c1 = Idle" by (simp add: idle_clean_def)
  show ?thesis
  proof (cases "ct_selectedMicrophone c1 < 0 \<and> ct_selectedSystemOutput c1 < 0")
    case no: True
    have "idle_clean (ui_fail NoDevices c1)" using c1 by (simp add: idle_clean_def ui_fail_def app_state_def)
    moreover have "c' = ui_fail NoDevices c1 \<and> \<not> good" using assms(1) True 1 no by (auto simp: start_op_def)
    ultimately show ?thesis using idle_clean_ok \<open>idle_clean c\<close> by (simp add: idle_clean_def)
  next
    case some: False
    from assms(1) True 1 some obtain c2 e2 made where 2: "createWriter W (c1\<lparr>ct_lastError := None\<rparr>, e1) = Some ((c2, e2), made)"
      by (auto simp: start_op_def bind_eq_Some_conv)
    note w = createWriter_frame [OF 2]
    have p: "streams_part c2 = streams_part c1" using w by (simp add: streams_part_def)
    show ?thesis
    proof (cases made)
      case False
      with w idle_clean_frame [OF p] c1 have "idle_clean c2" by simp
      moreover have "c' = c2 \<and> \<not> good" using assms(1) True 1 some 2 False by (auto simp: start_op_def)
      ultimately show ?thesis using idle_clean_ok \<open>idle_clean c\<close> by (simp add: idle_clean_def)
    next
      case made: True
      obtain c3 started where 3: "fire session_event.Start c2 = (c3, started)" by fastforce
      have "app_state c2 = Idle" using p idle by (simp add: streams_part_def app_state_def)
      with fire_state [OF 3] obtain s where c3: "c3 = c2\<lparr>ct_session := s\<rparr>" "started" "app_state c3 = Recording" by auto
      obtain c4 e4 where 4: "startSttStreaming F W (c3, e2) = (c4, e4)" by fastforce
      have "idle_clean c1" by fact
      with p have f3: "ct_sttActive c3 \<longleftrightarrow> ct_sttClient c3 \<noteq> None" "ct_sttActive c3 \<longleftrightarrow> ct_sttProducer c3 \<noteq> None"
        by (simp_all add: c3 streams_part_def idle_clean_def)
      note t = startSttStreaming_frame [OF 4 f3]
      have g: "shape (ct_microphonePipeline c4) = gone" "shape (ct_systemOutputPipeline c4) = gone" "ct_config c4 = default_config"
        "\<not> ct_statsTimer c4" "ct_writer c4 \<noteq> None" "app_state c4 = Recording" "ct_pendingOutputFile c4 \<noteq> []"
        using t p c1 c3 w made by (simp_all add: streams_part_def idle_clean_def app_state_def)
      then have r4: "rings_ok c4" by (auto simp: rings_ok_def shape_def gone_def)
      obtain c5 e5 st where 5: "startStreams F W (c4, e4) = ((c5, e5), st)" by (metis prod.collapse)
      note u = startStreams_frame [OF 5 r4 g(1,2)]
      show ?thesis
      proof (cases st)
        case True
        have "c' = c5\<lparr>ct_statsTimer := True\<rparr> \<and> good"
          using assms(1) \<open>isIdle c\<close> 1 some 2 made 3 c3(2) 4 5 True by (auto simp: start_op_def)
        with u True t g show ?thesis
          by (auto simp: controller_ok_def stopped_skeleton_def app_state_def rings_ok_def)
      next
        case False
        note so_far = assms(1) \<open>isIdle c\<close> 1 some 2 made 3 c3(2) 4 5
        from so_far False obtain c6 e6 where 6: "stopStreams F W (c5, e5) = Some (c6, e6)"
          by (auto simp: start_op_def bind_eq_Some_conv)
        obtain c7 e7 where 7: "discardWriter W (c6, e6) = (c7, e7)" by fastforce
        from so_far False 6 7 have 8: "c' = fst (fire Reset (fst (fire Fault (stopSttStreaming c7))))" "\<not> good"
          by (auto simp: start_op_def)
        from u have "rings_ok c5" by simp
        note v = stopStreams_frame [OF 6 this]
        note x = discardWriter_frame [OF 7]
        have "app_state (stopSttStreaming c7) = Recording"
          using x v u g by (simp add: streams_part_def stopped_skeleton_def app_state_def)
        then have "idle_clean c'"
          using fire_state [of Fault "stopSttStreaming c7"] fire_state [of Reset "fst (fire Fault (stopSttStreaming c7))"]
            x v u g t
          by (auto simp: 8 idle_clean_def streams_part_def stopped_skeleton_def app_state_session fire_def split_beta Let_def app_state_def)
        with 8 idle_clean_ok \<open>idle_clean c\<close> show ?thesis by (simp add: idle_clean_def)
      qed
    qed
  qed
qed

lemma fire_refused: "transition (app_state c) ev = None \<Longrightarrow> fire ev c = (c, False)"
  by (simp add: fire_def handle_def app_state_def)

lemma ok_resumed:
  assumes "controller_ok c" and "app_state c = Paused" and "stopped_skeleton c1 = stopped_skeleton c" and "rings_ok c1"
    and "shape (ct_microphonePipeline c1) \<in> {gone, running}" and "shape (ct_systemOutputPipeline c1) \<in> {gone, running}"
    and "rs_state s = session_state.Failed \<or> rs_state s = Recording
      \<and> (shape (ct_microphonePipeline c1) = running \<or> shape (ct_systemOutputPipeline c1) = running)"
  shows "controller_ok (c1\<lparr>ct_session := s\<rparr>)"
proof -
  from assms(3) have f: "ct_config c1 = ct_config c" "(ct_writer c1 = None) = (ct_writer c = None)"
    "(ct_sttProducer c1 = None) = (ct_sttProducer c = None)" "(ct_sttClient c1 = None) = (ct_sttClient c = None)"
    "ct_sttActive c1 = ct_sttActive c" "ct_statsTimer c1 = ct_statsTimer c"
    "ct_pendingOutputFile c1 = ct_pendingOutputFile c"
    by (simp_all add: stopped_skeleton_def)
  from assms(1,2) have g: "ct_config c = default_config" "ct_writer c \<noteq> None" "ct_statsTimer c" "ct_pendingOutputFile c \<noteq> []"
    "ct_sttActive c \<longleftrightarrow> ct_sttClient c \<noteq> None" "ct_sttActive c \<longleftrightarrow> ct_sttProducer c \<noteq> None"
    by (auto simp: controller_ok_def simp del: not_None_eq)
  have r: "rings_ok (c1\<lparr>ct_session := s\<rparr>)" using assms(4) by (simp add: rings_ok_def)
  from assms(7) show ?thesis
  proof
    assume "rs_state s = session_state.Failed"
    with f g r assms(5,6) show ?thesis
      by (simp add: controller_ok_def app_state_session del: not_None_eq)
  next
    assume "rs_state s = Recording
      \<and> (shape (ct_microphonePipeline c1) = running \<or> shape (ct_systemOutputPipeline c1) = running)"
    with f g r assms(5,6) show ?thesis
      by (simp add: controller_ok_def app_state_session del: not_None_eq)
  qed
qed

lemma ok_rings: "controller_ok c \<Longrightarrow> rings_ok c"
  by (simp add: controller_ok_def)

lemma pause_op_ok:
  assumes "pause_op F W (c, e) = Some ((c', e'), good)" and "controller_ok c"
  shows "controller_ok c' \<and> app_state c' = (if good then Paused else app_state c) \<and> (good \<longleftrightarrow> app_state c = Recording)"
proof -
  obtain c1 b where 1: "fire Pause c = (c1, b)" by fastforce
  from fire_state [OF 1] obtain s where c1: "c1 = c\<lparr>ct_session := s\<rparr>" "b \<longleftrightarrow> app_state c = Recording"
    "app_state c1 = (if b then Paused else app_state c)" by (auto split: if_splits)
  show ?thesis
  proof (cases b)
    case False
    with c1(2) have "transition (app_state c) Pause = None" by simp
    from fire_refused [OF this] assms(1) have "c' = c \<and> \<not> good" by (auto simp: pause_op_def)
    with c1(2) False assms(2) show ?thesis by simp
  next
    case True
    with assms(1) 1 have 2: "stopStreams F W (c1, e) = Some (c', e')" and "good"
      by (auto simp: pause_op_def bind_eq_Some_conv)
    have "rings_ok c1" using ok_rings [OF assms(2)] c1(1) by (simp add: rings_ok_def)
    from stopStreams_frame [OF 2 this] c1 True assms(2) \<open>good\<close> show ?thesis
      by (auto simp: controller_ok_def stopped_skeleton_def app_state_def)
  qed
qed

lemma resume_op_ok:
  assumes "resume_op F W (c, e) = ((c', e'), good)" and "controller_ok c"
  shows "controller_ok c' \<and> (good \<longrightarrow> app_state c = Paused \<and> app_state c' = Recording)
    \<and> (\<not> good \<longrightarrow> app_state c' = (if app_state c = Paused then session_state.Failed else app_state c))"
proof (cases "app_state c = Paused")
  case False
  with assms show ?thesis by (auto simp: resume_op_def app_state_def)
next
  case True
  obtain c1 e1 st where 1: "startStreams F W (c, e) = ((c1, e1), st)" by (metis prod.collapse)
  have g: "shape (ct_microphonePipeline c) = gone" "shape (ct_systemOutputPipeline c) = gone"
    using assms(2) True by (simp_all add: controller_ok_def)
  note f = startStreams_frame [OF 1 ok_rings [OF assms(2)] g]
  obtain c2 b where 2: "fire (if st then Resume else Fault) c1 = (c2, b)" by fastforce
  have "app_state c1 = Paused" using f True by (simp add: stopped_skeleton_def app_state_def)
  with fire_state [OF 2] obtain s where c2: "c2 = c1\<lparr>ct_session := s\<rparr>" "b"
    "app_state c2 = (if st then Recording else session_state.Failed)" by (cases st) auto
  from assms(1) True 1 2 c2(2) have "c' = c2 \<and> good = st"
    by (cases st) (auto simp: resume_op_def app_state_def)
  moreover have "controller_ok c2"
    unfolding c2(1) using f c2(1,3)
    by (intro ok_resumed [OF assms(2) True]) (auto simp: app_state_session split: if_splits)
  ultimately show ?thesis using c2(3) True by simp
qed

lemma stop_op_cases:
  assumes "stop_op F W (c, e) = Some ((c', e'), good)" and "controller_ok c"
  obtains (refused) "\<not> good" "app_state c \<notin> {Recording, Paused}" "c' = c" "e' = e"
  | (stopped) s c1 e1 c2 saved err where "good" "app_state c \<in> {Recording, Paused}"
      "stopStreams F W (c\<lparr>ct_session := s\<rparr>, e) = Some (c1, e1)" "rs_state s = Stopping"
      "finish_writer W (c1\<lparr>ct_statsTimer := False\<rparr>, e1) = Some ((c2, e'), saved, err)"
      "c' = fst (fire Reset (fst (fire StopComplete
        (let c3 = stopSttStreaming (c2\<lparr>ct_pendingOutputFile := []\<rparr>)
         in if saved \<noteq> [] then c3\<lparr>ct_lastRecordingFile := saved\<rparr>
            else case err of None \<Rightarrow> c3 | Some message \<Rightarrow> ui_fail message c3))))"
proof -
  obtain c0 b where 1: "fire Stop c = (c0, b)" by fastforce
  from fire_state [OF 1] obtain s where c0: "c0 = c\<lparr>ct_session := s\<rparr>" "b \<longleftrightarrow> app_state c \<in> {Recording, Paused}"
    "b \<longrightarrow> rs_state s = Stopping" by (auto simp: app_state_session split: if_splits)
  show thesis
  proof (cases b)
    case False
    with c0(2) have "transition (app_state c) Stop = None" by simp
    from fire_refused [OF this] assms(1) have "c' = c \<and> e' = e \<and> \<not> good" by (auto simp: stop_op_def)
    with refused False c0(2) show thesis by simp
  next
    case True
    with assms(1) 1 obtain c1 e1 where 2: "stopStreams F W (c0, e) = Some (c1, e1)"
      by (auto simp: stop_op_def bind_eq_Some_conv)
    from True assms(1) 1 2 obtain c2 e2 saved err where
      3: "finish_writer W (c1\<lparr>ct_statsTimer := False\<rparr>, e1) = Some ((c2, e2), saved, err)"
      by (auto simp: stop_op_def bind_eq_Some_conv)
    from True assms(1) 1 2 3 have "e2 = e' \<and> good \<and> c' = fst (fire Reset (fst (fire StopComplete
        (let c3 = stopSttStreaming (c2\<lparr>ct_pendingOutputFile := []\<rparr>)
         in if saved \<noteq> [] then c3\<lparr>ct_lastRecordingFile := saved\<rparr>
            else case err of None \<Rightarrow> c3 | Some message \<Rightarrow> ui_fail message c3))))"
      by (simp add: stop_op_def Let_def)
    with stopped True c0 2 3 show thesis by simp
  qed
qed

lemma fire_twice:
  assumes "app_state c = Stopping"
  shows "\<exists>s. fst (fire Reset (fst (fire StopComplete c))) = c\<lparr>ct_session := s\<rparr> \<and> rs_state s = Idle"
proof -
  obtain c1 b1 where 1: "fire StopComplete c = (c1, b1)" by fastforce
  obtain c2 b2 where 2: "fire Reset c1 = (c2, b2)" by fastforce
  from fire_state [OF 1] fire_state [OF 2] assms show ?thesis by (auto simp: 1 2 app_state_session)
qed

lemma stop_op_ok:
  assumes "stop_op F W (c, e) = Some ((c', e'), good)" and "controller_ok c"
  shows "controller_ok c' \<and> app_state c' = (if good then Idle else app_state c) \<and> (good \<longleftrightarrow> app_state c \<in> {Recording, Paused})"
  using assms
proof (cases rule: stop_op_cases)
  case refused
  with assms(2) show ?thesis by simp
next
  case (stopped s c1 e1 c2 saved err)
  have "rings_ok (c\<lparr>ct_session := s\<rparr>)" using ok_rings [OF assms(2)] by (simp add: rings_ok_def)
  note v = stopStreams_frame [OF stopped(3) this]
  note w = finish_writer_frame [OF stopped(5)]
  define c4 where "c4 = (let c3 = stopSttStreaming (c2\<lparr>ct_pendingOutputFile := []\<rparr>)
    in if saved \<noteq> [] then c3\<lparr>ct_lastRecordingFile := saved\<rparr>
       else case err of None \<Rightarrow> c3 | Some message \<Rightarrow> ui_fail message c3)"
  have "ct_session c4 = s" "ct_writer c4 = None" "\<not> ct_statsTimer c4" "ct_sttClient c4 = None" "ct_sttProducer c4 = None"
    "\<not> ct_sttActive c4" "ct_pendingOutputFile c4 = []" "ct_microphonePipeline c4 = no_pipeline"
    "ct_systemOutputPipeline c4 = no_pipeline" "ct_config c4 = default_config"
    using v w assms(2)
    by (auto simp: c4_def Let_def ui_fail_def streams_part_def stopped_skeleton_def controller_ok_def split: option.splits)
  moreover from this have "app_state c4 = Stopping" using stopped(4) by (simp add: app_state_def)
  from fire_twice [OF this] obtain s' where "c' = c4\<lparr>ct_session := s'\<rparr>" "rs_state s' = Idle"
    using stopped(6) by (auto simp: c4_def)
  ultimately have "idle_clean c'" by (simp add: idle_clean_def app_state_def)
  with idle_clean_ok stopped(1,2) show ?thesis by (simp add: idle_clean_def)
qed

lemma client_thread_step_ok:
  "skeleton (client_thread_step ev c) = skeleton c \<and> rings_ok (client_thread_step ev c) = rings_ok c"
  by (auto simp: client_thread_step_def skeleton_def rings_ok_def split: option.splits)

lemma setters_frame:
  "skeleton (setSelectedMicrophone i c) = skeleton c \<and> rings_ok (setSelectedMicrophone i c) = rings_ok c"
  "skeleton (setSelectedSystemOutput i c) = skeleton c \<and> rings_ok (setSelectedSystemOutput i c) = rings_ok c"
  "skeleton (setOutputDirectory d c) = skeleton c \<and> rings_ok (setOutputDirectory d c) = rings_ok c"
  "skeleton (setSttEndpoint d c) = skeleton c \<and> rings_ok (setSttEndpoint d c) = rings_ok c"
  "skeleton (onStatsTick c) = skeleton c \<and> rings_ok (onStatsTick c) = rings_ok c"
  by (simp_all add: setSelectedMicrophone_def setSelectedSystemOutput_def setOutputDirectory_def setSttEndpoint_def
      onStatsTick_def ui_fail_def skeleton_def rings_ok_def)

lemma applyTranscript_frame:
  "skeleton (applyTranscript u c) = skeleton c \<and> rings_ok (applyTranscript u c) = rings_ok c"
  by (simp add: applyTranscript_def skeleton_def rings_ok_def split: option.split)

lemma refreshDevices_skeleton:
  "skeleton (fst (refreshDevices W (c, e))) = skeleton c \<and> rings_ok (fst (refreshDevices W (c, e))) = rings_ok c"
  by (simp add: refreshDevices_def Let_def split_beta skeleton_def rings_ok_def)

lemma frame_ok: "skeleton c' = skeleton c \<and> rings_ok c' = rings_ok c \<Longrightarrow> controller_ok c \<Longrightarrow> controller_ok c'"
  using controller_ok_cong [of c' c] by simp

lemma app_step_ok:
  assumes "app_step F W ev (c, e) = Some (c', e')" and "controller_ok c"
  shows "controller_ok c'"
proof (cases ev)
  case StartPressed
  with assms(1) obtain good where "start_op F W (c, e) = Some ((c', e'), good)" by auto
  from start_op_ok [OF this assms(2)] show ?thesis by simp
next
  case PausePressed
  with assms(1) obtain good where "pause_op F W (c, e) = Some ((c', e'), good)" by auto
  from pause_op_ok [OF this assms(2)] show ?thesis by simp
next
  case ResumePressed
  with assms(1) obtain good where "resume_op F W (c, e) = ((c', e'), good)" by (metis app_step.simps(4) option.inject prod.collapse)
  from resume_op_ok [OF this assms(2)] show ?thesis by simp
next
  case StopPressed
  with assms(1) obtain good where "stop_op F W (c, e) = Some ((c', e'), good)" by auto
  from stop_op_ok [OF this assms(2)] show ?thesis by simp
next
  case (FrameCaptured x f)
  with assms(1) have "c' = onFrame x f c" by simp
  with onFrame_frame [OF ok_rings [OF assms(2)], of x f] ok_rings [OF assms(2)] show ?thesis
    by (intro frame_ok [OF _ assms(2)]) simp
next
  case (DrainTurn x)
  with assms(1) obtain again where "drain_one F W x (c, e) = Some ((c', e'), again)" by auto
  from drain_one_frame [OF this ok_rings [OF assms(2)]] ok_rings [OF assms(2)] show ?thesis
    by (intro frame_ok [OF _ assms(2)]) simp
next
  case (ClientStep x)
  with assms(1) frame_ok [OF client_thread_step_ok assms(2)] show ?thesis by auto
next
  case Refresh
  with assms(1) frame_ok [OF refreshDevices_skeleton assms(2), of W e] show ?thesis by (metis app_step.simps(1) fst_conv option.inject)
next
  case (TranscriptArrived u)
  with assms(1) frame_ok [OF applyTranscript_frame assms(2)] show ?thesis by auto
next
  case (SelectMicrophone i)
  with assms(1) frame_ok [OF setters_frame(1) assms(2)] show ?thesis by auto
next
  case (SelectSystemOutput i)
  with assms(1) frame_ok [OF setters_frame(2) assms(2)] show ?thesis by auto
next
  case (SetOutputDirectory d)
  with assms(1) frame_ok [OF setters_frame(3) assms(2)] show ?thesis by auto
next
  case (SetSttEndpoint d)
  with assms(1) frame_ok [OF setters_frame(4) assms(2)] show ?thesis by auto
next
  case Tick
  with assms(1) frame_ok [OF setters_frame(5) assms(2)] show ?thesis by auto
qed

lemma app_run_ok: "app_run F W evs (c, e) = Some (c', e') \<Longrightarrow> controller_ok c \<Longrightarrow> controller_ok c'"
  using app.run_invariant [of F W evs "(c, e)" "(c', e')" "\<lambda>ce. controller_ok (fst ce)"] app_step_ok by fastforce

lemma new_controller_ok: "controller_ok (new_controller d)"
  by (rule idle_clean_ok)
    (simp add: idle_clean_def new_controller_def new_session_def app_state_def no_pipeline_def shape_def gone_def)

section \<open>A failed session stays failed\<close>

lemma skeleton_state: "skeleton c' = skeleton c \<Longrightarrow> app_state c' = app_state c"
  by (simp add: skeleton_def app_state_def)

lemma app_step_failed:
  assumes "app_step F W ev (c, e) = Some (c', e')" and "controller_ok c" and "app_state c = session_state.Failed"
  shows "app_state c' = session_state.Failed"
proof (cases ev)
  case StartPressed
  with assms(1,3) show ?thesis by (auto simp: start_op_def isIdle_state)
next
  case PausePressed
  with assms(1) obtain good where "pause_op F W (c, e) = Some ((c', e'), good)" by auto
  from pause_op_ok [OF this assms(2)] assms(3) show ?thesis by (auto split: if_splits)
next
  case ResumePressed
  with assms(1) obtain good where "resume_op F W (c, e) = ((c', e'), good)" by (metis app_step.simps(4) option.inject prod.collapse)
  from resume_op_ok [OF this assms(2)] assms(3) show ?thesis by auto
next
  case StopPressed
  with assms(1) obtain good where "stop_op F W (c, e) = Some ((c', e'), good)" by auto
  from stop_op_ok [OF this assms(2)] assms(3) show ?thesis by (auto split: if_splits)
next
  case (FrameCaptured x f)
  with assms(1) have "c' = onFrame x f c" by simp
  with onFrame_frame [OF ok_rings [OF assms(2)], of x f] skeleton_state [of c' c] assms(3) show ?thesis by simp
next
  case (DrainTurn x)
  with assms(1) obtain again where "drain_one F W x (c, e) = Some ((c', e'), again)" by auto
  from drain_one_frame [OF this ok_rings [OF assms(2)]] skeleton_state [of c' c] assms(3) show ?thesis by simp
next
  case (ClientStep x)
  with assms(1) have "c' = client_thread_step x c" by simp
  with client_thread_step_ok [of x c] skeleton_state [of c' c] assms(3) show ?thesis by simp
next
  case Refresh
  with assms(1) have "c' = fst (refreshDevices W (c, e))" by (metis app_step.simps(1) fst_conv option.inject)
  with refreshDevices_skeleton [of W c e] skeleton_state [of c' c] assms(3) show ?thesis by simp
next
  case (TranscriptArrived u)
  with assms(1) have "c' = applyTranscript u c" by simp
  with applyTranscript_frame [of u c] skeleton_state [of c' c] assms(3) show ?thesis by simp
next
  case (SelectMicrophone i)
  with assms(1) setters_frame(1) [of i c] skeleton_state [of c' c] assms(3) show ?thesis by simp
next
  case (SelectSystemOutput i)
  with assms(1) setters_frame(2) [of i c] skeleton_state [of c' c] assms(3) show ?thesis by simp
next
  case (SetOutputDirectory d)
  with assms(1) setters_frame(3) [of d c] skeleton_state [of c' c] assms(3) show ?thesis by simp
next
  case (SetSttEndpoint d)
  with assms(1) setters_frame(4) [of d c] skeleton_state [of c' c] assms(3) show ?thesis by simp
next
  case Tick
  with assms(1) setters_frame(5) [of c] skeleton_state [of c' c] assms(3) show ?thesis by simp
qed

lemma app_run_failed:
  "app_run F W evs (c, e) = Some (c', e') \<Longrightarrow> controller_ok c \<Longrightarrow> app_state c = session_state.Failed \<Longrightarrow>
   app_state c' = session_state.Failed"
  using app.run_invariant [of F W evs "(c, e)" "(c', e')"
      "\<lambda>ce. controller_ok (fst ce) \<and> app_state (fst ce) = session_state.Failed"] app_step_ok app_step_failed by fastforce

section \<open>What a drain does\<close>

text \<open>The writing side of a drain: the writer, its failure flag and the outside world.\<close>

definition stored :: "'e media_api \<Rightarrow> int \<Rightarrow> audio_frame list \<Rightarrow> writer option \<times> bool \<times> 'e
    \<Rightarrow> (writer option \<times> bool \<times> 'e) option" where
  "stored m t outs = (\<lambda>(wo, failed, e).
     case wo of
       None \<Rightarrow> Some (wo, failed, e)
     | Some w \<Rightarrow> if t < 0 \<or> failed then Some (wo, failed, e)
         else do { ((w, e), good) \<leftarrow> write_all m (nat t) outs (w, e); Some (Some w, \<not> good, e) })"

lemma write_all_append:
  "write_all m t (xs @ ys) we = do {
     (we, good) \<leftarrow> write_all m t xs we; if good then write_all m t ys we else Some (we, False) }"
  by (induction xs arbitrary: we) (auto simp: split_beta split: Option.bind_splits)

lemma stored_append: "stored m t (xs @ ys) s = Option.bind (stored m t xs s) (stored m t ys)"
proof -
  obtain wo failed e where s: "s = (wo, failed, e)" by (cases s)
  show ?thesis
    by (cases wo; cases "t < 0 \<or> failed")
      (auto simp: s stored_def write_all_append split_beta split: Option.bind_splits)
qed

lemma stored_Nil [simp]: "stored m t [] (wo, failed, e) = Some (wo, failed, e)"
  by (auto simp: stored_def split: option.splits)

lemma store_stored:
  "store m t outs (c, e) = (case stored m t outs (ct_writer c, ct_writerFailed c, e) of
     None \<Rightarrow> None
   | Some (wo, failed, e') \<Rightarrow> Some (c\<lparr>ct_writer := wo, ct_writerFailed := failed\<rparr>, e'))"
  by (cases "ct_writer c"; cases "t < 0 \<or> ct_writerFailed c")
    (auto simp: store_def stored_def split_beta split: Option.bind_splits)

text \<open>The pipeline's part of a frame: the synchroniser and the counter; and the writer's.\<close>

lemma drain_frame_effect:
  assumes "drain_frame F W x f (c, e) = Some (c', e')" and "tp_synchronizer (pipeline x c) = Some s"
  shows "\<exists>s' outs. process F s f = Some (s', outs) \<and> tp_synchronizer (pipeline x c') = Some s'
    \<and> ct_framesCaptured c' = ct_framesCaptured c + of_nat (length outs)
    \<and> tp_writerTrack (pipeline x c') = tp_writerTrack (pipeline x c)
    \<and> stored (w_media W) (tp_writerTrack (pipeline x c)) outs (ct_writer c, ct_writerFailed c, e)
        = Some (ct_writer c', ct_writerFailed c', e')"
proof -
  from assms(1) obtain s0 s' outs c1 where 1: "tp_synchronizer (pipeline x c) = Some s0" and
    p: "process F s0 f = Some (s', outs)" and f: "feed F (w_unixMs W e) (tp_feedsSttStream (pipeline x c)) outs ((set_pipeline x
       ((pipeline x c)\<lparr>tp_synchronizer := Some s'\<rparr>) c)\<lparr>ct_framesCaptured := ct_framesCaptured c + of_nat (length outs)\<rparr>)
     = Some c1" and
    st: "store (w_media W) (tp_writerTrack (pipeline x c)) outs (c1, e) = Some (c', e')"
    by (rule drain_frame_cases)
  let ?c = "(set_pipeline x ((pipeline x c)\<lparr>tp_synchronizer := Some s'\<rparr>) c)
    \<lparr>ct_framesCaptured := ct_framesCaptured c + of_nat (length outs)\<rparr>"
  have q: "pipeline x c1 = (pipeline x c)\<lparr>tp_synchronizer := Some s'\<rparr>"
    using feed_frame [OF f, of x] by (simp add: skeleton_captured)
  have c1: "ct_writer c1 = ct_writer c" "ct_writerFailed c1 = ct_writerFailed c"
    "ct_framesCaptured c1 = ct_framesCaptured c + of_nat (length outs)"
    using f by (cases rule: feed_cases; simp)+
  from st c1 obtain wo failed where
    2: "stored (w_media W) (tp_writerTrack (pipeline x c)) outs (ct_writer c, ct_writerFailed c, e) = Some (wo, failed, e')"
    and 3: "c' = c1\<lparr>ct_writer := wo, ct_writerFailed := failed\<rparr>"
    by (auto simp: store_stored split: option.splits prod.splits)
  have "pipeline x c' = pipeline x c1" by (cases x) (simp_all add: 3)
  with 1 2 3 p q c1 assms(2) show ?thesis by (intro exI [of _ s'] exI [of _ outs]) simp
qed

lemma drain_unfold:
  assumes b: "tp_buffer (pipeline x c) = Some b" "ring_inv b" and s: "tp_synchronizer (pipeline x c) = Some s"
  shows "contents b = [] \<Longrightarrow> drainPipelineLocked F W x c e = Some (c, e)"
    and "contents b = f # fs \<Longrightarrow> \<exists>b'. ring_inv b' \<and> contents b' = fs \<and> drainPipelineLocked F W x c e
      = Option.bind (drain_frame F W x f (set_pipeline x ((pipeline x c)\<lparr>tp_buffer := Some b'\<rparr>) c, e))
          (\<lambda>(c', e'). drainPipelineLocked F W x c' e')"
proof -
  obtain b' r where p: "tryPop (w_moved_from W) b = (b', r)" by fastforce
  have pop: "(contents b', r) = bq_pop (contents b)" "ring_inv b'"
    using ring.pop_step [OF b(2), of "w_moved_from W"] ring.pop_invar [OF b(2), of "w_moved_from W"] p by simp_all
  show "drainPipelineLocked F W x c e = Some (c, e)" if "contents b = []"
    using that pop(1) b s p by (subst drainPipelineLocked.simps) (simp add: drain_one_def bq_pop_def)
  assume "contents b = f # fs"
  with pop(1) have "contents b' = fs" "r = Some f" by (simp_all add: bq_pop_def)
  with pop(2) b s p show "\<exists>b'. ring_inv b' \<and> contents b' = fs \<and> drainPipelineLocked F W x c e
      = Option.bind (drain_frame F W x f (set_pipeline x ((pipeline x c)\<lparr>tp_buffer := Some b'\<rparr>) c, e))
          (\<lambda>(c', e'). drainPipelineLocked F W x c' e')"
    by (intro exI [of _ b'] conjI, simp_all, subst drainPipelineLocked.simps)
      (auto simp: drain_one_def split_beta split: Option.bind_splits)
qed

lemma drain_effect:
  "drainPipelineLocked F W x c e = Some (c', e') \<Longrightarrow> tp_buffer (pipeline x c) = Some b \<Longrightarrow> ring_inv b \<Longrightarrow>
   tp_synchronizer (pipeline x c) = Some s \<Longrightarrow>
   \<exists>s' outs b'. process_all F s (contents b) = Some (s', outs) \<and> tp_synchronizer (pipeline x c') = Some s'
    \<and> tp_buffer (pipeline x c') = Some b' \<and> contents b' = []
    \<and> ct_framesCaptured c' = ct_framesCaptured c + of_nat (length outs)
    \<and> stored (w_media W) (tp_writerTrack (pipeline x c)) outs (ct_writer c, ct_writerFailed c, e)
        = Some (ct_writer c', ct_writerFailed c', e')"
proof (induction "contents b" arbitrary: b s c e)
  case Nil
  with drain_unfold(1) [OF Nil.prems(2-4) Nil.hyps [symmetric], of F W e] show ?case by auto
next
  case (Cons f fs)
  from drain_unfold(2) [OF Cons.prems(2-4) Cons.hyps(2) [symmetric], of F W e] obtain b1 where
    b1: "ring_inv b1" "contents b1 = fs" and u: "drainPipelineLocked F W x c e
      = Option.bind (drain_frame F W x f (set_pipeline x ((pipeline x c)\<lparr>tp_buffer := Some b1\<rparr>) c, e))
          (\<lambda>(c', e'). drainPipelineLocked F W x c' e')" by blast
  from u [symmetric] Cons.prems(1) obtain c1 e1 where
    1: "drain_frame F W x f (set_pipeline x ((pipeline x c)\<lparr>tp_buffer := Some b1\<rparr>) c, e) = Some (c1, e1)" and
    2: "drainPipelineLocked F W x c1 e1 = Some (c', e')"
    by (auto simp: bind_eq_Some_conv)
  let ?c = "set_pipeline x ((pipeline x c)\<lparr>tp_buffer := Some b1\<rparr>) c"
  have "tp_synchronizer (pipeline x ?c) = Some s" using Cons.prems(4) by simp
  from drain_frame_effect [OF 1 this] obtain s1 outs1 where
    3: "process F s f = Some (s1, outs1)" "tp_synchronizer (pipeline x c1) = Some s1"
      "ct_framesCaptured c1 = ct_framesCaptured c + of_nat (length outs1)"
      "tp_writerTrack (pipeline x c1) = tp_writerTrack (pipeline x c)"
      "stored (w_media W) (tp_writerTrack (pipeline x c)) outs1 (ct_writer c, ct_writerFailed c, e)
        = Some (ct_writer c1, ct_writerFailed c1, e1)" by auto
  have "tp_buffer (pipeline x c1) = Some b1" using drain_frame_frame [OF 1, of x] by simp
  from Cons.hyps(1) [OF b1(2) [symmetric] 2 this b1(1) 3(2)] obtain s' outs b' where
    4: "process_all F s1 fs = Some (s', outs)" "tp_synchronizer (pipeline x c') = Some s'"
      "tp_buffer (pipeline x c') = Some b'" "contents b' = []"
      "ct_framesCaptured c' = ct_framesCaptured c1 + of_nat (length outs)"
      "stored (w_media W) (tp_writerTrack (pipeline x c1)) outs (ct_writer c1, ct_writerFailed c1, e1)
        = Some (ct_writer c', ct_writerFailed c', e')"
    using b1(2) by auto
  have "process_all F s (contents b) = Some (s', outs1 @ outs)"
    using 3(1) 4(1) by (simp flip: Cons.hyps(2))
  moreover have "stored (w_media W) (tp_writerTrack (pipeline x c)) (outs1 @ outs) (ct_writer c, ct_writerFailed c, e)
        = Some (ct_writer c', ct_writerFailed c', e')"
    using 3(4,5) 4(6) by (simp add: stored_append)
  ultimately show ?case using 3(3) 4 by (intro exI [of _ s'] exI [of _ "outs1 @ outs"] exI [of _ b']) simp
qed

text \<open>A drain that feeds no transcription returns whenever the synchroniser and the writer do.\<close>

definition not_feeding :: "which \<Rightarrow> 'd controller \<Rightarrow> bool" where
  "not_feeding x c \<longleftrightarrow> \<not> tp_feedsSttStream (pipeline x c) \<or> ct_sttProducer c = None \<or> ct_sttClient c = None"

lemma drain_frame_returns:
  assumes "tp_synchronizer (pipeline x c) = Some s" and "process F s f = Some (s', outs)" and n: "not_feeding x c"
    and "stored (w_media W) (tp_writerTrack (pipeline x c)) outs (ct_writer c, ct_writerFailed c, e) = Some (wo, failed, e')"
  shows "\<exists>c'. drain_frame F W x f (c, e) = Some (c', e') \<and> not_feeding x c'"
proof -
  let ?c = "(set_pipeline x ((pipeline x c)\<lparr>tp_synchronizer := Some s'\<rparr>) c)
    \<lparr>ct_framesCaptured := ct_framesCaptured c + of_nat (length outs)\<rparr>"
  have "feed F (w_unixMs W e) (tp_feedsSttStream (pipeline x c)) outs ?c = Some ?c"
    using n by (auto simp: feed_def not_feeding_def split: bool.splits option.splits)
  moreover have "store (w_media W) (tp_writerTrack (pipeline x c)) outs (?c, e)
      = Some (?c\<lparr>ct_writer := wo, ct_writerFailed := failed\<rparr>, e')"
    using assms(4) by (simp add: store_stored)
  moreover have "not_feeding x (?c\<lparr>ct_writer := wo, ct_writerFailed := failed\<rparr>)"
    using n by (cases x) (simp_all add: not_feeding_def)
  ultimately show ?thesis using assms(1,2) by (simp add: drain_frame_def Let_def)
qed

lemma drain_returns:
  "tp_buffer (pipeline x c) = Some b \<Longrightarrow> ring_inv b \<Longrightarrow> tp_synchronizer (pipeline x c) = Some s \<Longrightarrow>
   not_feeding x c \<Longrightarrow> process_all F s (contents b) = Some (s', outs) \<Longrightarrow>
   stored (w_media W) (tp_writerTrack (pipeline x c)) outs (ct_writer c, ct_writerFailed c, e) \<noteq> None \<Longrightarrow>
   drainPipelineLocked F W x c e \<noteq> None"
proof (induction "contents b" arbitrary: b s c e outs)
  case Nil
  with drain_unfold(1) [OF Nil.prems(1-3) Nil.hyps [symmetric], of F W e] show ?case by simp
next
  case (Cons f fs)
  from drain_unfold(2) [OF Cons.prems(1-3) Cons.hyps(2) [symmetric], of F W e] obtain b1 where
    b1: "ring_inv b1" "contents b1 = fs" and u: "drainPipelineLocked F W x c e
      = Option.bind (drain_frame F W x f (set_pipeline x ((pipeline x c)\<lparr>tp_buffer := Some b1\<rparr>) c, e))
          (\<lambda>(c', e'). drainPipelineLocked F W x c' e')" by blast
  let ?c = "set_pipeline x ((pipeline x c)\<lparr>tp_buffer := Some b1\<rparr>) c"
  from Cons.prems(5) obtain s1 outs1 outs2 where p: "process F s f = Some (s1, outs1)"
    "process_all F s1 fs = Some (s', outs2)" "outs = outs1 @ outs2"
    by (auto simp: bind_eq_Some_conv simp flip: Cons.hyps(2))
  let ?t = "tp_writerTrack (pipeline x c)"
  from Cons.prems(6) obtain wo failed e1 where st: "stored (w_media W) ?t outs1 (ct_writer c, ct_writerFailed c, e)
      = Some (wo, failed, e1)" "stored (w_media W) ?t outs2 (wo, failed, e1) \<noteq> None"
    by (auto simp: p(3) stored_append bind_eq_Some_conv)
  have n: "not_feeding x ?c" using Cons.prems(4) by (cases x) (simp_all add: not_feeding_def)
  have sy: "tp_synchronizer (pipeline x ?c) = Some s" using Cons.prems(3) by simp
  from drain_frame_returns [OF sy p(1) n, of W e wo failed e1] st(1) obtain c1 where
    1: "drain_frame F W x f (?c, e) = Some (c1, e1)" "not_feeding x c1" by auto
  from drain_frame_effect [OF 1(1) sy] p(1) st(1) have
    c1: "tp_synchronizer (pipeline x c1) = Some s1" "tp_writerTrack (pipeline x c1) = ?t"
      "ct_writer c1 = wo" "ct_writerFailed c1 = failed" by auto
  have "tp_buffer (pipeline x c1) = Some b1" using drain_frame_frame [OF 1(1), of x] by simp
  from Cons.hyps(1) [OF b1(2) [symmetric] this b1(1) c1(1) 1(2), of outs2 e1] p(2) st(2) b1(2) c1
  have "drainPipelineLocked F W x c1 e1 \<noteq> None" by simp
  with u 1(1) show ?case by simp
qed

section \<open>A concrete run\<close>

definition demo_device :: audio_device_info where
  "demo_device = \<lparr>dev_id = ''m'', dev_name = ''Microphone'', dev_kind = CaptureInput, dev_isDefault = True\<rparr>"

definition demo_world :: "memory world" where
  "demo_world = \<lparr>w_media = memory_api, w_devices = \<lambda>e. (e, [demo_device]),
     w_startCapture = \<lambda>_ e. (e, if e (Device 0) = [] then Inr 0 else Inl DeviceUnavailable),
     w_stopStream = \<lambda>_ e. (e(Device 0 := [[]]), []), w_streamDropped = \<lambda>_ _. 0, w_connect = \<lambda>_ e. (e, False, False),
     w_mkpath = \<lambda>_ e. (e, True), w_filePath = \<lambda>d n. d @ ''/'' @ n, w_exists = \<lambda>_ _. False, w_stamp = \<lambda>_. ''t'',
     w_isoTime = \<lambda>_. ''t'', w_unixMs = \<lambda>_. 0, w_moved_from = id\<rparr>"

lemma fresh_name_free: "\<not> taken p \<Longrightarrow> fresh_name taken name p n = Some p"
  by (subst fresh_name.simps) simp

lemma demo_start:
  obtains c w where "start_op F demo_world (new_controller ''d'', \<lambda>_. []) = Some ((c, \<lambda>_. []), True)"
    "app_state c = Recording" "ct_selectedMicrophone c = 0" "ct_microphones c = [demo_device]"
    "ct_selectedSystemOutput c = - 1" "tp_buffer (ct_microphonePipeline c) = Some (new_ring empty_frame (unat (ringBufferCapacityFrames default_config)))"
    "tp_synchronizer (ct_microphonePipeline c) = Some (new_track_sync F (app_sync_config 1))"
    "tp_stream (ct_microphonePipeline c) = Some 0" "ct_systemOutputPipeline c = no_pipeline"
    "ct_writer c = Some w" "rs_framesWritten (rw_stats w) = 0" "ct_writerFailed c = False" "ct_sttClient c = None"
    "rw_state w = Open" "rc_tracks (rw_config w) = [archival_track Microphone 1 ''Microphone'']"
    "map tk_chunkSamples (rw_tracks w) = [2]" "tp_writerTrack (ct_microphonePipeline c) = 0"
proof -
  have "\<exists>c w. start_op F demo_world (new_controller ''d'', \<lambda>_. []) = Some ((c, \<lambda>_. []), True)
    \<and> app_state c = Recording \<and> ct_selectedMicrophone c = 0 \<and> ct_microphones c = [demo_device]
    \<and> ct_selectedSystemOutput c = - 1 \<and> tp_buffer (ct_microphonePipeline c) = Some (new_ring empty_frame (unat (ringBufferCapacityFrames default_config)))
    \<and> tp_synchronizer (ct_microphonePipeline c) = Some (new_track_sync F (app_sync_config 1))
    \<and> tp_stream (ct_microphonePipeline c) = Some 0 \<and> ct_systemOutputPipeline c = no_pipeline
    \<and> ct_writer c = Some w \<and> rs_framesWritten (rw_stats w) = 0 \<and> ct_writerFailed c = False \<and> ct_sttClient c = None
    \<and> rw_state w = Open \<and> rc_tracks (rw_config w) = [archival_track Microphone 1 ''Microphone'']
    \<and> map tk_chunkSamples (rw_tracks w) = [2] \<and> tp_writerTrack (ct_microphonePipeline c) = 0"
    by (simp add: start_op_def isIdle_def new_controller_def new_session_def refreshDevices_def demo_world_def
      defaultIndex_def demo_device_def Let_def createWriter_def microphoneSelected_def systemOutputSelected_def selected_def
      writer_tracks_def recording_candidate_def fresh_name_free archival_track_def
      createRecordingWriter_def writer_open_def new_writer_def track_sane_def openTrack_def codec_time_base_def memory_api_def log_call_def
      fire_def handle_def startSttStreaming_def startStreams_def startTrack_def app_state_def
      split del: if_split)
  then show thesis by (elim exE conjE) (rule that)
qed

lemma stopStreams_demo:
  assumes "ct_systemOutputPipeline c = no_pipeline" and "tp_buffer (ct_microphonePipeline c) = Some b" and "ring_inv b"
    and "contents b = []" and "tp_synchronizer (ct_microphonePipeline c) = Some s" and "tp_stream (ct_microphonePipeline c) = Some h"
  shows "stopStreams F demo_world (c, e) = Some (c\<lparr>ct_microphonePipeline := no_pipeline, ct_systemOutputPipeline := no_pipeline\<rparr>, e(Device 0 := [[]]))"
proof -
  have "stop_stream demo_world MicrophoneTrack (c, e) = (c, e(Device 0 := [[]]))"
    using assms(6) by (simp add: stop_stream_def demo_world_def)
  moreover have "stop_stream demo_world SystemOutputTrack (c, e(Device 0 := [[]])) = (c, e(Device 0 := [[]]))"
    using assms(1) by (simp add: stop_stream_def no_pipeline_def)
  moreover have "drainPipelineLocked F demo_world MicrophoneTrack c (e(Device 0 := [[]])) = Some (c, e(Device 0 := [[]]))"
    using assms(2-5) by (intro drain_unfold(1)) simp_all
  moreover have "drainPipelineLocked F demo_world SystemOutputTrack c (e(Device 0 := [[]])) = Some (c, e(Device 0 := [[]]))"
    using assms(1) by (subst drainPipelineLocked.simps) (simp add: drain_one_def no_pipeline_def)
  ultimately show ?thesis by (simp add: stopStreams_def)
qed

lemma demo_pause:
  obtains c w where "app_run F demo_world [StartPressed, PausePressed] (new_controller ''d'', \<lambda>_. []) = Some (c, (\<lambda>_. [])(Device 0 := [[]]))"
    "app_state c = Paused" "ct_selectedMicrophone c = 0" "ct_microphones c = [demo_device]"
proof -
  from demo_start obtain c w where 1: "start_op F demo_world (new_controller ''d'', \<lambda>_. []) = Some ((c, \<lambda>_. []), True)"
    "app_state c = Recording" "ct_selectedMicrophone c = 0" "ct_microphones c = [demo_device]"
    "ct_selectedSystemOutput c = - 1" "tp_buffer (ct_microphonePipeline c) = Some (new_ring empty_frame (unat (ringBufferCapacityFrames default_config)))"
    "tp_synchronizer (ct_microphonePipeline c) = Some (new_track_sync F (app_sync_config 1))"
    "tp_stream (ct_microphonePipeline c) = Some 0" "ct_systemOutputPipeline c = no_pipeline"
    "ct_writer c = Some w" "rs_framesWritten (rw_stats w) = 0" "ct_writerFailed c = False" "ct_sttClient c = None" .
  obtain c1 good where f: "fire Pause c = (c1, good)" by fastforce
  from fire_state [OF this] 1(2) obtain s where c1: "good" "c1 = c\<lparr>ct_session := s\<rparr>" "app_state c1 = Paused" by auto
  let ?c = "c1\<lparr>ct_microphonePipeline := no_pipeline, ct_systemOutputPipeline := no_pipeline\<rparr>"
  have "stopStreams F demo_world (c1, \<lambda>_. []) = Some (?c, (\<lambda>_. [])(Device 0 := [[]]))"
    using 1 by (intro stopStreams_demo [OF _ _ new_ring_inv]) (simp_all add: c1(2))
  then have "pause_op F demo_world (c, \<lambda>_. []) = Some ((?c, (\<lambda>_. [])(Device 0 := [[]])), True)"
    using f c1(1) by (simp add: pause_op_def)
  with 1(1) have "app_run F demo_world [StartPressed, PausePressed] (new_controller ''d'', \<lambda>_. []) = Some (?c, (\<lambda>_. [])(Device 0 := [[]]))"
    by simp
  with that [of ?c] 1 c1(2,3) show thesis by (simp add: app_state_def)
qed

definition captured_frame :: audio_frame where
  "captured_frame = \<lparr>fr_track = Microphone, fr_sequence = 0, fr_timestamp = 10, fr_sampleRate = 48000,
     fr_channels = 1, fr_format = PcmS16Le, fr_discontinuity = False, fr_payload = [1, 2]\<rparr>"

lemma captured_frame_processed:
  "\<exists>s. process_all real_ops (new_track_sync real_ops (app_sync_config 1)) [captured_frame] = Some (s, [captured_frame])"
  by (simp add: process_def heal_def new_track_sync_def app_sync_config_def captured_frame_def Let_def updateDrift_def
    sampleCountPerChannel_def)

section \<open>Three defects\<close>

text \<open>A track without a writer track, which is what a device selected while paused gets, is never written.\<close>

lemma unassigned_track_is_not_recorded:
  "t < 0 \<Longrightarrow> stored m t outs (wo, failed, e) = Some (wo, failed, e)"
  by (auto simp: stored_def split: option.splits)

lemma device_selected_while_paused_gets_no_track:
  assumes "ct_writerMicrophoneTrack c = - 1" and "ct_microphones c \<noteq> []"
    and "w_startCapture W \<lparr>cc_deviceId = dev_id (ct_microphones c ! 0), cc_track = Microphone, cc_sampleRate = 48000,
      cc_channels = 1, cc_format = PcmS16Le, cc_frameDuration = captureFrameDuration (ct_config c)\<rparr> e = (e1, Inr h)"
    and "startStreams F W (setSelectedMicrophone 0 c, e) = ((c', e'), True)"
  shows "tp_writerTrack (ct_microphonePipeline c') = - 1 \<and> tp_stream (ct_microphonePipeline c') = Some h"
  using assms
  by (auto simp: startStreams_def startTrack_def setSelectedMicrophone_def microphoneSelected_def selected_def Let_def
    split: if_splits prod.splits sum.splits)

text \<open>
  The search for a name looks at the final name only: the second recording of a second
  opens, and so truncates, the partial file that the first one left for recovery.
\<close>

lemma kept_partial_file_is_truncated:
  assumes "createWriter W (c, e) = Some ((c', e'), True)" and "ct_writer c' = Some w"
    and "w_mkpath W (ct_outputDirectory c) e = (e1, True)"
    and "recording_candidate W (ct_outputDirectory c) (writer_tracks (microphoneSelected c) (systemOutputSelected c)) e1 = Some file"
  shows "(OpenFile (file @ ''.partial''), True) \<in> set (rw_trace w)"
  using assms(1)
proof (cases rule: createWriter_cases)
  case (opened w' candidate e2)
  with assms(2-4) have "w' = w" "candidate = file" by simp_all
  with create_open(3,7) [OF opened(5)] show ?thesis by auto
qed simp

lemma partial_files_are_not_looked_at:
  assumes "\<not> w_exists W (w_filePath W d (''voxmesh-'' @ w_stamp W e @ (if length tracks = 1 then ''.flac'' else ''.mka''))) e"
  shows "recording_candidate W d tracks e
    = Some (w_filePath W d (''voxmesh-'' @ w_stamp W e @ (if length tracks = 1 then ''.flac'' else ''.mka'')))"
  using assms by (simp add: recording_candidate_def Let_def fresh_name_free)

section \<open>Properties\<close>

text \<open>
  C7: the controller is consistent after every event. Whatever the user, the devices, FFmpeg,
  the network and the threads do, between two events the session is Idle, Recording, Paused
  or Failed; there is a writer, a pending file name and a running timer exactly when it is not
  Idle; capture runs in no track while Idle or Paused and in at least one while Recording;
  a pipeline's ring, stream and synchroniser exist together; and the transcription is active
  exactly when its client and its producer exist, which is never while Idle.
\<close>

theorem controller_invariant:
  assumes "app_run F W evs (new_controller d, e) = Some (c, e')"
  shows "controller_ok c"
  using app_run_ok [OF assms new_controller_ok] .

theorem controller_invariant_witness:
  "\<exists>c e. app_run real_ops demo_world [StartPressed, PausePressed] (new_controller ''d'', \<lambda>_. []) = Some (c, e)
    \<and> app_state c = Paused \<and> controller_ok c"
proof -
  from demo_pause [of real_ops] obtain c where
    "app_run real_ops demo_world [StartPressed, PausePressed] (new_controller ''d'', \<lambda>_. []) = Some (c, (\<lambda>_. [])(Device 0 := [[]]))"
    "app_state c = Paused" by metis
  with controller_invariant [OF this(1)] show ?thesis by blast
qed

text \<open>
  C8: a drain passes every captured frame on. Draining a pipeline empties its ring: the frames
  it held went through the synchroniser in order, what that put out was counted, and was
  written, in order, to the pipeline's track of the writer until a write failed. Without
  transcription it returns whenever the synchroniser and the writer do.
\<close>

theorem drain_passes_every_frame_on:
  assumes "tp_buffer (pipeline x c) = Some b" and "ring_inv b" and "tp_synchronizer (pipeline x c) = Some s"
  shows "(\<forall>c' e'. drainPipelineLocked F W x c e = Some (c', e') \<longrightarrow>
      (\<exists>s' outs b'. process_all F s (contents b) = Some (s', outs) \<and> tp_synchronizer (pipeline x c') = Some s'
        \<and> tp_buffer (pipeline x c') = Some b' \<and> contents b' = []
        \<and> ct_framesCaptured c' = ct_framesCaptured c + of_nat (length outs)
        \<and> stored (w_media W) (tp_writerTrack (pipeline x c)) outs (ct_writer c, ct_writerFailed c, e)
            = Some (ct_writer c', ct_writerFailed c', e')))
    \<and> (\<forall>s' outs. not_feeding x c \<longrightarrow> process_all F s (contents b) = Some (s', outs) \<longrightarrow>
        stored (w_media W) (tp_writerTrack (pipeline x c)) outs (ct_writer c, ct_writerFailed c, e) \<noteq> None \<longrightarrow>
        drainPipelineLocked F W x c e \<noteq> None)"
  using drain_effect [OF _ assms, of F W e] drain_returns [OF assms, of F _ _ W e] by blast

theorem drain_passes_every_frame_on_witness:
  "\<exists>c e c' e' b'. app_run real_ops demo_world [StartPressed, FrameCaptured MicrophoneTrack captured_frame]
      (new_controller ''d'', \<lambda>_. []) = Some (c, e)
    \<and> drainPipelineLocked real_ops demo_world MicrophoneTrack c e = Some (c', e')
    \<and> tp_buffer (pipeline MicrophoneTrack c') = Some b' \<and> contents b' = []
    \<and> ct_framesCaptured c' = ct_framesCaptured c + 1 \<and> e' (Fifo 0) = [[1, 2]]"
proof -
  from demo_start [of real_ops] obtain c w where 1: "start_op real_ops demo_world (new_controller ''d'', \<lambda>_. []) = Some ((c, \<lambda>_. []), True)"
    and b: "tp_buffer (pipeline MicrophoneTrack c) = Some (new_ring empty_frame (unat (ringBufferCapacityFrames default_config)))"
    and s: "tp_synchronizer (pipeline MicrophoneTrack c) = Some (new_track_sync real_ops (app_sync_config 1))"
    and w: "ct_writer c = Some w" "\<not> ct_writerFailed c" "ct_sttClient c = None"
      "rw_state w = Open" "rc_tracks (rw_config w) = [archival_track Microphone 1 ''Microphone'']"
      "map tk_chunkSamples (rw_tracks w) = [2]" "tp_writerTrack (pipeline MicrophoneTrack c) = 0" by (metis pipeline.simps(1))
  let ?b = "fst (tryPush (new_ring empty_frame (unat (ringBufferCapacityFrames default_config))) captured_frame)"
  let ?c = "onFrame MicrophoneTrack captured_frame c"
  have run: "app_run real_ops demo_world [StartPressed, FrameCaptured MicrophoneTrack captured_frame]
      (new_controller ''d'', \<lambda>_. []) = Some (?c, \<lambda>_. [])" using 1 by simp
  have rb: "ring_inv ?b" by (intro ring.push_invar new_ring_inv)
  have cb: "contents ?b = [captured_frame]"
    using ring.push_step [OF new_ring_inv, of empty_frame "unat (ringBufferCapacityFrames default_config)" captured_frame] by (simp add: bq_push_def default_config_def)
  have q: "tp_buffer (pipeline MicrophoneTrack ?c) = Some ?b"
    "tp_synchronizer (pipeline MicrophoneTrack ?c) = Some (new_track_sync real_ops (app_sync_config 1))"
    "tp_writerTrack (pipeline MicrophoneTrack ?c) = 0"
    "ct_writer ?c = Some w" "\<not> ct_writerFailed ?c" "not_feeding MicrophoneTrack ?c" using b s w by (simp_all add: onFrame_def not_feeding_def)
  have st: "\<exists>w'. stored (w_media demo_world) 0 [captured_frame] (Some w, False, \<lambda>_. []) = Some (Some w', False, (\<lambda>_. [])(Fifo 0 := [[1, 2]]))"
    using w by (auto simp: demo_world_def writer_write_def frame_matches_def archival_track_def captured_frame_def
      sampleCountPerChannel_def sample_frames_def demo_simps Cons_eq_map_conv map_eq_Cons_conv stored_def Let_def)
  obtain s' where p: "process_all real_ops (new_track_sync real_ops (app_sync_config 1)) [captured_frame] = Some (s', [captured_frame])"
    using captured_frame_processed by blast
  note d = drain_passes_every_frame_on [OF q(1) rb q(2), of real_ops demo_world "\<lambda>_. []", unfolded cb p q(3-5)]
  from st obtain w' where st: "stored (w_media demo_world) 0 [captured_frame] (Some w, False, \<lambda>_. []) = Some (Some w', False, (\<lambda>_. [])(Fifo 0 := [[1, 2]]))" ..
  from conjunct2 [OF d] p q(5,6) st have "drainPipelineLocked real_ops demo_world MicrophoneTrack ?c (\<lambda>_. []) \<noteq> None" by auto
  then obtain c' e' where r: "drainPipelineLocked real_ops demo_world MicrophoneTrack ?c (\<lambda>_. []) = Some (c', e')" by auto
  from conjunct1 [OF d] r p q(5) st obtain b' where "tp_buffer (pipeline MicrophoneTrack c') = Some b'" "contents b' = []"
    "ct_framesCaptured c' = ct_framesCaptured ?c + 1" "e' = (\<lambda>_. [])(Fifo 0 := [[1, 2]])" by auto
  with run r show ?thesis by auto
qed

text \<open>
  C9: stop ends the recording in the way it reports. A stop that is accepted drains the streams,
  leaves an idle controller without a writer, and: after a write failure the writer is only
  closed, so the partial file stays; with no frame written it is aborted, which removes the
  file; otherwise it is finalized, and exactly when that succeeds the pending file becomes
  the last recording.
\<close>

theorem stop_reports_what_became_of_the_recording:
  assumes "stop_op F W (c, e) = Some ((c', e'), True)" and "controller_ok c"
  shows "app_state c' = Idle \<and> ct_writer c' = None \<and> (\<exists>s c1 e1 w. stopStreams F W (c\<lparr>ct_session := s\<rparr>, e) = Some (c1, e1)
    \<and> ct_writer c1 = Some w
    \<and> (if ct_writerFailed c1
       then ct_lastRecordingFile c' = ct_lastRecordingFile c1 \<and> ct_lastError c' = Some WriteInterrupted
         \<and> e' = snd (cleanup (w_media W) (w, e1))
       else if rs_framesWritten (rw_stats w) = 0
       then ct_lastRecordingFile c' = ct_lastRecordingFile c1 \<and> ct_lastError c' = Some NothingCaptured
         \<and> e' = snd (writer_abort (w_media W) (w, e1))
       else (\<exists>w2 e2 good. writer_finalize (w_media W) (w, e1) = Some ((w2, e2), good)
         \<and> e' = snd (cleanup (w_media W) (w2, e2))
         \<and> (if good then ct_lastRecordingFile c' = ct_pendingOutputFile c \<and> ct_lastError c' = ct_lastError c1
            else ct_lastRecordingFile c' = ct_lastRecordingFile c1
              \<and> ct_lastError c' = Some (NotFinalized (rw_lastError w2))))))"
  using assms
proof (cases rule: stop_op_cases)
  case (stopped s c1 e1 c2 saved err)
  have "rings_ok (c\<lparr>ct_session := s\<rparr>)" using ok_rings [OF assms(2)] by (simp add: rings_ok_def)
  note v = stopStreams_frame [OF stopped(3) this]
  have "ct_writer c \<noteq> None" and pending: "ct_pendingOutputFile c \<noteq> []"
    using assms(2) stopped(2) by (auto simp: controller_ok_def)
  with v obtain w where w: "ct_writer c1 = Some w" by (auto simp: stopped_skeleton_def)
  have p: "ct_pendingOutputFile c1 = ct_pendingOutputFile c" using v by (simp add: stopped_skeleton_def)
  define c4 where "c4 = (let c3 = stopSttStreaming (c2\<lparr>ct_pendingOutputFile := []\<rparr>)
    in if saved \<noteq> [] then c3\<lparr>ct_lastRecordingFile := saved\<rparr>
       else case err of None \<Rightarrow> c3 | Some message \<Rightarrow> ui_fail message c3)"
  have "ct_session c2 = ct_session c1" using finish_writer_frame [OF stopped(5)] by (simp add: streams_part_def)
  then have "app_state c4 = Stopping" using v stopped(4)
    by (auto simp: c4_def Let_def ui_fail_def app_state_def stopped_skeleton_def split: option.splits)
  from fire_twice [OF this] obtain s' where c': "c' = c4\<lparr>ct_session := s'\<rparr>" using stopped(6) by (auto simp: c4_def)
  have f: "finish_writer W (c1\<lparr>ct_statsTimer := False\<rparr>, e1) = Some ((c2, e'), saved, err)" by (rule stopped(5))
  have "ct_lastRecordingFile c' = (if saved \<noteq> [] then saved else ct_lastRecordingFile c2)"
    "ct_lastError c' = (if saved \<noteq> [] \<or> err = None then ct_lastError c2 else err)"
    by (auto simp: c' c4_def Let_def ui_fail_def stopSttStreaming_def split: option.splits)
  moreover have "app_state c' = Idle \<and> ct_writer c' = None"
    using stop_op_ok [OF assms] by (auto simp: controller_ok_def)
  ultimately show ?thesis
    using f w pending p stopped(3)
    by (intro conjI exI [of _ s] exI [of _ c1] exI [of _ e1] exI [of _ w])
      (auto simp: finish_writer_def Let_def bind_eq_Some_conv ex_bool_eq split: if_splits)
qed simp

theorem stop_reports_what_became_of_the_recording_witness:
  "\<exists>c e c'. app_run real_ops demo_world [StartPressed] (new_controller ''d'', \<lambda>_. []) = Some (c, e)
    \<and> stop_op real_ops demo_world (c, e) = Some ((c', e(Device 0 := [[]])), True)
    \<and> app_state c' = Idle \<and> ct_lastError c' = Some NothingCaptured"
proof -
  from demo_start [of real_ops] obtain c w where 1: "start_op real_ops demo_world (new_controller ''d'', \<lambda>_. []) = Some ((c, \<lambda>_. []), True)"
    "app_state c = Recording"
    "tp_buffer (ct_microphonePipeline c) = Some (new_ring empty_frame (unat (ringBufferCapacityFrames default_config)))"
    "tp_synchronizer (ct_microphonePipeline c) = Some (new_track_sync real_ops (app_sync_config 1))"
    "tp_stream (ct_microphonePipeline c) = Some 0" "ct_systemOutputPipeline c = no_pipeline"
    "ct_writer c = Some w" "rs_framesWritten (rw_stats w) = 0" "ct_writerFailed c = False" by metis
  then have run: "app_run real_ops demo_world [StartPressed] (new_controller ''d'', \<lambda>_. []) = Some (c, \<lambda>_. [])" by simp
  note inv = app_run_ok [OF run new_controller_ok]
  obtain c1 good where f: "fire Stop c = (c1, good)" by fastforce
  from fire_state [OF this] 1(2) obtain s where c1: "good" "c1 = c\<lparr>ct_session := s\<rparr>" by auto
  let ?e = "(\<lambda>_. [])(Device 0 := [[]])"
  have str: "stopStreams real_ops demo_world (c\<lparr>ct_session := s'\<rparr>, \<lambda>_. []) = Some (c\<lparr>ct_session := s',
     ct_microphonePipeline := no_pipeline, ct_systemOutputPipeline := no_pipeline\<rparr>, ?e)" for s'
    using 1 by (subst stopStreams_demo [OF _ _ new_ring_inv]) simp_all
  have "snd (writer_abort memory_api (w, ?e)) = ?e"
    by (simp add: writer_abort_def cleanup_def memory_simps split_beta Let_def)
  then have "\<exists>c'. stop_op real_ops demo_world (c, \<lambda>_. []) = Some ((c', ?e), True)"
    using f c1 str [of s] 1(7-9) by (simp add: stop_op_def finish_writer_def demo_world_def)
  then obtain c' where st: "stop_op real_ops demo_world (c, \<lambda>_. []) = Some ((c', ?e), True)" ..
  from stop_reports_what_became_of_the_recording [OF st inv] str 1(7-9)
  have "app_state c' = Idle" "ct_lastError c' = Some NothingCaptured" by auto
  with run st show ?thesis by auto
qed

text \<open>
  C10: a failed resume cannot be recovered from. When the streams do not start again on resume, the
  session is Failed, and no event whatsoever leads out of it: the recording's writer stays
  open, neither finalized nor aborted, and no new recording can start.
\<close>

theorem failed_resume_is_final:
  assumes "controller_ok c" and "app_state c = Paused" and "resume_op F W (c, e) = ((c1, e1), False)"
    and "app_run F W evs (c1, e1) = Some (c2, e2)"
  shows "app_state c2 = session_state.Failed \<and> ct_writer c2 \<noteq> None"
proof -
  have 1: "controller_ok c1" "app_state c1 = session_state.Failed" using resume_op_ok [OF assms(3,1)] assms(2) by simp_all
  from app_run_failed [OF assms(4) 1] app_run_ok [OF assms(4) 1(1)] show ?thesis by (auto simp: controller_ok_def)
qed

theorem failed_resume_is_final_witness:
  "\<exists>c e c1 e1 c2 e2. app_run real_ops demo_world [StartPressed, PausePressed] (new_controller ''d'', \<lambda>_. []) = Some (c, e)
    \<and> resume_op real_ops demo_world (c, e) = ((c1, e1), False)
    \<and> app_run real_ops demo_world [StopPressed] (c1, e1) = Some (c2, e2)
    \<and> app_state c2 = session_state.Failed \<and> ct_writer c2 \<noteq> None"
proof -
  from demo_pause [of real_ops] obtain c where
    1: "app_run real_ops demo_world [StartPressed, PausePressed] (new_controller ''d'', \<lambda>_. []) = Some (c, (\<lambda>_. [])(Device 0 := [[]]))"
    "app_state c = Paused" "ct_selectedMicrophone c = 0" "ct_microphones c = [demo_device]" by metis
  note inv = app_run_ok [OF 1(1) new_controller_ok]
  have "rs_state (ct_session c) = Paused" using 1(2) by (simp add: app_state_def)
  then have "\<exists>c1. resume_op real_ops demo_world (c, (\<lambda>_. [])(Device 0 := [[]])) = ((c1, (\<lambda>_. [])(Device 0 := [[]])), False)"
    using 1(3,4) by (simp add: resume_op_def startStreams_def startTrack_def microphoneSelected_def selected_def
      demo_world_def Let_def)
  then obtain c1 where r: "resume_op real_ops demo_world (c, (\<lambda>_. [])(Device 0 := [[]])) = ((c1, (\<lambda>_. [])(Device 0 := [[]])), False)" ..
  have "app_state c1 = session_state.Failed" using resume_op_ok [OF r inv] 1(2) by simp
  then have "stop_op real_ops demo_world (c1, (\<lambda>_. [])(Device 0 := [[]])) = Some ((c1, (\<lambda>_. [])(Device 0 := [[]])), False)"
    by (simp add: stop_op_def fire_def handle_def app_state_def)
  then have s: "app_run real_ops demo_world [StopPressed] (c1, (\<lambda>_. [])(Device 0 := [[]])) = Some (c1, (\<lambda>_. [])(Device 0 := [[]]))" by simp
  from failed_resume_is_final [OF inv 1(2) r s] 1(1) r s show ?thesis by blast
qed

end
