(* ===== verification/EndToEnd.thy ===== *)
theory EndToEnd
  imports Controller RecordedFile
begin

text \<open>
  What the parts of the recorder do together: the frames the rings accept, followed through
  the synchronisers and the writer to the saved file, over any run of the controller from
  a start to the stop that ends the recording, pauses and resumes included.
\<close>

section \<open>What the synchroniser of a pipeline puts out\<close>

text \<open>Silence is at most five seconds at a time, so an output is not much longer than the input.\<close>

definition most_silence :: nat where
  "most_silence = 240000"

definition audio_budget :: "audio_frame list \<Rightarrow> int" where
  "audio_budget fs = (\<Sum>f \<leftarrow> fs. int (sampleCountPerChannel f) + int most_silence)"

definition fits :: "audio_frame list \<Rightarrow> bool" where
  "fits fs \<longleftrightarrow> (\<forall>f \<in> set fs. int (sampleCountPerChannel f) < 2 ^ 31) \<and> audio_budget fs < 2 ^ 62"

lemma audio_budget_simps [simp]:
  "audio_budget [] = 0" "audio_budget (f # fs) = int (sampleCountPerChannel f) + int most_silence + audio_budget fs"
  "audio_budget (fs @ gs) = audio_budget fs + audio_budget gs"
  by (simp_all add: audio_budget_def)

lemma audio_budget_nonneg: "0 \<le> audio_budget fs"
  by (induction fs) simp_all

lemma fits_prefix: "fits (fs @ gs) \<Longrightarrow> fits fs"
  using audio_budget_nonneg [of gs] by (auto simp: fits_def)

lemma app_silence: "d \<le> 5000000000 \<Longrightarrow> unat (durationToSamples (app_sync_config ch) d) \<le> most_silence"
proof (cases "0 < d")
  case True
  assume "d \<le> 5000000000"
  with True have d: "uint (word_of_int d :: u64) = d" by (simp add: uint_word_of_int)
  have p: "uint ((word_of_int d :: u64) * 48000) = d * 48000"
    using \<open>d \<le> 5000000000\<close> True by (subst uint_mult_small) (simp_all add: d)
  have "uint (durationToSamples (app_sync_config ch) d) = d * 48000 div 1000000000"
    using True by (simp add: durationToSamples_def app_sync_config_def kNanosPerSecond_def uint_div p)
  also have "\<dots> \<le> 240000" using \<open>d \<le> 5000000000\<close> by simp
  finally have "int (unat (durationToSamples (app_sync_config ch) d)) \<le> int most_silence"
    by (simp add: most_silence_def)
  then show ?thesis by (simp only: of_nat_le_iff)
qed (simp add: durationToSamples_def)

lemma unat_mult_le: "unat (a * b) \<le> unat a * unat b" for a b :: u64
  by (simp add: unat_word_ariths)

lemma silence_bytes: "unat (n * ucast ch * of_nat b) \<le> unat n * (b * unat ch)" for n :: u64 and ch :: u16
proof -
  have "unat (n * ucast ch * of_nat b) \<le> unat (n * ucast ch) * unat (of_nat b :: u64)" by (rule unat_mult_le)
  also have "\<dots> \<le> (unat n * unat (ucast ch :: u64)) * b"
    by (intro mult_le_mono unat_mult_le) (simp add: unat_of_nat)
  also have "unat (ucast ch :: u64) = unat ch" by (simp flip: nat_uint_eq)
  finally show ?thesis by (simp add: ac_simps)
qed

lemma silence_samples: "sampleCountPerChannel (snd (makeSilenceFrame s n t like)) \<le> unat n"
proof -
  let ?stride = "bytesPerSample (cs_format (ts_config s)) * unat (cs_channels (ts_config s))"
  have "unat (n * ucast (cs_channels (ts_config s)) * of_nat (bytesPerSample (cs_format (ts_config s)))) \<le> unat n * ?stride"
    by (rule silence_bytes)
  from div_le_mono [OF this, of ?stride] show ?thesis
    by (auto simp: makeSilenceFrame_def Let_def sampleCountPerChannel_def)
qed

lemma insertSilence_samples:
  "unat n \<le> most_silence \<Longrightarrow> g \<in> set (snd (insertSilence s n t f)) \<Longrightarrow> sampleCountPerChannel g \<le> most_silence"
  using silence_samples [of s n t f] by (auto simp: insertSilence_def Let_def split_beta split: if_splits)

lemma heal_samples:
  assumes "heal s f = Some (s1, out, f1)" and "ts_config s = app_sync_config ch"
  shows "\<forall>g \<in> set out. sampleCountPerChannel g \<le> most_silence"
proof -
  from assms(1) have "out = [] \<or> (\<exists>cap d t. s64 (cs_maxSilencePerGap (ts_config s) * nanosPerMilli) = Some cap
      \<and> out = snd (insertSilence s (durationToSamples (ts_config s) (min d cap)) t f))"
    by (auto simp: heal_def bind_eq_Some_conv Let_def split_beta
      simp del: min.absorb1 min.absorb2 min.absorb3 min.absorb4 split: if_splits)
  then show ?thesis
  proof
    assume "\<exists>cap d t. s64 (cs_maxSilencePerGap (ts_config s) * nanosPerMilli) = Some cap
      \<and> out = snd (insertSilence s (durationToSamples (ts_config s) (min d cap)) t f)"
    then obtain cap d t where cap: "s64 (cs_maxSilencePerGap (ts_config s) * nanosPerMilli) = Some cap"
      and out: "out = snd (insertSilence s (durationToSamples (ts_config s) (min d cap)) t f)" by blast
    from cap assms(2) have "cap = 5000000000" by (simp add: s64_eq_Some_iff app_sync_config_def nanosPerMilli_def)
    then have "unat (durationToSamples (ts_config s) (min d cap)) \<le> most_silence"
      unfolding assms(2) by (intro app_silence) simp
    from insertSilence_samples [OF this] show ?thesis unfolding out by blast
  qed simp
qed

lemma process_samples:
  assumes "process F s f = Some (s', out)" and "ts_config s = app_sync_config ch"
  shows "ts_config s' = app_sync_config ch \<and> total_samples out \<le> sampleCountPerChannel f + most_silence
    \<and> (\<forall>g \<in> set out. sampleCountPerChannel g \<le> max most_silence (sampleCountPerChannel f))"
proof -
  from assms(1) obtain s0 sils f1 s2 where
    1: "(\<not> anchored s \<and> s0 = anchorAt (s\<lparr>ts_stats := (ts_stats s)\<lparr>framesProcessed :=
          framesProcessed (ts_stats s) + 1\<rparr>\<rparr>) (fr_timestamp f) \<and> sils = [] \<and> f1 = f)
      \<or> (anchored s \<and> heal (s\<lparr>ts_stats := (ts_stats s)\<lparr>framesProcessed :=
          framesProcessed (ts_stats s) + 1\<rparr>\<rparr>) f = Some (s0, sils, f1))"
    and out: "out = sils @ [f1\<lparr>fr_sequence := nextOutputSequence s0\<rparr>]"
    by (rule process_cases)
  have sils: "(\<forall>g \<in> set sils. sampleCountPerChannel g \<le> most_silence) \<and> length sils \<le> 1 \<and> (\<exists>d. f1 = f\<lparr>fr_discontinuity := d\<rparr>)"
    using 1
  proof
    assume "\<not> anchored s \<and> s0 = anchorAt (s\<lparr>ts_stats := (ts_stats s)\<lparr>framesProcessed :=
      framesProcessed (ts_stats s) + 1\<rparr>\<rparr>) (fr_timestamp f) \<and> sils = [] \<and> f1 = f"
    moreover have "\<exists>d. f = f\<lparr>fr_discontinuity := d\<rparr>" by (intro exI [of _ "fr_discontinuity f"]) simp
    ultimately show ?thesis by simp
  next
    assume h: "anchored s \<and> heal (s\<lparr>ts_stats := (ts_stats s)\<lparr>framesProcessed :=
      framesProcessed (ts_stats s) + 1\<rparr>\<rparr>) f = Some (s0, sils, f1)"
    with heal_samples [of _ f s0 sils f1 ch] heal_block(1,2) [of _ f s0 sils f1] assms(2) show ?thesis by auto
  qed
  then obtain d where "f1 = f\<lparr>fr_discontinuity := d\<rparr>" by blast
  then have f1: "sampleCountPerChannel f1 = sampleCountPerChannel f"
    by (simp add: sampleCountPerChannel_def)
  have cfg: "ts_config s' = app_sync_config ch" using process_block(4) [OF assms(1)] assms(2) by simp
  from sils consider "sils = []" | g where "sils = [g]" "sampleCountPerChannel g \<le> most_silence"
    by (cases sils) auto
  then show ?thesis
  proof cases
    case 1
    then show ?thesis by (simp add: out f1 cfg)
  next
    case 2
    then show ?thesis by (simp add: out f1 cfg)
  qed
qed

text \<open>The outputs of a stream, from a new synchroniser.\<close>

lemma process_all_append:
  "process_all F s (fs @ gs) = do {
     (s', outs) \<leftarrow> process_all F s fs; (s'', outs') \<leftarrow> process_all F s' gs; Some (s'', outs @ outs') }"
  by (induction fs arbitrary: s) (auto simp: split_beta split: Option.bind_splits)

lemma process_all_samples:
  "process_all F s fs = Some (s', outs) \<Longrightarrow> ts_config s = app_sync_config ch \<Longrightarrow>
   ts_config s' = app_sync_config ch \<and> int (total_samples outs) \<le> audio_budget fs"
proof (induction fs arbitrary: s outs)
  case (Cons f fs)
  then obtain s1 out1 out2 where 1: "process F s f = Some (s1, out1)" "process_all F s1 fs = Some (s', out2)"
    "outs = out1 @ out2" by (auto simp: bind_eq_Some_conv)
  from process_samples [OF 1(1) Cons.prems(2)] Cons.IH [OF 1(2)] 1(3) show ?case by simp
qed simp

fun channels_of :: "which \<Rightarrow> channel_count" where
  "channels_of MicrophoneTrack = 1"
| "channels_of SystemOutputTrack = 2"

definition new_sync :: "'d float_ops \<Rightarrow> which \<Rightarrow> 'd track_sync" where
  "new_sync F x = new_track_sync F (app_sync_config (channels_of x))"

lemma new_sync_config [simp]: "ts_config (new_sync F x) = app_sync_config (channels_of x)"
  by (simp add: new_sync_def new_track_sync_def)

text \<open>The audio of one stretch of capture, and of several one after the other.\<close>

definition synced :: "'d float_ops \<Rightarrow> which \<Rightarrow> audio_frame list \<Rightarrow> sample_frame list" where
  "synced F x fs = (case process_all F (new_sync F x) fs of
     None \<Rightarrow> [] | Some (s, outs) \<Rightarrow> concat (map sample_frames outs))"

definition spliced :: "'d float_ops \<Rightarrow> which \<Rightarrow> audio_frame list list \<Rightarrow> sample_frame list" where
  "spliced F x segments = concat (map (synced F x) segments)"

lemma synced_Nil [simp]: "synced F x [] = []"
  by (simp add: synced_def)

lemma spliced_simps [simp]:
  "spliced F x [] = []" "spliced F x (ss @ ts) = spliced F x ss @ spliced F x ts" "spliced F x [fs] = synced F x fs"
  by (simp_all add: spliced_def)

lemma samples_length: "length (concat (map sample_frames outs)) = total_samples outs"
  by (induction outs) simp_all

lemma synced_length: "int (length (synced F x fs)) \<le> audio_budget fs"
proof (cases "process_all F (new_sync F x) fs")
  case None
  then show ?thesis by (simp add: synced_def audio_budget_nonneg)
next
  case (Some r)
  obtain s outs where "r = (s, outs)" by (cases r)
  with Some process_all_samples [of F "new_sync F x" fs s outs "channels_of x"] show ?thesis
    by (simp add: synced_def samples_length)
qed

lemma spliced_length: "int (length (spliced F x segments)) \<le> audio_budget (concat segments)"
proof (induction segments)
  case (Cons fs segments)
  have "int (length (spliced F x (fs # segments))) = int (length (synced F x fs)) + int (length (spliced F x segments))"
    by (simp add: spliced_def)
  with Cons.IH synced_length [of F x fs] show ?case by simp
qed simp

lemma synced_snoc:
  assumes "process_all F (new_sync F x) fs = Some (s, outs0)" and "process F s f = Some (s', outs)"
  shows "process_all F (new_sync F x) (fs @ [f]) = Some (s', outs0 @ outs)"
    and "synced F x (fs @ [f]) = synced F x fs @ concat (map sample_frames outs)"
  using assms by (simp_all add: process_all_append synced_def)

section \<open>Several writes\<close>

lemma writer_write_open:
  assumes "writer_write m t f (w, e) = Some ((w', e'), True)"
  shows "rw_state w = Open \<and> rw_state w' = Open \<and> length (rw_tracks w') = length (rw_tracks w)"
  using assms
proof (cases rule: writer_write_cases)
  case (written e1 stored w1 st)
  from encodeBuffered_encodes [OF this(6)] obtain cs where "encodes w w1 cs" ..
  from encodes_fields [OF this] written show ?thesis by simp
qed simp_all

lemma writer_write_tracks:
  assumes "writer_write m t f (w, e) = Some ((w', e'), b)"
  shows "length (rw_tracks w') = length (rw_tracks w) \<and> rw_config w' = rw_config w"
  using assms
proof (cases rule: writer_write_cases)
  case (failed w1 cs)
  from encodes_fields [OF failed(2)] failed(3) show ?thesis by (simp add: writer_fail_def)
next
  case (written e1 stored w1 st)
  from encodeBuffered_encodes [OF this(6)] obtain cs where "encodes w w1 cs" ..
  from encodes_fields [OF this] written show ?thesis by simp
qed simp_all

lemma write_all_tracks:
  "write_all m t fs (w, e) = Some ((w', e'), b) \<Longrightarrow>
   length (rw_tracks w') = length (rw_tracks w) \<and> rw_config w' = rw_config w"
proof (induction fs arbitrary: w e)
  case (Cons f fs)
  then obtain w1 e1 b1 where "writer_write m t f (w, e) = Some ((w1, e1), b1)"
    "(if b1 then write_all m t fs (w1, e1) else Some ((w1, e1), False)) = Some ((w', e'), b)"
    by (auto simp: bind_eq_Some_conv)
  with writer_write_tracks [of m t f w e w1 e1 b1] Cons.IH [of w1 e1] show ?case by (cases b1) auto
qed simp

lemma write_all_records:
  assumes laws: "recorder_laws (w_media W) v decode backlog"
  shows "write_all (w_media W) t fs (w, e) = Some ((w', e'), True) \<Longrightarrow> rw_state w = Open \<Longrightarrow> recorded (w_media W) v decode acc w e \<Longrightarrow>
    \<forall>f \<in> set fs. int (sampleCountPerChannel f) < 2 ^ 31 \<Longrightarrow>
    \<forall>i. int (length (acc i)) + int (total_samples fs) < 2 ^ 63 \<Longrightarrow>
    rw_state w' = Open \<and> length (rw_tracks w') = length (rw_tracks w)
      \<and> recorded (w_media W) v decode (acc(t := acc t @ concat (map sample_frames fs))) w' e'"
proof (induction fs arbitrary: acc w e)
  case (Cons f fs)
  from Cons.prems(1) obtain w1 e1 where 1: "writer_write (w_media W) t f (w, e) = Some ((w1, e1), True)"
    and 2: "write_all (w_media W) t fs (w1, e1) = Some ((w', e'), True)"
    by (auto simp: bind_eq_Some_conv split: if_splits)
  let ?acc = "acc(t := acc t @ sample_frames f)"
  note o = writer_write_open [OF 1]
  have "\<forall>i. int (length (acc i)) + int (sampleCountPerChannel f) < 2 ^ 63"
  proof
    fix i show "int (length (acc i)) + int (sampleCountPerChannel f) < 2 ^ 63"
      using spec [OF Cons.prems(5), of i] by simp
  qed
  with writer_write_recorded [OF laws Cons.prems(2,3), of f t] Cons.prems(4) 1 o
  have r: "recorded (w_media W) v decode ?acc w1 e1" by auto
  have "\<forall>i. int (length (?acc i)) + int (total_samples fs) < 2 ^ 63"
  proof
    fix i show "int (length (?acc i)) + int (total_samples fs) < 2 ^ 63"
      using spec [OF Cons.prems(5), of i] by (cases "i = t") simp_all
  qed
  moreover have "?acc(t := ?acc t @ concat (map sample_frames fs)) = acc(t := acc t @ concat (map sample_frames (f # fs)))"
    by simp
  ultimately show ?case using Cons.IH [OF 2 _ r] Cons.prems(4) o by (simp only: list.set_intros ball_simps) simp
qed simp

section \<open>The audio followed through a run\<close>

fun track_of :: "which \<Rightarrow> 'd controller \<Rightarrow> int" where
  "track_of MicrophoneTrack c = ct_writerMicrophoneTrack c"
| "track_of SystemOutputTrack c = ct_writerSystemOutputTrack c"

text \<open>
  Per track, the frames of the finished stretches of capture and those the synchroniser of the
  current one has seen.
\<close>

type_synonym heard = "which \<Rightarrow> audio_frame list list \<times> audio_frame list"

definition samples_of :: "'d float_ops \<Rightarrow> heard \<Rightarrow> which \<Rightarrow> sample_frame list" where
  "samples_of F g x = spliced F x (fst (g x) @ [snd (g x)])"

definition track_samples :: "'d float_ops \<Rightarrow> heard \<Rightarrow> 'd controller \<Rightarrow> nat \<Rightarrow> sample_frame list" where
  "track_samples F g c t =
     (if track_of MicrophoneTrack c = int t then samples_of F g MicrophoneTrack
      else if track_of SystemOutputTrack c = int t then samples_of F g SystemOutputTrack else [])"

text \<open>\<open>T x\<close> are the frames track \<open>x\<close>'s ring has accepted in the current stretch.\<close>

definition pipe_ok :: "'d float_ops \<Rightarrow> heard \<Rightarrow> (which \<Rightarrow> audio_frame list) \<Rightarrow> which \<Rightarrow> 'd controller \<Rightarrow> bool" where
  "pipe_ok F g T x c \<longleftrightarrow> (case (tp_buffer (pipeline x c), tp_synchronizer (pipeline x c)) of
       (Some b, Some s) \<Rightarrow> ring_inv b \<and> tp_writerTrack (pipeline x c) = track_of x c
         \<and> (\<exists>outs. process_all F (new_sync F x) (snd (g x)) = Some (s, outs))
         \<and> snd (g x) @ contents b = T x
     | (None, None) \<Rightarrow> snd (g x) = [] \<and> T x = []
     | _ \<Rightarrow> False)"

definition file_ok :: "'d float_ops \<Rightarrow> 'e world \<Rightarrow> ('e \<Rightarrow> media_view) \<Rightarrow> (nat \<Rightarrow> u8 list \<Rightarrow> sample_frame list)
    \<Rightarrow> heard \<Rightarrow> 'd controller \<Rightarrow> 'e \<Rightarrow> bool" where
  "file_ok F W v decode g c e \<longleftrightarrow> (\<exists>w. ct_writer c = Some w \<and> (\<forall>x. track_of x c < int (length (rw_tracks w)))
     \<and> rc_outputFile (rw_config w) = ct_pendingOutputFile c
     \<and> (\<not> ct_writerFailed c \<longrightarrow> rw_state w = Open \<and> recorded (w_media W) v decode (track_samples F g c) w e))"

definition follows :: "'d float_ops \<Rightarrow> 'e world \<Rightarrow> ('e \<Rightarrow> media_view) \<Rightarrow> (nat \<Rightarrow> u8 list \<Rightarrow> sample_frame list)
    \<Rightarrow> heard \<Rightarrow> (which \<Rightarrow> audio_frame list)
    \<Rightarrow> 'd controller \<Rightarrow> 'e \<Rightarrow> bool" where
  "follows F W v decode g T c e \<longleftrightarrow> (\<forall>x. pipe_ok F g T x c) \<and> file_ok F W v decode g c e
     \<and> (track_of MicrophoneTrack c = track_of SystemOutputTrack c \<longrightarrow> track_of MicrophoneTrack c < 0)"

text \<open>The part of the controller this speaks of; the rest, and calls that leave FFmpeg's state alone, do not matter.\<close>

definition audio_part :: "'d controller \<Rightarrow> 'd track_pipeline \<times> 'd track_pipeline \<times> writer option \<times> bool \<times> string \<times> int \<times> int" where
  "audio_part c = (ct_microphonePipeline c, ct_systemOutputPipeline c, ct_writer c, ct_writerFailed c,
     ct_pendingOutputFile c, ct_writerMicrophoneTrack c, ct_writerSystemOutputTrack c)"

lemma audio_part_track: "audio_part c' = audio_part c \<Longrightarrow> track_of x c' = track_of x c"
  by (cases x) (simp_all add: audio_part_def)

lemma audio_part_pipeline: "audio_part c' = audio_part c \<Longrightarrow> pipeline x c' = pipeline x c"
  by (cases x) (simp_all add: audio_part_def)

lemma recorded_env: "v e' = v e \<Longrightarrow> recorded (w_media W) v decode acc w e' = recorded (w_media W) v decode acc w e"
  by (simp add: recorded_def recording_def track_rec_def coded_def track_coded_def Let_def)

lemma follows_cong:
  assumes "audio_part c' = audio_part c" and "v e' = v e"
  shows "follows F W v decode g T c' e' = follows F W v decode g T c e"
proof -
  note t = audio_part_track [OF assms(1)] and p = audio_part_pipeline [OF assms(1)]
  have "ct_writer c' = ct_writer c" "ct_writerFailed c' = ct_writerFailed c" "ct_pendingOutputFile c' = ct_pendingOutputFile c"
    using assms(1) by (simp_all add: audio_part_def)
  moreover have "pipe_ok F g T x c' = pipe_ok F g T x c" for x by (simp only: pipe_ok_def p t)
  moreover have "track_samples F g c' = track_samples F g c" by (simp only: track_samples_def [abs_def] t)
  ultimately show ?thesis by (simp only: follows_def file_ok_def t recorded_env [where v = v, OF assms(2)])
qed

lemma follows_part: "audio_part c' = audio_part c \<Longrightarrow> follows F W v decode g T c' e = follows F W v decode g T c e"
  by (rule follows_cong) simp_all

lemma follows_env: "v e' = v e \<Longrightarrow> follows F W v decode g T c e \<Longrightarrow> follows F W v decode g T c e'"
  using follows_cong [of c c v e' e F W decode g T] by simp

lemma samples_of_bound:
  assumes "snd (g x) @ rest = T"
  shows "int (length (samples_of F g x)) + audio_budget rest \<le> audio_budget (concat (fst (g x)) @ T)"
  using spliced_length [of F x "fst (g x) @ [snd (g x)]"] by (simp add: samples_of_def flip: assms)

subsection \<open>A frame through the drain\<close>

lemma feed_kept: "feed F now feeds outs c = Some c' \<Longrightarrow> track_of y c' = track_of y c"
  by (erule feed_cases; cases y) auto

lemma store_kept: "store m t outs (c, e) = Some (c', e') \<Longrightarrow> track_of y c' = track_of y c"
  by (erule store_cases; cases y) auto

lemma set_pipeline_track [simp]: "track_of y (set_pipeline x p c) = track_of y c"
  by (cases x; cases y) simp_all

lemma set_pipeline_pending [simp]: "ct_pendingOutputFile (set_pipeline x p c) = ct_pendingOutputFile c"
  by (cases x) simp_all

lemma captured_track: "track_of y (c\<lparr>ct_framesCaptured := n\<rparr>) = track_of y c"
  by (cases y) simp_all

lemma drain_frame_kept:
  assumes "drain_frame F W x f (c, e) = Some (c', e')"
  shows "track_of y c' = track_of y c \<and> (y \<noteq> x \<longrightarrow> pipeline y c' = pipeline y c)"
proof -
  from assms obtain s s' outs c1 where
    f: "feed F (w_unixMs W e) (tp_feedsSttStream (pipeline x c)) outs ((set_pipeline x
       ((pipeline x c)\<lparr>tp_synchronizer := Some s'\<rparr>) c)\<lparr>ct_framesCaptured := ct_framesCaptured c + of_nat (length outs)\<rparr>)
     = Some c1" and st: "store (w_media W) (tp_writerTrack (pipeline x c)) outs (c1, e) = Some (c', e')"
    by (rule drain_frame_cases)
  from feed_kept [OF f, of y] store_kept [OF st, of y] feed_frame [OF f, of y] store_frame [OF st, of y]
  show ?thesis by (simp add: captured_track skeleton_captured)
qed

text \<open>What writing a pipeline's outputs means for the file.\<close>

lemma file_ok_stored:
  assumes laws: "recorder_laws (w_media W) v decode backlog" and fl: "file_ok F W v decode g c e"
    and st: "stored (w_media W) (track_of x c) outs (ct_writer c, ct_writerFailed c, e) = Some (ct_writer c', ct_writerFailed c', e')"
    and pending: "ct_pendingOutputFile c' = ct_pendingOutputFile c"
    and tracks: "\<And>y. track_of y c' = track_of y c"
    and distinct: "track_of MicrophoneTrack c = track_of SystemOutputTrack c \<longrightarrow> track_of MicrophoneTrack c < 0"
    and g: "samples_of F g' x = samples_of F g x @ concat (map sample_frames outs)"
      "\<And>y. y \<noteq> x \<Longrightarrow> samples_of F g' y = samples_of F g y"
    and small: "\<forall>f \<in> set outs. int (sampleCountPerChannel f) < 2 ^ 31"
    and total: "\<And>y. int (length (samples_of F g y)) + int (total_samples outs) < 2 ^ 63"
  shows "file_ok F W v decode g' c' e'"
proof -
  from fl obtain w where w: "ct_writer c = Some w" "\<forall>x. track_of x c < int (length (rw_tracks w))"
      "rc_outputFile (rw_config w) = ct_pendingOutputFile c"
    and r: "\<not> ct_writerFailed c \<longrightarrow> rw_state w = Open \<and> recorded (w_media W) v decode (track_samples F g c) w e"
    unfolding file_ok_def by blast
  have sy: "samples_of F g' y = samples_of F g y @ (if y = x then concat (map sample_frames outs) else [])" for y
    using g by simp
  have ts: "track_samples F g' c' i = track_samples F g c i @ (if track_of x c = int i then concat (map sample_frames outs) else [])" for i
    using distinct by (cases x) (auto simp: track_samples_def tracks sy)
  consider "track_of x c < 0" | "ct_writerFailed c" | "0 \<le> track_of x c" "\<not> ct_writerFailed c" by linarith
  then show ?thesis
  proof cases
    case 1
    then have "track_samples F g' c' = track_samples F g c" by (auto simp: ts)
    moreover from 1 st w(1) have "ct_writer c' = Some w" "ct_writerFailed c' = ct_writerFailed c" "e' = e"
      by (auto simp: stored_def)
    ultimately show ?thesis using w(2,3) r pending by (simp add: file_ok_def tracks)
  next
    case 2
    with st w(1) have "ct_writer c' = Some w" "ct_writerFailed c'" by (auto simp: stored_def)
    with w(2,3) pending show ?thesis by (simp add: file_ok_def tracks)
  next
    case 3
    with st w obtain w' good where wr: "write_all (w_media W) (nat (track_of x c)) outs (w, e) = Some ((w', e'), good)"
      "ct_writer c' = Some w'" "ct_writerFailed c' = (\<not> good)"
      by (auto simp: stored_def bind_eq_Some_conv)
    have "rw_state w' = Open \<and> recorded (w_media W) v decode (track_samples F g' c') w' e'" if "good"
    proof -
      let ?t = "nat (track_of x c)" and ?acc = "track_samples F g c"
      have "int (length (?acc i)) + int (total_samples outs) < 2 ^ 63" for i
        using total [of MicrophoneTrack] total [of SystemOutputTrack]
        by (simp add: track_samples_def del: of_nat_add)
      moreover have "?acc(?t := ?acc ?t @ concat (map sample_frames outs)) = track_samples F g' c'"
        using 3(1) by (auto simp: ts)
      moreover have "rw_state w = Open" "recorded (w_media W) v decode ?acc w e" using r 3(2) by simp_all
      ultimately show ?thesis using write_all_records [OF laws _ _ _ small, of ?t w e w' e' ?acc] wr(1) that by simp
    qed
    with wr write_all_tracks [OF wr(1)] w(2,3) pending show ?thesis by (simp add: file_ok_def tracks)
  qed
qed

lemma pipe_ok_cong:
  "pipeline y c' = pipeline y c \<Longrightarrow> track_of y c' = track_of y c \<Longrightarrow> g' y = g y \<Longrightarrow> T' y = T y \<Longrightarrow>
   pipe_ok F g' T' y c' = pipe_ok F g T y c"
  by (simp only: pipe_ok_def)

lemma drain_frame_follows:
  assumes fo: "follows F W v decode g T c e" and laws: "recorder_laws (w_media W) v decode backlog" and fits: "\<And>y. fits (concat (fst (g y)) @ T y)"
    and b: "tp_buffer (pipeline x c) = Some b" "tp_synchronizer (pipeline x c) = Some s" "contents b = f # rest"
    and b': "ring_inv b'" "contents b' = rest"
    and d: "drain_frame F W x f (set_pipeline x ((pipeline x c)\<lparr>tp_buffer := Some b'\<rparr>) c, e) = Some (c', e')"
  shows "follows F W v decode (g(x := (fst (g x), snd (g x) @ [f]))) T c' e' \<and> tp_buffer (pipeline x c') = Some b'"
proof -
  let ?c = "set_pipeline x ((pipeline x c)\<lparr>tp_buffer := Some b'\<rparr>) c" and ?g = "g(x := (fst (g x), snd (g x) @ [f]))"
  have "pipe_ok F g T x c" using fo by (simp add: follows_def)
  with b obtain outs0 where p: "tp_writerTrack (pipeline x c) = track_of x c"
    "process_all F (new_sync F x) (snd (g x)) = Some (s, outs0)" and T: "snd (g x) @ f # rest = T x"
    by (auto simp: pipe_ok_def)
  have "tp_synchronizer (pipeline x ?c) = Some s" using b(2) by simp
  from drain_frame_effect [OF d this] p(1) obtain s' outs where q: "process F s f = Some (s', outs)"
    "tp_synchronizer (pipeline x c') = Some s'" "tp_writerTrack (pipeline x c') = track_of x c"
    and st: "stored (w_media W) (track_of x c) outs (ct_writer c, ct_writerFailed c, e)
      = Some (ct_writer c', ct_writerFailed c', e')" by auto
  have k: "track_of y c' = track_of y c" "y \<noteq> x \<Longrightarrow> pipeline y c' = pipeline y c" for y
    using drain_frame_kept [OF d, of y] by simp_all
  have buf: "tp_buffer (pipeline x c') = Some b'" using drain_frame_frame [OF d, of x] by simp
  note sn = synced_snoc [OF p(2) q(1)]
  have cfg: "ts_config s = app_sync_config (channels_of x)"
    using process_all_samples [OF p(2), of "channels_of x"] by simp
  note small = process_samples [OF q(1) cfg]
  have f: "int (sampleCountPerChannel f) < 2 ^ 31" using fits [of x] by (auto simp: fits_def simp flip: T)
  have "file_ok F W v decode ?g c' e'"
  proof (rule file_ok_stored [OF laws _ _ _ k(1), where g = g and e = e and x = x and outs = outs])
    show "file_ok F W v decode g c e" "track_of MicrophoneTrack c = track_of SystemOutputTrack c \<longrightarrow> track_of MicrophoneTrack c < 0"
      using fo by (simp_all add: follows_def)
    show "ct_pendingOutputFile c' = ct_pendingOutputFile c" using drain_frame_frame [OF d, of x] by (simp add: skeleton_def)
    show "stored (w_media W) (track_of x c) outs (ct_writer c, ct_writerFailed c, e) = Some (ct_writer c', ct_writerFailed c', e')"
      by (rule st)
    show "samples_of F ?g x = samples_of F g x @ concat (map sample_frames outs)"
      by (simp add: samples_of_def sn(2))
    show "samples_of F ?g y = samples_of F g y" if "y \<noteq> x" for y using that by (simp add: samples_of_def)
    show "\<forall>f \<in> set outs. int (sampleCountPerChannel f) < 2 ^ 31"
      using small f by (fastforce simp: most_silence_def)
    show "int (length (samples_of F g y)) + int (total_samples outs) < 2 ^ 63" for y
    proof -
      have "\<exists>rest. snd (g y) @ rest = T y"
        using fo by (auto simp: follows_def pipe_ok_def split: option.splits dest!: spec [of _ y] intro: exI [of _ "[]"])
      then obtain r where "snd (g y) @ r = T y" ..
      from samples_of_bound [where g = g and x = y, OF this, of F] fits [of y] audio_budget_nonneg [of r]
      have "int (length (samples_of F g y)) < 2 ^ 62" by (simp add: fits_def)
      moreover have "int (total_samples outs) \<le> audio_budget [f]" using small by simp
      moreover have "audio_budget [f] \<le> audio_budget (concat (fst (g x)) @ T x)"
        by (simp add: audio_budget_nonneg flip: T)
      ultimately show ?thesis using fits [of x] by (simp add: fits_def)
    qed
  qed
  moreover have "pipe_ok F ?g T x c'" using buf q p b' T sn(1) by (simp add: pipe_ok_def k)
  moreover have "pipe_ok F ?g T y c'" if "y \<noteq> x" for y
    using fo that k pipe_ok_cong [of y c' c ?g g T T F] by (simp add: follows_def)
  ultimately show ?thesis using fo buf k(1) by (simp add: follows_def del: fun_upd_apply) metis
qed

lemma pipe_ok_cases:
  assumes "pipe_ok F g T x c"
  obtains (gone) "tp_buffer (pipeline x c) = None" "tp_synchronizer (pipeline x c) = None" "snd (g x) = []" "T x = []"
  | (running) b s where "tp_buffer (pipeline x c) = Some b" "tp_synchronizer (pipeline x c) = Some s" "ring_inv b"
      "tp_writerTrack (pipeline x c) = track_of x c" "snd (g x) @ contents b = T x"
  using assms by (auto simp: pipe_ok_def split: option.splits)

lemma drain_gone: "tp_buffer (pipeline x c) = None \<Longrightarrow> drainPipelineLocked F W x c e = Some (c, e)"
  by (subst drainPipelineLocked.simps) (simp add: drain_one_def)

lemma drain_one_follows:
  assumes fo: "follows F W v decode g T c e" and laws: "recorder_laws (w_media W) v decode backlog" and fits: "\<And>y. fits (concat (fst (g y)) @ T y)"
    and d: "drain_one F W x (c, e) = Some ((c', e'), again)"
  shows "\<exists>g'. follows F W v decode g' T c' e' \<and> (\<forall>y. fst (g' y) = fst (g y))"
proof -
  have "pipe_ok F g T x c" using fo by (simp add: follows_def)
  then show ?thesis
  proof (cases rule: pipe_ok_cases)
    case gone
    with d fo show ?thesis by (auto simp: drain_one_def)
  next
    case (running b s)
    obtain b' r where p: "tryPop (w_moved_from W) b = (b', r)" by fastforce
    have pop: "(contents b', r) = bq_pop (contents b)" "ring_inv b'"
      using ring.pop_step [OF running(3), of "w_moved_from W"] ring.pop_invar [OF running(3), of "w_moved_from W"] p by simp_all
    show ?thesis
    proof (cases r)
      case None
      with d running p fo show ?thesis by (auto simp: drain_one_def)
    next
      case (Some f)
      with pop(1) have c: "contents b = f # contents b'" by (auto simp: bq_pop_def split: list.splits)
      from d running p Some have
        "drain_frame F W x f (set_pipeline x ((pipeline x c)\<lparr>tp_buffer := Some b'\<rparr>) c, e) = Some (c', e')"
        by (auto simp: drain_one_def bind_eq_Some_conv)
      from drain_frame_follows [OF fo laws fits running(1,2) c pop(2) refl this] show ?thesis
        by (intro exI [of _ "g(x := (fst (g x), snd (g x) @ [f]))"]) simp
    qed
  qed
qed

lemma drain_follows:
  assumes laws: "recorder_laws (w_media W) v decode backlog"
  shows "follows F W v decode g T c e \<Longrightarrow> (\<And>y. fits (concat (fst (g y)) @ T y)) \<Longrightarrow> drainPipelineLocked F W x c e = Some (c', e') \<Longrightarrow>
    tp_buffer (pipeline x c) = Some b \<Longrightarrow>
    \<exists>g' b'. follows F W v decode g' T c' e' \<and> tp_buffer (pipeline x c') = Some b' \<and> contents b' = []
      \<and> (\<forall>y. fst (g' y) = fst (g y)) \<and> (\<forall>y. track_of y c' = track_of y c)
      \<and> (\<forall>y. y \<noteq> x \<longrightarrow> pipeline y c' = pipeline y c)"
proof (induction "contents b" arbitrary: b c e g)
  case (Nil b c e g)
  from Nil.prems(1,4) obtain s where "tp_synchronizer (pipeline x c) = Some s" "ring_inv b"
    by (auto simp: follows_def elim!: pipe_ok_cases [of F g T x c] dest!: spec [of _ x])
  from drain_unfold(1) [OF Nil.prems(4) this(2,1) Nil.hyps [symmetric], of F W e] Nil.prems Nil.hyps show ?case by auto
next
  case (Cons f fs b c e g)
  from Cons.prems(1,4) obtain s where s: "tp_synchronizer (pipeline x c) = Some s" "ring_inv b"
    by (auto simp: follows_def elim!: pipe_ok_cases [of F g T x c] dest!: spec [of _ x])
  from drain_unfold(2) [OF Cons.prems(4) s(2,1) Cons.hyps(2) [symmetric], of F W e] obtain b1 where
    b1: "ring_inv b1" "contents b1 = fs" and u: "drainPipelineLocked F W x c e = Option.bind
      (drain_frame F W x f (set_pipeline x ((pipeline x c)\<lparr>tp_buffer := Some b1\<rparr>) c, e))
      (\<lambda>(c', e'). drainPipelineLocked F W x c' e')" by blast
  from Cons.prems(3) [unfolded u] obtain c1 e1 where
    1: "drain_frame F W x f (set_pipeline x ((pipeline x c)\<lparr>tp_buffer := Some b1\<rparr>) c, e) = Some (c1, e1)" and
    2: "drainPipelineLocked F W x c1 e1 = Some (c', e')"
    by (auto simp: bind_eq_Some_conv)
  from drain_frame_follows [OF Cons.prems(1) laws Cons.prems(2) Cons.prems(4) s(1) Cons.hyps(2) [symmetric] b1 1] have
    fo: "follows F W v decode (g(x := (fst (g x), snd (g x) @ [f]))) T c1 e1" "tp_buffer (pipeline x c1) = Some b1" by simp_all
  have "fits (concat (fst ((g(x := (fst (g x), snd (g x) @ [f]))) y)) @ T y)" for y
    using Cons.prems(2) [of y] by (cases "y = x") simp_all
  from Cons.hyps(1) [OF b1(2) [symmetric] fo(1) this 2 fo(2)] obtain g' b' where
    g': "follows F W v decode g' T c' e'" "tp_buffer (pipeline x c') = Some b'" "contents b' = []"
      "\<forall>y. fst (g' y) = fst ((g(x := (fst (g x), snd (g x) @ [f]))) y)" "\<forall>y. track_of y c' = track_of y c1"
      "\<forall>y. y \<noteq> x \<longrightarrow> pipeline y c' = pipeline y c1" by blast
  have "\<forall>y. fst (g' y) = fst (g y)" using g'(4) by simp
  moreover have "\<forall>y. track_of y c' = track_of y c" "\<forall>y. y \<noteq> x \<longrightarrow> pipeline y c' = pipeline y c"
    using g'(5,6) drain_frame_kept [OF 1] by simp_all
  ultimately show ?case using g'(1-3) by blast
qed

lemma drain_all_follows:
  assumes laws: "recorder_laws (w_media W) v decode backlog" and fits: "\<And>y. fits (concat (fst (g y)) @ T y)"
    and fo: "follows F W v decode g T c e" and d: "drainPipelineLocked F W x c e = Some (c', e')"
  shows "\<exists>g'. follows F W v decode g' T c' e' \<and> (\<forall>b. tp_buffer (pipeline x c') = Some b \<longrightarrow> contents b = [])
    \<and> (\<forall>y. fst (g' y) = fst (g y)) \<and> (\<forall>y. track_of y c' = track_of y c) \<and> (\<forall>y. y \<noteq> x \<longrightarrow> pipeline y c' = pipeline y c)"
proof (cases "tp_buffer (pipeline x c)")
  case None
  with d fo show ?thesis by (auto simp: drain_gone)
next
  case (Some b)
  from drain_follows [OF laws fo fits d Some] show ?thesis by auto
qed

subsection \<open>Frames arriving\<close>

text \<open>The frames a ring accepts of a sequence of pushes.\<close>

fun ring_takes :: "audio_frame ring_buffer option \<Rightarrow> audio_frame list \<Rightarrow> audio_frame list" where
  "ring_takes None fs = []"
| "ring_takes (Some b) [] = []"
| "ring_takes (Some b) (f # fs) = (if snd (tryPush b f) then [f] else []) @ ring_takes (Some (fst (tryPush b f))) fs"

lemma ring_takes_Nil [simp]: "ring_takes bo [] = []"
  by (cases bo) simp_all

lemma file_ok_pipelines:
  "file_ok F W v decode g (set_pipeline x p c) e = file_ok F W v decode g c e"
  unfolding file_ok_def track_samples_def [abs_def] set_pipeline_track by simp

lemma distinct_pipelines:
  "(track_of MicrophoneTrack (set_pipeline x p c) = track_of SystemOutputTrack (set_pipeline x p c)
     \<longrightarrow> track_of MicrophoneTrack (set_pipeline x p c) < 0)
   = (track_of MicrophoneTrack c = track_of SystemOutputTrack c \<longrightarrow> track_of MicrophoneTrack c < 0)"
  by (simp del: track_of.simps)

text \<open>Replacing one pipeline.\<close>

lemma follows_pipeline:
  assumes "follows F W v decode g T c e" and "pipe_ok F g' T' x (set_pipeline x p c)"
    and "file_ok F W v decode g' c e" and "\<And>y. y \<noteq> x \<Longrightarrow> g' y = g y \<and> T' y = T y"
  shows "follows F W v decode g' T' (set_pipeline x p c) e"
proof -
  have "pipe_ok F g' T' y (set_pipeline x p c)" for y
  proof (cases "y = x")
    case False
    then have "pipe_ok F g' T' y (set_pipeline x p c) = pipe_ok F g T y c"
      using assms(4) by (intro pipe_ok_cong) simp_all
    with assms(1) show ?thesis by (simp add: follows_def)
  qed (use assms(2) in simp)
  with assms(1,3) show ?thesis unfolding follows_def file_ok_pipelines distinct_pipelines by blast
qed

lemma onFrame_follows:
  assumes "follows F W v decode g T c e"
  shows "follows F W v decode g (T(x := T x @ ring_takes (tp_buffer (pipeline x c)) [f])) (onFrame x f c) e"
proof -
  have "pipe_ok F g T x c" using assms by (simp add: follows_def)
  then show ?thesis
  proof (cases rule: pipe_ok_cases)
    case gone
    then have "T(x := []) = T" by auto
    with gone assms show ?thesis by (simp add: onFrame_def)
  next
    case (running b s)
    have "(contents (fst (tryPush b f)), snd (tryPush b f)) = bq_push (capacity b) (contents b) f"
      by (rule ring.push_step [OF running(3)])
    then have c: "contents (fst (tryPush b f)) = contents b @ (if snd (tryPush b f) then [f] else [])"
      by (auto simp: bq_push_def split: if_splits)
    have "file_ok F W v decode g c e" using assms by (simp add: follows_def)
    moreover have "pipe_ok F g (T(x := T x @ ring_takes (tp_buffer (pipeline x c)) [f])) x
        (set_pipeline x ((pipeline x c)\<lparr>tp_buffer := Some (fst (tryPush b f))\<rparr>) c)"
      using \<open>pipe_ok F g T x c\<close> running ring.push_invar [OF running(3), of f]
      by (auto simp: pipe_ok_def c)
    ultimately show ?thesis using follows_pipeline [OF assms] running(1) by (simp add: onFrame_def)
  qed
qed

lemma onFrame_buffer: "tp_buffer (pipeline x (onFrame x f c)) = map_option (\<lambda>b. fst (tryPush b f)) (tp_buffer (pipeline x c))"
  by (simp add: onFrame_def split: option.split)

lemma onFrame_kept: "track_of y (onFrame x f c) = track_of y c"
  by (simp add: onFrame_def split: option.split)

lemma onFrames_follows:
  "follows F W v decode g T c e \<Longrightarrow>
   follows F W v decode g (T(x := T x @ ring_takes (tp_buffer (pipeline x c)) fs)) (fold (onFrame x) fs c) e
   \<and> (\<forall>y. track_of y (fold (onFrame x) fs c) = track_of y c)"
proof (induction fs arbitrary: T c)
  case (Cons f fs)
  have "ring_takes (tp_buffer (pipeline x c)) (f # fs) = ring_takes (tp_buffer (pipeline x c)) [f]
      @ ring_takes (tp_buffer (pipeline x (onFrame x f c))) fs"
    by (cases "tp_buffer (pipeline x c)") (simp_all add: onFrame_buffer)
  with Cons.IH [OF onFrame_follows [OF Cons.prems, of x f]] show ?case by (simp add: onFrame_kept cong: if_cong)
qed simp

text \<open>Stopping: the frames each stream delivers until it has stopped, and what the rings take of them.\<close>

definition stream_frames :: "'e world \<Rightarrow> which \<Rightarrow> 'd controller \<times> 'e \<Rightarrow> audio_frame list" where
  "stream_frames W x = (\<lambda>(c, e). case tp_stream (pipeline x c) of None \<Rightarrow> [] | Some h \<Rightarrow> snd (w_stopStream W h e))"

fun stop_takes :: "'e world \<Rightarrow> which \<Rightarrow> 'd controller \<times> 'e \<Rightarrow> audio_frame list" where
  "stop_takes W MicrophoneTrack ce = ring_takes (tp_buffer (pipeline MicrophoneTrack (fst ce))) (stream_frames W MicrophoneTrack ce)"
| "stop_takes W SystemOutputTrack ce = ring_takes (tp_buffer (pipeline SystemOutputTrack (fst ce)))
     (stream_frames W SystemOutputTrack (stop_stream W MicrophoneTrack ce))"

text \<open>What the code relies on: only the writer's calls touch the FIFOs, encoders and streams of FFmpeg.\<close>

definition world_laws :: "'e world \<Rightarrow> ('e \<Rightarrow> media_view) \<Rightarrow> bool" where
  "world_laws W v \<longleftrightarrow> (\<forall>e. v (fst (w_devices W e)) = v e) \<and> (\<forall>k e. v (fst (w_startCapture W k e)) = v e)
     \<and> (\<forall>h e. v (fst (w_stopStream W h e)) = v e) \<and> (\<forall>s e. v (fst (w_connect W s e)) = v e)"

lemma stop_stream_follows:
  assumes fo: "follows F W v decode g T c e" and wl: "world_laws W v" and s: "stop_stream W x (c, e) = (c', e')"
  shows "follows F W v decode g (T(x := T x @ ring_takes (tp_buffer (pipeline x c)) (stream_frames W x (c, e)))) c' e'
    \<and> (\<forall>y. track_of y c' = track_of y c)"
proof (cases "tp_stream (pipeline x c)")
  case None
  with s fo show ?thesis by (simp add: stop_stream_def stream_frames_def)
next
  case (Some h)
  obtain e1 fs where 1: "w_stopStream W h e = (e1, fs)" by fastforce
  with s Some have c': "c' = fold (onFrame x) fs c" "e' = e1" by (simp_all add: stop_stream_def)
  have "v e1 = v e" using wl 1 unfolding world_laws_def by (metis fst_conv)
  then have "follows F W v decode g T c e1" using fo by (rule follows_env)
  from onFrames_follows [OF this, of x fs] Some 1 show ?thesis by (simp add: c' stream_frames_def)
qed

lemma onFrame_pipeline: "y \<noteq> x \<Longrightarrow> pipeline y (onFrame x f c) = pipeline y c"
  by (simp add: onFrame_def split: option.split)

lemma onFrames_pipeline: "y \<noteq> x \<Longrightarrow> pipeline y (fold (onFrame x) fs c) = pipeline y c"
  by (induction fs arbitrary: c) (simp_all add: onFrame_pipeline)

lemma stop_stream_pipeline: "y \<noteq> x \<Longrightarrow> stop_stream W x (c, e) = (c', e') \<Longrightarrow> pipeline y c' = pipeline y c"
  by (auto simp: stop_stream_def split_beta Let_def onFrames_pipeline split: option.splits)

lemma follows_stopped:
  assumes fo: "follows F W v decode g T c e" and empty: "\<And>x b. tp_buffer (pipeline x c) = Some b \<Longrightarrow> contents b = []"
  shows "follows F W v decode (\<lambda>x. (fst (g x) @ [T x], [])) (\<lambda>_. [])
    (c\<lparr>ct_microphonePipeline := no_pipeline, ct_systemOutputPipeline := no_pipeline\<rparr>) e"
    (is "follows F W v decode ?g ?T ?c e")
proof -
  have t: "track_of x ?c = track_of x c" for x by (cases x) simp_all
  have "snd (g x) = T x" for x
  proof -
    have "pipe_ok F g T x c" using fo by (simp add: follows_def)
    then show ?thesis
    proof (cases rule: pipe_ok_cases)
      case (running b s)
      with empty [of x b] show ?thesis by simp
    qed simp
  qed
  then have "samples_of F ?g x = samples_of F g x" for x by (simp add: samples_of_def spliced_def)
  then have ts: "track_samples F ?g ?c = track_samples F g c" unfolding track_samples_def [abs_def] t by (simp cong: if_cong)
  have "pipe_ok F ?g ?T x ?c" for x by (cases x) (simp_all add: pipe_ok_def no_pipeline_def)
  moreover have "file_ok F W v decode ?g ?c e"
    using fo unfolding follows_def file_ok_def ts t by simp
  ultimately show ?thesis using fo unfolding follows_def t by blast
qed

lemma stopStreams_follows:
  assumes laws: "recorder_laws (w_media W) v decode backlog" and wl: "world_laws W v" and fo: "follows F W v decode g T c e"
    and fits: "\<And>x. fits (concat (fst (g x)) @ T x @ stop_takes W x (c, e))" and st: "stopStreams F W (c, e) = Some (c', e')"
  shows "follows F W v decode (\<lambda>x. (fst (g x) @ [T x @ stop_takes W x (c, e)], [])) (\<lambda>_. []) c' e'
    \<and> (\<forall>x. track_of x c' = track_of x c)"
proof -
  let ?T = "\<lambda>x. T x @ stop_takes W x (c, e)"
  from st obtain c1 e1 c2 e2 c3 e3 c4 where 1: "stop_stream W MicrophoneTrack (c, e) = (c1, e1)"
    and 2: "stop_stream W SystemOutputTrack (c1, e1) = (c2, e2)" and 3: "drainPipelineLocked F W MicrophoneTrack c2 e2 = Some (c3, e3)"
    and 4: "drainPipelineLocked F W SystemOutputTrack c3 e3 = Some (c4, e')"
    and c': "c' = c4\<lparr>ct_microphonePipeline := no_pipeline, ct_systemOutputPipeline := no_pipeline\<rparr>"
    by (rule stopStreams_cases)
  note f1 = stop_stream_follows [OF fo wl 1]
  note f2 = stop_stream_follows [OF conjunct1 [OF f1] wl 2]
  have "pipeline SystemOutputTrack c1 = pipeline SystemOutputTrack c" by (rule stop_stream_pipeline [OF _ 1]) simp
  define T1 where "T1 = T(MicrophoneTrack := T MicrophoneTrack
    @ ring_takes (tp_buffer (pipeline MicrophoneTrack c)) (stream_frames W MicrophoneTrack (c, e)))"
  define T2 where "T2 = T1(SystemOutputTrack := T1 SystemOutputTrack
    @ ring_takes (tp_buffer (pipeline SystemOutputTrack c1)) (stream_frames W SystemOutputTrack (c1, e1)))"
  have "T2 x = ?T x" for x
    using 1 \<open>pipeline SystemOutputTrack c1 = pipeline SystemOutputTrack c\<close> by (cases x) (simp_all add: T1_def T2_def)
  then have "T2 = ?T" ..
  then have f2': "follows F W v decode g ?T c2 e2" using f2 unfolding T1_def T2_def by simp
  from drain_all_follows [OF laws fits f2' 3] obtain g3 where
    g3: "follows F W v decode g3 ?T c3 e3" "\<forall>b. tp_buffer (pipeline MicrophoneTrack c3) = Some b \<longrightarrow> contents b = []"
      "\<forall>y. fst (g3 y) = fst (g y)" "\<forall>y. track_of y c3 = track_of y c2" by blast
  from g3(3) fits have "\<And>x. fits (concat (fst (g3 x)) @ ?T x)" by simp
  from drain_all_follows [OF laws this g3(1) 4] obtain g4 where
    g4: "follows F W v decode g4 ?T c4 e'" "\<forall>b. tp_buffer (pipeline SystemOutputTrack c4) = Some b \<longrightarrow> contents b = []"
      "\<forall>y. fst (g4 y) = fst (g3 y)" "\<forall>y. track_of y c4 = track_of y c3" "\<forall>y. y \<noteq> SystemOutputTrack \<longrightarrow> pipeline y c4 = pipeline y c3" by blast
  have "contents b = []" if "tp_buffer (pipeline x c4) = Some b" for x b
  proof (cases x)
    case MicrophoneTrack
    with g4(5) have "pipeline x c4 = pipeline x c3" by blast
    with that g3(2) MicrophoneTrack show ?thesis by metis
  next
    case SystemOutputTrack
    with that g4(2) show ?thesis by blast
  qed
  from follows_stopped [OF g4(1) this] have "follows F W v decode (\<lambda>x. (fst (g x) @ [?T x], [])) (\<lambda>_. []) c' e'"
    using g3(3) g4(3) by (simp add: c')
  moreover have "track_of x c' = track_of x c4" for x by (cases x) (simp_all add: c')
  then have "track_of x c' = track_of x c" for x using f1 f2 g3(4) g4(4) by metis
  ultimately show ?thesis by simp
qed

subsection \<open>Streams starting\<close>

lemma startTrack_follows:
  assumes fo: "follows F W v decode g T c e" and wl: "world_laws W v" and gone: "tp_buffer (pipeline x c) = None"
    and st: "startTrack F W x device kind (channels_of x) (track_of x c) feeds (c, e) = ((c', e'), good)"
  shows "follows F W v decode g T c' e' \<and> (\<forall>y. track_of y c' = track_of y c) \<and> (\<forall>y. y \<noteq> x \<longrightarrow> pipeline y c' = pipeline y c)"
proof -
  let ?k = "\<lparr>cc_deviceId = dev_id device, cc_track = kind, cc_sampleRate = 48000, cc_channels = channels_of x,
    cc_format = PcmS16Le, cc_frameDuration = captureFrameDuration (ct_config c)\<rparr>"
  obtain e1 r where 1: "w_startCapture W ?k e = (e1, r)" by fastforce
  then have "v e1 = v e" using wl unfolding world_laws_def by (metis fst_conv)
  then have f1: "follows F W v decode g T c e1" using fo by (rule follows_env)
  show ?thesis
  proof (cases r)
    case (Inl err)
    with st 1 have c': "c' = ui_fail (CaptureFailed (device_label device) err) c" "e' = e1"
      by (auto simp: startTrack_def Let_def)
    then have a: "audio_part c' = audio_part c" by (simp add: audio_part_def ui_fail_def)
    show ?thesis unfolding c'(2) using f1 by (simp only: follows_part [OF a] audio_part_track [OF a] audio_part_pipeline [OF a] simp_thms)
  next
    case (Inr h)
    define p where "p = \<lparr>tp_buffer = Some (new_ring empty_frame (unat (ringBufferCapacityFrames (ct_config c)))), tp_stream = Some h,
      tp_synchronizer = Some (new_sync F x), tp_writerTrack = track_of x c, tp_feedsSttStream = feeds\<rparr>"
    from st 1 Inr have c': "c' = set_pipeline x p c" "e' = e1"
      by (auto simp: startTrack_def Let_def p_def new_sync_def)
    have "pipe_ok F g T x c" using f1 by (simp add: follows_def)
    with gone have g: "snd (g x) = []" "T x = []" by (auto elim: pipe_ok_cases)
    have "pipe_ok F g T x (set_pipeline x p c)"
      using g new_ring_inv by (simp add: pipe_ok_def p_def)
    with f1 have "follows F W v decode g T (set_pipeline x p c) e1"
      by (intro follows_pipeline [OF f1]) (simp_all add: follows_def)
    then show ?thesis by (simp add: c')
  qed
qed

lemma startStreams_follows:
  assumes fo: "follows F W v decode g T c e" and wl: "world_laws W v" and gone: "\<And>x. tp_buffer (pipeline x c) = None"
    and st: "startStreams F W (c, e) = ((c', e'), good)"
  shows "follows F W v decode g T c' e' \<and> (\<forall>x. track_of x c' = track_of x c)"
proof -
  let ?P = "\<lambda>d u. follows F W v decode g T d u \<and> (\<forall>y. track_of y d = track_of y c) \<and> tp_buffer (pipeline SystemOutputTrack d) = None"
    and ?Q = "\<lambda>d u. follows F W v decode g T d u \<and> (\<forall>y. track_of y d = track_of y c)"
  note t = startTrack_follows [where x = MicrophoneTrack, simplified channels_of.simps track_of.simps]
    startTrack_follows [where x = SystemOutputTrack, simplified channels_of.simps track_of.simps]
  show ?thesis
  proof (rule startStreams_rule [where P = ?P and Q = ?Q, OF st])
    show "?P c e" using fo gone [of SystemOutputTrack] by simp
  next
    fix device c1 e1 good1
    assume "startTrack F W MicrophoneTrack device Microphone 1 (ct_writerMicrophoneTrack c) True (c, e) = ((c1, e1), good1)"
    from t(1) [OF fo wl _ this] gone [of MicrophoneTrack] gone [of SystemOutputTrack] show "?P c1 e1" by (auto dest: spec [of _ SystemOutputTrack])
  next
    fix device c1 e1 c2 e2 good2
    assume p: "?P c1 e1" and "startTrack F W SystemOutputTrack device SystemOutput 2 (ct_writerSystemOutputTrack c1)
      (\<not> microphoneSelected c) (c1, e1) = ((c2, e2), good2)"
    from t(2) [OF conjunct1 [OF p] wl _ this(2)] p show "?Q c2 e2" by simp
  qed simp
qed

subsection \<open>Any event\<close>

text \<open>What an event of the controller puts into a track's ring.\<close>

fun event_takes :: "'e world \<Rightarrow> which \<Rightarrow> app_event \<Rightarrow> 'd controller \<times> 'e \<Rightarrow> audio_frame list" where
  "event_takes W x (FrameCaptured y f) ce = (if y = x then ring_takes (tp_buffer (pipeline x (fst ce))) [f] else [])"
| "event_takes W x PausePressed ce = (if app_state (fst ce) = Recording then stop_takes W x ce else [])"
| "event_takes W x StopPressed ce = (if app_state (fst ce) \<in> {Recording, Paused} then stop_takes W x ce else [])"
| "event_takes W x _ ce = []"

text \<open>
  The frames a track's rings have taken, stretch by stretch: a pause and the stop end a stretch.
\<close>

fun ends_stretch :: "app_event \<Rightarrow> session_state \<Rightarrow> bool" where
  "ends_stretch PausePressed st \<longleftrightarrow> st = Recording"
| "ends_stretch StopPressed st \<longleftrightarrow> st \<in> {Recording, Paused}"
| "ends_stretch _ st \<longleftrightarrow> False"

definition hear :: "'e world \<Rightarrow> app_event \<Rightarrow> 'd controller \<times> 'e \<Rightarrow> heard \<Rightarrow> heard" where
  "hear W ev ce h = (\<lambda>x. if ends_stretch ev (app_state (fst ce))
     then (fst (h x) @ [snd (h x) @ event_takes W x ev ce], []) else (fst (h x), snd (h x) @ event_takes W x ev ce))"

fun heard_in :: "'d float_ops \<Rightarrow> 'e world \<Rightarrow> app_event list \<Rightarrow> 'd controller \<times> 'e \<Rightarrow> heard \<Rightarrow> heard" where
  "heard_in F W [] ce h = h"
| "heard_in F W (ev # evs) ce h = (case app_step F W ev ce of
     None \<Rightarrow> hear W ev ce h | Some ce' \<Rightarrow> heard_in F W evs ce' (hear W ev ce h))"

definition fits_heard :: "heard \<Rightarrow> bool" where
  "fits_heard h \<longleftrightarrow> (\<forall>x. fits (concat (fst (h x)) @ snd (h x)))"

lemma heard_in_snoc:
  "app_run F W evs ce = Some ce1 \<Longrightarrow> heard_in F W (evs @ [ev]) ce h = hear W ev ce1 (heard_in F W evs ce h)"
  by (induction evs arbitrary: ce h) (auto simp: bind_eq_Some_conv split: option.split)

lemma fits_hear: "fits_heard (hear W ev ce h) \<Longrightarrow> fits (concat (fst (h x)) @ snd (h x) @ event_takes W x ev ce)"
  by (auto simp: fits_heard_def hear_def dest!: spec [of _ x] split: if_splits)

lemma fits_hear_before: "fits_heard (hear W ev ce h) \<Longrightarrow> fits_heard h"
  unfolding fits_heard_def [of h]
proof
  fix x
  assume "fits_heard (hear W ev ce h)"
  from fits_hear [OF this, of x] fits_prefix [of "concat (fst (h x)) @ snd (h x)" "event_takes W x ev ce"]
  show "fits (concat (fst (h x)) @ snd (h x))" by simp
qed

lemma fits_heard_in: "fits_heard (heard_in F W evs ce h) \<Longrightarrow> fits_heard h"
  by (induction evs arbitrary: ce h) (auto dest: fits_hear_before split: option.splits)

lemma session_pipeline [simp]: "pipeline x (c\<lparr>ct_session := s\<rparr>) = pipeline x c"
  by (cases x) simp_all

lemma session_part: "audio_part (c\<lparr>ct_session := s\<rparr>) = audio_part c"
  by (simp add: audio_part_def)

lemma onFrame_session: "onFrame x f (c\<lparr>ct_session := s\<rparr>) = (onFrame x f c)\<lparr>ct_session := s\<rparr>"
  by (cases x) (simp_all add: onFrame_def split: option.split)

lemma onFrames_session: "fold (onFrame x) fs (c\<lparr>ct_session := s\<rparr>) = (fold (onFrame x) fs c)\<lparr>ct_session := s\<rparr>"
  by (induction fs arbitrary: c) (simp_all add: onFrame_session)

lemma stop_stream_session:
  "stop_stream W x (c\<lparr>ct_session := s\<rparr>, e) = (let (c', e') = stop_stream W x (c, e) in (c'\<lparr>ct_session := s\<rparr>, e'))"
  by (simp add: stop_stream_def split_beta Let_def onFrames_session split: option.split)

lemma stop_takes_session: "stop_takes W x (c\<lparr>ct_session := s\<rparr>, e) = stop_takes W x (c, e)"
  by (cases x) (simp_all add: stream_frames_def stop_stream_session split_beta Let_def)

lemma gone_buffers: "controller_ok c \<Longrightarrow> app_state c = Paused \<Longrightarrow> tp_buffer (pipeline x c) = None"
  by (cases x) (auto simp: controller_ok_def shape_def gone_def)

lemma audio_part_frames:
  "audio_part (setSelectedMicrophone i c) = audio_part c" "audio_part (setSelectedSystemOutput i c) = audio_part c"
  "audio_part (setOutputDirectory d c) = audio_part c" "audio_part (setSttEndpoint d c) = audio_part c"
  "audio_part (onStatsTick c) = audio_part c" "audio_part (applyTranscript u c) = audio_part c"
  "audio_part (client_thread_step ev c) = audio_part c" "audio_part (fst (refreshDevices W (c, e))) = audio_part c"
  by (simp_all add: audio_part_def setSelectedMicrophone_def setSelectedSystemOutput_def setOutputDirectory_def
    setSttEndpoint_def onStatsTick_def ui_fail_def applyTranscript_def client_thread_step_def refreshDevices_def
    Let_def split_beta split: option.split)

definition following :: "'d float_ops \<Rightarrow> 'e world \<Rightarrow> ('e \<Rightarrow> media_view) \<Rightarrow> (nat \<Rightarrow> u8 list \<Rightarrow> sample_frame list)
    \<Rightarrow> (which \<Rightarrow> int) \<Rightarrow> heard
    \<Rightarrow> 'd controller \<Rightarrow> 'e \<Rightarrow> bool" where
  "following F W v decode tracks h c e \<longleftrightarrow> (\<exists>g. follows F W v decode g (\<lambda>x. snd (h x)) c e \<and> (\<forall>x. fst (g x) = fst (h x)))
     \<and> (\<forall>x. track_of x c = tracks x)"

lemma following_cong:
  assumes "audio_part c' = audio_part c" and "v e' = v e"
  shows "following F W v decode tr h c' e' = following F W v decode tr h c e"
  by (simp only: following_def follows_cong [where v = v, OF assms] audio_part_track [OF assms(1)])

lemma following_timer: "following F W v decode tr h (c\<lparr>ct_statsTimer := b\<rparr>) e = following F W v decode tr h c e"
  by (rule following_cong) (simp_all add: audio_part_def)

lemma following_session: "following F W v decode tr h (c\<lparr>ct_session := s\<rparr>) e = following F W v decode tr h c e"
  by (rule following_cong) (simp_all add: session_part)

lemma stopStreams_following:
  assumes laws: "recorder_laws (w_media W) v decode backlog" and wl: "world_laws W v" and fo: "following F W v decode tr h c e"
    and ends: "ends_stretch ev (app_state c)" and fits: "fits_heard (hear W ev (c, e) h)"
    and st: "stopStreams F W (c\<lparr>ct_session := s\<rparr>, e) = Some (c', e')"
  shows "following F W v decode tr (hear W ev (c, e) h) c' e'"
proof -
  from fo obtain g where g: "follows F W v decode g (\<lambda>x. snd (h x)) c e" "\<And>x. fst (g x) = fst (h x)" and tr: "\<forall>x. track_of x c = tr x"
    by (auto simp: following_def)
  from ends have t: "stop_takes W x (c\<lparr>ct_session := s\<rparr>, e) = event_takes W x ev (c, e)" for x
    by (cases ev) (simp_all add: stop_takes_session)
  have "follows F W v decode g (\<lambda>x. snd (h x)) (c\<lparr>ct_session := s\<rparr>) e" using g(1) by (simp only: follows_part [OF session_part])
  note stopStreams_follows [OF laws wl this _ st, unfolded t g(2), OF fits_hear [OF fits]]
  then show ?thesis using ends tr
    by (auto simp: following_def hear_def audio_part_track [OF session_part])
qed

lemma pause_follows:
  assumes laws: "recorder_laws (w_media W) v decode backlog" and wl: "world_laws W v" and fo: "following F W v decode tr h c e"
    and fits: "fits_heard (hear W PausePressed (c, e) h)" and st: "pause_op F W (c, e) = Some ((c', e'), good)"
  shows "following F W v decode tr (hear W PausePressed (c, e) h) c' e'"
proof -
  obtain c1 b where 1: "fire Pause c = (c1, b)" by fastforce
  from fire_state [OF 1] obtain s where c1: "c1 = c\<lparr>ct_session := s\<rparr>" "b \<longleftrightarrow> app_state c = Recording"
    by (auto split: if_splits)
  show ?thesis
  proof (cases b)
    case False
    with c1 have "transition (app_state c) Pause = None" by simp
    from fire_refused [OF this] st have "c' = c" "e' = e" by (auto simp: pause_op_def)
    moreover have "hear W PausePressed (c, e) h = h" using c1(2) False by (simp add: hear_def)
    ultimately show ?thesis using fo by simp
  next
    case True
    with st 1 have 2: "stopStreams F W (c1, e) = Some (c', e')" by (auto simp: pause_op_def bind_eq_Some_conv)
    have "ends_stretch PausePressed (app_state c)" using True c1(2) by simp
    from stopStreams_following [OF laws wl fo this fits 2 [unfolded c1(1)]] show ?thesis .
  qed
qed

lemma resume_follows:
  assumes wl: "world_laws W v" and fo: "following F W v decode tr h c e" and ok: "controller_ok c"
    and st: "resume_op F W (c, e) = ((c', e'), good)"
  shows "following F W v decode tr h c' e'"
proof (cases "app_state c = Paused")
  case False
  with st fo show ?thesis by (auto simp: resume_op_def app_state_def)
next
  case True
  obtain c1 e1 started where 1: "startStreams F W (c, e) = ((c1, e1), started)" by (metis prod.collapse)
  from fo obtain g where g: "follows F W v decode g (\<lambda>x. snd (h x)) c e" "\<forall>x. fst (g x) = fst (h x)" by (auto simp: following_def)
  from startStreams_follows [OF g(1) wl gone_buffers [OF ok True] 1] fo g(2)
  have "following F W v decode tr h c1 e1" by (auto simp: following_def)
  moreover have "e' = e1 \<and> (\<exists>s. c' = c1\<lparr>ct_session := s\<rparr>)"
    using st True 1 by (auto simp: resume_op_def app_state_def fire_def split_beta Let_def split: if_splits)
  ultimately show ?thesis by (auto simp: following_session)
qed

text \<open>Between a start and the stop, every event keeps the audio followed.\<close>

definition kept :: "app_event \<Rightarrow> bool" where
  "kept ev \<longleftrightarrow> (case ev of PausePressed \<Rightarrow> False | ResumePressed \<Rightarrow> False | StopPressed \<Rightarrow> False | FrameCaptured x f \<Rightarrow> False
     | DrainTurn x \<Rightarrow> False | _ \<Rightarrow> True)"

lemma kept_step:
  assumes "kept ev" and "app_step F W ev (c, e) = Some (c', e')" and "world_laws W v" and "app_state c \<noteq> Idle"
  shows "audio_part c' = audio_part c \<and> v e' = v e \<and> event_takes W x ev (c, e) = []"
proof (cases "ev = Refresh")
  case True
  with assms(2) have "c' = fst (refreshDevices W (c, e))" "e' = fst (w_devices W e)"
    by (auto simp: refreshDevices_def Let_def split_beta)
  with True assms(3) show ?thesis by (simp add: audio_part_frames world_laws_def)
next
  case False
  with assms(1,2,4) show ?thesis
    by (cases ev) (auto simp: kept_def audio_part_frames start_op_def isIdle_state)
qed

lemma app_step_follows:
  assumes laws: "recorder_laws (w_media W) v decode backlog" and wl: "world_laws W v" and fo: "following F W v decode tr h c e"
    and ok: "controller_ok c" "app_state c \<noteq> Idle" and "ev \<noteq> StopPressed"
    and fits: "fits_heard (hear W ev (c, e) h)" and st: "app_step F W ev (c, e) = Some (c', e')"
  shows "following F W v decode tr (hear W ev (c, e) h) c' e'"
proof (cases "kept ev")
  case True
  from kept_step [OF True st wl ok(2)] have 1: "audio_part c' = audio_part c" "v e' = v e"
    "\<And>x. event_takes W x ev (c, e) = []" by blast+
  have "\<not> ends_stretch ev st" for st using True by (cases ev) (simp_all add: kept_def)
  with 1(3) have "hear W ev (c, e) h = h" by (simp add: hear_def)
  with following_cong [of c' c v e' e F W decode tr h] fo 1(1,2) show ?thesis by simp
next
  case False
  then consider "ev = PausePressed" | "ev = ResumePressed" | x f where "ev = FrameCaptured x f" | x where "ev = DrainTurn x"
    using \<open>ev \<noteq> StopPressed\<close> by (auto simp: kept_def split: app_event.splits)
  then show ?thesis
  proof cases
    case 1
    with st obtain good where "pause_op F W (c, e) = Some ((c', e'), good)" by auto
    with pause_follows [OF laws wl fo _ this] fits 1 show ?thesis by simp
  next
    case 2
    with st obtain good where "resume_op F W (c, e) = ((c', e'), good)" by (metis app_step.simps(4) option.inject prod.collapse)
    moreover have "hear W ev (c, e) h = h" using 2 by (simp add: hear_def)
    ultimately show ?thesis using resume_follows [OF wl fo ok(1)] by simp
  next
    case (3 x f)
    from fo obtain g where g: "follows F W v decode g (\<lambda>x. snd (h x)) c e" "\<forall>x. fst (g x) = fst (h x)" by (auto simp: following_def)
    have "(\<lambda>y. snd (h y))(x := snd (h x) @ ring_takes (tp_buffer (pipeline x c)) [f]) = (\<lambda>y. snd (hear W ev (c, e) h y))"
      using 3 by (auto simp: hear_def)
    moreover have "fst (hear W ev (c, e) h y) = fst (h y)" for y using 3 by (simp add: hear_def)
    moreover have "c' = onFrame x f c" "e' = e" using st 3 by simp_all
    ultimately show ?thesis using onFrame_follows [OF g(1), of x f] g(2) fo by (auto simp: following_def onFrame_kept)
  next
    case (4 x)
    from fo obtain g where g: "follows F W v decode g (\<lambda>x. snd (h x)) c e" "\<forall>x. fst (g x) = fst (h x)" by (auto simp: following_def)
    from st 4 obtain again where d: "drain_one F W x (c, e) = Some ((c', e'), again)" by auto
    have "fits (concat (fst (g y)) @ snd (h y))" for y
      using fits_hear_before [OF fits] g(2) by (simp add: fits_heard_def)
    from drain_one_follows [OF g(1) laws this d] obtain g' where
      "follows F W v decode g' (\<lambda>x. snd (h x)) c' e'" "\<forall>y. fst (g' y) = fst (g y)" by blast
    moreover have "track_of y c' = track_of y c" for y
      using d drain_frame_kept [of F W x _ _ e c' e' y] by (cases rule: drain_one_cases) simp_all
    moreover have "hear W ev (c, e) h = h" using 4 by (simp add: hear_def)
    ultimately show ?thesis using fo g(2) by (auto simp: following_def)
  qed
qed

lemma app_step_active:
  assumes "app_step F W ev (c, e) = Some (c', e')" and ok: "controller_ok c" "app_state c \<noteq> Idle" and "ev \<noteq> StopPressed"
  shows "app_state c' \<noteq> Idle"
proof (cases "ev = PausePressed \<or> ev = ResumePressed")
  case True
  then show ?thesis
  proof
    assume "ev = PausePressed"
    with assms(1) obtain good where "pause_op F W (c, e) = Some ((c', e'), good)" by auto
    from pause_op_ok [OF this ok(1)] ok(2) show ?thesis by simp
  next
    assume "ev = ResumePressed"
    with assms(1) obtain good where "resume_op F W (c, e) = ((c', e'), good)" by (metis app_step.simps(4) option.inject prod.collapse)
    from resume_op_ok [OF this ok(1)] ok(2) show ?thesis by (auto split: if_splits)
  qed
next
  case False
  have "app_state c' = app_state c"
  proof (cases ev)
    case (FrameCaptured x f)
    with assms(1) have "c' = onFrame x f c" by simp
    with onFrame_frame [OF ok_rings [OF ok(1)], of x f] skeleton_state [of c' c] show ?thesis by simp
  next
    case (DrainTurn x)
    with assms(1) obtain again where "drain_one F W x (c, e) = Some ((c', e'), again)" by auto
    from drain_one_frame [OF this ok_rings [OF ok(1)]] skeleton_state [of c' c] show ?thesis by simp
  next
    case (TranscriptArrived u)
    with assms(1) show ?thesis using skeleton_state [OF conjunct1 [OF applyTranscript_frame [of u c]]] by auto
  next
    case (ClientStep x)
    with assms(1) show ?thesis using skeleton_state [OF conjunct1 [OF client_thread_step_ok [of x c]]] by auto
  next
    case Refresh
    with assms(1) show ?thesis using skeleton_state [OF conjunct1 [OF refreshDevices_skeleton [of W c e]]] by (cases "refreshDevices W (c, e)") auto
  next
    case StartPressed
    with assms(1) ok(2) show ?thesis by (auto simp: start_op_def isIdle_state)
  next
    case (SelectMicrophone i)
    with assms(1) show ?thesis using skeleton_state [OF conjunct1 [OF setters_frame(1) [of i c]]] by auto
  next
    case (SelectSystemOutput i)
    with assms(1) show ?thesis using skeleton_state [OF conjunct1 [OF setters_frame(2) [of i c]]] by auto
  next
    case (SetOutputDirectory d)
    with assms(1) show ?thesis using skeleton_state [OF conjunct1 [OF setters_frame(3) [of d c]]] by auto
  next
    case (SetSttEndpoint d)
    with assms(1) show ?thesis using skeleton_state [OF conjunct1 [OF setters_frame(4) [of d c]]] by auto
  next
    case Tick
    with assms(1) show ?thesis using skeleton_state [OF conjunct1 [OF setters_frame(5) [of c]]] by auto
  qed (use assms(4) False in simp_all)
  with ok(2) show ?thesis by simp
qed

lemma app_run_follows:
  assumes laws: "recorder_laws (w_media W) v decode backlog" and wl: "world_laws W v"
  shows "following F W v decode tr h c e \<Longrightarrow> controller_ok c \<Longrightarrow> app_state c \<noteq> Idle \<Longrightarrow> StopPressed \<notin> set evs \<Longrightarrow>
    fits_heard (heard_in F W evs (c, e) h) \<Longrightarrow> app_run F W evs (c, e) = Some (c', e') \<Longrightarrow>
    following F W v decode tr (heard_in F W evs (c, e) h) c' e' \<and> app_state c' \<noteq> Idle"
proof (induction evs arbitrary: h c e)
  case (Cons ev evs)
  from Cons.prems(6) obtain c1 e1 where 1: "app_step F W ev (c, e) = Some (c1, e1)" "app_run F W evs (c1, e1) = Some (c', e')"
    by (auto simp: bind_eq_Some_conv)
  have ne: "ev \<noteq> StopPressed" "StopPressed \<notin> set evs" using Cons.prems(4) by auto
  have h: "fits_heard (heard_in F W evs (c1, e1) (hear W ev (c, e) h))" using Cons.prems(5) 1(1) by simp
  from app_step_follows [OF laws wl Cons.prems(1-3) ne(1) fits_heard_in [OF h] 1(1)]
  have "following F W v decode tr (hear W ev (c, e) h) c1 e1" .
  from Cons.IH [OF this app_step_ok [OF 1(1) Cons.prems(2)] app_step_active [OF 1(1) Cons.prems(2,3) ne(1)] ne(2) h 1(2)] 1(1)
  show ?case by simp
qed simp

subsection \<open>The start\<close>

text \<open>The start, as far as the audio is concerned.\<close>

lemma start_cases:
  assumes "start_op F W (c, e) = Some ((c', e'), True)"
  obtains ca ea cb eb s cc ec cd where "isIdle c"
    "(if ct_microphones c = [] \<and> ct_systemOutputs c = [] then refreshDevices W (c, e) else (c, e)) = (ca, ea)"
    "createWriter W (ca\<lparr>ct_lastError := None\<rparr>, ea) = Some ((cb, eb), True)"
    "startSttStreaming F W (cb\<lparr>ct_session := s\<rparr>, eb) = (cc, ec)"
    "startStreams F W (cc, ec) = ((cd, e'), True)" "c' = cd\<lparr>ct_statsTimer := True\<rparr>"
proof -
  obtain ca ea where 1: "(if ct_microphones c = [] \<and> ct_systemOutputs c = [] then refreshDevices W (c, e) else (c, e)) = (ca, ea)"
    by fastforce
  have idle: "isIdle c" using assms by (auto simp: start_op_def split: if_splits)
  have sel: "\<not> (ct_selectedMicrophone ca < 0 \<and> ct_selectedSystemOutput ca < 0)"
    using assms idle 1 by (auto simp: start_op_def split: if_splits)
  from assms idle 1 sel obtain cb eb made where 2: "createWriter W (ca\<lparr>ct_lastError := None\<rparr>, ea) = Some ((cb, eb), made)"
    by (auto simp: start_op_def bind_eq_Some_conv)
  have made using assms idle 1 sel 2 by (cases made) (auto simp: start_op_def)
  obtain cs good where 3: "fire session_event.Start cb = (cs, good)" by fastforce
  have good using assms idle 1 sel 2 \<open>made\<close> 3 by (cases good) (auto simp: start_op_def)
  from fire_state [OF 3] obtain s where cs: "cs = cb\<lparr>ct_session := s\<rparr>" by blast
  obtain cc ec where 4: "startSttStreaming F W (cs, eb) = (cc, ec)" by fastforce
  obtain cd ed started where 5: "startStreams F W (cc, ec) = ((cd, ed), started)" by (metis prod.collapse)
  have started using assms idle 1 sel 2 \<open>made\<close> 3 \<open>good\<close> 4 5 by (cases started) (auto simp: start_op_def bind_eq_Some_conv split: prod.splits)
  with assms idle 1 sel 2 \<open>made\<close> 3 \<open>good\<close> 4 5 have "c' = cd\<lparr>ct_statsTimer := True\<rparr>" "e' = ed" by (auto simp: start_op_def)
  with that idle 1 2 \<open>made\<close> 4 5 \<open>started\<close> cs show thesis by simp
qed

lemma startStt_audio:
  "startSttStreaming F W (c, e) = (c', e') \<Longrightarrow> world_laws W v \<Longrightarrow> audio_part c' = audio_part c \<and> v e' = v e"
  by (auto simp: startSttStreaming_def Let_def split_beta ui_fail_def audio_part_def world_laws_def split: if_splits option.splits)

lemma createWriter_follows:
  assumes laws: "opening_laws (w_media W) v" and cr: "createWriter W (c, e) = Some ((c', e'), True)"
    and gone: "\<And>x. tp_buffer (pipeline x c') = None" "\<And>x. tp_synchronizer (pipeline x c') = None"
  shows "follows F W v decode (\<lambda>_. ([], [])) (\<lambda>_. []) c' e'"
  using cr
proof (cases rule: createWriter_cases)
  case (opened w candidate e1 i j)
  have w: "ct_writer c' = Some w" "ct_writerFailed c' = False" "ct_pendingOutputFile c' = candidate"
    and tr: "track_of x c' = (case x of MicrophoneTrack \<Rightarrow> i | SystemOutputTrack \<Rightarrow> j)" for x
    by (cases x; simp add: opened(2))+
  have len: "length (rw_tracks w) = length (writer_tracks (microphoneSelected c) (systemOutputSelected c))"
    using create_open(4) [OF opened(5)] by simp
  have "track_samples F (\<lambda>_. ([], [])) c' = (\<lambda>_. [])"
    by (auto simp: track_samples_def samples_of_def)
  with create_recorded [OF laws opened(5)] create_open(1,2) [OF opened(5)] w len
  have "file_ok F W v decode (\<lambda>_. ([], [])) c' e'"
    by (auto simp: file_ok_def tr opened(6,7) writer_tracks_def split: which.split)
  moreover have "i = j \<longrightarrow> i < 0" by (simp add: opened(6,7))
  ultimately show ?thesis using gone tr [of MicrophoneTrack] tr [of SystemOutputTrack]
    by (simp add: follows_def pipe_ok_def)
qed simp

lemma start_follows:
  assumes laws: "opening_laws (w_media W) v" and wl: "world_laws W v" and ok: "controller_ok c"
    and st: "start_op F W (c, e) = Some ((c', e'), True)"
  shows "following F W v decode (\<lambda>x. track_of x c') (\<lambda>_. ([], [])) c' e'"
proof -
  from st obtain ca ea cb eb s cc ec cd where 1: "isIdle c"
    "(if ct_microphones c = [] \<and> ct_systemOutputs c = [] then refreshDevices W (c, e) else (c, e)) = (ca, ea)"
    and 2: "createWriter W (ca\<lparr>ct_lastError := None\<rparr>, ea) = Some ((cb, eb), True)"
    and 3: "startSttStreaming F W (cb\<lparr>ct_session := s\<rparr>, eb) = (cc, ec)"
    and 4: "startStreams F W (cc, ec) = ((cd, e'), True)" "c' = cd\<lparr>ct_statsTimer := True\<rparr>"
    by (rule start_cases)
  have "streams_part ca = streams_part c"
    using 1(2) refreshDevices_frame [of W c e ca ea] by (auto split: if_splits)
  with createWriter_frame [OF 2] have p: "streams_part cb = streams_part c" by (simp add: streams_part_def)
  have gone: "tp_buffer (pipeline x cb) = None" "tp_synchronizer (pipeline x cb) = None" for x
    using p ok 1(1) by (cases x; auto simp: streams_part_def isIdle_state controller_ok_def shape_def gone_def)+
  have "follows F W v decode (\<lambda>_. ([], [])) (\<lambda>_. []) cb eb" by (rule createWriter_follows [OF laws 2 gone])
  then have "follows F W v decode (\<lambda>_. ([], [])) (\<lambda>_. []) (cb\<lparr>ct_session := s\<rparr>) eb" by (simp only: follows_part [OF session_part])
  note stt = startStt_audio [OF 3 wl]
  have "follows F W v decode (\<lambda>_. ([], [])) (\<lambda>_. []) cc ec"
    using \<open>follows F W v decode (\<lambda>_. ([], [])) (\<lambda>_. []) (cb\<lparr>ct_session := s\<rparr>) eb\<close>
    by (simp only: follows_cong [where v = v, OF conjunct1 [OF stt] conjunct2 [OF stt]])
  moreover have "tp_buffer (pipeline x cc) = None" for x
    using audio_part_pipeline [OF conjunct1 [OF stt], of x] gone(1) [of x] by simp
  ultimately have "follows F W v decode (\<lambda>_. ([], [])) (\<lambda>_. []) cd e'"
    using startStreams_follows [OF _ wl _ 4(1)] by blast
  moreover have "audio_part c' = audio_part cd" by (simp add: 4(2) audio_part_def)
  ultimately have "follows F W v decode (\<lambda>_. ([], [])) (\<lambda>_. []) c' e'" using follows_part [of c' cd F W v decode "\<lambda>_. ([], [])" "\<lambda>_. []" e'] by simp
  then show ?thesis unfolding following_def by (intro conjI exI [of _ "\<lambda>_. ([], [])"]) simp_all
qed

section \<open>The saved recording\<close>

lemma fire_fields:
  "ct_lastError (fst (fire ev c)) = ct_lastError c" "ct_lastRecordingFile (fst (fire ev c)) = ct_lastRecordingFile c"
  "ct_lastError (stopSttStreaming c) = ct_lastError c" "ct_lastRecordingFile (stopSttStreaming c) = ct_lastRecordingFile c"
  by (simp_all add: fire_def split_beta Let_def stopSttStreaming_def)

lemma finish_follows:
  assumes laws: "recorder_laws (w_media W) v decode backlog" and fo: "following F W v decode tr h c e" and empty: "\<And>x. snd (h x) = []"
    and fits: "fits_heard h" and f: "finish_writer W (c, e) = Some ((c', e'), saved, err)" and "saved \<noteq> []"
  shows "\<exists>w w' e''. ct_writer c = Some w \<and> writer_finalize (w_media W) (w, e) = Some ((w', e''), True)
    \<and> saved_file w' \<and> rc_outputFile (rw_config w') = saved \<and> saved = ct_pendingOutputFile c
    \<and> (\<forall>x. 0 \<le> tr x \<longrightarrow> complete (w_media W) v decode (spliced F x (fst (h x))) (nat (tr x)) e w')"
proof -
  from fo obtain g where g: "follows F W v decode g (\<lambda>x. snd (h x)) c e" "\<And>x. fst (g x) = fst (h x)" and tr: "\<And>x. track_of x c = tr x"
    by (auto simp: following_def)
  have cur: "snd (g x) = []" for x
  proof -
    have "pipe_ok F g (\<lambda>x. snd (h x)) x c" using g(1) by (simp add: follows_def)
    with empty [of x] show ?thesis by (auto elim: pipe_ok_cases)
  qed
  from g(1) obtain w where w: "ct_writer c = Some w" "\<And>x. track_of x c < int (length (rw_tracks w))"
      "rc_outputFile (rw_config w) = ct_pendingOutputFile c"
    and r: "\<not> ct_writerFailed c \<longrightarrow> rw_state w = Open \<and> recorded (w_media W) v decode (track_samples F g c) w e"
    by (auto simp: follows_def file_ok_def)
  from f w(1) \<open>saved \<noteq> []\<close> obtain w' e'' where 1: "\<not> ct_writerFailed c"
    "writer_finalize (w_media W) (w, e) = Some ((w', e''), True)" "saved = ct_pendingOutputFile c"
    by (auto simp: finish_writer_def Let_def bind_eq_Some_conv split: if_splits)
  have so: "samples_of F g x = spliced F x (fst (h x))" for x by (simp add: samples_of_def g(2) cur)
  have "int (length (samples_of F g x)) < 2 ^ 63" for x
    using spliced_length [of F x "fst (h x)"] fits unfolding so fits_heard_def
    by (auto simp: fits_def empty dest!: spec [of _ x])
  then have "\<forall>i. int (length (track_samples F g c i)) < 2 ^ 63" by (auto simp: track_samples_def)
  from writer_finalize_recorded [OF laws _ _ this, of w e] r 1(1,2) have
    2: "saved_file w'" "rw_config w' = rw_config w"
      "\<And>t. t < length (rw_tracks w) \<Longrightarrow> complete (w_media W) v decode (track_samples F g c t) t e w'" by auto
  have "complete (w_media W) v decode (spliced F x (fst (h x))) (nat (tr x)) e w'" if x: "0 \<le> tr x" for x
  proof -
    have "nat (tr x) < length (rw_tracks w)" using w(2) [of x] x by (simp add: tr)
    moreover have "track_samples F g c (nat (tr x)) = spliced F x (fst (h x))"
      using x g(1) tr [of MicrophoneTrack] tr [of SystemOutputTrack]
      by (cases x) (auto simp: track_samples_def follows_def so)
    ultimately show ?thesis using 2(3) by metis
  qed
  with w(1,3) 1(2,3) 2(1,2) show ?thesis by auto
qed

section \<open>A concrete recording\<close>

text \<open>The demonstration world with a microphone that stays, and delivers nothing while it is stopped.\<close>

definition steady_world :: "memory world" where
  "steady_world = demo_world\<lparr>w_stopStream := \<lambda>_ e. (e, [])\<rparr>"

lemma steady_media [simp]: "w_media steady_world = memory_api" "w_stopStream steady_world h e = (e, [])"
  "w_unixMs steady_world e = 0"
  by (simp_all add: steady_world_def demo_world_def)

lemma steady_laws:
  "recorder_laws (w_media steady_world) memory_view (\<lambda>_. unpack []) held_back"
  "opening_laws (w_media steady_world) memory_view" "world_laws steady_world memory_view"
  using memory_recorder memory_opening by simp_all (simp add: world_laws_def steady_world_def demo_world_def)

lemma steady_start:
  obtains c w k where "start_op F steady_world (new_controller ''d'', \<lambda>_. []) = Some ((c, \<lambda>_. []), True)"
    "rs_state (ct_session c) = Recording" "tp_buffer (ct_microphonePipeline c) = Some (new_ring empty_frame (unat (ringBufferCapacityFrames default_config)))"
    "tp_synchronizer (ct_microphonePipeline c) = Some (new_track_sync F (app_sync_config 1))"
    "tp_stream (ct_microphonePipeline c) = Some 0" "ct_systemOutputPipeline c = no_pipeline"
    "ct_writer c = Some w" "ct_writerFailed c = False" "ct_sttClient c = None" "ct_lastError c = None"
    "ct_pendingOutputFile c = ''d/voxmesh-t.flac''" "ct_writerMicrophoneTrack c = 0" "ct_writerSystemOutputTrack c = -1"
    "tp_writerTrack (ct_microphonePipeline c) = 0"
    "rw_state w = Open" "rc_tracks (rw_config w) = [archival_track Microphone 1 ''Microphone'']"
    "rs_framesWritten (rw_stats w) = 0"
    "rw_tracks w = [k]" "tk_chunkSamples k = 2" "tk_nextPts k = 0"
proof -
  have "\<exists>c w k. start_op F steady_world (new_controller ''d'', \<lambda>_. []) = Some ((c, \<lambda>_. []), True)
    \<and> rs_state (ct_session c) = Recording \<and> tp_buffer (ct_microphonePipeline c) = Some (new_ring empty_frame (unat (ringBufferCapacityFrames default_config)))
    \<and> tp_synchronizer (ct_microphonePipeline c) = Some (new_track_sync F (app_sync_config 1))
    \<and> tp_stream (ct_microphonePipeline c) = Some 0 \<and> ct_systemOutputPipeline c = no_pipeline
    \<and> ct_writer c = Some w \<and> ct_writerFailed c = False \<and> ct_sttClient c = None \<and> ct_lastError c = None
    \<and> ct_pendingOutputFile c = ''d/voxmesh-t.flac'' \<and> ct_writerMicrophoneTrack c = 0 \<and> ct_writerSystemOutputTrack c = -1
    \<and> tp_writerTrack (ct_microphonePipeline c) = 0
    \<and> rw_state w = Open \<and> rc_tracks (rw_config w) = [archival_track Microphone 1 ''Microphone'']
    \<and> rs_framesWritten (rw_stats w) = 0
    \<and> rw_tracks w = [k] \<and> tk_chunkSamples k = 2 \<and> tk_nextPts k = 0"
    by (simp add: start_op_def isIdle_def new_controller_def new_session_def refreshDevices_def demo_world_def steady_world_def
      defaultIndex_def demo_device_def Let_def createWriter_def microphoneSelected_def systemOutputSelected_def selected_def
      writer_tracks_def recording_candidate_def fresh_name_free archival_track_def
      createRecordingWriter_def writer_open_def new_writer_def track_sane_def openTrack_def codec_time_base_def memory_api_def log_call_def
      fire_def handle_def startSttStreaming_def startStreams_def startTrack_def app_state_def
      split del: if_split)
  then show thesis by (elim exE conjE) (rule that)
qed


text \<open>The captured frame is written, and finalizing the writer saves it.\<close>

lemma steady_file:
  assumes "rw_state w = Open" and "rc_tracks (rw_config w) = [archival_track Microphone 1 ''Microphone'']"
    and "rw_tracks w = [k]" and "tk_chunkSamples k = 2" and "tk_nextPts k = 0"
  shows "\<exists>w1 w2 e2. writer_write memory_api 0 captured_frame (w, \<lambda>_. []) = Some ((w1, (\<lambda>_. [])(Fifo 0 := [[1, 2]])), True)
    \<and> rs_framesWritten (rw_stats w1) = rs_framesWritten (rw_stats w) + 1
    \<and> writer_finalize memory_api (w1, (\<lambda>_. [])(Fifo 0 := [[1, 2]])) = Some ((w2, e2), True)"
  using assms
  by (auto simp: writer_write_def frame_matches_def archival_track_def captured_frame_def
      sampleCountPerChannel_def sample_frames_def demo_simps Let_def writer_finalize_def finishTrack_def cleanup_def)


lemma steady_drain:
  assumes b: "tp_buffer (ct_microphonePipeline c) = Some b" "ring_inv b" "contents b = [captured_frame]"
    and s: "tp_synchronizer (ct_microphonePipeline c) = Some (new_track_sync real_ops (app_sync_config 1))"
    and w: "ct_writer c = Some w" "\<not> ct_writerFailed c" "tp_writerTrack (ct_microphonePipeline c) = 0" "ct_sttClient c = None"
    and wr: "writer_write memory_api 0 captured_frame (w, e) = Some ((w1, e1), True)"
  shows "\<exists>p n. drainPipelineLocked real_ops steady_world MicrophoneTrack c e
    = Some (c\<lparr>ct_microphonePipeline := p, ct_framesCaptured := n, ct_writer := Some w1, ct_writerFailed := False\<rparr>, e1)"
proof -
  from captured_frame_processed obtain s' where p: "process real_ops (new_track_sync real_ops (app_sync_config 1)) captured_frame
    = Some (s', [captured_frame])" by (auto simp: bind_eq_Some_conv)
  obtain b' where b': "ring_inv b'" "contents b' = []" and u: "drainPipelineLocked real_ops steady_world MicrophoneTrack c e
      = Option.bind (drain_frame real_ops steady_world MicrophoneTrack captured_frame
          (set_pipeline MicrophoneTrack ((pipeline MicrophoneTrack c)\<lparr>tp_buffer := Some b'\<rparr>) c, e))
          (\<lambda>(c', e'). drainPipelineLocked real_ops steady_world MicrophoneTrack c' e')"
    using drain_unfold(2) [of MicrophoneTrack c b _ captured_frame "[]" real_ops steady_world e] b s by auto
  let ?p = "(ct_microphonePipeline c)\<lparr>tp_buffer := Some b', tp_synchronizer := Some s'\<rparr>"
  let ?c = "c\<lparr>ct_microphonePipeline := ?p, ct_framesCaptured := ct_framesCaptured c + 1, ct_writer := Some w1, ct_writerFailed := False\<rparr>"
  have "drain_frame real_ops steady_world MicrophoneTrack captured_frame
          (set_pipeline MicrophoneTrack ((pipeline MicrophoneTrack c)\<lparr>tp_buffer := Some b'\<rparr>) c, e) = Some (?c, e1)"
    using s p w wr by (cases "tp_feedsSttStream (ct_microphonePipeline c)"; cases "ct_sttProducer c")
      (simp_all add: drain_frame_def feed_def store_def Let_def)
  moreover have "drainPipelineLocked real_ops steady_world MicrophoneTrack ?c e1 = Some (?c, e1)"
    using b' by (intro drain_unfold(1) [where b = b' and s = s']) simp_all
  ultimately have "drainPipelineLocked real_ops steady_world MicrophoneTrack c e = Some (?c, e1)" by (simp add: u)
  then show ?thesis by blast
qed

lemma empty_drain: "ct_systemOutputPipeline c = no_pipeline \<Longrightarrow> drainPipelineLocked F W SystemOutputTrack c e = Some (c, e)"
  by (subst drainPipelineLocked.simps) (simp add: drain_one_def no_pipeline_def)

section \<open>The property\<close>

text \<open>
  C1: what is saved is what was captured. Take a start that is accepted, any events but a stop
  (pauses, resumes, changes of devices, frames, turns of the drain thread, network events),
  and the stop. If the stop reports no error then the file it names is the finalized one: opened,
  its header, packets and trailer written, closed and then renamed. The packets in every track's stream
  decode to exactly the frames that its rings took, stretch of capture by stretch, each stretch put
  through a fresh synchroniser; they are all the packets its encoder handed out, in order and
  with their times in the stream's time base, and the encoder was given its own frame size at
  a time, stamped contiguously, only the last chunk shorter. The hypotheses are the documented
  behaviour of FFmpeg's FIFOs and of a lossless encoder, that only the writer's calls touch them,
  and 64-bit sample counts.
\<close>

theorem saved_recording_is_what_was_captured:
  assumes "recorder_laws (w_media W) v decode backlog" and "opening_laws (w_media W) v" and "world_laws W v"
    and "controller_ok c" and "start_op F W (c, e) = Some ((c0, e0), True)"
    and "app_run F W evs (c0, e0) = Some (c1, e1)" and "StopPressed \<notin> set evs"
    and "stop_op F W (c1, e1) = Some ((c2, e2), True)"
    and "h = heard_in F W (evs @ [StopPressed]) (c0, e0) (\<lambda>_. ([], []))" and "fits_heard h"
  shows "(\<exists>err. ct_lastError c2 = Some err \<and> err \<in> {WriteInterrupted, NothingCaptured} \<union> range NotFinalized)
    \<or> (\<exists>s c' e' w w' e''. stopStreams F W (c1\<lparr>ct_session := s\<rparr>, e1) = Some (c', e') \<and> ct_writer c' = Some w
        \<and> writer_finalize (w_media W) (w, e') = Some ((w', e''), True) \<and> saved_file w'
        \<and> rc_outputFile (rw_config w') = ct_lastRecordingFile c2 \<and> ct_lastRecordingFile c2 = ct_pendingOutputFile c1
        \<and> (\<forall>x. 0 \<le> track_of x c0 \<longrightarrow>
            complete (w_media W) v decode (spliced F x (fst (h x))) (nat (track_of x c0)) e' w'))"
proof -
  have ok0: "controller_ok c0" "app_state c0 = Recording" using start_op_ok [OF assms(5,4)] by simp_all
  have ok1: "controller_ok c1" by (rule app_run_ok [OF assms(6) ok0(1)])
  define h1 where "h1 = heard_in F W evs (c0, e0) (\<lambda>_. ([], []))"
  have h: "h = hear W StopPressed (c1, e1) h1" by (simp add: assms(9) h1_def heard_in_snoc [OF assms(6)])
  have "fits_heard h1" using assms(10) unfolding h by (rule fits_hear_before)
  with app_run_follows [OF assms(1,3) start_follows [OF assms(2,3,4,5)] ok0(1) _ assms(7) _ assms(6)] ok0(2)
  have fo: "following F W v decode (\<lambda>x. track_of x c0) h1 c1 e1" by (simp add: h1_def)
  from assms(8) ok1 show ?thesis
  proof (cases rule: stop_op_cases)
    case (stopped s c' e' c4 saved err)
    have ends: "ends_stretch StopPressed (app_state c1)" using stopped by simp
    from stopStreams_following [OF assms(1,3) fo ends _ stopped(3), folded h, OF assms(10)]
    have fo': "following F W v decode (\<lambda>x. track_of x c0) h (c'\<lparr>ct_statsTimer := False\<rparr>) e'"
      by (simp only: following_timer)
    have cur: "snd (h x) = []" for x using ends by (simp add: h hear_def)
    have "rings_ok (c1\<lparr>ct_session := s\<rparr>)" using ok_rings [OF ok1] by (simp add: rings_ok_def)
    from stopStreams_frame [OF stopped(3) this] have "stopped_skeleton c' = stopped_skeleton (c1\<lparr>ct_session := s\<rparr>)" by blast
    then have pending: "ct_pendingOutputFile c' = ct_pendingOutputFile c1" by (simp add: stopped_skeleton_def)
    have c2: "ct_lastError c2 = (if saved \<noteq> [] \<or> err = None then ct_lastError c4 else err)"
      "ct_lastRecordingFile c2 = (if saved \<noteq> [] then saved else ct_lastRecordingFile c4)"
      by (cases err; simp add: stopped(6) fire_fields Let_def ui_fail_def)+
    show ?thesis
    proof (cases "saved = []")
      case True
      obtain w where "ct_writer c' = Some w" using fo' by (auto simp: following_def follows_def file_ok_def)
      moreover have "ct_pendingOutputFile c' \<noteq> []" using ok1 stopped(2) pending by (auto simp: controller_ok_def)
      ultimately have "\<exists>x. err = Some x \<and> x \<in> {WriteInterrupted, NothingCaptured} \<union> range NotFinalized"
        using stopped(5) True by (auto simp: finish_writer_def Let_def bind_eq_Some_conv split: if_splits)
      with True c2(1) show ?thesis by auto
    next
      case False
      from finish_follows [OF assms(1) fo' cur assms(10) stopped(5) False] stopped(3) c2(2) False pending
      show ?thesis by fastforce
    qed
  qed simp
qed

theorem saved_recording_is_what_was_captured_witness:
  "\<exists>c0 c1 c2 e2 s c' w e w' e''.
    start_op real_ops steady_world (new_controller ''d'', \<lambda>_. []) = Some ((c0, \<lambda>_. []), True)
    \<and> app_run real_ops steady_world [FrameCaptured MicrophoneTrack captured_frame] (c0, \<lambda>_. []) = Some (c1, \<lambda>_. [])
    \<and> stop_op real_ops steady_world (c1, \<lambda>_. []) = Some ((c2, e2), True)
    \<and> ct_lastError c2 = None \<and> ct_lastRecordingFile c2 = ''d/voxmesh-t.flac''
    \<and> stopStreams real_ops steady_world (c1\<lparr>ct_session := s\<rparr>, \<lambda>_. []) = Some (c', e) \<and> ct_writer c' = Some w
    \<and> writer_finalize memory_api (w, e) = Some ((w', e''), True) \<and> saved_file w'
    \<and> rc_outputFile (rw_config w') = ''d/voxmesh-t.flac'' \<and> decoded (unpack []) (stream_packets 0 (rw_trace w')) = [[1, 2]]"
proof -
  obtain c w k where st: "start_op real_ops steady_world (new_controller ''d'', \<lambda>_. []) = Some ((c, \<lambda>_. []), True)"
    and 1: "rs_state (ct_session c) = Recording" "tp_buffer (ct_microphonePipeline c) = Some (new_ring empty_frame (unat (ringBufferCapacityFrames default_config)))"
    "tp_synchronizer (ct_microphonePipeline c) = Some (new_track_sync real_ops (app_sync_config 1))"
    "tp_stream (ct_microphonePipeline c) = Some 0" "ct_systemOutputPipeline c = no_pipeline"
    "ct_writer c = Some w" "ct_writerFailed c = False" "ct_sttClient c = None" "ct_lastError c = None"
    "ct_pendingOutputFile c = ''d/voxmesh-t.flac''" "ct_writerMicrophoneTrack c = 0" "ct_writerSystemOutputTrack c = -1"
    "tp_writerTrack (ct_microphonePipeline c) = 0"
    and w: "rw_state w = Open" "rc_tracks (rw_config w) = [archival_track Microphone 1 ''Microphone'']"
    "rs_framesWritten (rw_stats w) = 0" "rw_tracks w = [k]" "tk_chunkSamples k = 2" "tk_nextPts k = 0"
    by (rule steady_start [of real_ops])
  from steady_file [OF w(1,2,4-6)] obtain w1 w2 e2 where
    wr: "writer_write memory_api 0 captured_frame (w, \<lambda>_. []) = Some ((w1, (\<lambda>_. [])(Fifo 0 := [[1, 2]])), True)"
      "rs_framesWritten (rw_stats w1) = 1" "writer_finalize memory_api (w1, (\<lambda>_. [])(Fifo 0 := [[1, 2]])) = Some ((w2, e2), True)"
    using w(3) by auto
  let ?r = "new_ring empty_frame (unat (ringBufferCapacityFrames default_config))"
  let ?b = "fst (tryPush ?r captured_frame)" and ?c = "onFrame MicrophoneTrack captured_frame c"
  have rb: "ring_inv ?b" by (intro ring.push_invar new_ring_inv)
  have push: "contents ?b = [captured_frame]" "snd (tryPush ?r captured_frame)"
    using ring.push_step [OF new_ring_inv, of empty_frame "unat (ringBufferCapacityFrames default_config)" captured_frame]
    by (simp_all add: bq_push_def default_config_def)
  have run: "app_run real_ops steady_world [FrameCaptured MicrophoneTrack captured_frame] (c, \<lambda>_. []) = Some (?c, \<lambda>_. [])" by simp
  have c: "?c = c\<lparr>ct_microphonePipeline := (ct_microphonePipeline c)\<lparr>tp_buffer := Some ?b\<rparr>\<rparr>" using 1(2) by (simp add: onFrame_def)
  obtain s where fs: "fire Stop ?c = (?c\<lparr>ct_session := s\<rparr>, True)"
    using 1(1) by (simp add: c fire_def handle_def Let_def)
  let ?cs = "?c\<lparr>ct_session := s\<rparr>"
  obtain p n where dr: "drainPipelineLocked real_ops steady_world MicrophoneTrack ?cs (\<lambda>_. [])
    = Some (?cs\<lparr>ct_microphonePipeline := p, ct_framesCaptured := n, ct_writer := Some w1, ct_writerFailed := False\<rparr>, (\<lambda>_. [])(Fifo 0 := [[1, 2]]))"
    using steady_drain [of ?cs ?b w "\<lambda>_. []", OF _ rb push(1) _ _ _ _ _ wr(1)] 1 by (auto simp: c)
  let ?c3 = "?cs\<lparr>ct_microphonePipeline := no_pipeline, ct_systemOutputPipeline := no_pipeline, ct_framesCaptured := n,
    ct_writer := Some w1, ct_writerFailed := False\<rparr>"
  have streams: "stop_stream steady_world MicrophoneTrack (?cs, \<lambda>_. []) = (?cs, \<lambda>_. [])"
    "stop_stream steady_world SystemOutputTrack (?cs, \<lambda>_. []) = (?cs, \<lambda>_. [])"
    using 1(4,5) by (simp_all add: stop_stream_def c no_pipeline_def)
  then have ss: "stopStreams real_ops steady_world (?cs, \<lambda>_. []) = Some (?c3, (\<lambda>_. [])(Fifo 0 := [[1, 2]]))"
    using dr 1(5) by (simp add: stopStreams_def empty_drain c)
  then obtain c2 e3 where sp: "stop_op real_ops steady_world (?c, \<lambda>_. []) = Some ((c2, e3), True)"
    and c2: "ct_lastError c2 = None" "ct_lastRecordingFile c2 = ''d/voxmesh-t.flac''"
    using fs wr(2,3) 1(9,10) by (simp add: stop_op_def finish_writer_def fire_fields c)
  define h where "h = heard_in real_ops steady_world ([FrameCaptured MicrophoneTrack captured_frame] @ [StopPressed]) (c, \<lambda>_. []) (\<lambda>_. ([], []))"
  have "app_state c = Recording" using 1(1) by (simp add: app_state_def)
  then have h: "h MicrophoneTrack = ([[captured_frame]], [])" "h SystemOutputTrack = ([[]], [])"
    using 1(2,4,5) push(2) sp by (simp_all add: h_def hear_def app_state_def c stream_frames_def stop_stream_def no_pipeline_def)
  have "fits [captured_frame]" "fits []" by (simp_all add: fits_def captured_frame_def sampleCountPerChannel_def most_silence_def)
  then have "fits_heard h" unfolding fits_heard_def by (auto simp: h split: which.split) (metis h which.exhaust append_Nil2 concat.simps fst_conv snd_conv)
  note C = saved_recording_is_what_was_captured [OF steady_laws new_controller_ok st run _ sp h_def this]
  have "synced real_ops MicrophoneTrack [captured_frame] = [[1, 2]]"
    using captured_frame_processed by (auto simp: synced_def new_sync_def captured_frame_def sample_frames_def sampleCountPerChannel_def Let_def)
  with C c2(1) h 1(11) obtain sa c' ww e' w' e'' where
    "stopStreams real_ops steady_world (?c\<lparr>ct_session := sa\<rparr>, \<lambda>_. []) = Some (c', e')" "ct_writer c' = Some ww"
    "writer_finalize memory_api (ww, e') = Some ((w', e''), True)"
    "saved_file w'" "rc_outputFile (rw_config w') = ''d/voxmesh-t.flac''"
    "complete memory_api memory_view (\<lambda>_. unpack []) [[1, 2]] 0 e' w'" using c2(2) by (auto dest: spec [of _ MicrophoneTrack])
  moreover from this(6) have "decoded (unpack []) (stream_packets 0 (rw_trace w')) = [[1, 2]]" unfolding complete_def by blast
  ultimately show ?thesis using st run sp c2 by blast
qed

end
