(* ===== verification/Interleaving.thy ===== *)
theory Interleaving
  imports EndToEnd
begin

text \<open>
  The controller with its threads taken apart (\<open>recorder_controller.cpp\<close>). \<open>Controller\<close>
  runs an operation of the user interface to its end before anything else happens; here the
  user interface's thread, the drain thread, the capture threads and the client's threads are
  interleaved, at the granularity of the code's locks: a step is one section under
  \<open>pipelineMutex_\<close> (a drain is several, one turn of its loop each, with the lock held), one call of the
  capture backend, or one push into a ring, together with the code around it that no other thread
  reads. The recording that is saved is then shown not to depend on the interleaving.
\<close>

section \<open>The threads\<close>

datatype thread = UserThread | DrainThread

text \<open>Who called \<open>startStreams\<close> and \<open>stopStreams\<close>, and where the user interface's thread stands.\<close>

datatype start_reason = AtStart | AtResume

datatype stop_reason = AtPause | AtStop | AtFailedStart | AtQuit

datatype location = AtRest
  | CreatingWriter \<comment> \<open>\<open>start\<close>: \<open>createWriter\<close> and \<open>handle(Start)\<close>\<close>
  | ConnectingStt \<comment> \<open>\<open>start\<close>: \<open>startSttStreaming\<close>\<close>
  | OpeningTrack start_reason which bool \<comment> \<open>\<open>startTrack\<close> up to \<open>startCapture\<close>; the flag is \<open>anyStarted\<close>\<close>
  | PublishingTrack start_reason which bool \<comment> \<open>\<open>startTrack\<close>, its locked end\<close>
  | StoppingStream stop_reason which \<comment> \<open>\<open>stopStreams\<close>: \<open>stream->stop()\<close>\<close>
  | Locking stop_reason
  | Draining stop_reason which \<comment> \<open>under the lock\<close>
  | Dropping stop_reason \<comment> \<open>under the lock\<close>
  | Finishing \<comment> \<open>\<open>stop\<close>: the locked block on the writer\<close>
  | LeavingStt string "ui_message option" \<comment> \<open>\<open>stop\<close>: \<open>stopSttStreaming\<close> and the end\<close>
  | Discarding bool \<comment> \<open>\<open>start\<close>: \<open>discardWriter\<close>; the flag: the streams had failed\<close>
  | FaultingStart \<comment> \<open>\<open>start\<close>: \<open>stopSttStreaming\<close>, \<open>Fault\<close>, \<open>Reset\<close>\<close>
  | LeavingAtQuit \<comment> \<open>the destructor: \<open>stopSttStreaming\<close>, \<open>drainStop_\<close>\<close>
  | Joining \<comment> \<open>the destructor: the join of the drain thread\<close>
  | Destroyed

text \<open>
  \<open>th_new\<close> is the pipeline that \<open>startTrack\<close> holds in its local variables: its stream is already
  delivering. \<open>th_live\<close> are the tracks with a stream that has not returned from \<open>stop\<close>. \<open>th_drain\<close> is the pipeline
  the drain thread is at, while it has the lock; \<open>th_drainStop\<close> is \<open>drainStop_\<close>, and \<open>th_drainEnded\<close> that
  its loop has ended. \<open>th_heard\<close> is read by no step: it records
  what the rings have accepted, stretch of capture by stretch.
\<close>

record ('d, 'e) threads =
  th_app :: "'d controller \<times> 'e"
  th_at :: location
  th_new :: "(which \<times> 'd track_pipeline) option"
  th_live :: "which set"
  th_lock :: "thread option"
  th_drain :: "which option"
  th_drainStop :: bool
  th_drainEnded :: bool
  th_heard :: heard

definition resting :: "'d controller \<times> 'e \<Rightarrow> ('d, 'e) threads" where
  "resting ce = \<lparr>th_app = ce, th_at = AtRest, th_new = None, th_live = {}, th_lock = None, th_drain = None,
     th_drainStop = False, th_drainEnded = False, th_heard = (\<lambda>_. ([], []))\<rparr>"

abbreviation ctrl :: "('d, 'e) threads \<Rightarrow> 'd controller" where
  "ctrl t \<equiv> fst (th_app t)"

abbreviation env :: "('d, 'e) threads \<Rightarrow> 'e" where
  "env t \<equiv> snd (th_app t)"

section \<open>The user interface's thread\<close>

subsection \<open>The calls\<close>

definition start_called :: "'e world \<Rightarrow> ('d, 'e) threads \<Rightarrow> ('d, 'e) threads" where
  "start_called W t = (let (c, e) = th_app t in
     if \<not> isIdle c then t
     else
       let (c, e) = (if ct_microphones c = [] \<and> ct_systemOutputs c = [] then refreshDevices W (c, e) else (c, e)) in
       if ct_selectedMicrophone c < 0 \<and> ct_selectedSystemOutput c < 0 then t\<lparr>th_app := (ui_fail NoDevices c, e)\<rparr>
       else t\<lparr>th_app := (c\<lparr>ct_lastError := None\<rparr>, e), th_at := CreatingWriter\<rparr>)"

definition pause_called :: "('d, 'e) threads \<Rightarrow> ('d, 'e) threads" where
  "pause_called t = (let (c, good) = fire Pause (ctrl t) in
     if good then t\<lparr>th_app := (c, env t), th_at := StoppingStream AtPause MicrophoneTrack\<rparr>
     else t\<lparr>th_app := (c, env t)\<rparr>)"

definition resume_called :: "('d, 'e) threads \<Rightarrow> ('d, 'e) threads" where
  "resume_called t = (if rs_state (ct_session (ctrl t)) \<noteq> Paused then t
     else t\<lparr>th_at := OpeningTrack AtResume MicrophoneTrack False\<rparr>)"

definition stop_called :: "('d, 'e) threads \<Rightarrow> ('d, 'e) threads" where
  "stop_called t = (let (c, good) = fire Stop (ctrl t) in
     if good then t\<lparr>th_app := (c, env t), th_at := StoppingStream AtStop MicrophoneTrack\<rparr>
     else t\<lparr>th_app := (c, env t)\<rparr>)"

text \<open>The destructor, after the event loop.\<close>

definition destructor_called :: "('d, 'e) threads \<Rightarrow> ('d, 'e) threads" where
  "destructor_called t = t\<lparr>th_at := StoppingStream AtQuit MicrophoneTrack\<rparr>"

subsection \<open>Opening the tracks\<close>

fun track_selected :: "which \<Rightarrow> 'd controller \<Rightarrow> bool" where
  "track_selected MicrophoneTrack c = microphoneSelected c"
| "track_selected SystemOutputTrack c = systemOutputSelected c"

text \<open>The call of \<open>startTrack\<close> for a track; \<open>mic\<close> is the local variable \<open>microphoneSelected\<close>.\<close>

fun start_track :: "'d float_ops \<Rightarrow> 'e world \<Rightarrow> which \<Rightarrow> bool \<Rightarrow> 'd controller \<times> 'e \<Rightarrow> ('d controller \<times> 'e) \<times> bool" where
  "start_track F W MicrophoneTrack mic (c, e) = startTrack F W MicrophoneTrack
     (ct_microphones c ! nat (ct_selectedMicrophone c)) Microphone 1 (ct_writerMicrophoneTrack c) True (c, e)"
| "start_track F W SystemOutputTrack mic (c, e) = startTrack F W SystemOutputTrack
     (ct_systemOutputs c ! nat (ct_selectedSystemOutput c)) SystemOutput 2 (ct_writerSystemOutputTrack c) (\<not> mic) (c, e)"

text \<open>\<open>startStreams\<close> returns true: the end of \<open>start\<close>, or of \<open>resume\<close>.\<close>

fun streams_started :: "start_reason \<Rightarrow> 'd controller \<Rightarrow> 'd controller" where
  "streams_started AtStart c = c\<lparr>ct_statsTimer := True\<rparr>"
| "streams_started AtResume c = fst (fire Resume c)"

text \<open>It returns false.\<close>

fun streams_failed :: "start_reason \<Rightarrow> ('d, 'e) threads \<Rightarrow> ('d, 'e) threads" where
  "streams_failed AtStart t = t\<lparr>th_at := StoppingStream AtFailedStart MicrophoneTrack\<rparr>"
| "streams_failed AtResume t = t\<lparr>th_app := (fst (fire Fault (ctrl t)), env t), th_at := AtRest\<rparr>"

fun next_track :: "start_reason \<Rightarrow> which \<Rightarrow> bool \<Rightarrow> ('d, 'e) threads \<Rightarrow> ('d, 'e) threads" where
  "next_track k MicrophoneTrack any t = t\<lparr>th_at := OpeningTrack k SystemOutputTrack any\<rparr>"
| "next_track k SystemOutputTrack any t =
     (if any then t\<lparr>th_app := (streams_started k (ctrl t), env t), th_at := AtRest\<rparr> else streams_failed k t)"

text \<open>
  \<open>startTrack\<close> before and after it takes the lock: the stream is started on the new ring, and
  then the pipeline becomes the controller's.
\<close>

definition open_track :: "'d float_ops \<Rightarrow> 'e world \<Rightarrow> start_reason \<Rightarrow> which \<Rightarrow> bool \<Rightarrow> ('d, 'e) threads \<Rightarrow> ('d, 'e) threads" where
  "open_track F W k x any t =
     (if \<not> track_selected x (ctrl t) then next_track k x any t
      else
        let ((c, e), good) = start_track F W x any (th_app t) in
        if good then t\<lparr>th_app := (ctrl t, e), th_new := Some (x, pipeline x c), th_live := insert x (th_live t),
          th_at := PublishingTrack k x any\<rparr>
        else streams_failed k (t\<lparr>th_app := (c, e)\<rparr>))"

definition publish_track :: "start_reason \<Rightarrow> which \<Rightarrow> ('d, 'e) threads \<Rightarrow> ('d, 'e) threads option" where
  "publish_track k x t = (case th_new t of
     None \<Rightarrow> None
   | Some (y, p) \<Rightarrow> Some (next_track k x True (t\<lparr>th_app := (set_pipeline y p (ctrl t), env t), th_new := None\<rparr>)))"

subsection \<open>Closing the tracks\<close>

definition close_stream :: "'e world \<Rightarrow> stop_reason \<Rightarrow> which \<Rightarrow> ('d, 'e) threads \<Rightarrow> ('d, 'e) threads" where
  "close_stream W k x t = t\<lparr>th_app := stop_stream W x (th_app t), th_live := th_live t - {x},
     th_heard := (th_heard t)(x := (fst (th_heard t x), snd (th_heard t x)
       @ ring_takes (tp_buffer (pipeline x (ctrl t))) (stream_frames W x (th_app t)))),
     th_at := (case x of MicrophoneTrack \<Rightarrow> StoppingStream k SystemOutputTrack | SystemOutputTrack \<Rightarrow> Locking k)\<rparr>"

definition drain_before_drop :: "'d float_ops \<Rightarrow> 'e world \<Rightarrow> stop_reason \<Rightarrow> which \<Rightarrow> ('d, 'e) threads \<Rightarrow> ('d, 'e) threads option" where
  "drain_before_drop F W k x t = do {
     (ce, again) \<leftarrow> drain_one F W x (th_app t);
     Some (t\<lparr>th_app := ce, th_at := (if again then Draining k x
       else case x of MicrophoneTrack \<Rightarrow> Draining k SystemOutputTrack | SystemOutputTrack \<Rightarrow> Dropping k)\<rparr>) }"

fun closed :: "stop_reason \<Rightarrow> location" where
  "closed AtPause = AtRest"
| "closed AtStop = Finishing"
| "closed AtFailedStart = Discarding True"
| "closed AtQuit = LeavingAtQuit"

definition drop_pipelines :: "stop_reason \<Rightarrow> ('d, 'e) threads \<Rightarrow> ('d, 'e) threads" where
  "drop_pipelines k t = t\<lparr>th_app := ((ctrl t)\<lparr>ct_microphonePipeline := no_pipeline, ct_systemOutputPipeline := no_pipeline\<rparr>, env t),
     th_heard := (\<lambda>x. (fst (th_heard t x) @ [snd (th_heard t x)], [])), th_lock := None, th_at := closed k\<rparr>"

subsection \<open>The writer and the transcription\<close>

definition create_writer :: "'e world \<Rightarrow> ('d, 'e) threads \<Rightarrow> ('d, 'e) threads option" where
  "create_writer W t = do {
     ((c, e), created) \<leftarrow> createWriter W (th_app t);
     Some (if \<not> created then t\<lparr>th_app := (c, e), th_at := AtRest\<rparr>
       else
         let (c, good) = fire session_event.Start c in
         t\<lparr>th_app := (c, e), th_heard := (\<lambda>_. ([], [])), th_at := (if good then ConnectingStt else Discarding False)\<rparr>) }"

definition connect_stt :: "'d float_ops \<Rightarrow> 'e world \<Rightarrow> ('d, 'e) threads \<Rightarrow> ('d, 'e) threads" where
  "connect_stt F W t = t\<lparr>th_app := startSttStreaming F W (th_app t), th_at := OpeningTrack AtStart MicrophoneTrack False\<rparr>"

definition finish_recording :: "'e world \<Rightarrow> ('d, 'e) threads \<Rightarrow> ('d, 'e) threads option" where
  "finish_recording W t = do {
     ((c, e), saved, err) \<leftarrow> finish_writer W ((ctrl t)\<lparr>ct_statsTimer := False\<rparr>, env t);
     Some (t\<lparr>th_app := (c\<lparr>ct_pendingOutputFile := []\<rparr>, e), th_at := LeavingStt saved err\<rparr>) }"

definition report_stop :: "string \<Rightarrow> ui_message option \<Rightarrow> ('d, 'e) threads \<Rightarrow> ('d, 'e) threads" where
  "report_stop saved err t = (let c = stopSttStreaming (ctrl t);
       c = (if saved \<noteq> [] then c\<lparr>ct_lastRecordingFile := saved\<rparr>
         else case err of None \<Rightarrow> c | Some message \<Rightarrow> ui_fail message c)
     in t\<lparr>th_app := (fst (fire Reset (fst (fire StopComplete c))), env t), th_at := AtRest\<rparr>)"

definition discard_writer :: "'e world \<Rightarrow> bool \<Rightarrow> ('d, 'e) threads \<Rightarrow> ('d, 'e) threads" where
  "discard_writer W failed t = t\<lparr>th_app := discardWriter W (th_app t), th_at := (if failed then FaultingStart else AtRest)\<rparr>"

definition fault_start :: "('d, 'e) threads \<Rightarrow> ('d, 'e) threads" where
  "fault_start t = t\<lparr>th_app := (fst (fire Reset (fst (fire Fault (stopSttStreaming (ctrl t))))), env t), th_at := AtRest\<rparr>"

text \<open>The end of the destructor; a writer that is left over is destroyed with the members, which closes its file.\<close>

definition leave_at_quit :: "('d, 'e) threads \<Rightarrow> ('d, 'e) threads" where
  "leave_at_quit t = t\<lparr>th_app := (stopSttStreaming (ctrl t), env t), th_drainStop := True, th_at := Joining\<rparr>"

definition destroy_members :: "'e world \<Rightarrow> ('d, 'e) threads \<Rightarrow> ('d, 'e) threads" where
  "destroy_members W t = t\<lparr>th_app := ((ctrl t)\<lparr>ct_writer := None\<rparr>, (case ct_writer (ctrl t) of
       None \<Rightarrow> env t | Some w \<Rightarrow> snd (cleanup (w_media W) (w, env t)))), th_at := Destroyed\<rparr>"

subsection \<open>Its next step\<close>

text \<open>A step that takes the lock waits while another thread has it.\<close>

definition unlocked :: "('d, 'e) threads \<Rightarrow> ('d, 'e) threads option \<Rightarrow> ('d, 'e) threads option" where
  "unlocked t r = (if th_lock t = None then r else None)"

fun user_turn :: "'d float_ops \<Rightarrow> 'e world \<Rightarrow> location \<Rightarrow> ('d, 'e) threads \<Rightarrow> ('d, 'e) threads option" where
  "user_turn F W AtRest t = None"
| "user_turn F W CreatingWriter t = unlocked t (create_writer W t)"
| "user_turn F W ConnectingStt t = unlocked t (Some (connect_stt F W t))"
| "user_turn F W (OpeningTrack k x any) t = Some (open_track F W k x any t)"
| "user_turn F W (PublishingTrack k x any) t = unlocked t (publish_track k x t)"
| "user_turn F W (StoppingStream k x) t = Some (close_stream W k x t)"
| "user_turn F W (Locking k) t = unlocked t (Some (t\<lparr>th_lock := Some UserThread, th_at := Draining k MicrophoneTrack\<rparr>))"
| "user_turn F W (Draining k x) t = drain_before_drop F W k x t"
| "user_turn F W (Dropping k) t = Some (drop_pipelines k t)"
| "user_turn F W Finishing t = unlocked t (finish_recording W t)"
| "user_turn F W (LeavingStt saved err) t = unlocked t (Some (report_stop saved err t))"
| "user_turn F W (Discarding failed) t = unlocked t (Some (discard_writer W failed t))"
| "user_turn F W FaultingStart t = unlocked t (Some (fault_start t))"
| "user_turn F W LeavingAtQuit t = unlocked t (Some (leave_at_quit t))"
| "user_turn F W Joining t = (if th_drainEnded t then Some (destroy_members W t) else None)"
| "user_turn F W Destroyed t = None"

section \<open>The other threads\<close>

text \<open>
  The drain thread (\<open>drainLoop\<close>): unless it is to stop, it takes the lock, drains one pipeline and then
  the other, and gives the lock back. The 2 ms it sleeps after a turn that found nothing are a pause of its own,
  in which the other threads move as they like.
\<close>

definition drain_turn :: "'d float_ops \<Rightarrow> 'e world \<Rightarrow> ('d, 'e) threads \<Rightarrow> ('d, 'e) threads option" where
  "drain_turn F W t = (case th_drain t of
     None \<Rightarrow>
       if th_drainEnded t then None
       else if th_drainStop t then Some (t\<lparr>th_drainEnded := True\<rparr>)
       else unlocked t (Some (t\<lparr>th_lock := Some DrainThread, th_drain := Some MicrophoneTrack\<rparr>))
   | Some x \<Rightarrow> do {
       (ce, again) \<leftarrow> drain_one F W x (th_app t);
       Some (if again then t\<lparr>th_app := ce\<rparr>
         else case x of
           MicrophoneTrack \<Rightarrow> t\<lparr>th_app := ce, th_drain := Some SystemOutputTrack\<rparr>
         | SystemOutputTrack \<Rightarrow> t\<lparr>th_app := ce, th_drain := None, th_lock := None\<rparr>) })"

text \<open>
  A capture thread delivers a frame to its \<open>RingSink\<close>, without the lock. The ring is the one of
  \<open>startTrack\<close>'s local variable or the controller's; \<open>None\<close> when there is none (the sink would be dangling).
\<close>

definition sink_pipeline :: "which \<Rightarrow> ('d, 'e) threads \<Rightarrow> 'd track_pipeline" where
  "sink_pipeline x t = (case th_new t of
     None \<Rightarrow> pipeline x (ctrl t)
   | Some (y, p) \<Rightarrow> if y = x then p else pipeline x (ctrl t))"

definition capture_turn :: "which \<Rightarrow> audio_frame \<Rightarrow> ('d, 'e) threads \<Rightarrow> ('d, 'e) threads option" where
  "capture_turn x f t = (case tp_buffer (sink_pipeline x t) of
     None \<Rightarrow> None
   | Some b \<Rightarrow>
       let t' = t\<lparr>th_heard := (th_heard t)(x := (fst (th_heard t x), snd (th_heard t x) @ ring_takes (Some b) [f]))\<rparr> in
       Some (case th_new t of
         Some (y, p) \<Rightarrow> if y = x then t'\<lparr>th_new := Some (y, p\<lparr>tp_buffer := Some (fst (tryPush b f))\<rparr>)\<rparr>
           else t'\<lparr>th_app := (onFrame x f (ctrl t), env t)\<rparr>
       | None \<Rightarrow> t'\<lparr>th_app := (onFrame x f (ctrl t), env t)\<rparr>))"

lemma sink_pipeline_simps [simp]:
  "sink_pipeline x (t\<lparr>th_lock := l\<rparr>) = sink_pipeline x t" "sink_pipeline x (t\<lparr>th_drain := d\<rparr>) = sink_pipeline x t"
  "sink_pipeline x (t\<lparr>th_heard := h\<rparr>) = sink_pipeline x t" "sink_pipeline x (t\<lparr>th_at := a\<rparr>) = sink_pipeline x t"
  "sink_pipeline x (t\<lparr>th_live := s\<rparr>) = sink_pipeline x t" "sink_pipeline x (t\<lparr>th_drainEnded := b\<rparr>) = sink_pipeline x t"
  by (simp_all add: sink_pipeline_def split: option.split)

section \<open>All of them\<close>

datatype thread_move = UserMoves | StartCalled | PauseCalled | ResumeCalled | StopCalled | DestructorCalled | OtherCall app_event
  | DrainMoves | FrameDelivered which audio_frame | NetworkMoves client_event

text \<open>The other calls from the user interface's thread, which only run when it is at rest.\<close>

fun user_call :: "app_event \<Rightarrow> bool" where
  "user_call StartPressed = False"
| "user_call PausePressed = False"
| "user_call ResumePressed = False"
| "user_call StopPressed = False"
| "user_call (FrameCaptured x f) = False"
| "user_call (DrainTurn x) = False"
| "user_call (ClientStep ev) = False"
| "user_call _ = True"

definition calling :: "('d, 'e) threads \<Rightarrow> ('d, 'e) threads option \<Rightarrow> ('d, 'e) threads option" where
  "calling t r = (if th_at t = AtRest then r else None)"

text \<open>\<open>None\<close>: the thread cannot move (it waits, or has nothing to do), or what it does is undefined.\<close>

fun threads_step :: "'d float_ops \<Rightarrow> 'e world \<Rightarrow> thread_move \<Rightarrow> ('d, 'e) threads \<Rightarrow> ('d, 'e) threads option" where
  "threads_step F W UserMoves t = user_turn F W (th_at t) t"
| "threads_step F W StartCalled t = calling t (Some (start_called W t))"
| "threads_step F W PauseCalled t = calling t (Some (pause_called t))"
| "threads_step F W ResumeCalled t = calling t (Some (resume_called t))"
| "threads_step F W StopCalled t = calling t (Some (stop_called t))"
| "threads_step F W DestructorCalled t = calling t (Some (destructor_called t))"
| "threads_step F W (OtherCall ev) t = calling t (if user_call ev
     then map_option (\<lambda>ce. t\<lparr>th_app := ce\<rparr>) (app_step F W ev (th_app t)) else None)"
| "threads_step F W DrainMoves t = drain_turn F W t"
| "threads_step F W (FrameDelivered x f) t = (if x \<in> th_live t then capture_turn x f t else None)"
| "threads_step F W (NetworkMoves ev) t = Some (t\<lparr>th_app := (client_thread_step ev (ctrl t), env t)\<rparr>)"

fun threads_run :: "'d float_ops \<Rightarrow> 'e world \<Rightarrow> thread_move list \<Rightarrow> ('d, 'e) threads \<Rightarrow> ('d, 'e) threads option" where
  "threads_run F W [] t = Some t"
| "threads_run F W (m # ms) t = do { t \<leftarrow> threads_step F W m t; threads_run F W ms t }"

interpretation threads: event_system "threads_step F W" "threads_run F W" for F W
  by unfold_locales simp_all

section \<open>The invariant of the threads\<close>

subsection \<open>What holds where the user interface's thread stands\<close>

definition phase :: "session_state \<Rightarrow> bool \<Rightarrow> bool \<Rightarrow> 'd controller \<Rightarrow> bool" where
  "phase st writing timer c \<longleftrightarrow> app_state c = st \<and> (ct_writer c \<noteq> None \<longleftrightarrow> writing)
     \<and> (ct_pendingOutputFile c \<noteq> [] \<longleftrightarrow> writing) \<and> (ct_statsTimer c \<longleftrightarrow> timer)"

definition all_gone :: "'d controller \<Rightarrow> bool" where
  "all_gone c \<longleftrightarrow> shape (ct_microphonePipeline c) = gone \<and> shape (ct_systemOutputPipeline c) = gone"

definition opened_so_far :: "which \<Rightarrow> bool \<Rightarrow> 'd controller \<Rightarrow> bool" where
  "opened_so_far x any c \<longleftrightarrow> (x = MicrophoneTrack \<longrightarrow> \<not> any) \<and> shape (ct_systemOutputPipeline c) = gone
     \<and> shape (ct_microphonePipeline c) = (if x = SystemOutputTrack \<and> any then running else gone)"

fun start_phase :: "start_reason \<Rightarrow> 'd controller \<Rightarrow> bool" where
  "start_phase AtStart c = phase Recording True False c"
| "start_phase AtResume c = phase Paused True True c"

fun stop_phase :: "stop_reason \<Rightarrow> 'd controller \<Rightarrow> bool" where
  "stop_phase AtPause c = phase Paused True True c"
| "stop_phase AtStop c = phase Stopping True True c"
| "stop_phase AtFailedStart c = phase Recording True False c"
| "stop_phase AtQuit c = True"

fun location_ok :: "location \<Rightarrow> 'd controller \<Rightarrow> bool" where
  "location_ok AtRest c = controller_ok c"
| "location_ok CreatingWriter c = (phase Idle False False c \<and> all_gone c \<and> ct_sttClient c = None)"
| "location_ok ConnectingStt c = (phase Recording True False c \<and> all_gone c)"
| "location_ok (OpeningTrack k x any) c = (start_phase k c \<and> opened_so_far x any c)"
| "location_ok (PublishingTrack k x any) c = (start_phase k c \<and> opened_so_far x any c)"
| "location_ok (StoppingStream k x) c = stop_phase k c"
| "location_ok (Locking k) c = stop_phase k c"
| "location_ok (Draining k x) c = stop_phase k c"
| "location_ok (Dropping k) c = stop_phase k c"
| "location_ok Finishing c = (phase Stopping True True c \<and> all_gone c)"
| "location_ok (LeavingStt saved err) c = (phase Stopping False False c \<and> all_gone c)"
| "location_ok (Discarding failed) c = (failed \<and> phase Recording True False c \<and> all_gone c)"
| "location_ok FaultingStart c = (phase Recording False False c \<and> all_gone c)"
| "location_ok LeavingAtQuit c = all_gone c"
| "location_ok Joining c = (all_gone c \<and> ct_sttClient c = None)"
| "location_ok Destroyed c = (all_gone c \<and> ct_sttClient c = None \<and> ct_writer c = None)"

definition parts_ok :: "'d controller \<Rightarrow> bool" where
  "parts_ok c \<longleftrightarrow> rings_ok c \<and> (ct_sttActive c \<longleftrightarrow> ct_sttClient c \<noteq> None) \<and> (ct_sttActive c \<longleftrightarrow> ct_sttProducer c \<noteq> None)
     \<and> (\<forall>x. shape (pipeline x c) \<in> {gone, running}) \<and> ct_config c = default_config"

text \<open>The tracks whose streams have stopped, and those whose rings have been emptied since.\<close>

fun stopped_tracks :: "location \<Rightarrow> which set" where
  "stopped_tracks (StoppingStream k SystemOutputTrack) = {MicrophoneTrack}"
| "stopped_tracks (Locking k) = UNIV"
| "stopped_tracks (Draining k x) = UNIV"
| "stopped_tracks (Dropping k) = UNIV"
| "stopped_tracks _ = {}"

fun emptied_tracks :: "location \<Rightarrow> which set" where
  "emptied_tracks (Draining k SystemOutputTrack) = {MicrophoneTrack}"
| "emptied_tracks (Dropping k) = UNIV"
| "emptied_tracks _ = {}"

fun holds_lock :: "location \<Rightarrow> bool" where
  "holds_lock (Draining k x) = True"
| "holds_lock (Dropping k) = True"
| "holds_lock _ = False"

definition ring_empty :: "which \<Rightarrow> 'd controller \<Rightarrow> bool" where
  "ring_empty x c \<longleftrightarrow> (\<forall>b. tp_buffer (pipeline x c) = Some b \<longrightarrow> contents b = [])"

definition new_ok :: "location \<Rightarrow> (which \<times> 'd track_pipeline) option \<Rightarrow> bool" where
  "new_ok l new \<longleftrightarrow> (case new of
       None \<Rightarrow> (\<forall>k x any. l \<noteq> PublishingTrack k x any)
     | Some (x, p) \<Rightarrow> (\<exists>k any. l = PublishingTrack k x any) \<and> shape p = running \<and> (\<forall>b. tp_buffer p = Some b \<longrightarrow> ring_inv b))"

definition live_ok :: "('d, 'e) threads \<Rightarrow> bool" where
  "live_ok t \<longleftrightarrow> (\<forall>x \<in> th_live t. shape (sink_pipeline x t) = running) \<and> th_live t \<inter> stopped_tracks (th_at t) = {}"

definition lock_ok :: "('d, 'e) threads \<Rightarrow> bool" where
  "lock_ok t \<longleftrightarrow> (th_lock t = Some UserThread \<longleftrightarrow> holds_lock (th_at t)) \<and> (th_lock t = Some DrainThread \<longleftrightarrow> th_drain t \<noteq> None)"

text \<open>The drain thread is told to stop by the destructor, which waits for it.\<close>

definition end_ok :: "('d, 'e) threads \<Rightarrow> bool" where
  "end_ok t \<longleftrightarrow> (th_drainStop t \<longleftrightarrow> th_at t \<in> {Joining, Destroyed}) \<and> (th_drainEnded t \<longrightarrow> th_drainStop t \<and> th_drain t = None)
     \<and> (th_at t = Destroyed \<longrightarrow> th_drainEnded t)"

definition threads_ok :: "('d, 'e) threads \<Rightarrow> bool" where
  "threads_ok t \<longleftrightarrow> parts_ok (ctrl t) \<and> location_ok (th_at t) (ctrl t) \<and> new_ok (th_at t) (th_new t) \<and> live_ok t
     \<and> lock_ok t \<and> end_ok t \<and> (\<forall>x \<in> emptied_tracks (th_at t). ring_empty x (ctrl t))"

text \<open>What the other threads' steps leave alone.\<close>

lemma phase_cong: "skeleton c' = skeleton c \<Longrightarrow> phase st w r c' = phase st w r c"
  by (auto simp: skeleton_def phase_def app_state_def)

lemma gone_cong: "skeleton c' = skeleton c \<Longrightarrow> all_gone c' = all_gone c \<and> opened_so_far x any c' = opened_so_far x any c"
  by (simp add: skeleton_def all_gone_def opened_so_far_def)

lemma start_phase_cong: "skeleton c' = skeleton c \<Longrightarrow> start_phase k c' = start_phase k c"
  by (cases k) (simp_all add: phase_cong [of c' c])

lemma stop_phase_cong: "skeleton c' = skeleton c \<Longrightarrow> stop_phase k c' = stop_phase k c"
  by (cases k) (simp_all add: phase_cong [of c' c])

lemma location_ok_cong:
  assumes s: "skeleton c' = skeleton c" and r: "rings_ok c' = rings_ok c"
  shows "location_ok l c' = location_ok l c"
proof -
  have "(ct_sttClient c' = None) = (ct_sttClient c = None)" "(ct_writer c' = None) = (ct_writer c = None)" using s by (simp_all add: skeleton_def)
  then show ?thesis
    by (cases l) (simp_all add: controller_ok_cong [OF s r] phase_cong [OF s] gone_cong [OF s] start_phase_cong [OF s] stop_phase_cong [OF s])
qed

lemma skeleton_shape: "skeleton c' = skeleton c \<Longrightarrow> shape (pipeline x c') = shape (pipeline x c)"
  by (cases x) (simp_all add: skeleton_def)

lemma parts_ok_cong: "skeleton c' = skeleton c \<Longrightarrow> rings_ok c' = rings_ok c \<Longrightarrow> parts_ok c' = parts_ok c"
  by (simp add: parts_ok_def skeleton_shape [of c' c] del: not_None_eq) (simp add: skeleton_def del: not_None_eq)

lemma skeleton_writer: "skeleton c' = skeleton c \<Longrightarrow> (ct_writer c' = None) = (ct_writer c = None)"
  by (simp add: skeleton_def)

text \<open>A step that only touches the contents of the pipelines and of the writer.\<close>

lemma threads_ok_skeleton:
  assumes ok: "threads_ok t" and s: "skeleton c = skeleton (ctrl t)" and r: "rings_ok c"
    and e: "\<And>x. x \<in> emptied_tracks (th_at t) \<Longrightarrow> ring_empty x c"
  shows "threads_ok (t\<lparr>th_app := (c, e), th_heard := h\<rparr>)"
proof -
  have r': "rings_ok c = rings_ok (ctrl t)" using ok r by (simp add: threads_ok_def parts_ok_def)
  have "shape (sink_pipeline x (t\<lparr>th_app := (c, e), th_heard := h\<rparr>)) = shape (sink_pipeline x t)" for x
    using skeleton_shape [OF s, of x] by (simp add: sink_pipeline_def split: option.split)
  with ok e show ?thesis
    by (auto simp: threads_ok_def location_ok_cong [OF s r'] parts_ok_cong [OF s r'] live_ok_def lock_ok_def end_ok_def)
qed

subsection \<open>The other threads\<close>

lemma emptied_facts: "emptied_tracks l \<subseteq> stopped_tracks l" "emptied_tracks l \<noteq> {} \<Longrightarrow> holds_lock l"
  by (cases l rule: emptied_tracks.cases; simp)+

lemma unlocked_Some: "unlocked t r = Some t' \<longleftrightarrow> th_lock t = None \<and> r = Some t'"
  by (simp add: unlocked_def)

lemma ok_parts: "threads_ok t \<Longrightarrow> rings_ok (ctrl t)"
  by (simp add: threads_ok_def parts_ok_def)

lemma drain_turn_cases:
  assumes "drain_turn F W t = Some t'"
  obtains (lock) "th_drain t = None" "th_lock t = None" "\<not> th_drainEnded t" "t' = t\<lparr>th_lock := Some DrainThread, th_drain := Some MicrophoneTrack\<rparr>"
  | (ends) "th_drain t = None" "th_drainStop t" "t' = t\<lparr>th_drainEnded := True\<rparr>"
  | (turn) x ce again where "th_drain t = Some x" "drain_one F W x (th_app t) = Some (ce, again)"
      "t' = (if again then t\<lparr>th_app := ce\<rparr> else case x of
           MicrophoneTrack \<Rightarrow> t\<lparr>th_app := ce, th_drain := Some SystemOutputTrack\<rparr>
         | SystemOutputTrack \<Rightarrow> t\<lparr>th_app := ce, th_drain := None, th_lock := None\<rparr>)"
  using assms by (auto simp: drain_turn_def unlocked_Some bind_eq_Some_conv split: option.splits if_splits)

lemma drain_turn_ok:
  assumes d: "drain_turn F W t = Some t'" and ok: "threads_ok t"
  shows "threads_ok t'"
  using d
proof (cases rule: drain_turn_cases)
  case lock
  with ok show ?thesis
    by (simp add: threads_ok_def live_ok_def lock_ok_def end_ok_def)
next
  case ends
  with ok show ?thesis
    by (simp add: threads_ok_def live_ok_def lock_ok_def end_ok_def)
next
  case (turn x ce again)
  obtain c e where ce: "ce = (c, e)" by (cases ce)
  with turn(2) have "drain_one F W x (ctrl t, env t) = Some ((c, e), again)" by simp
  from drain_one_frame [OF this ok_parts [OF ok]] have f: "skeleton c = skeleton (ctrl t)" "rings_ok c" by simp_all
  have "\<not> th_drainEnded t" using ok turn(1) by (auto simp: threads_ok_def end_ok_def)
  have l: "th_lock t = Some DrainThread" "\<not> holds_lock (th_at t)" using ok turn(1) by (auto simp: threads_ok_def lock_ok_def)
  then have "emptied_tracks (th_at t) = {}" using emptied_facts(2) [of "th_at t"] by blast
  with threads_ok_skeleton [OF ok f, of "th_heard t" e] have "threads_ok (t\<lparr>th_app := (c, e), th_heard := th_heard t\<rparr>)" by simp
  with l \<open>\<not> th_drainEnded t\<close> show ?thesis
    by (simp add: turn(1,3) ce threads_ok_def live_ok_def lock_ok_def end_ok_def split: which.split)
qed

text \<open>A live stream always finds a ring, published or not.\<close>

lemma capture_defined:
  assumes "threads_ok t" and "x \<in> th_live t"
  shows "tp_buffer (sink_pipeline x t) \<noteq> None" and "capture_turn x f t \<noteq> None"
proof -
  have "shape (sink_pipeline x t) = running" using assms by (simp add: threads_ok_def live_ok_def)
  then show "tp_buffer (sink_pipeline x t) \<noteq> None" by (simp add: shape_def running_def)
  then show "capture_turn x f t \<noteq> None" by (auto simp: capture_turn_def Let_def)
qed

lemma capture_turn_cases:
  assumes "capture_turn x f t = Some t'"
  obtains (new) p b where "th_new t = Some (x, p)" "tp_buffer p = Some b"
      "t' = t\<lparr>th_new := Some (x, p\<lparr>tp_buffer := Some (fst (tryPush b f))\<rparr>),
         th_heard := (th_heard t)(x := (fst (th_heard t x), snd (th_heard t x) @ ring_takes (Some b) [f]))\<rparr>"
  | (published) b where "\<And>p. th_new t \<noteq> Some (x, p)" "tp_buffer (pipeline x (ctrl t)) = Some b"
      "t' = t\<lparr>th_app := (onFrame x f (ctrl t), env t),
         th_heard := (th_heard t)(x := (fst (th_heard t x), snd (th_heard t x) @ ring_takes (Some b) [f]))\<rparr>"
proof (cases "th_new t")
  case None
  with assms published show thesis by (auto simp: capture_turn_def sink_pipeline_def Let_def split: option.splits)
next
  case (Some r)
  obtain y p where r: "r = (y, p)" by (cases r)
  show thesis
  proof (cases "y = x")
    case True
    with assms Some r new show thesis by (auto simp: capture_turn_def sink_pipeline_def Let_def split: option.splits)
  next
    case False
    with assms Some r published show thesis by (auto simp: capture_turn_def sink_pipeline_def Let_def split: option.splits)
  qed
qed

lemma capture_turn_ok:
  assumes d: "capture_turn x f t = Some t'" and live: "x \<in> th_live t" and ok: "threads_ok t"
  shows "threads_ok t'"
  using d
proof (cases rule: capture_turn_cases)
  case (new p b)
  have "ring_inv b" "shape p = running" "\<exists>k any. th_at t = PublishingTrack k x any"
    using ok new(1,2) by (auto simp: threads_ok_def new_ok_def)
  moreover from this have "shape (p\<lparr>tp_buffer := Some b'\<rparr>) = running" "ring_inv (fst (tryPush b f))" for b'
    by (simp_all add: shape_def running_def ring.push_invar)
  ultimately show ?thesis using ok new(1)
    by (auto simp: new(3) threads_ok_def new_ok_def live_ok_def lock_ok_def end_ok_def sink_pipeline_def)
next
  case (published b)
  note f = onFrame_frame [OF ok_parts [OF ok], of x f]
  have "ring_empty y (onFrame x f (ctrl t))" if "y \<in> emptied_tracks (th_at t)" for y
  proof -
    have "y \<noteq> x" using ok live that emptied_facts(1) by (fastforce simp: threads_ok_def live_ok_def)
    with ok that show ?thesis by (simp add: threads_ok_def ring_empty_def onFrame_pipeline)
  qed
  from threads_ok_skeleton [OF ok conjunct2 [OF f] conjunct1 [OF f] this] show ?thesis by (simp add: published(3))
qed

lemma client_thread_pipeline: "pipeline x (client_thread_step ev c) = pipeline x c"
  by (cases x) (auto simp: client_thread_step_def split: option.split)

lemma network_ok:
  assumes "threads_ok t"
  shows "threads_ok (t\<lparr>th_app := (client_thread_step ev (ctrl t), env t)\<rparr>)"
proof -
  note f = client_thread_step_ok [of ev "ctrl t"]
  have "threads_ok (t\<lparr>th_app := (client_thread_step ev (ctrl t), env t), th_heard := th_heard t\<rparr>)"
    by (rule threads_ok_skeleton [OF assms])
      (use f assms ok_parts [OF assms] in \<open>auto simp: ring_empty_def client_thread_pipeline threads_ok_def\<close>)
  then show ?thesis by simp
qed

subsection \<open>The user interface's thread\<close>

text \<open>The invariant, as long as the thread has no lock, no unpublished pipeline and no stopped stream.\<close>

definition quiet :: "('d, 'e) threads \<Rightarrow> bool" where
  "quiet t \<longleftrightarrow> parts_ok (ctrl t) \<and> th_new t = None \<and> (\<forall>x \<in> th_live t. shape (pipeline x (ctrl t)) = running)
     \<and> th_lock t \<noteq> Some UserThread \<and> (th_lock t = Some DrainThread \<longleftrightarrow> th_drain t \<noteq> None)
     \<and> \<not> th_drainStop t \<and> \<not> th_drainEnded t"

fun plain :: "location \<Rightarrow> bool" where
  "plain (PublishingTrack k x any) = False"
| "plain (StoppingStream k x) = (x = MicrophoneTrack)"
| "plain (Locking k) = False"
| "plain (Draining k x) = False"
| "plain (Dropping k) = False"
| "plain Joining = False"
| "plain Destroyed = False"
| "plain _ = True"

lemma plain_facts: "plain l \<Longrightarrow> stopped_tracks l = {} \<and> emptied_tracks l = {} \<and> \<not> holds_lock l \<and> l \<noteq> PublishingTrack k x any
    \<and> l \<noteq> Joining \<and> l \<noteq> Destroyed"
  by (cases l rule: plain.cases) auto

lemma quiet_threads:
  assumes "quiet t" and "plain (th_at t)" and "location_ok (th_at t) (ctrl t)"
  shows "threads_ok t"
  using assms plain_facts [OF assms(2)] by (simp add: quiet_def threads_ok_def new_ok_def live_ok_def lock_ok_def end_ok_def sink_pipeline_def)

lemma threads_quiet:
  assumes "threads_ok t" and "plain (th_at t)"
  shows "quiet t"
  using assms plain_facts [OF assms(2)]
  by (auto simp: quiet_def threads_ok_def new_ok_def live_ok_def lock_ok_def end_ok_def sink_pipeline_def split: option.splits)

lemma quiet_simps [simp]:
  "quiet (t\<lparr>th_at := l\<rparr>) = quiet t" "quiet (t\<lparr>th_heard := h\<rparr>) = quiet t"
  by (simp_all add: quiet_def)

lemma quiet_app:
  "quiet t \<Longrightarrow> parts_ok c \<Longrightarrow> (\<And>x. x \<in> th_live t \<Longrightarrow> shape (pipeline x c) = shape (pipeline x (ctrl t))) \<Longrightarrow> quiet (t\<lparr>th_app := (c, e)\<rparr>)"
  by (simp add: quiet_def)

lemma all_gone_shape: "all_gone c \<longleftrightarrow> (\<forall>x. shape (pipeline x c) = gone)"
  by (simp add: all_gone_def which.exhaust) (metis pipeline.simps which.exhaust)

lemma quiet_gone: "quiet t \<Longrightarrow> all_gone (ctrl t) \<Longrightarrow> th_live t = {}"
  by (auto simp: quiet_def all_gone_shape)

lemma parts_streams: "streams_part c' = streams_part c \<Longrightarrow> parts_ok c' = parts_ok c \<and> all_gone c' = all_gone c"
proof
  assume s: "streams_part c' = streams_part c"
  then have "pipeline x c' = pipeline x c" for x by (cases x) (simp_all add: streams_part_def)
  with s show "parts_ok c' = parts_ok c" by (simp add: parts_ok_def streams_part_def rings_ok_def)
  from s show "all_gone c' = all_gone c" by (simp add: all_gone_def streams_part_def)
qed

lemma parts_session [simp]:
  "parts_ok (c\<lparr>ct_session := s\<rparr>) = parts_ok c" "all_gone (c\<lparr>ct_session := s\<rparr>) = all_gone c"
  "opened_so_far x any (c\<lparr>ct_session := s\<rparr>) = opened_so_far x any c"
  by (simp_all add: parts_ok_def all_gone_def opened_so_far_def rings_ok_def)

lemma parts_timer [simp]:
  "parts_ok (c\<lparr>ct_statsTimer := b\<rparr>) = parts_ok c" "all_gone (c\<lparr>ct_statsTimer := b\<rparr>) = all_gone c"
  "pipeline x (c\<lparr>ct_statsTimer := b\<rparr>) = pipeline x c"
proof -
  show p: "pipeline x (c\<lparr>ct_statsTimer := b\<rparr>) = pipeline x c" for x by (cases x) simp_all
  show "parts_ok (c\<lparr>ct_statsTimer := b\<rparr>) = parts_ok c" "all_gone (c\<lparr>ct_statsTimer := b\<rparr>) = all_gone c"
    by (simp_all add: parts_ok_def all_gone_def rings_ok_def p)
qed

text \<open>Firing an event.\<close>

lemma fire_phase:
  assumes "phase st w r c" and "transition st ev = Some st'"
  shows "\<exists>s. fire ev c = (c\<lparr>ct_session := s\<rparr>, True) \<and> phase st' w r (c\<lparr>ct_session := s\<rparr>)"
proof -
  obtain c' good where f: "fire ev c = (c', good)" by fastforce
  from fire_state [OF f] assms obtain s where "good" "app_state c' = st'" "c' = c\<lparr>ct_session := s\<rparr>"
    by (auto simp: phase_def)
  with f assms(1) show ?thesis by (auto simp: phase_def)
qed

text \<open>The controller's invariant, from the phase.\<close>

lemma rest_ok:
  assumes "parts_ok c"
  shows "phase Recording True True c \<Longrightarrow> \<not> all_gone c \<Longrightarrow> controller_ok c"
    and "phase Paused True True c \<Longrightarrow> all_gone c \<Longrightarrow> controller_ok c"
    and "phase session_state.Failed True True c \<Longrightarrow> controller_ok c"
    and "phase Idle False False c \<Longrightarrow> all_gone c \<Longrightarrow> ct_sttClient c = None \<Longrightarrow> controller_ok c"
  using assms spec [of "\<lambda>x. shape (pipeline x c) \<in> {gone, running}" MicrophoneTrack]
    spec [of "\<lambda>x. shape (pipeline x c) \<in> {gone, running}" SystemOutputTrack]
  by (auto simp: parts_ok_def phase_def controller_ok_def all_gone_def)

lemma ok_rest:
  assumes "controller_ok c"
  shows "parts_ok c" and "app_state c = Idle \<Longrightarrow> phase Idle False False c \<and> all_gone c \<and> ct_sttClient c = None"
    and "app_state c \<noteq> Idle \<Longrightarrow> phase (app_state c) True True c" and "app_state c = Paused \<Longrightarrow> all_gone c"
proof -
  have "shape (pipeline x c) \<in> {gone, running}" for x using assms by (cases x) (simp_all add: controller_ok_def)
  moreover have "ct_sttActive c \<longleftrightarrow> ct_sttClient c \<noteq> None" "ct_sttActive c \<longleftrightarrow> ct_sttProducer c \<noteq> None" "rings_ok c"
    "ct_config c = default_config" using assms unfolding controller_ok_def by blast+
  ultimately show "parts_ok c" unfolding parts_ok_def by blast
qed (use assms in \<open>auto simp: phase_def controller_ok_def all_gone_def\<close>)

subsubsection \<open>The calls\<close>

lemma start_called_ok:
  assumes ok: "threads_ok t" and r: "th_at t = AtRest"
  shows "threads_ok (start_called W t)"
proof (cases "isIdle (ctrl t)")
  case False
  with ok show ?thesis by (simp add: start_called_def split_beta Let_def)
next
  case True
  obtain c e where ce: "(if ct_microphones (ctrl t) = [] \<and> ct_systemOutputs (ctrl t) = [] then refreshDevices W (th_app t) else th_app t) = (c, e)"
    by fastforce
  have q: "quiet t" using threads_quiet [OF ok] r by simp
  have "controller_ok (ctrl t)" using ok r by (simp add: threads_ok_def)
  note o = ok_rest(1,2) [OF this]
  have s: "streams_part c = streams_part (ctrl t)" "ct_writer c = ct_writer (ctrl t)" "ct_pendingOutputFile c = ct_pendingOutputFile (ctrl t)"
    using ce refreshDevices_frame [of W "ctrl t" "env t" c e] by (auto split: if_splits)
  have i: "phase Idle False False (ctrl t)" "all_gone (ctrl t)" "ct_sttClient (ctrl t) = None"
    using o(2) True by (simp_all add: isIdle_state)
  define c' where "c' = (if ct_selectedMicrophone c < 0 \<and> ct_selectedSystemOutput c < 0 then ui_fail NoDevices c else c\<lparr>ct_lastError := None\<rparr>)"
  have s': "streams_part c' = streams_part (ctrl t)" "ct_writer c' = ct_writer (ctrl t)" "ct_pendingOutputFile c' = ct_pendingOutputFile (ctrl t)"
    using s by (simp_all add: c'_def streams_part_def ui_fail_def)
  then have p: "parts_ok c'" "all_gone c'" "phase Idle False False c'" "ct_sttClient c' = None"
    using parts_streams [OF s'(1)] o(1) i by (simp_all add: phase_def streams_part_def app_state_def)
  have "quiet (t\<lparr>th_app := (c', e)\<rparr>)" using q p(1) quiet_gone [OF q i(2)] by (intro quiet_app) simp_all
  then have "threads_ok (t\<lparr>th_app := (c', e)\<rparr>)" "threads_ok (t\<lparr>th_app := (c', e), th_at := CreatingWriter\<rparr>)"
    using p r rest_ok(4) [OF p(1,3,2,4)] by (auto intro!: quiet_threads)
  moreover have "start_called W t = (if ct_selectedMicrophone c < 0 \<and> ct_selectedSystemOutput c < 0
      then t\<lparr>th_app := (c', e)\<rparr> else t\<lparr>th_app := (c', e), th_at := CreatingWriter\<rparr>)"
  proof -
    obtain c0 e0 where a: "th_app t = (c0, e0)" by fastforce
    have r: "(if ct_microphones c0 = [] \<and> ct_systemOutputs c0 = [] then refreshDevices W (c0, e0) else (c0, e0)) = (c, e)"
      using ce by (simp only: a fst_conv)
    have "isIdle c0" using True by (simp add: a)
    then show ?thesis unfolding start_called_def Let_def a prod.case r c'_def by simp
  qed
  ultimately show ?thesis by simp
qed

lemma fired_call:
  assumes q: "quiet t" and f: "fire ev (ctrl t) = (c, True)" and l: "plain l" and ph: "location_ok l c"
  shows "threads_ok (t\<lparr>th_app := (c, e), th_at := l\<rparr>)"
proof -
  from fire_state [OF f] obtain s where "c = (ctrl t)\<lparr>ct_session := s\<rparr>" by blast
  with q have "quiet (t\<lparr>th_app := (c, e)\<rparr>)" by (intro quiet_app) (simp_all add: quiet_def)
  with l ph show ?thesis by (intro quiet_threads) simp_all
qed

lemma calls_ok:
  assumes ok: "threads_ok t" and r: "th_at t = AtRest"
  shows "threads_ok (pause_called t)" and "threads_ok (resume_called t)" and "threads_ok (stop_called t)"
proof -
  have q: "quiet t" using threads_quiet [OF ok] r by simp
  have "controller_ok (ctrl t)" using ok r by (simp add: threads_ok_def)
  note o = ok_rest [OF this]
  show "threads_ok (pause_called t)"
  proof (cases "app_state (ctrl t) = Recording")
    case True
    with o(3) have "phase Recording True True (ctrl t)" by simp
    from fire_phase [OF this, of Pause] obtain s where f: "fire Pause (ctrl t) = ((ctrl t)\<lparr>ct_session := s\<rparr>, True)"
      "phase Paused True True ((ctrl t)\<lparr>ct_session := s\<rparr>)" by auto
    from fired_call [OF q f(1)] f show ?thesis by (simp add: pause_called_def)
  next
    case False
    then have "transition (app_state (ctrl t)) Pause = None" by (cases "app_state (ctrl t)") simp_all
    with ok show ?thesis by (simp add: pause_called_def fire_refused)
  qed
  show "threads_ok (stop_called t)"
  proof (cases "app_state (ctrl t) \<in> {Recording, Paused}")
    case True
    with o(3) have "phase (app_state (ctrl t)) True True (ctrl t)" by auto
    from fire_phase [OF this, of Stop Stopping] True obtain s where f: "fire Stop (ctrl t) = ((ctrl t)\<lparr>ct_session := s\<rparr>, True)"
      "phase Stopping True True ((ctrl t)\<lparr>ct_session := s\<rparr>)" by auto
    from fired_call [OF q f(1)] f show ?thesis by (simp add: stop_called_def)
  next
    case False
    then have "transition (app_state (ctrl t)) Stop = None" by (cases "app_state (ctrl t)") simp_all
    with ok show ?thesis by (simp add: stop_called_def fire_refused)
  qed
  show "threads_ok (resume_called t)"
  proof (cases "app_state (ctrl t) = Paused")
    case True
    with o(3,4) have "phase Paused True True (ctrl t)" "all_gone (ctrl t)" by simp_all
    with q True show ?thesis
      by (auto simp: resume_called_def app_state_def opened_so_far_def all_gone_def intro!: quiet_threads)
  next
    case False
    with ok show ?thesis by (simp add: resume_called_def app_state_def)
  qed
qed

subsubsection \<open>Opening and closing the tracks\<close>

text \<open>A state in which \<open>startStreams\<close> is under way, between two tracks.\<close>

lemma streams_failed_ok:
  assumes q: "quiet t" and ph: "start_phase k (ctrl t)"
  shows "threads_ok (streams_failed k t)"
proof (cases k)
  case AtStart
  with q ph show ?thesis by (auto intro!: quiet_threads)
next
  case AtResume
  with ph have "phase Paused True True (ctrl t)" by simp
  from fire_phase [OF this, of Fault] obtain s where f: "fire Fault (ctrl t) = ((ctrl t)\<lparr>ct_session := s\<rparr>, True)"
    "phase session_state.Failed True True ((ctrl t)\<lparr>ct_session := s\<rparr>)" by auto
  have "parts_ok (ctrl t)" using q by (simp add: quiet_def)
  with fired_call [OF q f(1), of AtRest "env t"] rest_ok(3) [OF _ f(2)] f(1) AtResume show ?thesis by simp
qed

lemma next_track_ok:
  assumes q: "quiet t" and ph: "start_phase k (ctrl t)"
    and g: "x = MicrophoneTrack \<Longrightarrow> opened_so_far SystemOutputTrack any (ctrl t)" "x = SystemOutputTrack \<Longrightarrow> any \<Longrightarrow> \<not> all_gone (ctrl t)"
  shows "threads_ok (next_track k x any t)"
proof (cases x)
  case MicrophoneTrack
  with q ph g(1) show ?thesis by (auto intro!: quiet_threads)
next
  case SystemOutputTrack
  have p: "parts_ok (ctrl t)" using q by (simp add: quiet_def)
  show ?thesis
  proof (cases any)
    case True
    with SystemOutputTrack g(2) have ng: "\<not> all_gone (ctrl t)" by simp
    show ?thesis
    proof (cases k)
      case AtStart
      let ?c = "(ctrl t)\<lparr>ct_statsTimer := True\<rparr>"
      have "phase Recording True True ?c" using ph AtStart by (simp add: phase_def app_state_def)
      from rest_ok(1) [OF _ this] p ng have "controller_ok ?c" by simp
      moreover have "quiet (t\<lparr>th_app := (?c, env t)\<rparr>)" using q p by (intro quiet_app) simp_all
      ultimately show ?thesis using True SystemOutputTrack AtStart by (auto intro!: quiet_threads)
    next
      case AtResume
      with ph have "phase Paused True True (ctrl t)" by simp
      from fire_phase [OF this, of Resume] obtain s where f: "fire Resume (ctrl t) = ((ctrl t)\<lparr>ct_session := s\<rparr>, True)"
        "phase Recording True True ((ctrl t)\<lparr>ct_session := s\<rparr>)" by auto
      with fired_call [OF q f(1), of AtRest "env t"] rest_ok(1) [OF _ f(2)] p ng AtResume SystemOutputTrack True show ?thesis by simp
    qed
  next
    case False
    with streams_failed_ok [OF q ph] SystemOutputTrack show ?thesis by simp
  qed
qed

lemma start_track_cases:
  assumes "start_track F W x mic (c, e) = ((c', e'), good)"
  obtains device kind where "startTrack F W x device kind (channels_of x) (track_of x c) (x = MicrophoneTrack \<or> \<not> mic) (c, e) = ((c', e'), good)"
  using assms that by (cases x) auto

lemma startTrack_result:
  assumes "startTrack F W x device kind ch wt feeds (c, e) = ((c', e'), good)"
  shows "if good then \<exists>h. c' = set_pipeline x \<lparr>tp_buffer = Some (new_ring empty_frame (unat (ringBufferCapacityFrames (ct_config c)))),
      tp_stream = Some h, tp_synchronizer = Some (new_track_sync F (app_sync_config ch)), tp_writerTrack = wt, tp_feedsSttStream = feeds\<rparr> c
    else \<exists>message. c' = ui_fail message c"
  using assms by (auto simp: startTrack_def Let_def split: prod.splits sum.splits)

lemma ui_fail_frame [simp]: "parts_ok (ui_fail m c) = parts_ok c" "start_phase k (ui_fail m c) = start_phase k c"
  "pipeline x (ui_fail m c) = pipeline x c"
proof -
  have s: "skeleton (ui_fail m c) = skeleton c" "rings_ok (ui_fail m c) = rings_ok c"
    by (simp_all add: skeleton_def ui_fail_def rings_ok_def)
  show "parts_ok (ui_fail m c) = parts_ok c" "start_phase k (ui_fail m c) = start_phase k c"
    by (rule parts_ok_cong [OF s], rule start_phase_cong [OF s(1)])
  show "pipeline x (ui_fail m c) = pipeline x c" by (cases x) (simp_all add: ui_fail_def)
qed

lemma open_track_ok:
  assumes ok: "threads_ok t" and l: "th_at t = OpeningTrack k x any"
  shows "threads_ok (open_track F W k x any t)"
proof (cases "track_selected x (ctrl t)")
  case False
  have q: "quiet t" using threads_quiet [OF ok] l by simp
  have o: "start_phase k (ctrl t)" "opened_so_far x any (ctrl t)" using ok l by (simp_all add: threads_ok_def)
  then have "threads_ok (next_track k x any t)"
    by (intro next_track_ok [OF q]) (auto simp: opened_so_far_def all_gone_def)
  with False show ?thesis by (simp add: open_track_def)
next
  case True
  have q: "quiet t" using threads_quiet [OF ok] l by simp
  then have p: "parts_ok (ctrl t)" "th_new t = None" by (simp_all add: quiet_def)
  have o: "start_phase k (ctrl t)" "opened_so_far x any (ctrl t)" using ok l by (simp_all add: threads_ok_def)
  obtain c e good where s: "start_track F W x any (th_app t) = ((c, e), good)" by (metis prod.collapse)
  then have "start_track F W x any (ctrl t, env t) = ((c, e), good)" by simp
  then obtain device kind where "startTrack F W x device kind (channels_of x) (track_of x (ctrl t)) (x = MicrophoneTrack \<or> \<not> any) (ctrl t, env t) = ((c, e), good)"
    by (rule start_track_cases)
  note r = startTrack_result [OF this]
  show ?thesis
  proof (cases good)
    case True
    with r have "shape (pipeline x c) = running" "\<forall>b. tp_buffer (pipeline x c) = Some b \<longrightarrow> ring_inv b"
      by (auto simp: shape_def running_def new_ring_inv)
    with ok q p o l True \<open>track_selected x (ctrl t)\<close> s show ?thesis
      by (auto simp: open_track_def threads_ok_def new_ok_def live_ok_def lock_ok_def end_ok_def sink_pipeline_def quiet_def)
  next
    case False
    with r obtain message where "c = ui_fail message (ctrl t)" by auto
    with q p o have "quiet (t\<lparr>th_app := (c, e)\<rparr>)" "start_phase k c" by (auto intro!: quiet_app)
    then have "threads_ok (streams_failed k (t\<lparr>th_app := (c, e)\<rparr>))" by (intro streams_failed_ok) simp_all
    with s False \<open>track_selected x (ctrl t)\<close> show ?thesis by (simp add: open_track_def)
  qed
qed

lemma parts_set_pipeline:
  assumes "parts_ok c" and "shape p \<in> {gone, running}" and "\<forall>b. tp_buffer p = Some b \<longrightarrow> ring_inv b"
  shows "parts_ok (set_pipeline x p c)"
proof -
  have "rings_ok (set_pipeline x p c)" using assms(1,3) by (cases x) (simp_all add: parts_ok_def rings_ok_def)
  moreover have "ct_sttActive (set_pipeline x p c) = ct_sttActive c" "ct_config (set_pipeline x p c) = ct_config c"
    by (cases x; simp)+
  ultimately show ?thesis using assms by (auto simp: parts_ok_def simp del: not_None_eq)
qed

lemma phase_set_pipeline: "phase st w r (set_pipeline x p c) = phase st w r c"
  by (cases x) (simp_all add: phase_def app_state_def)

lemma publish_track_ok:
  assumes ok: "threads_ok t" and l: "th_at t = PublishingTrack k x any" and pt: "publish_track k x t = Some t'"
  shows "threads_ok t'"
proof -
  obtain p where p: "th_new t = Some (x, p)" "shape p = running" "\<forall>b. tp_buffer p = Some b \<longrightarrow> ring_inv b"
    using ok l by (auto simp: threads_ok_def new_ok_def split: option.splits)
  let ?t = "t\<lparr>th_app := (set_pipeline x p (ctrl t), env t), th_new := None\<rparr>"
  have t': "t' = next_track k x True ?t" using pt p(1) by (simp add: publish_track_def)
  have o: "start_phase k (ctrl t)" "opened_so_far x any (ctrl t)" "parts_ok (ctrl t)" using ok l by (simp_all add: threads_ok_def)
  have live: "\<forall>y \<in> th_live t. shape (pipeline y (set_pipeline x p (ctrl t))) = running"
    using ok p by (auto simp: threads_ok_def live_ok_def sink_pipeline_def)
  have lk: "lock_ok t" "end_ok t" using ok by (simp_all add: threads_ok_def)
  have "quiet ?t" unfolding quiet_def
    using parts_set_pipeline [OF o(3)] p(2,3) live lk l by (auto simp: lock_ok_def end_ok_def)
  moreover have "start_phase k (set_pipeline x p (ctrl t))" using o(1) by (cases k) (simp_all add: phase_set_pipeline)
  moreover have "opened_so_far SystemOutputTrack True (set_pipeline x p (ctrl t))" if "x = MicrophoneTrack"
    using that o(2) p(2) by (simp add: opened_so_far_def)
  moreover have "\<not> all_gone (set_pipeline x p (ctrl t))" if "x = SystemOutputTrack"
    using that p(2) by (simp add: all_gone_def)
  ultimately show ?thesis unfolding t' by (intro next_track_ok) simp_all
qed

lemma close_stream_ok:
  assumes ok: "threads_ok t" and l: "th_at t = StoppingStream k x"
  shows "threads_ok (close_stream W k x t)"
proof -
  obtain c e where s: "stop_stream W x (th_app t) = (c, e)" by fastforce
  then have "stop_stream W x (ctrl t, env t) = (c, e)" by simp
  note f = stop_stream_frame [OF this ok_parts [OF ok]]
  define h where "h = (th_heard t)(x := (fst (th_heard t x), snd (th_heard t x)
       @ ring_takes (tp_buffer (pipeline x (ctrl t))) (stream_frames W x (th_app t))))"
  have "threads_ok (t\<lparr>th_app := (c, e), th_heard := h\<rparr>)"
    by (rule threads_ok_skeleton [OF ok]) (use f l in simp_all)
  moreover have "y = SystemOutputTrack" if "x = SystemOutputTrack" "y \<in> th_live t" for y
    using ok l that by (cases y) (auto simp: threads_ok_def live_ok_def)
  moreover have "th_new t = None" using ok l by (auto simp: threads_ok_def new_ok_def split: option.splits)
  ultimately have "threads_ok (t\<lparr>th_app := (c, e), th_live := th_live t - {x}, th_heard := h,
      th_at := (case x of MicrophoneTrack \<Rightarrow> StoppingStream k SystemOutputTrack | SystemOutputTrack \<Rightarrow> Locking k)\<rparr>)"
    using l by (cases x) (auto simp: threads_ok_def new_ok_def live_ok_def lock_ok_def end_ok_def sink_pipeline_def)
  then show ?thesis by (simp add: close_stream_def s h_def)
qed

lemma drain_one_kept:
  assumes "drain_one F W x (c, e) = Some ((c', e'), again)" and "y \<noteq> x"
  shows "pipeline y c' = pipeline y c"
  using assms(1)
proof (cases rule: drain_one_cases)
  case (frame b s f b')
  from drain_frame_kept [OF frame(4), of y] assms(2) show ?thesis by simp
qed simp

lemma drain_one_empty:
  assumes d: "drain_one F W x (c, e) = Some ((c', e'), False)" and ok: "parts_ok c"
  shows "c' = c" and "e' = e" and "ring_empty x c"
proof -
  show e: "c' = c" "e' = e" using d by (auto simp: drain_one_def bind_eq_Some_conv split: option.splits prod.splits)
  have "contents b = []" if b: "tp_buffer (pipeline x c) = Some b" for b
  proof -
    have "shape (pipeline x c) \<in> {gone, running}" "ring_inv b" using ok rings_okD [OF _ b] by (simp_all add: parts_ok_def)
    with b obtain s where s: "tp_synchronizer (pipeline x c) = Some s" by (auto simp: shape_def gone_def running_def)
    obtain b' r where p: "tryPop (w_moved_from W) b = (b', r)" by fastforce
    with d b s have "r = None" by (auto simp: drain_one_def bind_eq_Some_conv split: option.splits)
    with ring.pop_step [OF \<open>ring_inv b\<close>, of "w_moved_from W"] p show ?thesis by (auto simp: bq_pop_def split: list.splits)
  qed
  then show "ring_empty x c" by (simp add: ring_empty_def)
qed

lemma drain_before_drop_ok:
  assumes ok: "threads_ok t" and l: "th_at t = Draining k x" and d: "drain_before_drop F W k x t = Some t'"
  shows "threads_ok t'"
proof -
  from d obtain c e again where 1: "drain_one F W x (ctrl t, env t) = Some ((c, e), again)"
    and t': "t' = t\<lparr>th_app := (c, e), th_at := (if again then Draining k x
       else case x of MicrophoneTrack \<Rightarrow> Draining k SystemOutputTrack | SystemOutputTrack \<Rightarrow> Dropping k)\<rparr>"
    by (auto simp: drain_before_drop_def bind_eq_Some_conv)
  note f = drain_one_frame [OF 1 ok_parts [OF ok]]
  have p: "parts_ok (ctrl t)" using ok by (simp add: threads_ok_def)
  have kept: "ring_empty y c" if "y \<in> emptied_tracks (th_at t)" for y
  proof -
    have "y \<noteq> x" using that l by (cases x) auto
    with ok that show ?thesis by (simp add: threads_ok_def ring_empty_def drain_one_kept [OF 1])
  qed
  from threads_ok_skeleton [OF ok conjunct1 [OF f] conjunct2 [OF f] kept, where h = "th_heard t" and e = e]
  have o: "threads_ok (t\<lparr>th_app := (c, e)\<rparr>)" by simp
  show ?thesis
  proof (cases again)
    case True
    with l have "t' = t\<lparr>th_app := (c, e)\<rparr>" by (cases t) (simp add: t')
    with o show ?thesis by simp
  next
    case False
    with 1 have "drain_one F W x (ctrl t, env t) = Some ((c, e), False)" by simp
    from drain_one_empty [OF this p] have c: "c = ctrl t" "e = env t" "ring_empty x (ctrl t)" by simp_all
    with kept l have "ring_empty y (ctrl t)" if "x = SystemOutputTrack" for y using that by (cases y) auto
    with ok l False c show ?thesis
      by (cases x) (auto simp: t' threads_ok_def live_ok_def lock_ok_def end_ok_def new_ok_def split: option.splits)
  qed
qed

lemma parts_dropped:
  assumes "parts_ok c"
  shows "parts_ok (c\<lparr>ct_microphonePipeline := no_pipeline, ct_systemOutputPipeline := no_pipeline\<rparr>)" (is "parts_ok ?c")
proof -
  have "shape (pipeline x ?c) = gone" for x by (cases x) simp_all
  moreover have "rings_ok ?c" by (simp add: rings_ok_def no_pipeline_def)
  moreover have "ct_sttActive ?c = ct_sttActive c" "ct_sttClient ?c = ct_sttClient c" "ct_sttProducer ?c = ct_sttProducer c"
    "ct_config ?c = ct_config c" by simp_all
  ultimately show ?thesis using assms by (auto simp: parts_ok_def simp del: not_None_eq)
qed

lemma drop_pipelines_ok:
  assumes ok: "threads_ok t" and l: "th_at t = Dropping k"
  shows "threads_ok (drop_pipelines k t)"
proof -
  let ?c = "(ctrl t)\<lparr>ct_microphonePipeline := no_pipeline, ct_systemOutputPipeline := no_pipeline\<rparr>"
  have p: "parts_ok ?c" by (rule parts_dropped) (use ok in \<open>simp add: threads_ok_def\<close>)
  have g: "all_gone ?c" by (simp add: all_gone_def)
  have "stop_phase k ?c" using ok l by (cases k) (simp_all add: threads_ok_def phase_def app_state_def)
  with rest_ok(2) [OF p _ g] p g have lo: "location_ok (closed k) ?c" by (cases k) simp_all
  have "th_new t = None" "th_live t = {}" "th_drain t = None" "\<not> th_drainStop t" "\<not> th_drainEnded t"
    using ok l by (auto simp: threads_ok_def new_ok_def live_ok_def lock_ok_def end_ok_def split: option.splits)
  with p have "quiet (drop_pipelines k t)" by (simp add: quiet_def drop_pipelines_def)
  from quiet_threads [OF this] lo show ?thesis by (cases k) (simp_all add: drop_pipelines_def)
qed

subsubsection \<open>The writer and the transcription\<close>

lemma gone_step:
  assumes ok: "threads_ok t" and pl: "plain (th_at t)" and g: "all_gone (ctrl t)"
    and c: "parts_ok c" "plain l" "location_ok l c"
  shows "threads_ok (t\<lparr>th_app := (c, e), th_heard := h, th_at := l\<rparr>)"
proof -
  have q: "quiet t" by (rule threads_quiet [OF ok pl])
  then have "quiet (t\<lparr>th_app := (c, e)\<rparr>)" using c(1) quiet_gone [OF q g] by (intro quiet_app) simp_all
  with c show ?thesis by (intro quiet_threads) simp_all
qed

lemma gone_step':
  assumes "threads_ok t" and "plain (th_at t)" and "all_gone (ctrl t)" and "parts_ok c" and "plain l" and "location_ok l c"
  shows "threads_ok (t\<lparr>th_app := (c, e), th_at := l\<rparr>)"
  using gone_step [OF assms, where h = "th_heard t" and e = e] by simp

lemma create_writer_ok:
  assumes ok: "threads_ok t" and l: "th_at t = CreatingWriter" and s: "create_writer W t = Some t'"
  shows "threads_ok t'"
proof -
  from s obtain c e made where 1: "createWriter W (ctrl t, env t) = Some ((c, e), made)"
    by (auto simp: create_writer_def bind_eq_Some_conv)
  note f = createWriter_frame [OF 1]
  have i: "phase Idle False False (ctrl t)" "all_gone (ctrl t)" "ct_sttClient (ctrl t) = None" "parts_ok (ctrl t)"
    using ok l by (simp_all add: threads_ok_def)
  then have p: "parts_ok c" "all_gone c" "ct_sttClient c = None" "app_state c = Idle" "\<not> ct_statsTimer c"
    using f parts_streams [of c "ctrl t"] by (auto simp: streams_part_def phase_def app_state_def)
  have pl: "plain (th_at t)" using l by simp
  show ?thesis
  proof (cases made)
    case False
    with f i(1) p have "phase Idle False False c" by (simp add: phase_def)
    from gone_step' [OF ok pl i(2) p(1), of AtRest e] rest_ok(4) [OF p(1) this p(2,3)] s 1 False show ?thesis
      by (simp add: create_writer_def)
  next
    case True
    with f p have "phase Idle True False c" by (simp add: phase_def)
    from fire_phase [OF this, of session_event.Start] obtain st where
      st: "fire session_event.Start c = (c\<lparr>ct_session := st\<rparr>, True)" "phase Recording True False (c\<lparr>ct_session := st\<rparr>)" by auto
    with gone_step [OF ok pl i(2), where c = "c\<lparr>ct_session := st\<rparr>" and l = ConnectingStt and e = e and h = "\<lambda>_. ([], [])"] p s 1 True show ?thesis
      by (auto simp: create_writer_def)
  qed
qed

lemma connect_stt_ok:
  assumes ok: "threads_ok t" and l: "th_at t = ConnectingStt"
  shows "threads_ok (connect_stt F W t)"
proof -
  obtain c e where 1: "startSttStreaming F W (th_app t) = (c, e)" by fastforce
  have i: "phase Recording True False (ctrl t)" "all_gone (ctrl t)" "parts_ok (ctrl t)" using ok l by (simp_all add: threads_ok_def)
  have a: "ct_sttActive (ctrl t) \<longleftrightarrow> ct_sttClient (ctrl t) \<noteq> None" "ct_sttActive (ctrl t) \<longleftrightarrow> ct_sttProducer (ctrl t) \<noteq> None"
    using i(3) unfolding parts_ok_def by blast+
  have "startSttStreaming F W (ctrl t, env t) = (c, e)" using 1 by simp
  note f = startSttStreaming_frame [OF this a]
  have pp: "pipeline x c = pipeline x (ctrl t)" for x using f by (cases x) simp_all
  have r: "rings_ok c" using i(3) f by (simp add: rings_ok_def parts_ok_def)
  have p: "parts_ok c" unfolding parts_ok_def pp using f i(3) r by (auto simp: parts_ok_def simp del: not_None_eq)
  have "all_gone c" using i(2) by (simp add: all_gone_shape pp)
  moreover have "phase Recording True False c" using i(1) f by (simp add: phase_def app_state_def)
  ultimately have "threads_ok (t\<lparr>th_app := (c, e), th_at := OpeningTrack AtStart MicrophoneTrack False\<rparr>)"
    using l by (intro gone_step' [OF ok _ i(2) p]) (simp_all add: opened_so_far_def all_gone_def)
  then show ?thesis by (simp add: connect_stt_def 1)
qed

lemma finish_recording_ok:
  assumes ok: "threads_ok t" and l: "th_at t = Finishing" and s: "finish_recording W t = Some t'"
  shows "threads_ok t'"
proof -
  from s obtain c e saved err where 1: "finish_writer W ((ctrl t)\<lparr>ct_statsTimer := False\<rparr>, env t) = Some ((c, e), saved, err)"
    and t': "t' = t\<lparr>th_app := (c\<lparr>ct_pendingOutputFile := []\<rparr>, e), th_at := LeavingStt saved err\<rparr>"
    by (auto simp: finish_recording_def bind_eq_Some_conv)
  note f = finish_writer_frame [OF 1]
  let ?c = "c\<lparr>ct_pendingOutputFile := []\<rparr>"
  have i: "phase Stopping True True (ctrl t)" "all_gone (ctrl t)" "parts_ok (ctrl t)" using ok l by (simp_all add: threads_ok_def)
  have "streams_part ?c = streams_part ((ctrl t)\<lparr>ct_statsTimer := False\<rparr>)" using f by (simp add: streams_part_def)
  with parts_streams [OF this] i f have "parts_ok ?c" "all_gone ?c" "phase Stopping False False ?c"
    by (simp_all add: phase_def app_state_def streams_part_def)
  with gone_step' [OF ok _ i(2), of ?c "LeavingStt saved err" e] l show ?thesis by (simp add: t')
qed

lemma parts_left:
  assumes "parts_ok c"
  shows "parts_ok (stopSttStreaming c)" and "all_gone (stopSttStreaming c) = all_gone c" and "ct_sttClient (stopSttStreaming c) = None"
    and "phase st w r (stopSttStreaming c) = phase st w r c"
proof -
  have p: "pipeline x (stopSttStreaming c) = pipeline x c" for x by (cases x) simp_all
  have "rings_ok (stopSttStreaming c)" using assms by (simp add: parts_ok_def rings_ok_def)
  with assms show "parts_ok (stopSttStreaming c)" by (simp add: parts_ok_def p)
qed (simp_all add: all_gone_def phase_def app_state_def)

lemma fired_idle:
  assumes "phase st False False c" and "transition st ev = Some st'" and "transition st' Reset = Some Idle"
  obtains s where "fst (fire Reset (fst (fire ev c))) = c\<lparr>ct_session := s\<rparr>" "phase Idle False False (c\<lparr>ct_session := s\<rparr>)"
proof -
  from fire_phase [OF assms(1,2)] obtain s where 1: "fire ev c = (c\<lparr>ct_session := s\<rparr>, True)" "phase st' False False (c\<lparr>ct_session := s\<rparr>)" by blast
  from fire_phase [OF 1(2) assms(3)] 1(1) that show thesis by auto
qed

lemma report_stop_ok:
  assumes ok: "threads_ok t" and l: "th_at t = LeavingStt saved err"
  shows "threads_ok (report_stop saved err t)"
proof -
  have i: "phase Stopping False False (ctrl t)" "all_gone (ctrl t)" "parts_ok (ctrl t)" using ok l by (simp_all add: threads_ok_def)
  define c where "c = (let c = stopSttStreaming (ctrl t) in if saved \<noteq> [] then c\<lparr>ct_lastRecordingFile := saved\<rparr>
         else case err of None \<Rightarrow> c | Some message \<Rightarrow> ui_fail message c)"
  have "streams_part c = streams_part (stopSttStreaming (ctrl t))" "ct_writer c = ct_writer (stopSttStreaming (ctrl t))"
    "ct_pendingOutputFile c = ct_pendingOutputFile (stopSttStreaming (ctrl t))"
    by (simp_all add: c_def Let_def streams_part_def ui_fail_def split: option.split)
  with parts_streams [OF this(1)] parts_left [OF i(3)] i have p: "parts_ok c" "all_gone c" "ct_sttClient c = None" "phase Stopping False False c"
    by (simp_all add: phase_def streams_part_def app_state_def)
  from p(4) obtain s where s: "fst (fire Reset (fst (fire StopComplete c))) = c\<lparr>ct_session := s\<rparr>" "phase Idle False False (c\<lparr>ct_session := s\<rparr>)"
    by (rule fired_idle [where ev = StopComplete and st' = Stopped]) simp_all
  have "report_stop saved err t = t\<lparr>th_app := (c\<lparr>ct_session := s\<rparr>, env t), th_at := AtRest\<rparr>"
    unfolding report_stop_def c_def [unfolded Let_def, symmetric] Let_def s(1) ..
  with gone_step' [OF ok _ i(2), of "c\<lparr>ct_session := s\<rparr>" AtRest "env t"] rest_ok(4) [OF _ s(2)] p l show ?thesis by simp
qed

lemma discard_writer_ok:
  assumes ok: "threads_ok t" and l: "th_at t = Discarding failed"
  shows "threads_ok (discard_writer W failed t)"
proof -
  obtain c e where 1: "discardWriter W (th_app t) = (c, e)" by fastforce
  then have "discardWriter W (ctrl t, env t) = (c, e)" by simp
  note f = discardWriter_frame [OF this]
  have i: "failed" "phase Recording True False (ctrl t)" "all_gone (ctrl t)" "parts_ok (ctrl t)" using ok l by (simp_all add: threads_ok_def)
  with f parts_streams [of c "ctrl t"] have "parts_ok c" "all_gone c" "phase Recording False False c"
    by (auto simp: phase_def streams_part_def app_state_def)
  with gone_step' [OF ok _ i(3), of c FaultingStart e] l i(1) show ?thesis by (simp add: discard_writer_def 1)
qed

lemma fault_start_ok:
  assumes ok: "threads_ok t" and l: "th_at t = FaultingStart"
  shows "threads_ok (fault_start t)"
proof -
  have i: "phase Recording False False (ctrl t)" "all_gone (ctrl t)" "parts_ok (ctrl t)" using ok l by (simp_all add: threads_ok_def)
  let ?c = "stopSttStreaming (ctrl t)"
  note p = parts_left [OF i(3)]
  have "phase Recording False False ?c" using p(4) i(1) by simp
  then obtain s where s: "fst (fire Reset (fst (fire Fault ?c))) = ?c\<lparr>ct_session := s\<rparr>" "phase Idle False False (?c\<lparr>ct_session := s\<rparr>)"
    by (rule fired_idle [where ev = Fault and st' = session_state.Failed]) simp_all
  with gone_step' [OF ok _ i(2), of "?c\<lparr>ct_session := s\<rparr>" AtRest "env t"] rest_ok(4) [OF _ s(2)] p i(2) l show ?thesis
    by (simp add: fault_start_def)
qed

subsubsection \<open>The destructor\<close>

lemma destructor_called_ok:
  assumes ok: "threads_ok t" and r: "th_at t = AtRest"
  shows "threads_ok (destructor_called t)"
  using threads_quiet [OF ok] r by (auto simp: destructor_called_def intro!: quiet_threads)

lemma leave_at_quit_ok:
  assumes ok: "threads_ok t" and l: "th_at t = LeavingAtQuit"
  shows "threads_ok (leave_at_quit t)"
proof -
  have i: "all_gone (ctrl t)" "parts_ok (ctrl t)" using ok l by (simp_all add: threads_ok_def)
  have q: "quiet t" using threads_quiet [OF ok] l by simp
  from parts_left [OF i(2)] i quiet_gone [OF q i(1)] q show ?thesis
    by (simp add: leave_at_quit_def threads_ok_def new_ok_def live_ok_def lock_ok_def end_ok_def quiet_def)
qed

lemma destroy_members_ok:
  assumes ok: "threads_ok t" and l: "th_at t = Joining" and e: "th_drainEnded t"
  shows "threads_ok (destroy_members W t)"
proof -
  let ?c = "(ctrl t)\<lparr>ct_writer := None\<rparr>"
  have i: "all_gone (ctrl t)" "parts_ok (ctrl t)" "ct_sttClient (ctrl t) = None" using ok l by (simp_all add: threads_ok_def)
  have "streams_part ?c = streams_part (ctrl t)" by (simp add: streams_part_def)
  from parts_streams [OF this] i have c: "all_gone ?c" "parts_ok ?c" by simp_all
  have n: "th_new t = None" using ok l by (auto simp: threads_ok_def new_ok_def split: option.splits)
  with ok i(1) have "th_live t = {}" by (auto simp: threads_ok_def live_ok_def sink_pipeline_def all_gone_shape)
  with ok l e c i(3) n show ?thesis
    by (simp add: destroy_members_def threads_ok_def new_ok_def live_ok_def lock_ok_def end_ok_def)
qed

subsection \<open>Every step\<close>

lemma user_turn_ok:
  assumes "user_turn F W (th_at t) t = Some t'" and ok: "threads_ok t"
  shows "threads_ok t'"
proof (cases "th_at t")
  case (Locking k)
  with assms have "th_lock t = None" "t' = t\<lparr>th_lock := Some UserThread, th_at := Draining k MicrophoneTrack\<rparr>"
    by (simp_all add: unlocked_Some)
  with ok Locking show ?thesis
    by (auto simp: threads_ok_def live_ok_def lock_ok_def end_ok_def new_ok_def split: option.splits)
qed (use assms in \<open>auto simp: unlocked_Some intro: create_writer_ok connect_stt_ok open_track_ok publish_track_ok close_stream_ok
  drain_before_drop_ok drop_pipelines_ok finish_recording_ok report_stop_ok discard_writer_ok fault_start_ok
  leave_at_quit_ok destroy_members_ok split: if_splits\<close>)

lemma user_call_frame:
  assumes "user_call ev" and "app_step F W ev (c, e) = Some (c', e')"
  shows "skeleton c' = skeleton c \<and> rings_ok c' = rings_ok c"
proof (cases "ev = Refresh")
  case True
  with assms(2) refreshDevices_skeleton [of W c e] show ?thesis by (metis app_step.simps(1) fst_conv option.inject)
next
  case False
  with assms show ?thesis by (cases ev) (auto simp: setters_frame applyTranscript_frame)
qed

lemma threads_step_ok:
  assumes s: "threads_step F W m t = Some t'" and ok: "threads_ok t"
  shows "threads_ok t'"
proof (cases m)
  case (OtherCall ev)
  with s obtain c e where r: "th_at t = AtRest" "user_call ev" "app_step F W ev (ctrl t, env t) = Some (c, e)" "t' = t\<lparr>th_app := (c, e)\<rparr>"
    by (auto simp: calling_def split: if_splits)
  note f = user_call_frame [OF r(2,3)]
  from threads_ok_skeleton [OF ok conjunct1 [OF f], where h = "th_heard t" and e = e] f ok_parts [OF ok] r(1,4)
  show ?thesis by simp
next
  case (FrameDelivered x f)
  with s ok show ?thesis by (auto intro: capture_turn_ok split: if_splits)
qed (use s ok in \<open>auto simp: calling_def intro: user_turn_ok drain_turn_ok network_ok start_called_ok calls_ok destructor_called_ok split: if_splits\<close>)

lemma threads_run_ok: "threads_run F W ms t = Some t' \<Longrightarrow> threads_ok t \<Longrightarrow> threads_ok t'"
  by (rule threads.run_invariant) (auto intro: threads_step_ok)

lemma resting_ok:
  assumes "controller_ok c" and "app_state c = Idle"
  shows "threads_ok (resting (c, e))"
  using assms ok_rest(1) [OF assms(1)]
  by (simp add: resting_def threads_ok_def new_ok_def live_ok_def lock_ok_def end_ok_def)

section \<open>The audio followed through the threads\<close>

text \<open>The frames in the rings that the drains know of; a ring that is not published has none of them.\<close>

definition published :: "('d, 'e) threads \<Rightarrow> which \<Rightarrow> audio_frame list" where
  "published t x = (if \<exists>p. th_new t = Some (x, p) then [] else snd (th_heard t x))"

definition new_follows :: "'d float_ops \<Rightarrow> ('d, 'e) threads \<Rightarrow> bool" where
  "new_follows F t \<longleftrightarrow> (\<forall>x p. th_new t = Some (x, p) \<longrightarrow> tp_synchronizer p = Some (new_sync F x)
     \<and> tp_writerTrack p = track_of x (ctrl t)
     \<and> (\<exists>b. tp_buffer p = Some b \<and> ring_inv b \<and> contents b = snd (th_heard t x)))"

definition threads_follow :: "'d float_ops \<Rightarrow> 'e world \<Rightarrow> ('e \<Rightarrow> media_view) \<Rightarrow> (nat \<Rightarrow> u8 list \<Rightarrow> sample_frame list)
    \<Rightarrow> ('d, 'e) threads \<Rightarrow> bool" where
  "threads_follow F W v decode t \<longleftrightarrow> new_follows F t
     \<and> (\<exists>g. follows F W v decode g (published t) (ctrl t) (env t) \<and> (\<forall>x. fst (g x) = fst (th_heard t x)))"

definition audio_inv :: "'d float_ops \<Rightarrow> 'e world \<Rightarrow> ('e \<Rightarrow> media_view) \<Rightarrow> (nat \<Rightarrow> u8 list \<Rightarrow> sample_frame list)
    \<Rightarrow> ('d, 'e) threads \<Rightarrow> bool" where
  "audio_inv F W v decode t \<longleftrightarrow> (ct_writer (ctrl t) \<noteq> None \<and> fits_heard (th_heard t) \<longrightarrow> threads_follow F W v decode t)"

lemma audio_kept:
  assumes "audio_inv F W v decode t" and a: "audio_part (ctrl t') = audio_part (ctrl t)" and e: "v (env t') = v (env t)"
    and h: "th_heard t' = th_heard t" "th_new t' = th_new t"
  shows "audio_inv F W v decode t'"
proof -
  have "published t' = published t" unfolding published_def [abs_def] h ..
  moreover have "new_follows F t' = new_follows F t" by (simp only: new_follows_def h audio_part_track [OF a])
  moreover have "ct_writer (ctrl t') = ct_writer (ctrl t)" using a by (simp add: audio_part_def)
  ultimately show ?thesis using assms(1)
    by (simp only: audio_inv_def threads_follow_def follows_cong [where v = v, OF a e] h)
qed

lemma fits_published: "fits_heard (th_heard t) \<Longrightarrow> fst (g x) = fst (th_heard t x) \<Longrightarrow> fits (concat (fst (g x)) @ published t x)"
  using fits_prefix [of "concat (fst (th_heard t x))" "snd (th_heard t x)"]
  by (simp add: fits_heard_def published_def)

lemma fits_more:
  assumes "fits_heard (h(x := (fst (h x), snd (h x) @ fs)))"
  shows "fits_heard h"
  unfolding fits_heard_def
proof
  fix y
  have "fits (concat (fst (h y)) @ snd (h y) @ (if y = x then fs else []))"
    using spec [OF assms [unfolded fits_heard_def], of y] by (simp split: if_splits)
  then show "fits (concat (fst (h y)) @ snd (h y))" using fits_prefix [of "concat (fst (h y)) @ snd (h y)"] by simp
qed

subsection \<open>The steps\<close>

lemma drain_one_audio:
  assumes laws: "recorder_laws (w_media W) v decode backlog" and inv: "audio_inv F W v decode t" and ok: "threads_ok t"
    and d: "drain_one F W x (ctrl t, env t) = Some ((c, e), again)"
    and t': "th_app t' = (c, e)" "th_heard t' = th_heard t" "th_new t' = th_new t"
  shows "audio_inv F W v decode t'"
  unfolding audio_inv_def
proof
  assume w: "ct_writer (ctrl t') \<noteq> None \<and> fits_heard (th_heard t')"
  from skeleton_writer [OF conjunct1 [OF drain_one_frame [OF d ok_parts [OF ok]]]] have "(ct_writer c = None) = (ct_writer (ctrl t) = None)" .
  with w t' inv obtain g where n: "new_follows F t" and g: "follows F W v decode g (published t) (ctrl t) (env t)" "\<And>x. fst (g x) = fst (th_heard t x)"
    by (auto simp: audio_inv_def threads_follow_def)
  have "fits (concat (fst (g y)) @ published t y)" for y
    using fits_published [of t g y] g(2) w t'(2) by simp
  from drain_one_follows [OF g(1) laws this d] obtain g' where g': "follows F W v decode g' (published t) c e" "\<forall>y. fst (g' y) = fst (g y)" by blast
  have "track_of y c = track_of y (ctrl t)" for y
    using d
  proof (cases rule: drain_one_cases)
    case (frame b s f b')
    from drain_frame_kept [OF frame(4), of y] show ?thesis by simp
  qed simp
  with n t' have "new_follows F t'" by (simp add: new_follows_def)
  moreover have "published t' = published t" unfolding published_def [abs_def] t' ..
  ultimately show "threads_follow F W v decode t'" using g' g(2) t' by (auto simp: threads_follow_def)
qed

lemma drain_turn_audio:
  assumes laws: "recorder_laws (w_media W) v decode backlog" and inv: "audio_inv F W v decode t" and ok: "threads_ok t"
    and d: "drain_turn F W t = Some t'"
  shows "audio_inv F W v decode t'"
  using d
proof (cases rule: drain_turn_cases)
  case lock
  then show ?thesis by (intro audio_kept [OF inv]) simp_all
next
  case ends
  then show ?thesis by (intro audio_kept [OF inv]) simp_all
next
  case (turn x ce again)
  obtain c e where ce: "ce = (c, e)" by (cases ce)
  from turn(2) ce have "drain_one F W x (ctrl t, env t) = Some ((c, e), again)" by simp
  from drain_one_audio [OF laws inv ok this] show ?thesis by (simp add: turn(3) ce split: which.split)
qed

lemma capture_turn_audio:
  assumes inv: "audio_inv F W v decode t" and ok: "threads_ok t" and d: "capture_turn x f t = Some t'"
  shows "audio_inv F W v decode t'"
  unfolding audio_inv_def
proof
  assume w: "ct_writer (ctrl t') \<noteq> None \<and> fits_heard (th_heard t')"
  show "threads_follow F W v decode t'"
    using d
  proof (cases rule: capture_turn_cases)
    case (new p b)
    have "fits_heard (th_heard t)" using w fits_more [of "th_heard t" x "ring_takes (Some b) [f]"] by (simp add: new(3))
    with w inv new(3) obtain g where n: "new_follows F t" and
      g: "follows F W v decode g (published t) (ctrl t) (env t)" "\<And>x. fst (g x) = fst (th_heard t x)"
      by (auto simp: audio_inv_def threads_follow_def)
    from n new(1,2) have b: "ring_inv b" "contents b = snd (th_heard t x)" "tp_synchronizer p = Some (new_sync F x)"
      "tp_writerTrack p = track_of x (ctrl t)" by (auto simp: new_follows_def)
    have "(contents (fst (tryPush b f)), snd (tryPush b f)) = bq_push (capacity b) (contents b) f"
      by (rule ring.push_step [OF b(1)])
    then have "contents (fst (tryPush b f)) = contents b @ ring_takes (Some b) [f]" by (auto simp: bq_push_def split: if_splits)
    with b ring.push_invar [OF b(1), of f] have "new_follows F t'" by (simp add: new(3) new_follows_def)
    moreover have "published t' = published t" using new(1) by (auto simp: published_def [abs_def] new(3))
    ultimately show ?thesis using g by (auto simp: threads_follow_def new(3))
  next
    case (published b)
    have "fits_heard (th_heard t)" using w fits_more [of "th_heard t" x "ring_takes (Some b) [f]"] by (simp add: published(3))
    moreover have "ct_writer (ctrl t) \<noteq> None"
      using w skeleton_writer [OF conjunct2 [OF onFrame_frame [OF ok_parts [OF ok], of x f]]] by (simp add: published(3) del: not_None_eq)
    ultimately obtain g where n: "new_follows F t" and
      g: "follows F W v decode g (Interleaving.published t) (ctrl t) (env t)" "\<And>x. fst (g x) = fst (th_heard t x)"
      using inv by (auto simp: audio_inv_def threads_follow_def)
    have "Interleaving.published t' = (Interleaving.published t)(x := Interleaving.published t x @ ring_takes (tp_buffer (pipeline x (ctrl t))) [f])"
      using published(1,2) by (auto simp: published_def [abs_def] published(3))
    with onFrame_follows [OF g(1), of x f] have "follows F W v decode g (Interleaving.published t') (ctrl t') (env t')"
      by (simp add: published(3))
    moreover have "new_follows F t'" using n published(1) by (auto simp: new_follows_def published(3) onFrame_kept)
    ultimately show ?thesis using g(2) by (auto simp: threads_follow_def published(3))
  qed
qed

lemma fire_part: "audio_part (fst (fire ev c)) = audio_part c"
  by (simp add: fire_def split_beta Let_def audio_part_def)

lemma next_track_part:
  "audio_part (ctrl (streams_failed k t)) = audio_part (ctrl t) \<and> env (streams_failed k t) = env t
    \<and> th_heard (streams_failed k t) = th_heard t \<and> th_new (streams_failed k t) = th_new t"
  "audio_part (ctrl (next_track k x any t)) = audio_part (ctrl t) \<and> env (next_track k x any t) = env t
    \<and> th_heard (next_track k x any t) = th_heard t \<and> th_new (next_track k x any t) = th_new t"
proof -
  show f: "audio_part (ctrl (streams_failed k t)) = audio_part (ctrl t) \<and> env (streams_failed k t) = env t
    \<and> th_heard (streams_failed k t) = th_heard t \<and> th_new (streams_failed k t) = th_new t" for k :: start_reason
    by (cases k) (simp_all add: fire_part)
  have "audio_part (streams_started k c) = audio_part c" for c :: "'a controller"
    by (cases k) (simp_all add: fire_part, simp add: audio_part_def)
  with f show "audio_part (ctrl (next_track k x any t)) = audio_part (ctrl t) \<and> env (next_track k x any t) = env t
    \<and> th_heard (next_track k x any t) = th_heard t \<and> th_new (next_track k x any t) = th_new t"
    by (cases x) simp_all
qed

lemma next_track_audio: "audio_inv F W v decode t \<Longrightarrow> audio_inv F W v decode (next_track k x any t)"
  "audio_inv F W v decode t \<Longrightarrow> audio_inv F W v decode (streams_failed k t)"
  using next_track_part(2) [of k x any t] next_track_part(1) [of k t] by (auto intro: audio_kept)

lemma gone_unheard:
  assumes "follows F W v decode g (published t) c e" and "th_new t = None" and "tp_buffer (pipeline x c) = None"
  shows "snd (th_heard t x) = []" and "published t x = []" and "snd (g x) = []"
  using assms by (auto simp: follows_def published_def dest!: spec [of _ x] elim: pipe_ok_cases)

lemma shape_gone: "shape p = gone \<longleftrightarrow> tp_buffer p = None \<and> tp_stream p = None \<and> tp_synchronizer p = None"
  by (simp add: shape_def gone_def)

lemma open_track_audio:
  assumes wl: "world_laws W v" and inv: "audio_inv F W v decode t" and ok: "threads_ok t" and l: "th_at t = OpeningTrack k x any"
  shows "audio_inv F W v decode (open_track F W k x any t)"
proof (cases "track_selected x (ctrl t)")
  case False
  with next_track_audio(1) [OF inv] show ?thesis by (simp add: open_track_def)
next
  case True
  obtain c e good where s: "start_track F W x any (th_app t) = ((c, e), good)" by (metis prod.collapse)
  then have "start_track F W x any (ctrl t, env t) = ((c, e), good)" by simp
  then obtain device kind where st: "startTrack F W x device kind (channels_of x) (track_of x (ctrl t)) (x = MicrophoneTrack \<or> \<not> any) (ctrl t, env t) = ((c, e), good)"
    by (rule start_track_cases)
  have e: "v e = v (env t)" using st wl by (auto simp: startTrack_def Let_def split_beta world_laws_def split: sum.splits)
  note r = startTrack_result [OF st]
  show ?thesis
  proof (cases good)
    case False
    with r obtain message where "c = ui_fail message (ctrl t)" by auto
    then have "audio_part c = audio_part (ctrl t)" by (simp add: audio_part_def ui_fail_def)
    then have "audio_inv F W v decode (t\<lparr>th_app := (c, e)\<rparr>)" using e by (intro audio_kept [OF inv]) simp_all
    with next_track_audio(2) False True s show ?thesis by (auto simp: open_track_def)
  next
    case good: True
    with r obtain p b where p: "pipeline x c = p" "tp_buffer p = Some b" "ring_inv b" "contents b = []"
      "tp_synchronizer p = Some (new_sync F x)" "tp_writerTrack p = track_of x (ctrl t)"
      by (auto simp: new_ring_inv new_sync_def)
    let ?t = "t\<lparr>th_app := (ctrl t, e), th_new := Some (x, p), th_live := insert x (th_live t), th_at := PublishingTrack k x any\<rparr>"
    have new: "th_new t = None" using ok l by (auto simp: threads_ok_def new_ok_def split: option.splits)
    have "shape (pipeline x (ctrl t)) = gone" using ok l by (cases x) (auto simp: threads_ok_def opened_so_far_def)
    then have gone: "tp_buffer (pipeline x (ctrl t)) = None" by (simp add: shape_gone)
    have "threads_follow F W v decode ?t" if w: "ct_writer (ctrl t) \<noteq> None" "fits_heard (th_heard t)"
    proof -
      from inv w obtain g where g: "follows F W v decode g (published t) (ctrl t) (env t)" "\<And>x. fst (g x) = fst (th_heard t x)"
        by (auto simp: audio_inv_def threads_follow_def)
      note u = gone_unheard [OF g(1) new gone]
      have "published ?t y = published t y" for y using u(1) new by (cases "y = x") (simp_all add: published_def)
      then have "published ?t = published t" ..
      with follows_env [where v = v, OF e g(1)] have "follows F W v decode g (published ?t) (ctrl ?t) (env ?t)" by simp
      moreover have "new_follows F ?t" using p u by (simp add: new_follows_def)
      ultimately show ?thesis using g(2) by (auto simp: threads_follow_def)
    qed
    then have "audio_inv F W v decode ?t" by (simp add: audio_inv_def)
    with s good True p(1) show ?thesis by (simp add: open_track_def)
  qed
qed

lemma publish_track_audio:
  assumes inv: "audio_inv F W v decode t" and ok: "threads_ok t" and l: "th_at t = PublishingTrack k x any"
    and pt: "publish_track k x t = Some t'"
  shows "audio_inv F W v decode t'"
proof -
  obtain p where p: "th_new t = Some (x, p)"
    using ok l by (auto simp: threads_ok_def new_ok_def split: option.splits)
  let ?t = "t\<lparr>th_app := (set_pipeline x p (ctrl t), env t), th_new := None\<rparr>"
  have t': "t' = next_track k x True ?t" using pt p by (simp add: publish_track_def)
  have "shape (pipeline x (ctrl t)) = gone" using ok l by (cases x) (auto simp: threads_ok_def opened_so_far_def)
  then have gone: "tp_buffer (pipeline x (ctrl t)) = None" by (simp add: shape_gone)
  have "threads_follow F W v decode ?t" if w: "ct_writer (ctrl t) \<noteq> None" "fits_heard (th_heard t)"
  proof -
    from inv w obtain g where n: "new_follows F t" and
      g: "follows F W v decode g (published t) (ctrl t) (env t)" "\<And>x. fst (g x) = fst (th_heard t x)"
      by (auto simp: audio_inv_def threads_follow_def)
    from n p obtain b where b: "tp_buffer p = Some b" "ring_inv b" "contents b = snd (th_heard t x)"
      "tp_synchronizer p = Some (new_sync F x)" "tp_writerTrack p = track_of x (ctrl t)" by (auto simp: new_follows_def)
    have "pipe_ok F g (published t) x (ctrl t)" using g(1) by (simp add: follows_def)
    with gone have "snd (g x) = []" by (auto elim: pipe_ok_cases)
    with b have "pipe_ok F g (published ?t) x (set_pipeline x p (ctrl t))" by (simp add: pipe_ok_def published_def)
    moreover have "published ?t y = published t y" if "y \<noteq> x" for y using p that by (simp add: published_def)
    moreover have "file_ok F W v decode g (ctrl t) (env t)" using g(1) by (simp add: follows_def)
    ultimately have "follows F W v decode g (published ?t) (set_pipeline x p (ctrl t)) (env t)"
      by (intro follows_pipeline [OF g(1)]) simp_all
    with g(2) show ?thesis by (auto simp: threads_follow_def new_follows_def)
  qed
  then have "audio_inv F W v decode ?t" by (simp add: audio_inv_def)
  then show ?thesis unfolding t' by (rule next_track_audio)
qed

lemma close_stream_audio:
  assumes wl: "world_laws W v" and inv: "audio_inv F W v decode t" and ok: "threads_ok t" and l: "th_at t = StoppingStream k x"
  shows "audio_inv F W v decode (close_stream W k x t)"
  unfolding audio_inv_def
proof
  let ?t = "close_stream W k x t"
  assume w: "ct_writer (ctrl ?t) \<noteq> None \<and> fits_heard (th_heard ?t)"
  obtain c e where s: "stop_stream W x (ctrl t, env t) = (c, e)" by fastforce
  then have app: "th_app ?t = (c, e)" by (simp add: close_stream_def)
  have new: "th_new t = None" "th_new ?t = None" using ok l by (auto simp: threads_ok_def new_ok_def close_stream_def split: option.splits)
  from stop_stream_frame [OF s ok_parts [OF ok]] skeleton_writer have "(ct_writer c = None) = (ct_writer (ctrl t) = None)" by blast
  moreover have "fits_heard (th_heard t)" using w by (auto simp: close_stream_def intro: fits_more)
  ultimately obtain g where g: "follows F W v decode g (published t) (ctrl t) (env t)" "\<And>x. fst (g x) = fst (th_heard t x)"
    using inv w app by (auto simp: audio_inv_def threads_follow_def)
  have "published ?t = (published t)(x := published t x @ ring_takes (tp_buffer (pipeline x (ctrl t))) (stream_frames W x (ctrl t, env t)))"
    using new by (auto simp: published_def [abs_def] close_stream_def)
  with stop_stream_follows [OF g(1) wl s] app have "follows F W v decode g (published ?t) (ctrl ?t) (env ?t)" by simp
  moreover have "fst (th_heard ?t y) = fst (th_heard t y)" for y by (simp add: close_stream_def)
  ultimately show "threads_follow F W v decode ?t" using g(2) new(2) by (auto simp: threads_follow_def new_follows_def)
qed

lemma drop_pipelines_audio:
  assumes inv: "audio_inv F W v decode t" and ok: "threads_ok t" and l: "th_at t = Dropping k"
  shows "audio_inv F W v decode (drop_pipelines k t)"
  unfolding audio_inv_def
proof
  let ?t = "drop_pipelines k t"
  assume w: "ct_writer (ctrl ?t) \<noteq> None \<and> fits_heard (th_heard ?t)"
  have new: "th_new t = None" "th_new ?t = None" using ok l by (auto simp: threads_ok_def new_ok_def drop_pipelines_def split: option.splits)
  have "fits_heard (th_heard t)" using w by (simp add: fits_heard_def drop_pipelines_def)
  with w inv obtain g where g: "follows F W v decode g (published t) (ctrl t) (env t)" "\<And>x. fst (g x) = fst (th_heard t x)"
    by (auto simp: audio_inv_def threads_follow_def drop_pipelines_def)
  have "contents b = []" if "tp_buffer (pipeline x (ctrl t)) = Some b" for x b
    using ok l that by (simp add: threads_ok_def ring_empty_def)
  from follows_stopped [OF g(1) this] have
    "follows F W v decode (\<lambda>x. (fst (g x) @ [published t x], [])) (\<lambda>_. []) (ctrl ?t) (env ?t)" by (simp add: drop_pipelines_def)
  moreover have "published ?t = (\<lambda>_. [])" by (auto simp: published_def [abs_def] drop_pipelines_def)
  moreover have "fst (th_heard ?t x) = fst (g x) @ [published t x]" for x using new g(2) by (simp add: published_def drop_pipelines_def)
  ultimately show "threads_follow F W v decode ?t" using new(2)
    by (auto simp: threads_follow_def new_follows_def intro!: exI [of _ "\<lambda>x. (fst (g x) @ [published t x], [])"])
qed

lemma no_writer_audio: "ct_writer (ctrl t) = None \<Longrightarrow> audio_inv F W v decode t"
  by (simp add: audio_inv_def)

lemma create_writer_audio:
  assumes laws: "opening_laws (w_media W) v" and ok: "threads_ok t" and l: "th_at t = CreatingWriter"
    and s: "create_writer W t = Some t'"
  shows "audio_inv F W v decode t'"
proof -
  from s obtain c e made where 1: "createWriter W (ctrl t, env t) = Some ((c, e), made)"
    by (auto simp: create_writer_def bind_eq_Some_conv)
  have i: "ct_writer (ctrl t) = None" "all_gone (ctrl t)" "th_new t = None"
    using ok l by (auto simp: threads_ok_def phase_def new_ok_def split: option.splits)
  note f = createWriter_frame [OF 1]
  show ?thesis
  proof (cases made)
    case False
    with s 1 f i show ?thesis by (auto intro!: no_writer_audio simp: create_writer_def)
  next
    case True
    from f parts_streams [of c "ctrl t"] i(2) have "all_gone c" by simp
    then have "tp_buffer (pipeline x c) = None" "tp_synchronizer (pipeline x c) = None" for x by (simp_all add: all_gone_shape shape_gone)
    with createWriter_follows [OF laws, of "ctrl t" "env t" c e F] 1 True have fo: "follows F W v decode (\<lambda>_. ([], [])) (\<lambda>_. []) c e" by simp
    obtain c' good where 2: "fire session_event.Start c = (c', good)" by fastforce
    have a: "audio_part c' = audio_part c" using fire_part [of session_event.Start c] 2 by simp
    have t': "th_app t' = (c', e)" "th_heard t' = (\<lambda>_. ([], []))" "th_new t' = None" using s 1 2 True i(3) by (auto simp: create_writer_def)
    have "published t' = (\<lambda>_. [])" by (simp add: published_def [abs_def] t')
    with fo have "follows F W v decode (\<lambda>_. ([], [])) (published t') (ctrl t') (env t')" by (simp add: t' follows_part [OF a])
    then have "threads_follow F W v decode t'" unfolding threads_follow_def
      by (intro conjI exI [of _ "\<lambda>_. ([], [])"]) (simp_all add: new_follows_def t')
    then show ?thesis by (simp add: audio_inv_def)
  qed
qed

lemma start_called_audio: "threads_ok t \<Longrightarrow> th_at t = AtRest \<Longrightarrow> audio_inv F W v decode t \<Longrightarrow> audio_inv F W v decode (start_called W t)"
proof (cases "isIdle (ctrl t)")
  case True
  assume ok: "threads_ok t" "th_at t = AtRest"
  then have "ct_writer (ctrl t) = None" using True by (auto simp: threads_ok_def isIdle_state controller_ok_def)
  moreover from this have "ct_writer (fst (refreshDevices W (th_app t))) = None" by (simp add: refreshDevices_def Let_def split_beta)
  ultimately show ?thesis by (intro no_writer_audio) (auto simp: start_called_def Let_def split_beta ui_fail_def)
qed (simp add: start_called_def split_beta Let_def)

lemma calls_audio:
  assumes inv: "audio_inv F W v decode t"
  shows "audio_inv F W v decode (pause_called t)" and "audio_inv F W v decode (resume_called t)" and "audio_inv F W v decode (stop_called t)"
    and "audio_inv F W v decode (destructor_called t)"
  by (rule audio_kept [OF inv]; simp add: pause_called_def resume_called_def stop_called_def destructor_called_def split_beta Let_def fire_part)+

lemma connect_stt_audio:
  assumes "world_laws W v" and inv: "audio_inv F W v decode t"
  shows "audio_inv F W v decode (connect_stt F W t)"
proof -
  obtain c e where 1: "startSttStreaming F W (th_app t) = (c, e)" by fastforce
  then have "startSttStreaming F W (ctrl t, env t) = (c, e)" by simp
  from startStt_audio [OF this assms(1)] show ?thesis by (intro audio_kept [OF inv]) (simp_all add: connect_stt_def 1)
qed

lemma ended_audio:
  assumes ok: "threads_ok t'" and l: "th_at t' \<in> {CreatingWriter, FaultingStart} \<union> {LeavingStt saved err | saved err. True}"
  shows "audio_inv F W v decode t'"
  using assms by (intro no_writer_audio) (auto simp: threads_ok_def phase_def)

lemma user_turn_audio:
  assumes laws: "recorder_laws (w_media W) v decode backlog" "opening_laws (w_media W) v" "world_laws W v"
    and s: "user_turn F W (th_at t) t = Some t'" and ok: "threads_ok t" and inv: "audio_inv F W v decode t"
  shows "audio_inv F W v decode t'"
proof (cases "th_at t")
  case CreatingWriter
  with s create_writer_audio [OF laws(2) ok] show ?thesis by (simp add: unlocked_Some)
next
  case ConnectingStt
  with s connect_stt_audio [OF laws(3) inv] show ?thesis by (auto simp: unlocked_Some)
next
  case (OpeningTrack k x any)
  with s open_track_audio [OF laws(3) inv ok] show ?thesis by auto
next
  case (PublishingTrack k x any)
  with s publish_track_audio [OF inv ok] show ?thesis by (auto simp: unlocked_Some)
next
  case (StoppingStream k x)
  with s close_stream_audio [OF laws(3) inv ok] show ?thesis by auto
next
  case (Locking k)
  with s have "t' = t\<lparr>th_lock := Some UserThread, th_at := Draining k MicrophoneTrack\<rparr>" by (simp add: unlocked_Some)
  then show ?thesis by (intro audio_kept [OF inv]) simp_all
next
  case (Draining k x)
  with s obtain c e again where 1: "drain_one F W x (ctrl t, env t) = Some ((c, e), again)"
    "th_app t' = (c, e)" "th_heard t' = th_heard t" "th_new t' = th_new t" by (auto simp: drain_before_drop_def bind_eq_Some_conv)
  from drain_one_audio [OF laws(1) inv ok 1] show ?thesis .
next
  case (Dropping k)
  with s drop_pipelines_audio [OF inv ok] show ?thesis by auto
next
  case Finishing
  with s user_turn_ok [OF s ok] show ?thesis
    by (intro ended_audio) (auto simp: unlocked_Some finish_recording_def bind_eq_Some_conv)
next
  case (Discarding failed)
  with s user_turn_ok [OF s ok] ok show ?thesis
    by (intro ended_audio) (auto simp: unlocked_Some discard_writer_def threads_ok_def)
next
  case FaultingStart
  with ok have "ct_writer (ctrl t) = None" by (simp add: threads_ok_def phase_def)
  with s FaultingStart show ?thesis
    by (intro no_writer_audio) (auto simp: unlocked_Some fault_start_def fire_def split_beta Let_def)
next
  case (LeavingStt saved err)
  with ok have "ct_writer (ctrl t) = None" by (simp add: threads_ok_def phase_def)
  with s LeavingStt show ?thesis
    by (intro no_writer_audio) (auto simp: unlocked_Some report_stop_def ui_fail_def fire_def split_beta Let_def split: option.split)
next
  case LeavingAtQuit
  with s have "t' = leave_at_quit t" by (simp add: unlocked_Some)
  then show ?thesis by (intro audio_kept [OF inv]) (simp_all add: leave_at_quit_def audio_part_def stopSttStreaming_def Let_def)
next
  case Joining
  with s show ?thesis by (intro no_writer_audio) (auto simp: destroy_members_def split: if_splits)
qed (use s in simp_all)

lemma user_call_audio:
  assumes "user_call ev" and "app_step F W ev (c, e) = Some (c', e')" and wl: "world_laws W v"
  shows "audio_part c' = audio_part c \<and> v e' = v e"
proof (cases "ev = Refresh")
  case True
  with assms(2) have "c' = fst (refreshDevices W (c, e))" "e' = fst (w_devices W e)"
    by (auto simp: refreshDevices_def Let_def split_beta)
  with wl show ?thesis by (simp add: audio_part_frames world_laws_def)
next
  case False
  with assms show ?thesis by (cases ev) (auto simp: audio_part_frames)
qed

lemma threads_step_audio:
  assumes laws: "recorder_laws (w_media W) v decode backlog" "opening_laws (w_media W) v" "world_laws W v"
    and s: "threads_step F W m t = Some t'" and ok: "threads_ok t" and inv: "audio_inv F W v decode t"
  shows "audio_inv F W v decode t'"
proof (cases m)
  case UserMoves
  with s user_turn_audio [OF laws _ ok inv] show ?thesis by simp
next
  case (OtherCall ev)
  with s obtain c e where r: "user_call ev" "app_step F W ev (ctrl t, env t) = Some (c, e)" "t' = t\<lparr>th_app := (c, e)\<rparr>"
    by (auto simp: calling_def split: if_splits)
  from user_call_audio [OF r(1,2) laws(3)] show ?thesis by (intro audio_kept [OF inv]) (simp_all add: r(3))
next
  case (NetworkMoves ev)
  with s have "t' = t\<lparr>th_app := (client_thread_step ev (ctrl t), env t)\<rparr>" by simp
  then show ?thesis by (intro audio_kept [OF inv]) (simp_all add: audio_part_frames)
next
  case DrainMoves
  with s drain_turn_audio [OF laws(1) inv ok] show ?thesis by simp
next
  case (FrameDelivered x f)
  with s capture_turn_audio [OF inv ok] show ?thesis by (auto split: if_splits)
next
  case StartCalled
  with s start_called_audio [OF ok _ inv] show ?thesis by (auto simp: calling_def split: if_splits)
qed (use s calls_audio [OF inv] in \<open>auto simp: calling_def split: if_splits\<close>)

lemma threads_run_audio:
  assumes laws: "recorder_laws (w_media W) v decode backlog" "opening_laws (w_media W) v" "world_laws W v"
    and s: "threads_run F W ms t = Some t'" and ok: "threads_ok t" and inv: "audio_inv F W v decode t"
  shows "threads_ok t' \<and> audio_inv F W v decode t'"
  using threads.run_invariant [OF s, of "\<lambda>t. threads_ok t \<and> audio_inv F W v decode t"] ok inv
    threads_step_ok threads_step_audio [OF laws] by blast

text \<open>What the locked block of \<open>stop\<close> saves.\<close>

lemma finished_file:
  assumes laws: "recorder_laws (w_media W) v decode backlog" and ok: "threads_ok t" and inv: "audio_inv F W v decode t"
    and l: "th_at t = Finishing" and s: "finish_recording W t = Some t'" and l': "th_at t' = LeavingStt saved err"
    and fits: "fits_heard (th_heard t)"
  shows "saved = [] \<and> (\<exists>m \<in> {WriteInterrupted, NothingCaptured} \<union> range NotFinalized. err = Some m)
    \<or> err = None \<and> (\<exists>w w' e'. ct_writer (ctrl t) = Some w \<and> writer_finalize (w_media W) (w, env t) = Some ((w', e'), True)
    \<and> saved_file w' \<and> rc_outputFile (rw_config w') = saved \<and> saved = ct_pendingOutputFile (ctrl t)
    \<and> (\<forall>x. 0 \<le> track_of x (ctrl t) \<longrightarrow> complete (w_media W) v decode
        (spliced F x (fst (th_heard t x))) (nat (track_of x (ctrl t))) (env t) w'))"
proof -
  from s l' obtain c e where 1: "finish_writer W ((ctrl t)\<lparr>ct_statsTimer := False\<rparr>, env t) = Some ((c, e), saved, err)"
    by (auto simp: finish_recording_def bind_eq_Some_conv)
  have i: "ct_writer (ctrl t) \<noteq> None" "all_gone (ctrl t)" "th_new t = None" "ct_pendingOutputFile (ctrl t) \<noteq> []"
    using ok l by (auto simp: threads_ok_def phase_def new_ok_def split: option.splits)
  with inv fits obtain g where g: "follows F W v decode g (published t) (ctrl t) (env t)" "\<And>x. fst (g x) = fst (th_heard t x)"
    by (auto simp: audio_inv_def threads_follow_def)
  have p: "published t = (\<lambda>x. snd (th_heard t x))" using i(3) by (simp add: published_def [abs_def])
  have "tp_buffer (pipeline x (ctrl t)) = None" for x using i(2) by (simp add: all_gone_shape shape_gone)
  from gone_unheard(1) [OF g(1) i(3) this] have empty: "snd (th_heard t x) = []" for x .
  have "following F W v decode (\<lambda>x. track_of x (ctrl t)) (th_heard t) (ctrl t) (env t)"
    using g p by (auto simp: following_def)
  then have "following F W v decode (\<lambda>x. track_of x (ctrl t)) (th_heard t) ((ctrl t)\<lparr>ct_statsTimer := False\<rparr>) (env t)"
    by (simp only: following_timer)
  note f = finish_follows [OF laws this empty fits 1]
  obtain w where w: "ct_writer (ctrl t) = Some w" using i(1) by blast
  show ?thesis
  proof (cases "saved = []")
    case True
    with 1 w i(4) have "\<exists>m. err = Some m \<and> m \<in> {WriteInterrupted, NothingCaptured} \<union> range NotFinalized"
      by (auto simp: finish_writer_def Let_def bind_eq_Some_conv split: if_splits)
    with True show ?thesis by blast
  next
    case False
    with 1 w have "err = None" by (auto simp: finish_writer_def Let_def bind_eq_Some_conv split: if_splits)
    with f [OF False] show ?thesis by simp
  qed
qed

section \<open>The operations of the coarse model\<close>

text \<open>
  When no other thread moves, and none has the lock, a call of the user interface's thread runs to its end as
  the operation of \<open>Controller\<close>.
\<close>

definition alone :: "'d float_ops \<Rightarrow> 'e world \<Rightarrow> ('d, 'e) threads \<Rightarrow> ('d, 'e) threads \<Rightarrow> bool" where
  "alone F W t t' \<longleftrightarrow> (\<exists>n. threads_run F W (replicate n UserMoves) t = Some t')"

definition stands :: "location \<Rightarrow> 'd controller \<times> 'e \<Rightarrow> ('d, 'e) threads \<Rightarrow> bool" where
  "stands l ce t \<longleftrightarrow> th_at t = l \<and> th_app t = ce \<and> th_lock t = None"

lemma alone_refl: "alone F W t t"
  unfolding alone_def by (rule exI [of _ 0]) simp

lemma alone_step: "user_turn F W (th_at t) t = Some t1 \<Longrightarrow> alone F W t1 t' \<Longrightarrow> alone F W t t'"
  unfolding alone_def
proof (elim exE)
  fix n
  assume "user_turn F W (th_at t) t = Some t1" "threads_run F W (replicate n UserMoves) t1 = Some t'"
  then have "threads_run F W (replicate (Suc n) UserMoves) t = Some t'" by simp
  then show "\<exists>n. threads_run F W (replicate n UserMoves) t = Some t'" ..
qed

lemma alone_one: "user_turn F W (th_at t) t = Some t' \<Longrightarrow> alone F W t t'"
  by (rule alone_step [OF _ alone_refl])

lemma alone_trans: "alone F W t t1 \<Longrightarrow> alone F W t1 t2 \<Longrightarrow> alone F W t t2"
proof -
  assume "alone F W t t1" "alone F W t1 t2"
  then obtain n m where "threads_run F W (replicate n UserMoves) t = Some t1" "threads_run F W (replicate m UserMoves) t1 = Some t2"
    by (auto simp: alone_def)
  then have "threads_run F W (replicate (n + m) UserMoves) t = Some t2" by (simp add: replicate_add threads.run_append)
  then show ?thesis unfolding alone_def by blast
qed

text \<open>The drain loop, turn by turn.\<close>

lemma drain_induct [consumes 1, case_names last turn]:
  assumes d: "drainPipelineLocked F W x c e = Some ce'"
    and last: "\<And>c e ce'. drain_one F W x (c, e) = Some (ce', False) \<Longrightarrow> P c e ce'"
    and turn: "\<And>c e c1 e1 ce'. drain_one F W x (c, e) = Some ((c1, e1), True) \<Longrightarrow> P c1 e1 ce' \<Longrightarrow> P c e ce'"
  shows "P c e ce'"
proof -
  have "F = F \<longrightarrow> W = W \<longrightarrow> x = x \<longrightarrow> P c e ce'"
  proof (rule drainPipelineLocked.raw_induct [where P =
      "\<lambda>F' W' x' c e ce'. F' = F \<longrightarrow> W' = W \<longrightarrow> x' = x \<longrightarrow> P c e ce'", OF _ d], intro impI)
    fix drain F' and W' :: "'b world" and x' c e ce'
    assume IH: "\<And>F' W' x' c e ce'. drain F' W' x' c e = Some ce' \<Longrightarrow> F' = F \<longrightarrow> W' = W \<longrightarrow> x' = x \<longrightarrow> P c e ce'"
      and body: "Option.bind (drain_one F' W' x' (c, e))
        (\<lambda>((c', e'), again). if again then drain F' W' x' c' e' else Some (c', e')) = Some ce'"
      and eqs: "F' = F" "W' = W" "x' = x"
    from body [unfolded eqs] obtain c1 e1 again where s: "drain_one F W x (c, e) = Some ((c1, e1), again)"
      "(if again then drain F W x c1 e1 else Some (c1, e1)) = Some ce'" by (auto simp: bind_eq_Some_conv)
    with IH [of F W x c1 e1 ce'] turn [of c e c1 e1 ce'] last [of c e ce'] show "P c e ce'" by (cases again) auto
  qed
  then show ?thesis by simp
qed

text \<open>A drain by the user interface's thread is the drain loop.\<close>

lemma alone_drain:
  assumes "drainPipelineLocked F W x c e = Some ce'"
  shows "th_at t = Draining k x \<Longrightarrow> th_app t = (c, e) \<Longrightarrow>
    alone F W t (t\<lparr>th_app := ce', th_at := (case x of MicrophoneTrack \<Rightarrow> Draining k SystemOutputTrack | SystemOutputTrack \<Rightarrow> Dropping k)\<rparr>)"
  using assms
proof (induction c e ce' arbitrary: t rule: drain_induct)
  case (last c e ce')
  then show ?case by (intro alone_one) (simp add: drain_before_drop_def)
next
  case (turn c e c1 e1 ce')
  let ?t = "t\<lparr>th_app := (c1, e1), th_at := Draining k x\<rparr>"
  have "user_turn F W (th_at t) t = Some ?t" using turn by (simp add: drain_before_drop_def)
  moreover have "alone F W ?t (?t\<lparr>th_app := ce', th_at := (case x of MicrophoneTrack \<Rightarrow> Draining k SystemOutputTrack | SystemOutputTrack \<Rightarrow> Dropping k)\<rparr>)"
    by (rule turn.IH) simp_all
  ultimately show ?case by (intro alone_step [of F W t ?t]) simp_all
qed

text \<open>And so is a drain by the drain thread, which then gives the lock back.\<close>

lemma drained_track:
  assumes "drainPipelineLocked F W x c e = Some ce'"
  shows "th_drain t = Some x \<Longrightarrow> th_app t = (c, e) \<Longrightarrow>
    \<exists>n. threads_run F W (replicate n DrainMoves) t = Some (case x of
        MicrophoneTrack \<Rightarrow> t\<lparr>th_app := ce', th_drain := Some SystemOutputTrack\<rparr>
      | SystemOutputTrack \<Rightarrow> t\<lparr>th_app := ce', th_drain := None, th_lock := None\<rparr>)"
  using assms
proof (induction c e ce' arbitrary: t rule: drain_induct)
  case (last c e ce')
  then show ?case by (intro exI [of _ "Suc 0"]) (cases x; simp add: drain_turn_def)
next
  case (turn c e c1 e1 ce')
  let ?t = "t\<lparr>th_app := (c1, e1)\<rparr>"
  have "th_drain ?t = Some x" "th_app ?t = (c1, e1)" using turn.prems by simp_all
  from turn.IH [OF this] obtain n where "threads_run F W (replicate n DrainMoves) ?t = Some (case x of
        MicrophoneTrack \<Rightarrow> ?t\<lparr>th_app := ce', th_drain := Some SystemOutputTrack\<rparr>
      | SystemOutputTrack \<Rightarrow> ?t\<lparr>th_app := ce', th_drain := None, th_lock := None\<rparr>)" ..
  moreover have "threads_step F W DrainMoves t = Some ?t" using turn by (simp add: drain_turn_def)
  ultimately show ?case by (intro exI [of _ "Suc n"]) (cases x; simp)
qed

lemma alone_stopStreams:
  assumes t: "stands (StoppingStream k MicrophoneTrack) (c, e) t" and s: "stopStreams F W (c, e) = Some (c', e')"
  obtains t' where "alone F W t t'" "stands (closed k) (c', e') t'"
  using s
proof (cases rule: stopStreams_cases)
  case (1 c1 e1 c2 e2 c3 e3 c4)
  let ?t1 = "close_stream W k MicrophoneTrack t"
  let ?t2 = "close_stream W k SystemOutputTrack ?t1"
  let ?t3 = "?t2\<lparr>th_lock := Some UserThread, th_at := Draining k MicrophoneTrack\<rparr>"
  let ?t4 = "?t3\<lparr>th_app := (c3, e3), th_at := Draining k SystemOutputTrack\<rparr>"
  let ?t5 = "?t4\<lparr>th_app := (c4, e'), th_at := Dropping k\<rparr>"
  have a1: "th_app ?t1 = (c1, e1)" "th_at ?t1 = StoppingStream k SystemOutputTrack" "th_lock ?t1 = None"
    using t 1(1) by (simp_all add: stands_def close_stream_def)
  have a2: "th_app ?t2 = (c2, e2)" "th_at ?t2 = Locking k" "th_lock ?t2 = None"
    using a1 1(2) by (simp_all add: close_stream_def [of W k SystemOutputTrack])
  have "alone F W ?t3 ?t4" using alone_drain [OF 1(3), of ?t3 k] a2(1) by simp
  moreover have "alone F W ?t4 ?t5" using alone_drain [OF 1(4), of ?t4 k] by simp
  moreover have "alone F W ?t5 (drop_pipelines k ?t5)" by (rule alone_one) simp
  ultimately have "alone F W ?t3 (drop_pipelines k ?t5)" by (blast intro: alone_trans)
  moreover have "user_turn F W (th_at ?t2) ?t2 = Some ?t3" using a2 by (simp add: unlocked_def)
  moreover have "user_turn F W (th_at ?t1) ?t1 = Some ?t2" using a1 by simp
  moreover have "user_turn F W (th_at t) t = Some ?t1" using t by (simp add: stands_def)
  ultimately have "alone F W t (drop_pipelines k ?t5)" by (blast intro: alone_step)
  moreover have "stands (closed k) (c', e') (drop_pipelines k ?t5)" by (simp add: stands_def drop_pipelines_def 1(5))
  ultimately show thesis by (rule that)
qed

text \<open>One track, and both.\<close>

lemma alone_track:
  assumes t: "stands (OpeningTrack k x any) (c, e) t"
    and s: "(if track_selected x c then start_track F W x any (c, e) else ((c, e), True)) = ((c', e'), good)"
  obtains t1 t' where "alone F W t t'" "stands l (c', e') t1"
    "t' = (if good then next_track k x (track_selected x c \<or> any) t1 else streams_failed k t1)"
proof (cases "track_selected x c")
  case False
  from s False have "c' = c" "e' = e" "good" by simp_all
  moreover have "user_turn F W (th_at t) t = Some (next_track k x any t)" using t False by (simp add: stands_def open_track_def)
  moreover have "next_track k x any t = next_track k x any (t\<lparr>th_at := l\<rparr>)" by (cases x; cases k) simp_all
  ultimately show thesis using t False
    by (intro that [of "next_track k x any t" "t\<lparr>th_at := l\<rparr>"] alone_one) (simp_all add: stands_def)
next
  case True
  from s True have 1: "start_track F W x any (c, e) = ((c', e'), good)" by simp
  then obtain device kind where "startTrack F W x device kind (channels_of x) (track_of x c) (x = MicrophoneTrack \<or> \<not> any) (c, e) = ((c', e'), good)"
    by (rule start_track_cases)
  note r = startTrack_result [OF this]
  show thesis
  proof (cases good)
    case False
    let ?t = "t\<lparr>th_app := (c', e')\<rparr>"
    have "user_turn F W (th_at t) t = Some (streams_failed k ?t)" using t True 1 False by (simp add: stands_def open_track_def)
    moreover have "streams_failed k ?t = streams_failed k (?t\<lparr>th_at := l\<rparr>)" by (cases k) simp_all
    ultimately show thesis using t False
      by (intro that [of "streams_failed k ?t" "?t\<lparr>th_at := l\<rparr>"] alone_one) (simp_all add: stands_def)
  next
    case good: True
    let ?t1 = "t\<lparr>th_app := (c, e'), th_new := Some (x, pipeline x c'), th_live := insert x (th_live t), th_at := PublishingTrack k x any\<rparr>"
    let ?t2 = "?t1\<lparr>th_app := (c', e'), th_new := None\<rparr>"
    from r good have "set_pipeline x (pipeline x c') c = c'" by auto
    then have "user_turn F W (th_at ?t1) ?t1 = Some (next_track k x True ?t2)"
      using t by (simp add: stands_def unlocked_def publish_track_def)
    moreover have "user_turn F W (th_at t) t = Some ?t1" using t True 1 good by (simp add: stands_def open_track_def)
    ultimately have "alone F W t (next_track k x True ?t2)" by (blast intro: alone_step alone_one)
    moreover have "next_track k x True ?t2 = next_track k x True (?t2\<lparr>th_at := l\<rparr>)" by (cases x; cases k) simp_all
    ultimately show thesis using t True good
      by (intro that [of "next_track k x True ?t2" "?t2\<lparr>th_at := l\<rparr>"]) (simp_all add: stands_def)
  qed
qed

lemma alone_startStreams:
  assumes t: "stands (OpeningTrack k MicrophoneTrack False) (c, e) t" and s: "startStreams F W (c, e) = ((c', e'), good)"
  obtains t1 t' where "alone F W t t'" "stands AtRest (c', e') t1"
    "t' = (if good then next_track k SystemOutputTrack True t1 else streams_failed k t1)"
  using s
proof (cases rule: startStreams_cases)
  case (1 c1 e1 good1 good2)
  let ?mic = "microphoneSelected c"
  have "(if track_selected MicrophoneTrack c then start_track F W MicrophoneTrack False (c, e) else ((c, e), True)) = ((c1, e1), good1)"
    using 1(1) by (simp only: track_selected.simps start_track.simps)
  then obtain ta tb where a: "alone F W t tb" "stands AtRest (c1, e1) ta" and
    "tb = (if good1 then next_track k MicrophoneTrack (track_selected MicrophoneTrack c \<or> False) ta else streams_failed k ta)"
    by (rule alone_track [OF t, where l = AtRest])
  then have tb: "tb = (if good1 then next_track k MicrophoneTrack ?mic ta else streams_failed k ta)" by simp
  show thesis
  proof (cases good1)
    case False
    with 1(2,3) have "c' = c1" "e' = e1" "\<not> good" by auto
    with a tb False show thesis by (intro that [of tb ta]) simp_all
  next
    case True
    with a tb have st: "stands (OpeningTrack k SystemOutputTrack ?mic) (c1, e1) tb" by (simp add: stands_def)
    have "(if track_selected SystemOutputTrack c1 then start_track F W SystemOutputTrack ?mic (c1, e1) else ((c1, e1), True)) = ((c', e'), good2)"
      using 1(2) True by (simp only: track_selected.simps start_track.simps simp_thms)
    then obtain tc td where d: "alone F W tb td" "stands AtRest (c', e') tc"
      "td = (if good2 then next_track k SystemOutputTrack (track_selected SystemOutputTrack c1 \<or> ?mic) tc else streams_failed k tc)"
      by (rule alone_track [OF st, where l = AtRest])
    have "alone F W t td" using a(1) d(1) by (rule alone_trans)
    moreover have "td = (if good then next_track k SystemOutputTrack True tc else streams_failed k tc)"
      using d(3) 1(3) True by auto
    ultimately show thesis using d(2) by (intro that)
  qed
qed

subsection \<open>The four calls\<close>

lemma stands_app: "stands l ce t \<Longrightarrow> th_app t = ce \<and> ctrl t = fst ce \<and> env t = snd ce \<and> th_at t = l \<and> th_lock t = None"
  by (simp add: stands_def)

lemma alone_pause:
  assumes t: "stands AtRest (c, e) t" and s: "pause_op F W (c, e) = Some (ce', good)"
  obtains t' where "alone F W (pause_called t) t'" "stands AtRest ce' t'"
proof -
  obtain c1 b where f: "fire Pause c = (c1, b)" by fastforce
  show thesis
  proof (cases b)
    case False
    with s f t have "stands AtRest ce' (pause_called t)" by (auto simp: pause_op_def pause_called_def stands_def)
    with alone_refl that show thesis by blast
  next
    case True
    with s f obtain c' e' where 1: "stopStreams F W (c1, e) = Some (c', e')" "ce' = (c', e')" by (auto simp: pause_op_def bind_eq_Some_conv)
    have "stands (StoppingStream AtPause MicrophoneTrack) (c1, e) (pause_called t)"
      using t f True by (simp add: pause_called_def stands_def)
    from alone_stopStreams [OF this 1(1)] that 1(2) show thesis by auto
  qed
qed

lemma alone_stop:
  assumes t: "stands AtRest (c, e) t" and s: "stop_op F W (c, e) = Some (ce', good)"
  obtains t' where "alone F W (stop_called t) t'" "stands AtRest ce' t'"
proof -
  obtain c1 b where f: "fire Stop c = (c1, b)" by fastforce
  show thesis
  proof (cases b)
    case False
    with s f t have "stands AtRest ce' (stop_called t)" by (auto simp: stop_op_def stop_called_def stands_def)
    with alone_refl that show thesis by blast
  next
    case True
    from s f True obtain c2 e2 where 1: "stopStreams F W (c1, e) = Some (c2, e2)" by (auto simp: stop_op_def bind_eq_Some_conv)
    from s f True 1 obtain c3 e3 saved err where 2: "finish_writer W (c2\<lparr>ct_statsTimer := False\<rparr>, e2) = Some ((c3, e3), saved, err)"
      by (auto simp: stop_op_def bind_eq_Some_conv)
    have "stands (StoppingStream AtStop MicrophoneTrack) (c1, e) (stop_called t)"
      using t f True by (simp add: stop_called_def stands_def)
    from this 1 obtain t1 where 3: "alone F W (stop_called t) t1" "stands (closed AtStop) (c2, e2) t1" by (rule alone_stopStreams)
    let ?t2 = "t1\<lparr>th_app := (c3\<lparr>ct_pendingOutputFile := []\<rparr>, e3), th_at := LeavingStt saved err\<rparr>"
    have "user_turn F W (th_at t1) t1 = Some ?t2" using 3(2) 2 by (simp add: stands_def unlocked_def finish_recording_def)
    moreover have "user_turn F W (th_at ?t2) ?t2 = Some (report_stop saved err ?t2)" using 3(2) by (simp add: stands_def unlocked_def)
    ultimately have "alone F W t1 (report_stop saved err ?t2)" by (blast intro: alone_step alone_one)
    with 3(1) have "alone F W (stop_called t) (report_stop saved err ?t2)" by (rule alone_trans)
    moreover have "stands AtRest ce' (report_stop saved err ?t2)"
      using s f True 1 2 3(2) by (auto simp: stop_op_def report_stop_def stands_def Let_def)
    ultimately show thesis by (rule that)
  qed
qed

lemma alone_resume:
  assumes t: "stands AtRest (c, e) t" and s: "resume_op F W (c, e) = (ce', good)"
  obtains t' where "alone F W (resume_called t) t'" "stands AtRest ce' t'"
proof (cases "rs_state (ct_session c) = Paused")
  case False
  with s t have "stands AtRest ce' (resume_called t)" by (auto simp: resume_op_def resume_called_def stands_def)
  with alone_refl that show thesis by blast
next
  case True
  obtain c1 e1 started where 1: "startStreams F W (c, e) = ((c1, e1), started)" by (metis prod.collapse)
  have "stands (OpeningTrack AtResume MicrophoneTrack False) (c, e) (resume_called t)"
    using t True by (simp add: resume_called_def stands_def)
  from this 1 obtain t1 t' where 2: "alone F W (resume_called t) t'" "stands AtRest (c1, e1) t1"
    "t' = (if started then next_track AtResume SystemOutputTrack True t1 else streams_failed AtResume t1)" by (rule alone_startStreams)
  have "stands AtRest ce' t'"
    using s True 1 2(2) by (auto simp: 2(3) resume_op_def stands_def split_beta Let_def split: if_splits)
  with 2(1) show thesis by (rule that)
qed

lemma alone_start:
  assumes t: "stands AtRest (c, e) t" and s: "start_op F W (c, e) = Some (ce', good)"
  obtains t' where "alone F W (start_called W t) t'" "stands AtRest ce' t'"
proof (cases "isIdle c")
  case False
  with s t have "stands AtRest ce' (start_called W t)" by (auto simp: start_op_def start_called_def stands_def)
  with alone_refl that show thesis by blast
next
  case idle: True
  obtain c1 e1 where 1: "(if ct_microphones c = [] \<and> ct_systemOutputs c = [] then refreshDevices W (c, e) else (c, e)) = (c1, e1)"
    by fastforce
  show thesis
  proof (cases "ct_selectedMicrophone c1 < 0 \<and> ct_selectedSystemOutput c1 < 0")
    case True
    with s t idle 1 have "stands AtRest ce' (start_called W t)" by (auto simp: start_op_def start_called_def stands_def)
    with alone_refl that show thesis by blast
  next
    case sel: False
    let ?t1 = "t\<lparr>th_app := (c1\<lparr>ct_lastError := None\<rparr>, e1), th_at := CreatingWriter\<rparr>"
    have c: "start_called W t = ?t1" using t idle 1 sel by (auto simp: start_called_def stands_def)
    from s idle 1 sel obtain c2 e2 made where 2: "createWriter W (c1\<lparr>ct_lastError := None\<rparr>, e1) = Some ((c2, e2), made)"
      by (auto simp: start_op_def bind_eq_Some_conv)
    obtain c3 b where 3: "fire session_event.Start c2 = (c3, b)" by fastforce
    let ?t2 = "?t1\<lparr>th_app := (c3, e2), th_heard := (\<lambda>_. ([], [])), th_at := (if b then ConnectingStt else Discarding False)\<rparr>"
    have u: "user_turn F W (th_at ?t1) ?t1 = Some (if made then ?t2 else ?t1\<lparr>th_app := (c2, e2), th_at := AtRest\<rparr>)"
      using t 2 3 by (simp add: stands_def unlocked_def create_writer_def)
    show thesis
    proof (cases made)
      case False
      with s idle 1 sel 2 t have "stands AtRest ce' (?t1\<lparr>th_app := (c2, e2), th_at := AtRest\<rparr>)" by (auto simp: start_op_def stands_def)
      with u False that alone_one show thesis unfolding c by fastforce
    next
      case made: True
      with u have u2: "user_turn F W (th_at ?t1) ?t1 = Some ?t2" by simp
      show thesis
      proof (cases b)
        case False
        let ?t3 = "discard_writer W False ?t2"
        have "user_turn F W (th_at ?t2) ?t2 = Some ?t3" using t False by (simp add: stands_def unlocked_def)
        with u2 have "alone F W ?t1 ?t3" by (blast intro: alone_step alone_one)
        moreover have "stands AtRest ce' ?t3" using s idle 1 sel 2 made 3 False t by (auto simp: start_op_def stands_def discard_writer_def)
        ultimately show thesis by (rule that [unfolded c])
      next
        case b: True
        obtain c4 e4 where 4: "startSttStreaming F W (c3, e2) = (c4, e4)" by fastforce
        obtain c5 e5 started where 5: "startStreams F W (c4, e4) = ((c5, e5), started)" by (metis prod.collapse)
        let ?t3 = "connect_stt F W ?t2"
        have "user_turn F W (th_at ?t2) ?t2 = Some ?t3" using t b by (simp add: stands_def unlocked_def)
        with u2 have a3: "alone F W ?t1 ?t3" by (blast intro: alone_step alone_one)
        have "stands (OpeningTrack AtStart MicrophoneTrack False) (c4, e4) ?t3" using t 4 by (simp add: stands_def connect_stt_def)
        from this 5 obtain t4 t5 where 6: "alone F W ?t3 t5" "stands AtRest (c5, e5) t4"
          "t5 = (if started then next_track AtStart SystemOutputTrack True t4 else streams_failed AtStart t4)" by (rule alone_startStreams)
        from a3 6(1) have a5: "alone F W ?t1 t5" by (rule alone_trans)
        show thesis
        proof (cases started)
          case True
          with s idle 1 sel 2 made 3 b 4 5 6 have "stands AtRest ce' t5" by (auto simp: start_op_def stands_def)
          with a5 show thesis by (rule that [unfolded c])
        next
          case False
          from s idle 1 sel 2 made 3 b 4 5 False obtain c6 e6 where 7: "stopStreams F W (c5, e5) = Some (c6, e6)"
            by (auto simp: start_op_def bind_eq_Some_conv)
          have "stands (StoppingStream AtFailedStart MicrophoneTrack) (c5, e5) t5" using 6 False by (simp add: stands_def)
          from this 7 obtain t6 where 8: "alone F W t5 t6" "stands (closed AtFailedStart) (c6, e6) t6" by (rule alone_stopStreams)
          let ?t7 = "discard_writer W True t6"
          have "user_turn F W (th_at t6) t6 = Some ?t7" using 8(2) by (simp add: stands_def unlocked_def)
          moreover have "user_turn F W (th_at ?t7) ?t7 = Some (fault_start ?t7)" using 8(2) by (simp add: stands_def unlocked_def discard_writer_def)
          ultimately have "alone F W t6 (fault_start ?t7)" by (blast intro: alone_step alone_one)
          with a5 8(1) have "alone F W ?t1 (fault_start ?t7)" by (blast intro: alone_trans)
          moreover obtain c7 e7 where "discardWriter W (c6, e6) = (c7, e7)" by fastforce
          then have "stands AtRest ce' (fault_start ?t7)"
            using s idle 1 sel 2 made 3 b 4 5 False 7 8(2) by (auto simp: start_op_def stands_def discard_writer_def fault_start_def)
          ultimately show thesis by (rule that [unfolded c])
        qed
      qed
    qed
  qed
qed

text \<open>The lock is given back: from a drain thread at its first pipeline, whatever its rings hold.\<close>

lemma lock_given_back:
  assumes "th_drain t = Some MicrophoneTrack" and "th_app t = (c, e)"
    and "drainPipelineLocked F W MicrophoneTrack c e = Some (c1, e1)" and "drainPipelineLocked F W SystemOutputTrack c1 e1 = Some ce2"
  shows "\<exists>n. threads_run F W (replicate n DrainMoves) t = Some (t\<lparr>th_app := ce2, th_drain := None, th_lock := None\<rparr>)"
proof -
  from drained_track [OF assms(3,1,2)] obtain n where
    1: "threads_run F W (replicate n DrainMoves) t = Some (t\<lparr>th_app := (c1, e1), th_drain := Some SystemOutputTrack\<rparr>)" (is "_ = Some ?t") by auto
  from drained_track [OF assms(4), of ?t] obtain m where
    "threads_run F W (replicate m DrainMoves) ?t = Some (t\<lparr>th_app := ce2, th_drain := None, th_lock := None\<rparr>)" by auto
  with 1 have "threads_run F W (replicate (n + m) DrainMoves) t = Some (t\<lparr>th_app := ce2, th_drain := None, th_lock := None\<rparr>)"
    by (simp add: replicate_add threads.run_append)
  then show ?thesis ..
qed

text \<open>The call behind an event of \<open>Controller\<close>.\<close>

fun call_of :: "app_event \<Rightarrow> thread_move" where
  "call_of StartPressed = StartCalled"
| "call_of PausePressed = PauseCalled"
| "call_of ResumePressed = ResumeCalled"
| "call_of StopPressed = StopCalled"
| "call_of ev = OtherCall ev"

definition from_user :: "app_event \<Rightarrow> bool" where
  "from_user ev \<longleftrightarrow> user_call ev \<or> ev \<in> {StartPressed, PausePressed, ResumePressed, StopPressed}"

lemma undisturbed_call:
  assumes t: "stands AtRest (c, e) t" and ev: "from_user ev" and s: "app_step F W ev (c, e) = Some ce"
  shows "\<exists>n t'. threads_run F W (call_of ev # replicate n UserMoves) t = Some t' \<and> stands AtRest ce t'"
proof -
  have run: "\<exists>n t'. threads_run F W (call_of ev # replicate n UserMoves) t = Some t' \<and> stands AtRest ce t'"
    if "threads_step F W (call_of ev) t = Some t1" "alone F W t1 t2" "stands AtRest ce t2" for t1 t2
    using that by (auto simp: alone_def)
  show ?thesis
  proof (cases "user_call ev")
    case True
    then have "call_of ev = OtherCall ev" by (cases ev) simp_all
    then have "threads_step F W (call_of ev) t = Some (t\<lparr>th_app := ce\<rparr>)" "stands AtRest ce (t\<lparr>th_app := ce\<rparr>)"
      using True s t by (simp_all add: calling_def stands_def)
    with run alone_refl show ?thesis by blast
  next
    case False
    with ev consider "ev = StartPressed" | "ev = PausePressed" | "ev = ResumePressed" | "ev = StopPressed" by (auto simp: from_user_def)
    then show ?thesis
    proof cases
      case 1
      with s obtain good where "start_op F W (c, e) = Some (ce, good)" by auto
      with t obtain t' where "alone F W (start_called W t) t'" "stands AtRest ce t'" by (rule alone_start)
      with 1 t show ?thesis by (intro run) (auto simp: calling_def stands_def)
    next
      case 2
      with s obtain good where "pause_op F W (c, e) = Some (ce, good)" by auto
      with t obtain t' where "alone F W (pause_called t) t'" "stands AtRest ce t'" by (rule alone_pause)
      with 2 t show ?thesis by (intro run) (auto simp: calling_def stands_def)
    next
      case 3
      with s obtain good where "resume_op F W (c, e) = (ce, good)" by (cases "resume_op F W (c, e)") auto
      with t obtain t' where "alone F W (resume_called t) t'" "stands AtRest ce t'" by (rule alone_resume)
      with 3 t show ?thesis by (intro run) (auto simp: calling_def stands_def)
    next
      case 4
      with s obtain good where "stop_op F W (c, e) = Some (ce, good)" by auto
      with t obtain t' where "alone F W (stop_called t) t'" "stands AtRest ce t'" by (rule alone_stop)
      with 4 t show ?thesis by (intro run) (auto simp: calling_def stands_def)
    qed
  qed
qed

text \<open>The destructor, up to the join.\<close>

lemma alone_destroy:
  assumes t: "stands AtRest (c, e) t" and s: "destroy F W (c, e) = Some ce'"
  obtains t' where "alone F W (destructor_called t) t'" "stands Joining ce' t'"
proof -
  from s obtain c1 e1 where 1: "stopStreams F W (c, e) = Some (c1, e1)" "ce' = (stopSttStreaming c1, e1)"
    by (auto simp: destroy_def bind_eq_Some_conv)
  have "stands (StoppingStream AtQuit MicrophoneTrack) (c, e) (destructor_called t)"
    using t by (simp add: destructor_called_def stands_def)
  from this 1(1) obtain t1 where 2: "alone F W (destructor_called t) t1" "stands (closed AtQuit) (c1, e1) t1" by (rule alone_stopStreams)
  have "user_turn F W (th_at t1) t1 = Some (leave_at_quit t1)" using 2(2) by (simp add: stands_def unlocked_def)
  with 2(1) have "alone F W (destructor_called t) (leave_at_quit t1)" by (blast intro: alone_trans alone_one)
  moreover have "stands Joining ce' (leave_at_quit t1)" using 2(2) 1(2) by (simp add: stands_def leave_at_quit_def)
  ultimately show thesis by (rule that)
qed

text \<open>Its join returns: the drain thread finds no pipeline and is told to stop.\<close>

lemma join_returns:
  assumes ok: "threads_ok t" and l: "th_at t = Joining"
  shows "\<exists>n \<le> 3. threads_run F W (replicate n DrainMoves @ [UserMoves]) t
    = Some (destroy_members W (t\<lparr>th_lock := None, th_drain := None, th_drainEnded := True\<rparr>))"
proof -
  have g: "tp_buffer (pipeline x (ctrl t)) = None" for x using ok l by (simp add: threads_ok_def all_gone_shape shape_gone)
  have o: "drain_one F W x (ctrl t, env t) = Some ((ctrl t, env t), False)" for x using g by (cases "th_app t") (simp add: drain_one_def)
  have i: "th_drainStop t" "th_lock t \<noteq> Some UserThread" "th_lock t = Some DrainThread \<longleftrightarrow> th_drain t \<noteq> None"
    "th_drainEnded t \<longrightarrow> th_drain t = None" using ok l by (auto simp: threads_ok_def lock_ok_def end_ok_def)
  have free: "th_lock t = None" if "th_drain t = None" using i(2,3) that by (metis option.exhaust thread.exhaust)
  let ?t = "t\<lparr>th_lock := None, th_drain := None\<rparr>"
  have last: "drain_turn F W ?t = Some (t\<lparr>th_lock := None, th_drain := None, th_drainEnded := True\<rparr>)" if "\<not> th_drainEnded t"
    using i(1) that by (simp add: drain_turn_def)
  have join: "user_turn F W (th_at u) u = Some (destroy_members W u)" if "th_at u = Joining" "th_drainEnded u" for u using that by simp
  show ?thesis
  proof (cases "th_drain t")
    case None
    with free have t: "?t = t" by (cases t) simp
    show ?thesis
    proof (cases "th_drainEnded t")
      case True
      then have "t\<lparr>th_lock := None, th_drain := None, th_drainEnded := True\<rparr> = t" using None free by (cases t) simp
      with True l show ?thesis by (intro exI [of _ 0]) simp
    next
      case False
      from last [OF this] l show ?thesis unfolding t by (intro exI [of _ 1]) simp
    qed
  next
    case (Some x)
    then have ne: "\<not> th_drainEnded t" using i(4) by simp
    have sys: "drain_turn F W (t\<lparr>th_drain := Some SystemOutputTrack\<rparr>) = Some ?t" using o [of SystemOutputTrack]
      by (cases t) (simp add: drain_turn_def)
    show ?thesis
    proof (cases x)
      case MicrophoneTrack
      then have "drain_turn F W t = Some (t\<lparr>th_drain := Some SystemOutputTrack\<rparr>)" using Some o [of MicrophoneTrack]
        by (cases t) (simp add: drain_turn_def)
      with sys last [OF ne] l show ?thesis by (intro exI [of _ 3]) (simp add: numeral_3_eq_3)
    next
      case SystemOutputTrack
      with Some have "t\<lparr>th_drain := Some SystemOutputTrack\<rparr> = t" by (cases t) simp
      with sys last [OF ne] l show ?thesis by (intro exI [of _ 2]) (simp add: numeral_2_eq_2)
    qed
  qed
qed

section \<open>A concrete interleaving\<close>

text \<open>The first frame arrives before its ring is published.\<close>

definition first_moves :: "thread_move list" where
  "first_moves = [StartCalled, UserMoves, UserMoves, DrainMoves, UserMoves, FrameDelivered MicrophoneTrack captured_frame,
     DrainMoves, DrainMoves, UserMoves, UserMoves]"

lemma steady_moves:
  obtains t w k b where "threads_run F steady_world first_moves (resting (new_controller ''d'', \<lambda>_. [])) = Some t"
    "th_at t = AtRest" "th_lock t = None" "th_drain t = None" "th_live t = {MicrophoneTrack}" "env t = (\<lambda>_. [])"
    "th_heard t MicrophoneTrack = ([], [captured_frame])" "th_heard t SystemOutputTrack = ([], [])"
    "rs_state (ct_session (ctrl t)) = Recording"
    "tp_buffer (ct_microphonePipeline (ctrl t)) = Some b" "ring_inv b" "contents b = [captured_frame]"
    "tp_synchronizer (ct_microphonePipeline (ctrl t)) = Some (new_track_sync F (app_sync_config 1))"
    "tp_stream (ct_microphonePipeline (ctrl t)) = Some 0" "ct_systemOutputPipeline (ctrl t) = no_pipeline"
    "ct_writer (ctrl t) = Some w" "ct_writerFailed (ctrl t) = False" "ct_sttClient (ctrl t) = None"
    "ct_pendingOutputFile (ctrl t) = ''d/voxmesh-t.flac''" "ct_writerMicrophoneTrack (ctrl t) = 0"
    "tp_writerTrack (ct_microphonePipeline (ctrl t)) = 0"
    "rw_state w = Open" "rc_tracks (rw_config w) = [archival_track Microphone 1 ''Microphone'']"
    "rs_framesWritten (rw_stats w) = 0"
    "rw_tracks w = [k]" "tk_chunkSamples k = 2" "tk_nextPts k = 0" "\<not> th_drainStop t" "\<not> th_drainEnded t"
proof -
  let ?r = "new_ring empty_frame (unat (ringBufferCapacityFrames default_config))"
  let ?b = "fst (tryPush ?r captured_frame)"
  have b: "ring_inv ?b" "contents ?b = [captured_frame]" "snd (tryPush ?r captured_frame)"
    using ring.push_step [OF new_ring_inv, of empty_frame "unat (ringBufferCapacityFrames default_config)" captured_frame]
    by (simp_all add: bq_push_def default_config_def ring.push_invar new_ring_inv)
  have "\<exists>t w k. threads_run F steady_world first_moves (resting (new_controller ''d'', \<lambda>_. [])) = Some t
    \<and> th_at t = AtRest \<and> th_lock t = None \<and> th_drain t = None \<and> th_live t = {MicrophoneTrack} \<and> env t = (\<lambda>_. [])
    \<and> th_heard t MicrophoneTrack = ([], [captured_frame]) \<and> th_heard t SystemOutputTrack = ([], [])
    \<and> rs_state (ct_session (ctrl t)) = Recording
    \<and> tp_buffer (ct_microphonePipeline (ctrl t)) = Some ?b
    \<and> tp_synchronizer (ct_microphonePipeline (ctrl t)) = Some (new_track_sync F (app_sync_config 1))
    \<and> tp_stream (ct_microphonePipeline (ctrl t)) = Some 0 \<and> ct_systemOutputPipeline (ctrl t) = no_pipeline
    \<and> ct_writer (ctrl t) = Some w \<and> ct_writerFailed (ctrl t) = False \<and> ct_sttClient (ctrl t) = None
    \<and> ct_pendingOutputFile (ctrl t) = ''d/voxmesh-t.flac'' \<and> ct_writerMicrophoneTrack (ctrl t) = 0
    \<and> tp_writerTrack (ct_microphonePipeline (ctrl t)) = 0
    \<and> rw_state w = Open \<and> rc_tracks (rw_config w) = [archival_track Microphone 1 ''Microphone'']
    \<and> rs_framesWritten (rw_stats w) = 0
    \<and> rw_tracks w = [k] \<and> tk_chunkSamples k = 2 \<and> tk_nextPts k = 0 \<and> \<not> th_drainStop t \<and> \<not> th_drainEnded t"
    by (simp add: first_moves_def calling_def start_called_def resting_def isIdle_def new_controller_def new_session_def refreshDevices_def
      demo_world_def steady_world_def defaultIndex_def demo_device_def Let_def unlocked_def create_writer_def createWriter_def
      microphoneSelected_def systemOutputSelected_def selected_def
      writer_tracks_def recording_candidate_def fresh_name_free archival_track_def
      createRecordingWriter_def writer_open_def new_writer_def track_sane_def openTrack_def codec_time_base_def memory_api_def log_call_def
      fire_def handle_def connect_stt_def startSttStreaming_def open_track_def startTrack_def app_state_def
      drain_turn_def drain_one_def no_pipeline_def capture_turn_def sink_pipeline_def publish_track_def b(3)
      split del: if_split)
  then show thesis using b(1,2) by (elim exE conjE) (rule that; assumption)
qed

text \<open>The drain thread takes the frame out while the stop is waiting for the lock.\<close>

lemma steady_drain_one:
  assumes b: "tp_buffer (ct_microphonePipeline c) = Some b" "ring_inv b" "contents b = [captured_frame]"
    and s: "tp_synchronizer (ct_microphonePipeline c) = Some (new_track_sync real_ops (app_sync_config 1))"
    and w: "ct_writer c = Some w" "ct_writerFailed c = False" "tp_writerTrack (ct_microphonePipeline c) = 0" "ct_sttClient c = None"
    and wr: "writer_write memory_api 0 captured_frame (w, e) = Some ((w1, e1), True)"
  obtains p n where "drain_one real_ops steady_world MicrophoneTrack (c, e)
      = Some ((c\<lparr>ct_microphonePipeline := p, ct_framesCaptured := n, ct_writer := Some w1, ct_writerFailed := False\<rparr>, e1), True)"
    "\<And>c. ct_microphonePipeline c = p \<Longrightarrow> drain_one real_ops steady_world MicrophoneTrack (c, e1) = Some ((c, e1), False)"
proof -
  from captured_frame_processed obtain s' where p: "process real_ops (new_track_sync real_ops (app_sync_config 1)) captured_frame
    = Some (s', [captured_frame])" by (auto simp: bind_eq_Some_conv)
  obtain b' r where pop: "tryPop (w_moved_from steady_world) b = (b', r)" by fastforce
  have q: "r = Some captured_frame" "contents b' = []" "ring_inv b'"
    using ring.pop_step [OF b(2), of "w_moved_from steady_world"] ring.pop_invar [OF b(2), of "w_moved_from steady_world"] pop b(3)
    by (simp_all add: bq_pop_def)
  obtain b'' r' where pop': "tryPop (w_moved_from steady_world) b' = (b'', r')" by fastforce
  have "r' = None" using ring.pop_step [OF q(3), of "w_moved_from steady_world"] pop' q(2) by (simp add: bq_pop_def)
  let ?p = "(ct_microphonePipeline c)\<lparr>tp_buffer := Some b', tp_synchronizer := Some s'\<rparr>"
  have "drain_one real_ops steady_world MicrophoneTrack (c, e)
      = Some ((c\<lparr>ct_microphonePipeline := ?p, ct_framesCaptured := ct_framesCaptured c + 1, ct_writer := Some w1, ct_writerFailed := False\<rparr>, e1), True)"
    using b(1) s p w wr pop q(1) by (cases "tp_feedsSttStream (ct_microphonePipeline c)"; cases "ct_sttProducer c")
      (simp_all add: drain_one_def drain_frame_def feed_def store_def Let_def)
  moreover have "drain_one real_ops steady_world MicrophoneTrack (c, e1) = Some ((c, e1), False)" if "ct_microphonePipeline c = ?p" for c :: "real controller"
    using that pop' \<open>r' = None\<close> by (simp add: drain_one_def)
  ultimately show thesis by (rule that)
qed

definition last_moves :: "thread_move list" where
  "last_moves = [StopCalled, UserMoves, UserMoves, DrainMoves, DrainMoves, DrainMoves, DrainMoves, UserMoves, UserMoves,
     UserMoves, UserMoves]"

lemma steady_interleaving:
  obtains t t' where "threads_run real_ops steady_world (first_moves @ last_moves) (resting (new_controller ''d'', \<lambda>_. [])) = Some t"
    "th_at t = Finishing" "threads_step real_ops steady_world UserMoves t = Some t'" "th_at t' = LeavingStt ''d/voxmesh-t.flac'' None"
    "th_heard t MicrophoneTrack = ([[captured_frame]], [])" "th_heard t SystemOutputTrack = ([[]], [])"
    "ct_writerMicrophoneTrack (ctrl t) = 0"
proof -
  obtain t w k b where run: "threads_run real_ops steady_world first_moves (resting (new_controller ''d'', \<lambda>_. [])) = Some t"
    and a: "th_at t = AtRest" "th_lock t = None" "th_drain t = None" "th_live t = {MicrophoneTrack}" "env t = (\<lambda>_. [])"
      "th_heard t MicrophoneTrack = ([], [captured_frame])" "th_heard t SystemOutputTrack = ([], [])"
    and 1: "rs_state (ct_session (ctrl t)) = Recording" "tp_buffer (ct_microphonePipeline (ctrl t)) = Some b" "ring_inv b" "contents b = [captured_frame]"
      "tp_synchronizer (ct_microphonePipeline (ctrl t)) = Some (new_track_sync real_ops (app_sync_config 1))"
      "tp_stream (ct_microphonePipeline (ctrl t)) = Some 0" "ct_systemOutputPipeline (ctrl t) = no_pipeline"
      "ct_writer (ctrl t) = Some w" "ct_writerFailed (ctrl t) = False" "ct_sttClient (ctrl t) = None"
      "ct_pendingOutputFile (ctrl t) = ''d/voxmesh-t.flac''" "ct_writerMicrophoneTrack (ctrl t) = 0"
      "tp_writerTrack (ct_microphonePipeline (ctrl t)) = 0"
    and w: "rw_state w = Open" "rc_tracks (rw_config w) = [archival_track Microphone 1 ''Microphone'']"
      "rs_framesWritten (rw_stats w) = 0" "rw_tracks w = [k]" "tk_chunkSamples k = 2" "tk_nextPts k = 0"
    and z: "\<not> th_drainStop t" "\<not> th_drainEnded t"
    by (rule steady_moves [of real_ops])
  from steady_file [OF w(1,2,4-6)] obtain w1 w2 e2 where
    wr: "writer_write memory_api 0 captured_frame (w, \<lambda>_. []) = Some ((w1, (\<lambda>_. [])(Fifo 0 := [[1, 2]])), True)"
      "rs_framesWritten (rw_stats w1) = 1" "writer_finalize memory_api (w1, (\<lambda>_. [])(Fifo 0 := [[1, 2]])) = Some ((w2, e2), True)"
    using w(3) by auto
  obtain c where c: "th_app t = (c, \<lambda>_. [])" using a(5) by (cases "th_app t") simp
  obtain s where f: "fire Stop c = (c\<lparr>ct_session := s\<rparr>, True)" using 1(1) c by (simp add: fire_def handle_def Let_def)
  obtain p n where d: "drain_one real_ops steady_world MicrophoneTrack (c\<lparr>ct_session := s\<rparr>, \<lambda>_. [])
      = Some ((c\<lparr>ct_session := s, ct_microphonePipeline := p, ct_framesCaptured := n, ct_writer := Some w1, ct_writerFailed := False\<rparr>, (\<lambda>_. [])(Fifo 0 := [[1, 2]])), True)"
    "\<And>c. ct_microphonePipeline c = p \<Longrightarrow> drain_one real_ops steady_world MicrophoneTrack (c, (\<lambda>_. [])(Fifo 0 := [[1, 2]])) = Some ((c, (\<lambda>_. [])(Fifo 0 := [[1, 2]])), False)"
    by (rule steady_drain_one [of "c\<lparr>ct_session := s\<rparr>" b w "\<lambda>_. []" w1 "(\<lambda>_. [])(Fifo 0 := [[1, 2]])"])
      (use 1(2-5,8-10,13) c wr(1) in simp_all)
  have m: "tp_stream (ct_microphonePipeline c) = Some 0" "ct_systemOutputPipeline c = no_pipeline" using 1(6,7) c by simp_all
  let ?cs = "c\<lparr>ct_session := s\<rparr>"
  let ?cd = "?cs\<lparr>ct_microphonePipeline := p, ct_framesCaptured := n, ct_writer := Some w1, ct_writerFailed := False\<rparr>"
  let ?e = "(\<lambda>_. [])(Fifo 0 := [[1, 2]]) :: memory"
  have "\<exists>t1. threads_run real_ops steady_world [StopCalled, UserMoves, UserMoves] t = Some t1 \<and> th_at t1 = Locking AtStop \<and> th_lock t1 = None
    \<and> th_drain t1 = None \<and> th_heard t1 MicrophoneTrack = ([], [captured_frame]) \<and> th_heard t1 SystemOutputTrack = ([], []) \<and> th_app t1 = (?cs, \<lambda>_. [])
    \<and> \<not> th_drainStop t1 \<and> \<not> th_drainEnded t1"
    using a c f m z by (simp add: calling_def stop_called_def close_stream_def stop_stream_def stream_frames_def no_pipeline_def)
  then obtain t1 where t1: "threads_run real_ops steady_world [StopCalled, UserMoves, UserMoves] t = Some t1" "th_at t1 = Locking AtStop"
    "th_lock t1 = None" "th_drain t1 = None" "th_heard t1 MicrophoneTrack = ([], [captured_frame])" "th_heard t1 SystemOutputTrack = ([], [])"
    "th_app t1 = (?cs, \<lambda>_. [])" and nd: "\<not> th_drainStop t1" "\<not> th_drainEnded t1" by blast
  have o: "drain_one real_ops steady_world SystemOutputTrack (?cd, ?e) = Some ((?cd, ?e), False)"
    using m by (simp add: drain_one_def no_pipeline_def)
  have d2: "drain_one real_ops steady_world MicrophoneTrack (?cd, ?e) = Some ((?cd, ?e), False)" by (rule d(2)) simp
  note drains = d(1) d2 o
  let ?ta = "t1\<lparr>th_lock := Some DrainThread, th_drain := Some MicrophoneTrack\<rparr>"
  have "drain_turn real_ops steady_world t1 = Some ?ta" using t1 nd by (simp add: drain_turn_def unlocked_def)
  moreover have "drain_turn real_ops steady_world ?ta = Some (?ta\<lparr>th_app := (?cd, ?e)\<rparr>)" using t1 by (simp add: drain_turn_def d(1))
  moreover have "drain_turn real_ops steady_world (?ta\<lparr>th_app := (?cd, ?e)\<rparr>) = Some (?ta\<lparr>th_app := (?cd, ?e), th_drain := Some SystemOutputTrack\<rparr>)"
    by (simp add: drain_turn_def d2)
  moreover have "drain_turn real_ops steady_world (?ta\<lparr>th_app := (?cd, ?e), th_drain := Some SystemOutputTrack\<rparr>)
    = Some (?ta\<lparr>th_app := (?cd, ?e), th_drain := None, th_lock := None\<rparr>)" by (simp add: drain_turn_def o)
  ultimately have t2: "threads_run real_ops steady_world [DrainMoves, DrainMoves, DrainMoves, DrainMoves] t1
      = Some (?ta\<lparr>th_app := (?cd, ?e), th_drain := None, th_lock := None\<rparr>)" (is "_ = Some ?t2") by (simp only: threads_run.simps threads_step.simps bind.bind_lunit)
  let ?t3 = "?t2\<lparr>th_lock := Some UserThread, th_at := Draining AtStop MicrophoneTrack\<rparr>"
  have "user_turn real_ops steady_world (th_at ?t2) ?t2 = Some ?t3" using t1(2) by (simp add: unlocked_def)
  moreover have "user_turn real_ops steady_world (th_at ?t3) ?t3 = Some (?t3\<lparr>th_at := Draining AtStop SystemOutputTrack\<rparr>)"
    by (simp add: drain_before_drop_def d2)
  moreover have "user_turn real_ops steady_world (th_at (?t3\<lparr>th_at := Draining AtStop SystemOutputTrack\<rparr>)) (?t3\<lparr>th_at := Draining AtStop SystemOutputTrack\<rparr>)
    = Some (?t3\<lparr>th_at := Dropping AtStop\<rparr>)" by (simp add: drain_before_drop_def o)
  moreover have "user_turn real_ops steady_world (th_at (?t3\<lparr>th_at := Dropping AtStop\<rparr>)) (?t3\<lparr>th_at := Dropping AtStop\<rparr>)
    = Some (drop_pipelines AtStop (?t3\<lparr>th_at := Dropping AtStop\<rparr>))" by simp
  ultimately have t4: "threads_run real_ops steady_world [UserMoves, UserMoves, UserMoves, UserMoves] ?t2
      = Some (drop_pipelines AtStop (?t3\<lparr>th_at := Dropping AtStop\<rparr>))" (is "_ = Some ?t4") by (simp only: threads_run.simps threads_step.simps bind.bind_lunit)
  have lm: "last_moves = [StopCalled, UserMoves, UserMoves] @ [DrainMoves, DrainMoves, DrainMoves, DrainMoves] @ [UserMoves, UserMoves, UserMoves, UserMoves]"
    by (simp add: last_moves_def)
  have "threads_run real_ops steady_world last_moves t = Some ?t4"
    unfolding lm threads.run_append t1(1) bind.bind_lunit t2 t4 ..
  moreover have "th_at ?t4 = Finishing" "th_lock ?t4 = None" "th_heard ?t4 MicrophoneTrack = ([[captured_frame]], [])"
    "th_heard ?t4 SystemOutputTrack = ([[]], [])" "env ?t4 = ?e"
    "ctrl ?t4 = ?cs\<lparr>ct_microphonePipeline := no_pipeline, ct_systemOutputPipeline := no_pipeline,
        ct_framesCaptured := n, ct_writer := Some w1, ct_writerFailed := False\<rparr>"
    using t1 by (simp_all add: drop_pipelines_def)
  ultimately have "\<exists>t2. threads_run real_ops steady_world last_moves t = Some t2 \<and> th_at t2 = Finishing \<and> th_lock t2 = None
    \<and> th_heard t2 MicrophoneTrack = ([[captured_frame]], []) \<and> th_heard t2 SystemOutputTrack = ([[]], [])
    \<and> ctrl t2 = c\<lparr>ct_session := s, ct_microphonePipeline := no_pipeline, ct_systemOutputPipeline := no_pipeline,
        ct_framesCaptured := n, ct_writer := Some w1, ct_writerFailed := False\<rparr> \<and> env t2 = ?e" by blast
  then obtain t2 where t2': "threads_run real_ops steady_world last_moves t = Some t2" "th_at t2 = Finishing" "th_lock t2 = None"
    "th_heard t2 MicrophoneTrack = ([[captured_frame]], [])" "th_heard t2 SystemOutputTrack = ([[]], [])"
    and c2: "ctrl t2 = c\<lparr>ct_session := s, ct_microphonePipeline := no_pipeline, ct_systemOutputPipeline := no_pipeline,
        ct_framesCaptured := n, ct_writer := Some w1, ct_writerFailed := False\<rparr>" "env t2 = (\<lambda>_. [])(Fifo 0 := [[1, 2]])" by blast
  have "\<exists>t'. threads_step real_ops steady_world UserMoves t2 = Some t' \<and> th_at t' = LeavingStt ''d/voxmesh-t.flac'' None"
    using t2'(2,3) c2 wr(2,3) 1(11) c by (simp add: unlocked_def finish_recording_def finish_writer_def)
  then obtain t' where "threads_step real_ops steady_world UserMoves t2 = Some t'" "th_at t' = LeavingStt ''d/voxmesh-t.flac'' None" by blast
  moreover have "threads_run real_ops steady_world (first_moves @ last_moves) (resting (new_controller ''d'', \<lambda>_. [])) = Some t2"
    using run t2'(1) by (simp add: threads.run_append)
  ultimately show thesis using that t2' c2 1(12) c by simp
qed

section \<open>Properties\<close>

text \<open>
  C2: the recording does not depend on the interleaving. Let the user's calls, the user interface's
  thread, the drain thread, the capture threads (from the moment a stream is started, before
  its ring is published, until its \<open>stop\<close> returns) and the client's threads move in any order, over any number
  of recordings, pauses and resumes. When a stop comes to the locked block that ends the recording,
  it reports an error, or it finalizes the file it names (header, packets and trailer written, closed,
  renamed), and the packets in every track's stream decode to exactly the frames that its rings
  accepted, each stretch of capture put through a fresh synchroniser: nothing is lost, duplicated
  or reordered by the threads. The packets are all that the track's encoder handed out, which was given
  its own frame size at a time.
\<close>

theorem any_interleaving_saves_what_was_captured:
  assumes "recorder_laws (w_media W) v decode backlog" and "opening_laws (w_media W) v" and "world_laws W v"
    and "controller_ok c" and "app_state c = Idle" and "threads_run F W ms (resting (c, e)) = Some t"
    and "th_at t = Finishing" and "threads_step F W UserMoves t = Some t'" and "th_at t' = LeavingStt saved err"
    and "fits_heard (th_heard t)"
  shows "saved = [] \<and> (\<exists>m \<in> {WriteInterrupted, NothingCaptured} \<union> range NotFinalized. err = Some m)
    \<or> err = None \<and> (\<exists>w w' e'. ct_writer (ctrl t) = Some w \<and> writer_finalize (w_media W) (w, env t) = Some ((w', e'), True)
        \<and> saved_file w' \<and> rc_outputFile (rw_config w') = saved \<and> saved = ct_pendingOutputFile (ctrl t)
        \<and> (\<forall>x. 0 \<le> track_of x (ctrl t) \<longrightarrow> complete (w_media W) v decode
            (spliced F x (fst (th_heard t x))) (nat (track_of x (ctrl t))) (env t) w'))"
proof -
  have "audio_inv F W v decode (resting (c, e))" using assms(4,5)
    by (intro no_writer_audio) (simp add: resting_def controller_ok_def)
  from threads_run_audio [OF assms(1-3,6) resting_ok [OF assms(4,5)] this] have "threads_ok t" "audio_inv F W v decode t" by simp_all
  from finished_file [OF assms(1) this assms(7) _ assms(9,10)] assms(7,8) show ?thesis by (simp add: unlocked_Some)
qed

theorem any_interleaving_saves_what_was_captured_witness:
  "\<exists>t t' w w' e'. threads_run real_ops steady_world (first_moves @ last_moves) (resting (new_controller ''d'', \<lambda>_. [])) = Some t
    \<and> threads_step real_ops steady_world UserMoves t = Some t' \<and> th_at t' = LeavingStt ''d/voxmesh-t.flac'' None
    \<and> ct_writer (ctrl t) = Some w \<and> writer_finalize memory_api (w, env t) = Some ((w', e'), True)
    \<and> saved_file w' \<and> rc_outputFile (rw_config w') = ''d/voxmesh-t.flac''
    \<and> decoded (unpack []) (stream_packets 0 (rw_trace w')) = [[1, 2]]"
proof -
  obtain t t' where run: "threads_run real_ops steady_world (first_moves @ last_moves) (resting (new_controller ''d'', \<lambda>_. [])) = Some t"
    "th_at t = Finishing" "threads_step real_ops steady_world UserMoves t = Some t'" "th_at t' = LeavingStt ''d/voxmesh-t.flac'' None"
    and h: "th_heard t MicrophoneTrack = ([[captured_frame]], [])" "th_heard t SystemOutputTrack = ([[]], [])"
    and tr: "ct_writerMicrophoneTrack (ctrl t) = 0"
    by (rule steady_interleaving)
  have "fits [captured_frame]" "fits []" by (simp_all add: fits_def captured_frame_def sampleCountPerChannel_def most_silence_def)
  then have "fits (concat (fst (th_heard t x)) @ snd (th_heard t x))" for x by (cases x) (simp_all add: h)
  then have fits: "fits_heard (th_heard t)" by (simp add: fits_heard_def)
  have idle: "app_state (new_controller ''d'' :: real controller) = Idle"
    by (simp add: app_state_def new_controller_def new_session_def)
  note C = any_interleaving_saves_what_was_captured [OF steady_laws new_controller_ok idle run fits]
  have "synced real_ops MicrophoneTrack [captured_frame] = [[1, 2]]"
    using captured_frame_processed by (auto simp: synced_def new_sync_def captured_frame_def sample_frames_def sampleCountPerChannel_def Let_def)
  with C h(1) tr obtain w w' e' where "ct_writer (ctrl t) = Some w" "writer_finalize memory_api (w, env t) = Some ((w', e'), True)"
    "saved_file w'" "rc_outputFile (rw_config w') = ''d/voxmesh-t.flac''"
    "complete memory_api memory_view (\<lambda>_. unpack []) [[1, 2]] 0 (env t) w'" by (auto dest: spec [of _ MicrophoneTrack])
  moreover from this(5) have "decoded (unpack []) (stream_packets 0 (rw_trace w')) = [[1, 2]]" unfolding complete_def by blast
  ultimately show ?thesis using run by blast
qed

text \<open>
  C11: an undisturbed call is the operation. When the user interface's thread is at rest and
  the lock is free, a call runs, with no other thread moving, to its end, and has then done to the
  controller and to the outside world what the operation of \<open>Controller\<close> does in one step:
  the properties of the operations are about runs of the threads.
\<close>

theorem undisturbed_calls_are_the_operations:
  assumes "th_at t = AtRest" and "th_lock t = None" and "from_user ev" and "app_step F W ev (th_app t) = Some ce"
  shows "\<exists>n t'. threads_run F W (call_of ev # replicate n UserMoves) t = Some t'
    \<and> th_at t' = AtRest \<and> th_lock t' = None \<and> th_app t' = ce"
proof -
  have t: "stands AtRest (ctrl t, env t) t" using assms(1,2) by (simp add: stands_def)
  have "app_step F W ev (ctrl t, env t) = Some ce" using assms(4) by simp
  from undisturbed_call [OF t assms(3) this] obtain n t' where
    "threads_run F W (call_of ev # replicate n UserMoves) t = Some t'" "stands AtRest ce t'" by blast
  then show ?thesis unfolding stands_def by blast
qed

theorem undisturbed_calls_are_the_operations_witness:
  "\<exists>n t'. threads_run real_ops steady_world (StartCalled # replicate n UserMoves) (resting (new_controller ''d'', \<lambda>_. [])) = Some t'
    \<and> th_at t' = AtRest \<and> rs_state (ct_session (ctrl t')) = Recording"
proof -
  let ?t = "resting (new_controller ''d'', \<lambda>_. []) :: (real, memory) threads"
  obtain c where c: "start_op real_ops steady_world (new_controller ''d'', \<lambda>_. []) = Some ((c, \<lambda>_. []), True)"
    "rs_state (ct_session c) = Recording" by (rule steady_start [of real_ops])
  have "th_at ?t = AtRest" "th_lock ?t = None" "from_user StartPressed"
    "app_step real_ops steady_world StartPressed (th_app ?t) = Some (c, \<lambda>_. [])"
    using c(1) by (simp_all add: resting_def from_user_def)
  from undisturbed_calls_are_the_operations [OF this] c(2) show ?thesis
    by (metis call_of.simps(1) fst_conv)
qed

text \<open>
  C12: the threads keep the controller consistent. After any moves: the controller's invariant holds whenever
  the user interface's thread is at rest; the thread that is inside a section of \<open>pipelineMutex_\<close> is
  the one that holds it, so never both; and a stream that may still deliver finds a ring
  behind its sink, in \<open>startTrack\<close>'s local variable before the pipeline is published and in the controller
  until the stream has stopped: no frame goes through a dangling pointer.
\<close>

theorem threads_keep_the_controller_consistent:
  assumes "controller_ok c" and "app_state c = Idle" and "threads_run F W ms (resting (c, e)) = Some t"
  shows "(th_at t = AtRest \<longrightarrow> controller_ok (ctrl t))
    \<and> (holds_lock (th_at t) \<longleftrightarrow> th_lock t = Some UserThread) \<and> (th_drain t \<noteq> None \<longleftrightarrow> th_lock t = Some DrainThread)
    \<and> (\<forall>x \<in> th_live t. \<forall>f. tp_buffer (sink_pipeline x t) \<noteq> None \<and> capture_turn x f t \<noteq> None)"
proof -
  have ok: "threads_ok t" by (rule threads_run_ok [OF assms(3) resting_ok [OF assms(1,2)]])
  show ?thesis
  proof (intro conjI ballI allI)
    show "th_at t = AtRest \<longrightarrow> controller_ok (ctrl t)" using ok by (auto simp: threads_ok_def)
    show "holds_lock (th_at t) \<longleftrightarrow> th_lock t = Some UserThread" "th_drain t \<noteq> None \<longleftrightarrow> th_lock t = Some DrainThread"
      using ok unfolding threads_ok_def lock_ok_def by blast+
  qed (use capture_defined [OF ok] in blast)+
qed

theorem threads_keep_the_controller_consistent_witness:
  "\<exists>t. threads_run real_ops steady_world first_moves (resting (new_controller ''d'', \<lambda>_. [])) = Some t
    \<and> th_at t = AtRest \<and> controller_ok (ctrl t) \<and> MicrophoneTrack \<in> th_live t
    \<and> capture_turn MicrophoneTrack captured_frame t \<noteq> None"
proof -
  obtain t where t: "threads_run real_ops steady_world first_moves (resting (new_controller ''d'', \<lambda>_. [])) = Some t"
    "th_at t = AtRest" "th_live t = {MicrophoneTrack}" by (rule steady_moves [of real_ops])
  have "app_state (new_controller ''d'' :: real controller) = Idle"
    by (simp add: app_state_def new_controller_def new_session_def)
  from threads_keep_the_controller_consistent [OF new_controller_ok this t(1)] t show ?thesis by auto
qed

text \<open>
  C13: destroying the controller ends its threads. Once the destructor waits for the drain thread, three
  steps of that thread at most let the join return, whatever it was doing; and when
  the destructor is done no stream is live, nobody has the lock, the writer and the
  pipelines are gone, and no thread can change anything any more.
\<close>

theorem destructor_ends_the_threads:
  assumes "controller_ok c" and "app_state c = Idle" and "threads_run F W ms (resting (c, e)) = Some t"
  shows "(th_at t = Joining \<longrightarrow> (\<exists>n \<le> 3. \<exists>t'. threads_run F W (replicate n DrainMoves @ [UserMoves]) t = Some t' \<and> th_at t' = Destroyed))
    \<and> (th_at t = Destroyed \<longrightarrow> th_live t = {} \<and> th_lock t = None \<and> ct_writer (ctrl t) = None \<and> all_gone (ctrl t)
        \<and> (\<forall>m t'. threads_step F W m t = Some t' \<longrightarrow> t' = t))"
proof -
  have ok: "threads_ok t" by (rule threads_run_ok [OF assms(3) resting_ok [OF assms(1,2)]])
  have "\<exists>n \<le> 3. \<exists>t'. threads_run F W (replicate n DrainMoves @ [UserMoves]) t = Some t' \<and> th_at t' = Destroyed" if "th_at t = Joining"
    using join_returns [OF ok that, of F W] by (auto simp: destroy_members_def)
  moreover have "th_live t = {} \<and> th_lock t = None \<and> ct_writer (ctrl t) = None \<and> all_gone (ctrl t)
        \<and> (\<forall>m t'. threads_step F W m t = Some t' \<longrightarrow> t' = t)" if l: "th_at t = Destroyed"
  proof -
    have i: "th_new t = None" "all_gone (ctrl t)" "ct_sttClient (ctrl t) = None" "ct_writer (ctrl t) = None" "th_drainEnded t"
      "th_drain t = None" "th_lock t \<noteq> Some UserThread" "th_lock t \<noteq> Some DrainThread"
      using ok l by (auto simp: threads_ok_def new_ok_def lock_ok_def end_ok_def split: option.splits)
    have live: "th_live t = {}" using ok i(1,2) by (auto simp: threads_ok_def live_ok_def sink_pipeline_def all_gone_shape)
    have lock: "th_lock t = None" using i(7,8) by (metis option.exhaust thread.exhaust)
    have "t' = t" if "threads_step F W m t = Some t'" for m t'
      using that l i(3,5,6) live
      by (cases m) (auto simp: calling_def drain_turn_def client_thread_step_def)
    with i live lock show ?thesis by blast
  qed
  ultimately show ?thesis by blast
qed

theorem destructor_ends_the_threads_witness:
  "\<exists>t t'. threads_run real_ops steady_world (DestructorCalled # replicate 7 UserMoves) (resting (new_controller ''d'', \<lambda>_. [])) = Some t
    \<and> th_at t = Joining \<and> threads_run real_ops steady_world [DrainMoves, UserMoves] t = Some t'
    \<and> th_at t' = Destroyed \<and> th_live t' = {} \<and> threads_step real_ops steady_world DrainMoves t' = None
    \<and> threads_step real_ops steady_world (NetworkMoves Take) t' = Some t'"
proof -
  let ?t0 = "resting (new_controller ''d'', \<lambda>_. []) :: (real, memory) threads"
  have "\<exists>t t'. threads_run real_ops steady_world (DestructorCalled # replicate 7 UserMoves) ?t0 = Some t \<and> th_at t = Joining
    \<and> threads_run real_ops steady_world [DrainMoves, UserMoves] t = Some t' \<and> th_at t' = Destroyed \<and> th_drain t' = None \<and> th_drainEnded t'"
    by (simp add: numeral_eq_Suc calling_def destructor_called_def resting_def close_stream_def stop_stream_def unlocked_def
      new_controller_def no_pipeline_def drain_before_drop_def drain_one_def drop_pipelines_def leave_at_quit_def drain_turn_def destroy_members_def)
  then obtain t t' where t: "threads_run real_ops steady_world (DestructorCalled # replicate 7 UserMoves) ?t0 = Some t" "th_at t = Joining"
    "threads_run real_ops steady_world [DrainMoves, UserMoves] t = Some t'" "th_at t' = Destroyed" "th_drain t' = None" "th_drainEnded t'" by blast
  from t(1,3) have run: "threads_run real_ops steady_world ((DestructorCalled # replicate 7 UserMoves) @ [DrainMoves, UserMoves]) ?t0 = Some t'"
    by (simp only: threads.run_append bind.bind_lunit)
  have "app_state (new_controller ''d'' :: real controller) = Idle" by (simp add: app_state_def new_controller_def new_session_def)
  note D = destructor_ends_the_threads [OF new_controller_ok this run]
  have n: "threads_step real_ops steady_world (NetworkMoves Take) t' \<noteq> None" by simp
  from D t(4) have d: "th_live t' = {}" "\<forall>m u. threads_step real_ops steady_world m t' = Some u \<longrightarrow> u = t'" by blast+
  with n have "th_live t' = {}" "threads_step real_ops steady_world (NetworkMoves Take) t' = Some t'" by blast+
  with t show ?thesis by (auto simp: drain_turn_def)
qed

end
