(* ===== verification/Formats.thy ===== *)
theory Formats
  imports EndToEnd Wasapi FakeBackend
begin

text \<open>
  The formats along the recorder's pipeline, as a typing of its state: a track's ring, its
  synchroniser and its track of the file agree on the format, every event keeps it so, and
  therefore the writer never refuses a frame for its format.
\<close>

section \<open>The typing\<close>

text \<open>The format the controller asks a track's capture stream for, and sets its file track up with.\<close>

definition wire_format :: "which \<Rightarrow> track_format" where
  "wire_format x = \<lparr>tf_sampleRate = 48000, tf_channels = channels_of x, tf_format = PcmS16Le\<rparr>"

definition has_format :: "which \<Rightarrow> audio_frame \<Rightarrow> bool" where
  "has_format x f \<longleftrightarrow> frame_matches (wire_format x) f"

definition sync_typed :: "which \<Rightarrow> 'd track_sync \<Rightarrow> bool" where
  "sync_typed x s \<longleftrightarrow> cs_sampleRate (ts_config s) = 48000 \<and> cs_channels (ts_config s) = channels_of x
     \<and> cs_format (ts_config s) = PcmS16Le"

definition track_typed :: "writer \<Rightarrow> which \<Rightarrow> int \<Rightarrow> bool" where
  "track_typed w x t \<longleftrightarrow> (0 \<le> t \<longrightarrow> nat t < length (rc_tracks (rw_config w)) \<and> rt_format (rc_tracks (rw_config w) ! nat t) = wire_format x)"

text \<open>A pipeline: what is in the ring, the synchroniser, and all the stream may still deliver.\<close>

definition pipe_typed :: "'e world \<Rightarrow> which \<Rightarrow> 'd track_pipeline \<Rightarrow> bool" where
  "pipe_typed W x p \<longleftrightarrow>
     (\<forall>b. tp_buffer p = Some b \<longrightarrow> ring_inv b \<and> (\<forall>f \<in> set (contents b). has_format x f))
   \<and> (\<forall>s. tp_synchronizer p = Some s \<longrightarrow> sync_typed x s)
   \<and> (\<forall>h e. tp_stream p = Some h \<longrightarrow> (\<forall>f \<in> set (snd (w_stopStream W h e)). has_format x f))"

definition typed :: "'e world \<Rightarrow> 'd controller \<Rightarrow> bool" where
  "typed W c \<longleftrightarrow> (\<forall>x. pipe_typed W x (pipeline x c))
     \<and> (\<forall>w. ct_writer c = Some w \<longrightarrow> rw_lastError w \<noteq> FormatMismatch
         \<and> (\<forall>x. track_typed w x (track_of x c) \<and> (tp_buffer (pipeline x c) \<noteq> None \<longrightarrow> track_typed w x (tp_writerTrack (pipeline x c)))))"

text \<open>What the code relies on: a stream delivers frames in the format it was started with.\<close>

definition streams_as_asked :: "'e world \<Rightarrow> bool" where
  "streams_as_asked W \<longleftrightarrow> (\<forall>k e e' h. w_startCapture W k e = (e', Inr h) \<longrightarrow>
     (\<forall>e2. \<forall>f \<in> set (snd (w_stopStream W h e2)). frame_matches
       \<lparr>tf_sampleRate = cc_sampleRate k, tf_channels = cc_channels k, tf_format = cc_format k\<rparr> f))"

fun event_typed :: "app_event \<Rightarrow> bool" where
  "event_typed (FrameCaptured x f) \<longleftrightarrow> has_format x f"
| "event_typed _ \<longleftrightarrow> True"

lemma typed_cong:
  assumes "audio_part c' = audio_part c"
  shows "typed W c' = typed W c"
proof -
  have "ct_writer c' = ct_writer c" using assms by (simp add: audio_part_def)
  then show ?thesis by (simp only: typed_def audio_part_pipeline [OF assms] audio_part_track [OF assms])
qed

lemma pipe_typed_gone: "tp_buffer p = None \<Longrightarrow> tp_synchronizer p = None \<Longrightarrow> tp_stream p = None \<Longrightarrow> pipe_typed W x p"
  by (simp add: pipe_typed_def)

lemma typed_idle: "controller_ok c \<Longrightarrow> app_state c = Idle \<Longrightarrow> typed W c"
proof -
  assume "controller_ok c" "app_state c = Idle"
  then have "pipe_typed W x (pipeline x c)" for x
    by (cases x) (auto intro!: pipe_typed_gone simp: controller_ok_def shape_def gone_def)
  moreover have "ct_writer c = None" using \<open>controller_ok c\<close> \<open>app_state c = Idle\<close> by (simp add: controller_ok_def)
  ultimately show ?thesis by (simp add: typed_def)
qed

section \<open>The synchroniser and the writer\<close>

lemma process_typed:
  assumes "process F s f = Some (s', outs)" and "sync_typed x s" and "has_format x f"
  shows "sync_typed x s' \<and> (\<forall>g \<in> set outs. has_format x g)"
proof -
  from process_block(1) [OF assms(1)] obtain sils q d where
    o: "outs = sils @ [f\<lparr>fr_sequence := q, fr_discontinuity := d\<rparr>]" "\<forall>g \<in> set sils. is_silence (ts_config s) g"
    by (auto simp: sync_block_def)
  from o(2) assms(2) have "\<forall>g \<in> set sils. has_format x g"
    by (auto simp: is_silence_def sync_typed_def has_format_def frame_matches_def wire_format_def)
  moreover have "has_format x (f\<lparr>fr_sequence := q, fr_discontinuity := d\<rparr>)"
    using assms(3) by (simp add: has_format_def frame_matches_def)
  ultimately show ?thesis using o(1) assms(2) process_block(4) [OF assms(1)] by (simp add: sync_typed_def)
qed

lemma writer_write_typed:
  assumes "writer_write m t f (w, e) = Some ((w', e'), b)" and "rw_lastError w \<noteq> FormatMismatch"
    and "t < length (rc_tracks (rw_config w)) \<and> rt_format (rc_tracks (rw_config w) ! t) = wire_format x" and "has_format x f"
  shows "rw_lastError w' \<noteq> FormatMismatch \<and> rw_config w' = rw_config w"
  using assms(1)
proof (cases rule: writer_write_cases)
  case (written e1 stored w1 st)
  from encodeBuffered_encodes [OF this(6)] obtain cs where "encodes w w1 cs" ..
  from encodes_fields [OF this] written assms(2) show ?thesis by simp
next
  case (failed w1 cs)
  with encodes_fields [OF failed(2)] show ?thesis by (simp add: writer_fail_def)
qed (use assms(2-4) in \<open>auto simp: has_format_def\<close>)

lemma write_all_typed:
  "write_all m t fs (w, e) = Some ((w', e'), b) \<Longrightarrow> rw_lastError w \<noteq> FormatMismatch \<Longrightarrow>
   t < length (rc_tracks (rw_config w)) \<and> rt_format (rc_tracks (rw_config w) ! t) = wire_format x \<Longrightarrow>
   \<forall>f \<in> set fs. has_format x f \<Longrightarrow> rw_lastError w' \<noteq> FormatMismatch \<and> rw_config w' = rw_config w"
proof (induction fs arbitrary: w e)
  case (Cons f fs)
  from Cons.prems(1) obtain w1 e1 good where 1: "writer_write m t f (w, e) = Some ((w1, e1), good)"
    "(if good then write_all m t fs (w1, e1) else Some ((w1, e1), False)) = Some ((w', e'), b)"
    by (auto simp: bind_eq_Some_conv)
  note v = writer_write_typed [OF 1(1) Cons.prems(2,3)]
  with Cons.prems(4) have "rw_lastError w1 \<noteq> FormatMismatch" "rw_config w1 = rw_config w" by simp_all
  with 1(2) Cons.IH [of w1 e1] Cons.prems(3,4) show ?case by (auto split: if_splits)
qed simp

lemma create_lastError:
  assumes "createRecordingWriter m config e = (Inr w, e')"
  shows "rw_lastError w \<noteq> FormatMismatch"
proof -
  from assms have "writer_open m (new_writer config, e) = ((w, e'), None)"
    by (auto simp: createRecordingWriter_def split: prod.splits option.splits)
  then obtain w0 e0 w1 e1 where 1: "openTracks m (rc_tracks config) (w0, e0) = ((w1, e1), None)"
    "rw_lastError w0 = InvalidState" "rw_lastError w = rw_lastError w1"
    by (auto simp: writer_open_def new_writer_def Let_def log_call_def split: if_splits prod.splits option.splits)
  from openTracks_ok [OF 1(1)] 1(2,3) show ?thesis by auto
qed

lemma startStt_part: "startSttStreaming F W (c, e) = (c', e') \<Longrightarrow> audio_part c' = audio_part c"
  by (auto simp: startSttStreaming_def Let_def split_beta ui_fail_def audio_part_def split: if_splits option.splits)

section \<open>Every event keeps the typing\<close>

text \<open>Replacing one pipeline, and changing the writer without its configuration.\<close>

lemma typed_pipeline:
  assumes "typed W c" and "pipe_typed W x p"
    and "\<And>w. ct_writer c = Some w \<Longrightarrow> tp_buffer p \<noteq> None \<Longrightarrow> track_typed w x (tp_writerTrack p)"
  shows "typed W (set_pipeline x p c)"
  using assms unfolding typed_def by auto

lemma typed_writer:
  assumes "typed W c" and "\<And>y. pipeline y c' = pipeline y c" and "\<And>y. track_of y c' = track_of y c"
    and "\<And>w'. ct_writer c' = Some w' \<Longrightarrow> \<exists>w. ct_writer c = Some w \<and> rw_config w' = rw_config w \<and> rw_lastError w' \<noteq> FormatMismatch"
  shows "typed W c'"
  using assms(1) unfolding typed_def assms(2,3) track_typed_def by (metis assms(4))

lemma store_typed:
  assumes "store m (tp_writerTrack (pipeline x c)) outs (c, e) = Some (c', e')" and "typed W c"
    and "\<forall>g \<in> set outs. has_format x g" and "tp_buffer (pipeline x c) \<noteq> None"
  shows "typed W c'"
proof (rule typed_writer [OF assms(2)])
  show "pipeline y c' = pipeline y c" "track_of y c' = track_of y c" for y
    using store_frame [OF assms(1), of y] store_kept [OF assms(1), of y] by simp_all
  fix w' assume w': "ct_writer c' = Some w'"
  let ?t = "tp_writerTrack (pipeline x c)"
  show "\<exists>w. ct_writer c = Some w \<and> rw_config w' = rw_config w \<and> rw_lastError w' \<noteq> FormatMismatch"
  proof (cases "ct_writer c = None \<or> ?t < 0 \<or> ct_writerFailed c")
    case True
    with assms(1,2) w' show ?thesis by (auto simp: store_def typed_def split: option.splits)
  next
    case False
    then obtain w where w: "ct_writer c = Some w" "0 \<le> ?t" "\<not> ct_writerFailed c" by auto
    with assms(1) w' obtain e1 b where "write_all m (nat ?t) outs (w, e) = Some ((w', e1), b)"
      by (auto simp: store_def bind_eq_Some_conv split: if_splits)
    moreover have w1: "rw_lastError w \<noteq> FormatMismatch" "track_typed w x ?t"
      using assms(2,4) w(1) by (simp_all add: typed_def)
    moreover have "nat ?t < length (rc_tracks (rw_config w)) \<and> rt_format (rc_tracks (rw_config w) ! nat ?t) = wire_format x"
      using w1(2) w(2) by (simp add: track_typed_def)
    ultimately have "rw_lastError w' \<noteq> FormatMismatch \<and> rw_config w' = rw_config w"
      by (intro write_all_typed [OF _ w1(1) _ assms(3)])
    with w(1) show ?thesis by simp
  qed
qed

lemma feed_audio: "feed F now feeds outs c = Some c' \<Longrightarrow> audio_part c' = audio_part c"
  by (erule feed_cases) (simp_all add: audio_part_def)

lemma drain_frame_typed:
  assumes "drain_frame F W x f (c, e) = Some (c', e')" and "typed W c" and "has_format x f" and "tp_buffer (pipeline x c) \<noteq> None"
  shows "typed W c'"
proof -
  from assms(1) obtain s s' outs c1 where 1: "tp_synchronizer (pipeline x c) = Some s" "process F s f = Some (s', outs)" and
    f: "feed F (w_unixMs W e) (tp_feedsSttStream (pipeline x c)) outs ((set_pipeline x
       ((pipeline x c)\<lparr>tp_synchronizer := Some s'\<rparr>) c)\<lparr>ct_framesCaptured := ct_framesCaptured c + of_nat (length outs)\<rparr>)
     = Some c1" and st: "store (w_media W) (tp_writerTrack (pipeline x c)) outs (c1, e) = Some (c', e')"
    by (rule drain_frame_cases)
  let ?p = "(pipeline x c)\<lparr>tp_synchronizer := Some s'\<rparr>"
  let ?c = "(set_pipeline x ?p c)\<lparr>ct_framesCaptured := ct_framesCaptured c + of_nat (length outs)\<rparr>"
  have x: "pipe_typed W x (pipeline x c)" using assms(2) by (simp add: typed_def)
  with 1(1) have "sync_typed x s" by (simp add: pipe_typed_def)
  from process_typed [OF 1(2) this assms(3)] have o: "sync_typed x s'" "\<forall>g \<in> set outs. has_format x g" by simp_all
  with x have "pipe_typed W x ?p" by (simp add: pipe_typed_def)
  then have "typed W (set_pipeline x ?p c)"
    using assms(2,4) by (intro typed_pipeline) (simp_all add: typed_def)
  moreover have "\<exists>w0. ct_writer c = Some w0 \<and> rw_config w = rw_config w0 \<and> rw_lastError w \<noteq> FormatMismatch"
    if "ct_writer c = Some w" for w using that assms(2) by (simp add: typed_def)
  ultimately have "typed W ?c"
    by (elim typed_writer) (simp_all add: captured_track skeleton_captured)
  then have "typed W c1" by (simp only: typed_cong [OF feed_audio [OF f]])
  moreover have "tp_writerTrack (pipeline x c1) = tp_writerTrack (pipeline x c)" "tp_buffer (pipeline x c1) \<noteq> None"
    using audio_part_pipeline [OF feed_audio [OF f], of x] assms(4) by (simp_all add: skeleton_captured)
  ultimately show ?thesis using store_typed [of "w_media W" x c1 outs e c' e' W] st o(2) by simp
qed

lemma drain_one_typed:
  assumes "drain_one F W x (c, e) = Some ((c', e'), again)" and "typed W c"
  shows "typed W c'"
  using assms(1)
proof (cases rule: drain_one_cases)
  case (frame b s f b')
  let ?p = "(pipeline x c)\<lparr>tp_buffer := Some b'\<rparr>"
  have x: "pipe_typed W x (pipeline x c)" using assms(2) by (simp add: typed_def)
  with frame(1) have r: "ring_inv b" "\<forall>f \<in> set (contents b). has_format x f" by (simp_all add: pipe_typed_def)
  from ring.pop_step [OF r(1), of "w_moved_from W"] frame(3) have "contents b = f # contents b'"
    by (auto simp: bq_pop_def split: list.splits)
  with r(2) have f: "has_format x f" "\<forall>f \<in> set (contents b'). has_format x f" by simp_all
  moreover have "ring_inv b'" using ring.pop_invar [OF r(1), of "w_moved_from W"] frame(3) by simp
  ultimately have "pipe_typed W x ?p" using x by (simp add: pipe_typed_def)
  then have "typed W (set_pipeline x ?p c)" using assms(2) frame(1) by (intro typed_pipeline) (auto simp: typed_def)
  from drain_frame_typed [OF frame(4) this f(1)] show ?thesis by simp
qed (use assms(2) in simp)

lemma onFrame_typed:
  assumes "typed W c" and "has_format x f"
  shows "typed W (onFrame x f c)"
proof (cases "tp_buffer (pipeline x c)")
  case (Some b)
  have x: "pipe_typed W x (pipeline x c)" using assms(1) by (simp add: typed_def)
  with Some have r: "ring_inv b" "\<forall>f \<in> set (contents b). has_format x f" by (simp_all add: pipe_typed_def)
  from ring.push_step [OF r(1), of f] have "set (contents (fst (tryPush b f))) \<subseteq> insert f (set (contents b))"
    by (auto simp: bq_push_def split: if_splits)
  with x r assms(2) ring.push_invar [OF r(1), of f]
  have "pipe_typed W x ((pipeline x c)\<lparr>tp_buffer := Some (fst (tryPush b f))\<rparr>)" by (auto simp: pipe_typed_def)
  with Some assms(1) show ?thesis
    by (auto simp: onFrame_def typed_def intro!: typed_pipeline)
qed (simp add: onFrame_def assms(1))

lemma onFrames_typed: "typed W c \<Longrightarrow> \<forall>f \<in> set fs. has_format x f \<Longrightarrow> typed W (fold (onFrame x) fs c)"
  by (induction fs arbitrary: c) (simp_all add: onFrame_typed)

lemma stop_stream_typed:
  assumes "stop_stream W x (c, e) = (c', e')" and "typed W c"
  shows "typed W c'"
proof (cases "tp_stream (pipeline x c)")
  case (Some h)
  have "\<forall>f \<in> set (snd (w_stopStream W h e)). has_format x f"
    using assms(2) Some by (simp add: typed_def pipe_typed_def)
  with onFrames_typed [OF assms(2) this] assms(1) Some show ?thesis
    by (simp add: stop_stream_def split_beta Let_def)
qed (use assms in \<open>simp add: stop_stream_def\<close>)

lemma stopStreams_typed:
  assumes "stopStreams F W (c, e) = Some (c', e')" and "typed W c"
  shows "typed W c'"
proof (rule stopStreams_rule [where I = "typed W", OF assms])
  fix c1 :: "'a controller"
  assume "typed W c1"
  then have "typed W (set_pipeline SystemOutputTrack no_pipeline (set_pipeline MicrophoneTrack no_pipeline c1))"
    by (intro typed_pipeline) (simp_all add: pipe_typed_def no_pipeline_def)
  then show "typed W (c1\<lparr>ct_microphonePipeline := no_pipeline, ct_systemOutputPipeline := no_pipeline\<rparr>)" by simp
qed (rule stop_stream_typed drain_one_typed; assumption)+

lemma startTrack_typed:
  assumes sa: "streams_as_asked W" and "typed W c"
    and st: "startTrack F W x device kind (channels_of x) (track_of x c) feeds (c, e) = ((c', e'), good)"
  shows "typed W c'"
proof -
  let ?k = "\<lparr>cc_deviceId = dev_id device, cc_track = kind, cc_sampleRate = 48000, cc_channels = channels_of x,
    cc_format = PcmS16Le, cc_frameDuration = captureFrameDuration (ct_config c)\<rparr>"
  obtain e1 r where 1: "w_startCapture W ?k e = (e1, r)" by fastforce
  show ?thesis
  proof (cases r)
    case (Inl err)
    with st 1 have "c' = ui_fail (CaptureFailed (device_label device) err) c" by (auto simp: startTrack_def Let_def)
    then have "audio_part c' = audio_part c" by (simp add: audio_part_def ui_fail_def)
    from typed_cong [OF this, of W] assms(2) show ?thesis by simp
  next
    case (Inr h)
    define p where "p = \<lparr>tp_buffer = Some (new_ring empty_frame (unat (ringBufferCapacityFrames (ct_config c)))), tp_stream = Some h,
      tp_synchronizer = Some (new_sync F x), tp_writerTrack = track_of x c, tp_feedsSttStream = feeds\<rparr>"
    from st 1 Inr have c': "c' = set_pipeline x p c" by (auto simp: startTrack_def Let_def p_def new_sync_def)
    have "\<forall>f \<in> set (snd (w_stopStream W h e2)). has_format x f" for e2
      using sa 1 Inr unfolding streams_as_asked_def has_format_def wire_format_def by fastforce
    moreover have "sync_typed x (new_sync F x)" by (simp add: sync_typed_def app_sync_config_def)
    ultimately have "pipe_typed W x p" using new_ring_inv by (simp add: pipe_typed_def p_def)
    with assms(2) show ?thesis unfolding c'
      by (intro typed_pipeline) (simp_all add: p_def, simp_all add: typed_def)
  qed
qed

lemma startStreams_typed:
  assumes sa: "streams_as_asked W" and "typed W c" and st: "startStreams F W (c, e) = ((c', e'), good)"
  shows "typed W c'"
  by (rule startStreams_rule [where P = "\<lambda>d _. typed W d" and Q = "\<lambda>d _. typed W d", OF st assms(2)])
    (auto intro: startTrack_typed [OF sa, where x = MicrophoneTrack, simplified channels_of.simps track_of.simps, OF assms(2)]
      startTrack_typed [OF sa, where x = SystemOutputTrack, simplified channels_of.simps track_of.simps])

lemma typed_session: "typed W (c\<lparr>ct_session := s\<rparr>) = typed W c"
  by (rule typed_cong [OF session_part])

lemma fire_typed: "typed W (fst (fire ev c)) = typed W c"
proof -
  obtain c1 b where "fire ev c = (c1, b)" by fastforce
  with fire_state [OF this] show ?thesis by (auto simp: typed_session)
qed

lemma start_typed:
  assumes sa: "streams_as_asked W" and ok: "controller_ok c" and st: "start_op F W (c, e) = Some ((c', e'), True)"
  shows "typed W c'"
proof -
  from st obtain ca ea cb eb s cc ec cd where 1: "isIdle c"
    "(if ct_microphones c = [] \<and> ct_systemOutputs c = [] then refreshDevices W (c, e) else (c, e)) = (ca, ea)"
    and 2: "createWriter W (ca\<lparr>ct_lastError := None\<rparr>, ea) = Some ((cb, eb), True)"
    and 3: "startSttStreaming F W (cb\<lparr>ct_session := s\<rparr>, eb) = (cc, ec)"
    and 4: "startStreams F W (cc, ec) = ((cd, e'), True)" "c' = cd\<lparr>ct_statsTimer := True\<rparr>"
    by (rule start_cases)
  have "streams_part ca = streams_part c"
    using 1(2) refreshDevices_frame [of W c e ca ea] by (auto split: if_splits)
  with createWriter_frame [OF 2] have p: "streams_part cb = streams_part c" by (simp add: streams_part_def)
  have gone: "tp_buffer (pipeline x cb) = None" "tp_synchronizer (pipeline x cb) = None" "tp_stream (pipeline x cb) = None" for x
    using p ok 1(1) by (cases x; auto simp: streams_part_def isIdle_state controller_ok_def shape_def gone_def)+
  have "typed W cb"
    using 2
  proof (cases rule: createWriter_cases)
    case (opened w candidate e1 i j)
    have w: "ct_writer cb = Some w"
      and tr: "track_of x cb = (case x of MicrophoneTrack \<Rightarrow> i | SystemOutputTrack \<Rightarrow> j)" for x
      by (cases x; simp add: opened(2))+
    note o = create_open [OF opened(5)]
    have "track_typed w x (track_of x cb)" for x
      by (cases x) (auto simp: track_typed_def tr opened(6,7) o(2) writer_tracks_def archival_track_def wire_format_def)
    moreover have "rw_lastError w \<noteq> FormatMismatch" by (rule create_lastError [OF opened(5)])
    ultimately show ?thesis using w gone by (simp add: typed_def pipe_typed_gone)
  qed simp
  then have "typed W (cb\<lparr>ct_session := s\<rparr>)" by (simp only: typed_session)
  then have "typed W cc" using typed_cong [OF startStt_part [OF 3], of W] by simp
  from startStreams_typed [OF sa this 4(1)] have "typed W cd" .
  moreover have "audio_part c' = audio_part cd" by (simp add: 4(2) audio_part_def)
  ultimately show ?thesis using typed_cong [of c' cd W] by simp
qed

lemma app_step_typed:
  assumes sa: "streams_as_asked W" and ok: "controller_ok c" and "typed W c" and "event_typed ev"
    and st: "app_step F W ev (c, e) = Some (c', e')"
  shows "typed W c'"
proof (cases "kept ev \<and> ev \<noteq> StartPressed")
  case True
  then have "audio_part c' = audio_part c"
    using st audio_part_frames(8) [of W c e] by (cases ev) (auto simp: kept_def audio_part_frames)
  from typed_cong [OF this, of W] assms(3) show ?thesis by simp
next
  case False
  then consider "ev = StartPressed" | "ev = PausePressed" | "ev = ResumePressed" | "ev = StopPressed"
    | x f where "ev = FrameCaptured x f" | x where "ev = DrainTurn x"
    by (auto simp: kept_def split: app_event.splits)
  then show ?thesis
  proof cases
    case 1
    with st obtain good where s: "start_op F W (c, e) = Some ((c', e'), good)" by auto
    show ?thesis
    proof (cases good)
      case True
      with start_typed [OF sa ok] s show ?thesis by simp
    next
      case good: False
      show ?thesis
      proof (cases "isIdle c")
        case True
        with start_op_ok [OF s ok] good typed_idle [of c' W] show ?thesis by (simp add: isIdle_state)
      qed (use s assms(3) in \<open>auto simp: start_op_def\<close>)
    qed
  next
    case 2
    with st obtain good where s: "pause_op F W (c, e) = Some ((c', e'), good)" by auto
    obtain c1 b where 1: "fire Pause c = (c1, b)" by fastforce
    with fire_typed [of W Pause c] assms(3) have "typed W c1" by simp
    with s 1 stopStreams_typed show ?thesis by (auto simp: pause_op_def bind_eq_Some_conv split: if_splits)
  next
    case 3
    with st obtain good where s: "resume_op F W (c, e) = ((c', e'), good)" by (metis app_step.simps(4) option.inject prod.collapse)
    obtain c1 e1 started where 1: "startStreams F W (c, e) = ((c1, e1), started)" by (metis prod.collapse)
    from startStreams_typed [OF sa assms(3) 1] have "typed W c1" .
    with s 1 assms(3) fire_typed [of W _ c1] show ?thesis by (auto simp: resume_op_def split_beta Let_def split: if_splits)
  next
    case 4
    with st obtain good where s: "stop_op F W (c, e) = Some ((c', e'), good)" by auto
    from s ok show ?thesis
    proof (cases rule: stop_op_cases)
      case refused
      with assms(3) show ?thesis by simp
    next
      case stopped
      with stop_op_ok [OF s ok] typed_idle [of c' W] show ?thesis by simp
    qed
  next
    case (5 x f)
    with st assms(3,4) onFrame_typed [of W c x f] show ?thesis by auto
  next
    case (6 x)
    with st drain_one_typed [OF _ assms(3)] show ?thesis by auto
  qed
qed

section \<open>The backends\<close>

text \<open>
  Both backends of the repository meet what is asked of a stream: every frame they offer to
  the sink has the format of the configuration, which never changes. (The fake one makes
  16-bit samples, the only format it accepts to start with.)
\<close>

abbreviation asked_format :: "capture_config \<Rightarrow> track_format" where
  "asked_format k \<equiv> \<lparr>tf_sampleRate = cc_sampleRate k, tf_channels = cc_channels k, tf_format = cc_format k\<rparr>"

fun offered :: "delivery \<Rightarrow> audio_frame list" where
  "offered (Accepted f) = [f]"
| "offered (Refused f) = [f]"
| "offered _ = []"

lemma wasapi_delivers_as_asked:
  assumes "capture_step sink sk ev = Some (sk', ds)"
  shows "ws_config (fst sk') = ws_config (fst sk) \<and> (\<forall>d \<in> set ds. \<forall>f \<in> set (offered d). frame_matches (asked_format (ws_config (fst sk))) f)"
proof (cases ev)
  case (Packet p)
  with assms obtain d where d: "deliver_packet sink sk p = Some (sk', d)" "ds = [d]"
    by (auto simp: capture_step_def split: if_splits)
  obtain s k where "sk = (s, k)" by (cases sk)
  with d show ?thesis
    by (auto simp: deliver_packet_def Let_def split_beta bind_eq_Some_conv frame_matches_def split: if_split_asm)
qed (use assms in \<open>auto simp: capture_step_def set_phase_def split: if_splits\<close>)

lemma fake_emits_as_asked:
  assumes "emitFrame F sink (s, k) = Some ((s', k'), d)" and "cc_format (fk_config s) = PcmS16Le"
  shows "fk_config s' = fk_config s \<and> (\<forall>f \<in> set (offered d). frame_matches (asked_format (fk_config s)) f)"
  using assms by (auto simp: emitFrame_def Let_def split_beta bind_eq_Some_conv frame_matches_def split: if_splits)

section \<open>Property\<close>

text \<open>
  C14: formats agree along the pipeline. If the capture streams deliver frames in the format
  they were started with, then after any events at all: what waits in a track's ring has the
  track's format, what its synchroniser makes of any such frame has it too, the writer's track
  expects it, and no write, not even those of a stop, was refused for its format.
\<close>

theorem formats_agree:
  assumes "streams_as_asked W" and "\<forall>ev \<in> set evs. event_typed ev"
    and "app_run F W evs (new_controller d, e) = Some (c, e')"
  shows "(\<forall>x b. tp_buffer (pipeline x c) = Some b \<longrightarrow> (\<forall>f \<in> set (contents b). has_format x f))
    \<and> (\<forall>x s f s' outs. tp_synchronizer (pipeline x c) = Some s \<and> has_format x f \<and> process F s f = Some (s', outs) \<longrightarrow>
        (\<forall>g \<in> set outs. has_format x g))
    \<and> (\<forall>x w. ct_writer c = Some w \<and> tp_buffer (pipeline x c) \<noteq> None \<longrightarrow> track_typed w x (tp_writerTrack (pipeline x c)))
    \<and> (\<forall>w. ct_writer c = Some w \<longrightarrow> rw_lastError w \<noteq> FormatMismatch)
    \<and> (\<forall>s c1 e1 w. stopStreams F W (c\<lparr>ct_session := s\<rparr>, e') = Some (c1, e1) \<and> ct_writer c1 = Some w \<longrightarrow>
        rw_lastError w \<noteq> FormatMismatch)"
proof -
  have "controller_ok (fst (c, e')) \<and> typed W (fst (c, e'))"
  proof (rule app.run_invariant_on [OF assms(3) _ assms(2)])
    show "controller_ok (fst (new_controller d, e)) \<and> typed W (fst (new_controller d, e))"
      unfolding fst_conv
      by (intro conjI new_controller_ok typed_idle) (simp add: app_state_def new_controller_def new_session_def)
  next
    fix ev and s s' :: "'b controller \<times> 'a"
    assume "app_step F W ev s = Some s'" "event_typed ev" "controller_ok (fst s) \<and> typed W (fst s)"
    then show "controller_ok (fst s') \<and> typed W (fst s')"
      using app_step_typed [OF assms(1), of "fst s" ev F "snd s" "fst s'" "snd s'"] app_step_ok [of F W ev "fst s" "snd s" "fst s'" "snd s'"]
      by simp
  qed
  then have t: "typed W c" by simp
  then have p: "pipe_typed W x (pipeline x c)" for x by (simp add: typed_def)
  have ring: "has_format x f" if "tp_buffer (pipeline x c) = Some b" "f \<in> set (contents b)" for x b f
    using p [of x] that by (simp add: pipe_typed_def)
  have sync: "\<forall>g \<in> set outs. has_format x g"
    if "tp_synchronizer (pipeline x c) = Some s" "has_format x f" "process F s f = Some (s', outs)" for x s f s' outs
    using p [of x] process_typed [OF that(3) _ that(2)] that(1) by (simp add: pipe_typed_def)
  have track: "rw_lastError w \<noteq> FormatMismatch"
      "tp_buffer (pipeline x c) \<noteq> None \<longrightarrow> track_typed w x (tp_writerTrack (pipeline x c))"
    if "ct_writer c = Some w" for x w using t that by (simp_all add: typed_def)
  have "rw_lastError w \<noteq> FormatMismatch"
    if "stopStreams F W (c\<lparr>ct_session := s\<rparr>, e') = Some (c1, e1)" "ct_writer c1 = Some w" for s c1 e1 w
    using stopStreams_typed [OF that(1)] t that(2) by (simp add: typed_session) (simp add: typed_def)
  with ring sync track show ?thesis by auto
qed

theorem formats_agree_witness:
  "\<exists>c e w. app_run real_ops demo_world [StartPressed, FrameCaptured MicrophoneTrack captured_frame] (new_controller ''d'', \<lambda>_. []) = Some (c, e)
    \<and> ct_writer c = Some w \<and> rw_lastError w \<noteq> FormatMismatch"
proof -
  have "streams_as_asked demo_world" by (simp add: streams_as_asked_def demo_world_def)
  moreover have "\<forall>ev \<in> set [StartPressed, FrameCaptured MicrophoneTrack captured_frame]. event_typed ev"
    by (simp add: has_format_def wire_format_def frame_matches_def captured_frame_def)
  moreover from demo_start [of real_ops] obtain c w where
    "start_op real_ops demo_world (new_controller ''d'', \<lambda>_. []) = Some ((c, \<lambda>_. []), True)" "ct_writer c = Some w" by metis
  then have "app_run real_ops demo_world [StartPressed, FrameCaptured MicrophoneTrack captured_frame] (new_controller ''d'', \<lambda>_. [])
      = Some (onFrame MicrophoneTrack captured_frame c, \<lambda>_. [])" "ct_writer (onFrame MicrophoneTrack captured_frame c) = Some w"
    by (simp_all add: onFrame_def split: option.split)
  ultimately show ?thesis using formats_agree [of demo_world _ real_ops "''d''"] by blast
qed

end
