(* ===== verification/Transcription.thy ===== *)
theory Transcription
  imports EndToEnd
begin

text \<open>
  The transcription along a run of the controller: the frames of the track that feeds it,
  resynchronised as they are for the file, go through the producer to the client, whose
  threads run in between. What the client is offered is followed from a start to the stop.
\<close>

section \<open>What is fed and what becomes of it\<close>

text \<open>The frames a stretch of capture becomes.\<close>

definition resynced :: "'d float_ops \<Rightarrow> which \<Rightarrow> audio_frame list \<Rightarrow> audio_frame list" where
  "resynced F x fs = (case process_all F (new_sync F x) fs of None \<Rightarrow> [] | Some (s, outs) \<Rightarrow> outs)"

lemma resynced_Nil [simp]: "resynced F x [] = []"
  by (simp add: resynced_def)

lemma spliced_resynced: "spliced F x segments = concat (map sample_frames (concat (map (resynced F x) segments)))"
  by (induction segments) (simp_all add: spliced_def synced_def resynced_def split: option.split)

text \<open>What the client is sent of a frame, and what it accepted of the frames offered.\<close>

definition frame_content :: "audio_frame \<Rightarrow> u64 \<times> u8 list \<times> bool" where
  "frame_content f = (fr_sequence f, fr_payload f, fr_discontinuity f)"

definition request_content :: "request \<Rightarrow> u64 \<times> u8 list \<times> bool" where
  "request_content r = (rq_sequence r, rq_payload r, rq_discontinuity r)"

definition offered_to :: "stt_client_config \<Rightarrow> stt_client \<Rightarrow> client_history \<Rightarrow> audio_frame list \<Rightarrow> bool" where
  "offered_to cfg cl h fs \<longleftrightarrow> client_run cfg cl h \<and> hs_offered h = length fs
     \<and> subseq (map request_content (hs_accepted h)) (map frame_content fs) \<and> \<not> cl_stopRequested cl \<and> hs_late h = 0"

text \<open>The producer has seen exactly \<open>fed\<close>, and the client was offered exactly its frames.\<close>

definition transcribes :: "'d float_ops \<Rightarrow> stt_client_config \<Rightarrow> 'd stt_producer \<Rightarrow> audio_frame list \<Rightarrow> 'd controller \<Rightarrow> bool" where
  "transcribes F cfg p0 fed c \<longleftrightarrow> (\<exists>cl p h stt. ct_sttClient c = Some cl \<and> ct_sttProducer c = Some p
     \<and> stt_process_all F p0 fed = Some (p, stt) \<and> offered_to cfg cl h stt)"

definition stt_part :: "'d controller \<Rightarrow> stt_client option \<times> 'd stt_producer option" where
  "stt_part c = (ct_sttClient c, ct_sttProducer c)"

lemma transcribes_cong: "stt_part c' = stt_part c \<Longrightarrow> transcribes F cfg p0 fed c' = transcribes F cfg p0 fed c"
  by (simp add: transcribes_def stt_part_def)

lemma request_content_of [simp]: "request_content (toRequest config now f) = frame_content f"
  by (simp add: request_content_def frame_content_def toRequest_def)

lemma subseq_snoc: "subseq xs ys \<Longrightarrow> subseq (xs @ [y]) (ys @ [y])"
  by (rule list_emb_append_mono) simp_all

lemma subseq_skip: "subseq xs ys \<Longrightarrow> subseq xs (ys @ [y])"
  by (rule subseq_rev_drop_many)

lemma offered_send:
  assumes "offered_to cfg cl h fs"
  shows "\<exists>h'. offered_to cfg (fst (sendFrame now f cl)) h' (fs @ [f])"
proof -
  have "client_run cfg (fst (sendFrame now f cl)) (observe (Send now f) cl h)"
    using assms client_run.stepped [OF _ client_step.sends] by (simp add: offered_to_def)
  moreover have "cl_stopRequested (fst (sendFrame now f cl)) = cl_stopRequested cl" by (simp add: sendFrame_def)
  ultimately have "offered_to cfg (fst (sendFrame now f cl)) (observe (Send now f) cl h) (fs @ [f])"
    using assms
    by (auto simp: offered_to_def intro: subseq_snoc subseq_skip)
  then show ?thesis ..
qed

lemma offered_send_all:
  "offered_to cfg cl h fs \<Longrightarrow> \<exists>h'. offered_to cfg (send_all now gs cl) h' (fs @ gs)"
proof (induction gs arbitrary: cl h fs)
  case (Cons g gs)
  from offered_send [OF Cons.prems, of now g] obtain h1 where "offered_to cfg (fst (sendFrame now g cl)) h1 (fs @ [g])" ..
  from Cons.IH [OF this] show ?case by simp
qed auto

lemma stt_process_all_append:
  "stt_process_all F p (fs @ gs) = do {
     (p', outs) \<leftarrow> stt_process_all F p fs; (p'', outs') \<leftarrow> stt_process_all F p' gs; Some (p'', outs @ outs') }"
  by (induction fs arbitrary: p) (auto split: Option.bind_splits)

lemma feed_stt_offers:
  "feed_stt F now outs p cl = Some (p', cl') \<Longrightarrow> stt_process_all F p0 fed = Some (p, stt) \<Longrightarrow> offered_to cfg cl h stt \<Longrightarrow>
   \<exists>stt' h'. stt_process_all F p0 (fed @ outs) = Some (p', stt') \<and> offered_to cfg cl' h' stt'"
proof (induction outs arbitrary: p cl fed stt h)
  case (Cons f fs)
  from Cons.prems(1) obtain p1 gs where 1: "stt_process F p f = Some (p1, gs)"
    "feed_stt F now fs p1 (send_all now gs cl) = Some (p', cl')" by (auto simp: bind_eq_Some_conv)
  from Cons.prems(2) 1(1) have "stt_process_all F p0 (fed @ [f]) = Some (p1, stt @ gs)"
    by (simp add: stt_process_all_append)
  moreover from offered_send_all [OF Cons.prems(3)] obtain h1 where "offered_to cfg (send_all now gs cl) h1 (stt @ gs)" by blast
  ultimately show ?case using Cons.IH [OF 1(2)] by fastforce
qed auto

lemma feed_transcribes:
  assumes "feed F now feeds outs c = Some c'" and "transcribes F cfg p0 fed c"
  shows "transcribes F cfg p0 (fed @ (if feeds then outs else [])) c'"
proof (cases feeds)
  case True
  from assms(2) obtain cl p h stt where t: "ct_sttClient c = Some cl" "ct_sttProducer c = Some p"
    "stt_process_all F p0 fed = Some (p, stt)" "offered_to cfg cl h stt" by (auto simp: transcribes_def)
  with assms(1) True obtain p' cl' where f: "feed_stt F now outs p cl = Some (p', cl')"
    "c' = c\<lparr>ct_sttProducer := Some p', ct_sttClient := Some cl'\<rparr>" by (auto simp: feed_def bind_eq_Some_conv)
  from feed_stt_offers [OF f(1) t(3,4)] f(2) True show ?thesis by (auto simp: transcribes_def)
next
  case False
  with assms show ?thesis by (simp add: feed_def)
qed

lemma thread_stopRequested: "client_step cl ev cl' \<Longrightarrow> thread_event ev \<Longrightarrow> cl_stopRequested cl' = cl_stopRequested cl"
  by (cases ev) (auto simp: client_step_simps client_ops split: list.splits)

lemma client_thread_transcribes:
  assumes "transcribes F cfg p0 fed c"
  shows "transcribes F cfg p0 fed (client_thread_step ev c)"
proof -
  from assms obtain cl p h stt where t: "ct_sttClient c = Some cl" "ct_sttProducer c = Some p"
    "stt_process_all F p0 fed = Some (p, stt)" "offered_to cfg cl h stt" by (auto simp: transcribes_def)
  show ?thesis
  proof (cases "\<exists>cl'. thread_event ev \<and> client_exec ev cl = Some cl'")
    case True
    then obtain cl' where ev: "thread_event ev" "client_exec ev cl = Some cl'" by blast
    then have "client_run cfg cl' (observe ev cl h)"
      using t(4) by (auto simp: offered_to_def client_exec_iff intro: client_run.stepped)
    moreover have "hs_offered (observe ev cl h) = hs_offered h \<and> hs_accepted (observe ev cl h) = hs_accepted h
        \<and> hs_late (observe ev cl h) = hs_late h"
      using ev(1) by (cases ev) (auto split: writer_pc.split)
    moreover have "cl_stopRequested cl' = cl_stopRequested cl"
      using ev thread_stopRequested by (simp add: client_exec_iff)
    ultimately have "offered_to cfg cl' (observe ev cl h) stt" using t(4) by (simp add: offered_to_def)
    with t ev show ?thesis by (auto simp: transcribes_def client_thread_step_def)
  next
    case False
    with t(1) have "client_thread_step ev c = c" by (auto simp: client_thread_step_def split: option.split)
    with assms show ?thesis by simp
  qed
qed

section \<open>The feeding track\<close>

text \<open>
  \<open>T\<close> is what the ring of the feeding track \<open>x\<close> accepted in the current stretch, and \<open>outs\<close>
  what the synchroniser has made of it so far. No other track feeds.
\<close>

definition feeding :: "'d float_ops \<Rightarrow> which \<Rightarrow> audio_frame list \<Rightarrow> 'd controller \<Rightarrow> audio_frame list \<Rightarrow> bool" where
  "feeding F x T c outs \<longleftrightarrow> rings_ok c
     \<and> (\<forall>y. y \<noteq> x \<longrightarrow> tp_buffer (pipeline y c) \<noteq> None \<longrightarrow> \<not> tp_feedsSttStream (pipeline y c))
     \<and> (case (tp_buffer (pipeline x c), tp_synchronizer (pipeline x c)) of
          (Some b, Some s) \<Rightarrow> tp_feedsSttStream (pipeline x c)
            \<and> (\<exists>seen. process_all F (new_sync F x) seen = Some (s, outs) \<and> seen @ contents b = T)
        | (None, None) \<Rightarrow> T = [] \<and> outs = []
        | _ \<Rightarrow> False)"

text \<open>With everything fed before the stretch.\<close>

definition listening :: "'d float_ops \<Rightarrow> stt_client_config \<Rightarrow> 'd stt_producer \<Rightarrow> which \<Rightarrow> audio_frame list
    \<Rightarrow> audio_frame list \<Rightarrow> 'd controller \<Rightarrow> bool" where
  "listening F cfg p0 x before T c \<longleftrightarrow> (\<exists>outs. feeding F x T c outs \<and> transcribes F cfg p0 (before @ outs) c)"

lemma feeding_cong:
  assumes "\<And>y. pipeline y c' = pipeline y c" and "rings_ok c' = rings_ok c"
  shows "feeding F x T c' outs = feeding F x T c outs"
  by (simp only: feeding_def assms)

definition stt_view :: "'d controller \<Rightarrow> 'd track_pipeline \<times> 'd track_pipeline \<times> stt_client option \<times> 'd stt_producer option" where
  "stt_view c = (ct_microphonePipeline c, ct_systemOutputPipeline c, ct_sttClient c, ct_sttProducer c)"

lemma view_pipeline: "stt_view c' = stt_view c \<Longrightarrow> pipeline y c' = pipeline y c"
  by (cases y) (simp_all add: stt_view_def)

lemma listening_cong:
  assumes "stt_view c' = stt_view c"
  shows "listening F cfg p0 x before T c' = listening F cfg p0 x before T c"
proof -
  have p: "rings_ok c' = rings_ok c" "stt_part c' = stt_part c"
    using assms by (simp_all add: stt_view_def rings_ok_def stt_part_def)
  show ?thesis
    unfolding listening_def feeding_cong [OF view_pipeline [OF assms] p(1)] transcribes_cong [OF p(2)] by simp
qed

lemma set_pipeline_stt [simp]: "stt_part (set_pipeline x p c) = stt_part c"
  by (simp add: stt_part_def)

lemma store_stt: "store m t outs (c, e) = Some (c', e') \<Longrightarrow> stt_part c' = stt_part c"
  by (erule store_cases) (auto simp: stt_part_def)

lemma captured_stt: "stt_part (c\<lparr>ct_framesCaptured := n\<rparr>) = stt_part c"
  by (simp add: stt_part_def)

subsection \<open>A turn of the drain\<close>

lemma drain_frame_feeds:
  assumes d: "drain_frame F W y f (c, e) = Some (c', e')" and t: "transcribes F cfg p0 fed c"
  shows "\<exists>s s' outs. tp_synchronizer (pipeline y c) = Some s \<and> process F s f = Some (s', outs)
    \<and> tp_synchronizer (pipeline y c') = Some s' \<and> tp_feedsSttStream (pipeline y c') = tp_feedsSttStream (pipeline y c)
    \<and> tp_buffer (pipeline y c') = tp_buffer (pipeline y c) \<and> (\<forall>z. z \<noteq> y \<longrightarrow> pipeline z c' = pipeline z c)
    \<and> transcribes F cfg p0 (fed @ (if tp_feedsSttStream (pipeline y c) then outs else [])) c'"
proof -
  from d obtain s s' outs c1 where 1: "tp_synchronizer (pipeline y c) = Some s" "process F s f = Some (s', outs)" and
    fd: "feed F (w_unixMs W e) (tp_feedsSttStream (pipeline y c)) outs ((set_pipeline y
       ((pipeline y c)\<lparr>tp_synchronizer := Some s'\<rparr>) c)\<lparr>ct_framesCaptured := ct_framesCaptured c + of_nat (length outs)\<rparr>)
     = Some c1" and st: "store (w_media W) (tp_writerTrack (pipeline y c)) outs (c1, e) = Some (c', e')"
    by (rule drain_frame_cases)
  let ?p = "(pipeline y c)\<lparr>tp_synchronizer := Some s'\<rparr>"
  let ?c = "(set_pipeline y ?p c)\<lparr>ct_framesCaptured := ct_framesCaptured c + of_nat (length outs)\<rparr>"
  have p: "pipeline z c' = (if z = y then ?p else pipeline z c)" for z
    using feed_frame [OF fd, of z] store_frame [OF st, of z] by (simp add: skeleton_captured)
  have "transcribes F cfg p0 fed ?c" using t by (simp only: transcribes_cong [of ?c c] captured_stt set_pipeline_stt)
  from feed_transcribes [OF fd this] have
    "transcribes F cfg p0 (fed @ (if tp_feedsSttStream (pipeline y c) then outs else [])) c'"
    by (simp only: transcribes_cong [OF store_stt [OF st]])
  with 1 p show ?thesis by simp
qed

lemma drain_one_listens:
  assumes "drain_one F W y (c, e) = Some ((c', e'), again)" and l: "listening F cfg p0 x before T c"
  shows "listening F cfg p0 x before T c'"
proof -
  from l obtain outs where fe: "feeding F x T c outs" and t: "transcribes F cfg p0 (before @ outs) c"
    by (auto simp: listening_def)
  have ok: "rings_ok c" using fe by (simp add: feeding_def)
  from assms(1) show ?thesis
  proof (cases rule: drain_one_cases)
    case nothing
    with l show ?thesis by simp
  next
    case (frame b s f b')
    note b = frame(1-3) and d = frame(4)
    let ?p = "(pipeline y c)\<lparr>tp_buffer := Some b'\<rparr>"
    have ok': "rings_ok c'" using drain_one_frame [OF assms(1) ok] by simp
    from ring.pop_step [OF rings_okD [OF ok b(1)], of "w_moved_from W"] b(3) have cb: "contents b = f # contents b'"
      by (auto simp: bq_pop_def split: list.splits)
    have "transcribes F cfg p0 (before @ outs) (set_pipeline y ?p c)"
      using t by (simp add: transcribes_cong [OF set_pipeline_stt])
    from drain_frame_feeds [OF d this] b(2) obtain s' new where n: "process F s f = Some (s', new)"
      "tp_synchronizer (pipeline y c') = Some s'" "tp_feedsSttStream (pipeline y c') = tp_feedsSttStream (pipeline y c)"
      "tp_buffer (pipeline y c') = Some b'" "\<And>z. z \<noteq> y \<Longrightarrow> pipeline z c' = pipeline z c"
      "transcribes F cfg p0 ((before @ outs) @ (if tp_feedsSttStream (pipeline y c) then new else [])) c'" by auto
    show ?thesis
    proof (cases "y = x")
      case True
      with fe b(1,2) obtain seen where seen: "tp_feedsSttStream (pipeline x c)" "process_all F (new_sync F x) seen = Some (s, outs)"
        "seen @ contents b = T" by (auto simp: feeding_def)
      from seen(2) n(1) have "process_all F (new_sync F x) (seen @ [f]) = Some (s', outs @ new)"
        by (simp add: process_all_append)
      moreover have "(seen @ [f]) @ contents b' = T" using seen(3) cb by simp
      ultimately have "feeding F x T c' (outs @ new)"
        using fe ok' n(2-5) seen(1) True unfolding feeding_def by (auto simp del: append_assoc)
      with n(6) seen(1) True show ?thesis by (auto simp: listening_def)
    next
      case False
      with fe b(1) have "\<not> tp_feedsSttStream (pipeline y c)" by (auto simp: feeding_def)
      have x: "pipeline x c' = pipeline x c" using n(5) [of x] False by simp
      have "\<not> tp_feedsSttStream (pipeline z c')" if "z \<noteq> x" "tp_buffer (pipeline z c') \<noteq> None" for z
      proof (cases "z = y")
        case True
        with n(3) \<open>\<not> tp_feedsSttStream (pipeline y c)\<close> show ?thesis by simp
      next
        case False
        with fe that n(5) [of z] show ?thesis by (simp add: feeding_def)
      qed
      with fe ok' have "feeding F x T c' outs" unfolding feeding_def x by simp
      with n(6) \<open>\<not> tp_feedsSttStream (pipeline y c)\<close> show ?thesis by (auto simp: listening_def)
    qed
  qed
qed

lemma drain_listens:
  assumes "drainPipelineLocked F W y c e = Some (c', e')" and "listening F cfg p0 x before T c"
  shows "listening F cfg p0 x before T c'"
  using drain_rule [where I = "listening F cfg p0 x before T", OF assms drain_one_listens] by simp

lemma other_pipeline:
  assumes "drainPipelineLocked F W y c e = Some (c', e')" and "z \<noteq> y"
  shows "pipeline z c' = pipeline z c"
proof -
  have "pipeline z c2 = pipeline z c" if "drain_one F W y (c1, e1) = Some ((c2, e2), again)" "pipeline z c1 = pipeline z c" for c1 e1 c2 e2 again
    using that(1) drain_frame_kept [of F W y] assms(2) that(2) by (cases rule: drain_one_cases) auto
  from drain_rule [where I = "\<lambda>c1. pipeline z c1 = pipeline z c", OF assms(1) refl this] show ?thesis by simp
qed

text \<open>A drain of the feeding track empties its ring.\<close>

lemma drain_empties:
  assumes "drainPipelineLocked F W x c e = Some (c', e')" and l: "listening F cfg p0 x before T c"
  shows "tp_buffer (pipeline x c') = Some b \<Longrightarrow> contents b = []"
proof -
  assume b: "tp_buffer (pipeline x c') = Some b"
  from l obtain outs where fe: "feeding F x T c outs" by (auto simp: listening_def)
  show "contents b = []"
  proof (cases "tp_buffer (pipeline x c)")
    case None
    with drain_gone [OF None, of F W e] assms(1) b show ?thesis by simp
  next
    case (Some b0)
    with fe obtain s where "tp_synchronizer (pipeline x c) = Some s" "ring_inv b0"
      by (auto simp: feeding_def rings_okD split: option.splits)
    with drain_effect [OF assms(1) Some] b show ?thesis by auto
  qed
qed

subsection \<open>Frames arriving, and the streams stopping\<close>

lemma onFrame_listens:
  assumes l: "listening F cfg p0 x before T c"
  shows "listening F cfg p0 x before (T @ (if y = x then ring_takes (tp_buffer (pipeline y c)) [f] else [])) (onFrame y f c)"
proof (cases "tp_buffer (pipeline y c)")
  case None
  with l show ?thesis by (cases "y = x") (simp_all add: onFrame_def)
next
  case (Some b)
  from l obtain outs where fe: "feeding F x T c outs" and t: "transcribes F cfg p0 (before @ outs) c"
    by (auto simp: listening_def)
  have ok: "rings_ok c" using fe by (simp add: feeding_def)
  let ?c = "set_pipeline y ((pipeline y c)\<lparr>tp_buffer := Some (fst (tryPush b f))\<rparr>) c"
  have c': "onFrame y f c = ?c" using Some by (simp add: onFrame_def)
  have ok': "rings_ok ?c" using onFrame_frame [OF ok, of y f] by (simp add: c')
  have "(contents (fst (tryPush b f)), snd (tryPush b f)) = bq_push (capacity b) (contents b) f"
    by (rule ring.push_step [OF rings_okD [OF ok Some]])
  then have cb: "contents (fst (tryPush b f)) = contents b @ (if snd (tryPush b f) then [f] else [])"
    by (auto simp: bq_push_def split: if_splits)
  have "feeding F x (T @ (if y = x then ring_takes (tp_buffer (pipeline y c)) [f] else [])) ?c outs"
    using fe ok' Some cb by (cases "y = x") (auto simp: feeding_def split: option.splits)
  moreover have "transcribes F cfg p0 (before @ outs) ?c" using t by (simp add: transcribes_cong [OF set_pipeline_stt])
  ultimately show ?thesis by (auto simp: listening_def c')
qed

lemma onFrames_listens:
  "listening F cfg p0 x before T c \<Longrightarrow>
   listening F cfg p0 x before (T @ (if y = x then ring_takes (tp_buffer (pipeline y c)) fs else [])) (fold (onFrame y) fs c)"
proof (induction fs arbitrary: T c)
  case (Cons f fs)
  have "ring_takes (tp_buffer (pipeline y c)) (f # fs) = ring_takes (tp_buffer (pipeline y c)) [f]
      @ ring_takes (tp_buffer (pipeline y (onFrame y f c))) fs"
    by (cases "tp_buffer (pipeline y c)") (simp_all add: onFrame_buffer)
  with Cons.IH [OF onFrame_listens [OF Cons.prems, of y f]] show ?case by (cases "y = x") (simp_all)
qed simp

lemma stop_stream_listens:
  assumes "stop_stream W y (c, e) = (c', e')" and "listening F cfg p0 x before T c"
  shows "listening F cfg p0 x before
    (T @ (if y = x then ring_takes (tp_buffer (pipeline y c)) (stream_frames W y (c, e)) else [])) c'"
proof (cases "tp_stream (pipeline y c)")
  case None
  with assms show ?thesis by (cases "y = x") (simp_all add: stop_stream_def stream_frames_def)
next
  case (Some h)
  with assms(1) have "c' = fold (onFrame y) (snd (w_stopStream W h e)) c" by (simp add: stop_stream_def split_beta Let_def)
  with onFrames_listens [OF assms(2), of y "snd (w_stopStream W h e)"] Some show ?thesis
    by (cases "y = x") (simp_all add: stream_frames_def)
qed

lemma stopStreams_listens:
  assumes st: "stopStreams F W (c, e) = Some (c', e')" and l: "listening F cfg p0 x before T c"
  shows "listening F cfg p0 x (before @ resynced F x (T @ stop_takes W x (c, e))) [] c'"
proof -
  from st obtain c1 e1 c2 e2 c3 e3 c4 where 1: "stop_stream W MicrophoneTrack (c, e) = (c1, e1)"
    and 2: "stop_stream W SystemOutputTrack (c1, e1) = (c2, e2)" and 3: "drainPipelineLocked F W MicrophoneTrack c2 e2 = Some (c3, e3)"
    and 4: "drainPipelineLocked F W SystemOutputTrack c3 e3 = Some (c4, e')"
    and 5: "c' = c4\<lparr>ct_microphonePipeline := no_pipeline, ct_systemOutputPipeline := no_pipeline\<rparr>"
    by (rule stopStreams_cases)
  let ?T = "T @ stop_takes W x (c, e)"
  have "pipeline SystemOutputTrack c1 = pipeline SystemOutputTrack c" by (rule stop_stream_pipeline [OF _ 1]) simp
  with stop_stream_listens [OF 2 stop_stream_listens [OF 1 l]] 1 have l2: "listening F cfg p0 x before ?T c2"
    by (cases x) simp_all
  note l3 = drain_listens [OF 3 l2] and l4 = drain_listens [OF 4 drain_listens [OF 3 l2]]
  have empty: "contents b = []" if "tp_buffer (pipeline x c4) = Some b" for b
  proof (cases x)
    case MicrophoneTrack
    with other_pipeline [OF 4, of x] that drain_empties [OF _ l2, of W e2 c3 e3 b] 3 show ?thesis by simp
  next
    case SystemOutputTrack
    with drain_empties [OF _ l3, of W e3 c4 e' b] 4 that show ?thesis by simp
  qed
  from l4 obtain outs where fe: "feeding F x ?T c4 outs" and t: "transcribes F cfg p0 (before @ outs) c4"
    by (auto simp: listening_def)
  have "outs = resynced F x ?T"
    using fe empty by (auto simp: feeding_def resynced_def split: option.splits)
  moreover have "pipeline y c' = no_pipeline" for y by (cases y) (simp_all add: 5)
  then have "feeding F x [] c' []"
    by (simp add: feeding_def no_pipeline_def rings_ok_def 5)
  moreover have part: "stt_part c' = stt_part c4" by (simp add: 5 stt_part_def)
  have "transcribes F cfg p0 (before @ outs) c'" using t by (simp only: transcribes_cong [OF part])
  ultimately show ?thesis by (auto simp: listening_def)
qed

text \<open>A track starts; only the track \<open>x\<close> feeds.\<close>

lemma startTrack_listens:
  assumes l: "listening F cfg p0 x before [] c" and gone: "tp_buffer (pipeline y c) = None" and f: "feeds = (y = x)"
    and st: "startTrack F W y device kind (channels_of y) t feeds (c, e) = ((c', e'), good)"
  shows "listening F cfg p0 x before [] c' \<and> (\<forall>z. z \<noteq> y \<longrightarrow> pipeline z c' = pipeline z c)"
proof -
  let ?k = "\<lparr>cc_deviceId = dev_id device, cc_track = kind, cc_sampleRate = 48000, cc_channels = channels_of y,
    cc_format = PcmS16Le, cc_frameDuration = captureFrameDuration (ct_config c)\<rparr>"
  obtain e1 r where 1: "w_startCapture W ?k e = (e1, r)" by fastforce
  show ?thesis
  proof (cases r)
    case (Inl err)
    with st 1 have "c' = ui_fail (CaptureFailed (device_label device) err) c" by (auto simp: startTrack_def Let_def)
    then have v: "stt_view c' = stt_view c" by (simp add: stt_view_def ui_fail_def)
    show ?thesis using l by (simp add: listening_cong [OF v] view_pipeline [OF v])
  next
    case (Inr h)
    define p where "p = \<lparr>tp_buffer = Some (new_ring empty_frame (unat (ringBufferCapacityFrames (ct_config c)))), tp_stream = Some h,
      tp_synchronizer = Some (new_sync F y), tp_writerTrack = t, tp_feedsSttStream = feeds\<rparr>"
    from st 1 Inr have c': "c' = set_pipeline y p c" by (auto simp: startTrack_def Let_def p_def new_sync_def)
    from l obtain outs where fe: "feeding F x [] c outs" and t: "transcribes F cfg p0 (before @ outs) c"
      by (auto simp: listening_def)
    have ok: "rings_ok c'" using fe new_ring_inv by (cases y) (auto simp: feeding_def rings_ok_def c' p_def)
    have "feeding F x [] c' outs"
    proof (cases "y = x")
      case True
      with fe gone have "outs = []" by (auto simp: feeding_def split: option.splits)
      with True fe ok f show ?thesis by (auto simp: feeding_def c' p_def)
    next
      case False
      then have x: "pipeline x c' = pipeline x c" by (simp add: c')
      have "\<not> tp_feedsSttStream (pipeline z c')" if "z \<noteq> x" "tp_buffer (pipeline z c') \<noteq> None" for z
        using fe f False that by (cases "z = y") (simp_all add: feeding_def c' p_def)
      with fe ok show ?thesis unfolding feeding_def x by blast
    qed
    moreover have "transcribes F cfg p0 (before @ outs) c'"
      using t by (simp add: c' transcribes_cong [OF set_pipeline_stt])
    ultimately show ?thesis by (auto simp: listening_def c')
  qed
qed

definition feeder :: "'d controller \<Rightarrow> which" where
  "feeder c = (if microphoneSelected c then MicrophoneTrack else SystemOutputTrack)"

lemma startStreams_listens:
  assumes l: "listening F cfg p0 (feeder c) before [] c" and gone: "\<And>y. tp_buffer (pipeline y c) = None"
    and st: "startStreams F W (c, e) = ((c', e'), good)"
  shows "listening F cfg p0 (feeder c) before [] c'"
proof -
  let ?P = "\<lambda>d (_ :: 'b). listening F cfg p0 (feeder c) before [] d \<and> tp_buffer (pipeline SystemOutputTrack d) = None"
    and ?Q = "\<lambda>d (_ :: 'b). listening F cfg p0 (feeder c) before [] d"
  note t = startTrack_listens [where y = MicrophoneTrack, simplified channels_of.simps]
    startTrack_listens [where y = SystemOutputTrack, simplified channels_of.simps]
  show ?thesis
  proof (rule startStreams_rule [where P = ?P and Q = ?Q, OF st])
    show "?P c e" using l gone [of SystemOutputTrack] by simp
  next
    fix device c1 e1 good1
    assume "microphoneSelected c"
      and "startTrack F W MicrophoneTrack device Microphone 1 (ct_writerMicrophoneTrack c) True (c, e) = ((c1, e1), good1)"
    with t(1) [OF l gone _ this(2)] gone [of SystemOutputTrack] show "?P c1 e1"
      by (auto simp: feeder_def dest: spec [of _ SystemOutputTrack])
  next
    fix device c1 e1 c2 e2 good2
    assume p: "?P c1 e1" and s: "startTrack F W SystemOutputTrack device SystemOutput 2 (ct_writerSystemOutputTrack c1)
      (\<not> microphoneSelected c) (c1, e1) = ((c2, e2), good2)"
    from t(2) [OF conjunct1 [OF p] conjunct2 [OF p] _ s] show "?Q c2 e2" by (simp add: feeder_def)
  qed simp
qed

section \<open>Any event\<close>

text \<open>Which track feeds is decided by the microphone's selection, which only two events change.\<close>

definition choice :: "'d controller \<Rightarrow> audio_device_info list \<times> int \<times> recorder_config" where
  "choice c = (ct_microphones c, ct_selectedMicrophone c, ct_config c)"

lemma choice_feeder: "choice c' = choice c \<Longrightarrow> feeder c' = feeder c"
  by (simp add: choice_def feeder_def microphoneSelected_def)

lemma choice_simps [simp]:
  "choice (set_pipeline y p c) = choice c" "choice (c\<lparr>ct_framesCaptured := n\<rparr>) = choice c"
  "choice (c\<lparr>ct_session := s\<rparr>) = choice c" "choice (ui_fail m c) = choice c"
  by (cases y; simp add: choice_def ui_fail_def)+

lemma feed_choice: "feed F now feeds outs c = Some c' \<Longrightarrow> choice c' = choice c"
  by (erule feed_cases) (simp_all add: choice_def)

lemma store_choice: "store m t outs (c, e) = Some (c', e') \<Longrightarrow> choice c' = choice c"
  by (erule store_cases) (simp_all add: choice_def)

lemma drain_frame_choice:
  assumes "drain_frame F W y f (c, e) = Some (c', e')"
  shows "choice c' = choice c"
proof -
  from assms obtain s s' outs c1 where
    f: "feed F (w_unixMs W e) (tp_feedsSttStream (pipeline y c)) outs ((set_pipeline y
       ((pipeline y c)\<lparr>tp_synchronizer := Some s'\<rparr>) c)\<lparr>ct_framesCaptured := ct_framesCaptured c + of_nat (length outs)\<rparr>)
     = Some c1" and st: "store (w_media W) (tp_writerTrack (pipeline y c)) outs (c1, e) = Some (c', e')"
    by (rule drain_frame_cases)
  from feed_choice [OF f] store_choice [OF st] show ?thesis by simp
qed

lemma drain_one_choice: "drain_one F W y (c, e) = Some ((c', e'), again) \<Longrightarrow> choice c' = choice c"
  by (erule drain_one_cases) (auto dest: drain_frame_choice)

lemma onFrame_choice [simp]: "choice (onFrame y f c) = choice c"
  by (simp add: onFrame_def split: option.split)

lemma onFrames_choice [simp]: "choice (fold (onFrame y) fs c) = choice c"
  by (induction fs arbitrary: c) simp_all

lemma stop_stream_choice: "stop_stream W y (c, e) = (c', e') \<Longrightarrow> choice c' = choice c"
  by (auto simp: stop_stream_def split_beta Let_def split: option.splits)

lemma stopStreams_choice:
  assumes "stopStreams F W (c, e) = Some (c', e')"
  shows "choice c' = choice c"
  by (rule stopStreams_rule [where I = "\<lambda>d. choice d = choice c", OF assms refl])
    (auto dest: stop_stream_choice drain_one_choice simp: choice_def)

lemma startTrack_choice [simp]: "choice (fst (fst (startTrack F W y device kind ch t feeds ce))) = choice (fst ce)"
  by (simp add: startTrack_def Let_def split_beta split: sum.split)

lemma startStreams_choice [simp]: "choice (fst (fst (startStreams F W ce))) = choice (fst ce)"
  by (simp add: startStreams_def Let_def split_beta)

lemma fire_choice [simp]: "choice (fst (fire ev c)) = choice c"
proof -
  obtain c1 b where "fire ev c = (c1, b)" by fastforce
  with fire_state [OF this] show ?thesis by auto
qed


text \<open>Everything heard on the feeding track, finished stretches and the current one, has gone to the transcription.\<close>

definition hearing :: "'d float_ops \<Rightarrow> stt_client_config \<Rightarrow> 'd stt_producer \<Rightarrow> which \<Rightarrow> heard \<Rightarrow> 'd controller \<Rightarrow> bool" where
  "hearing F cfg p0 x h c \<longleftrightarrow> feeder c = x
     \<and> listening F cfg p0 x (concat (map (resynced F x) (fst (h x)))) (snd (h x)) c"

lemma session_view: "stt_view (c\<lparr>ct_session := s\<rparr>) = stt_view c"
  by (simp add: stt_view_def)

lemma hearing_cong:
  assumes "stt_view c' = stt_view c" and "choice c' = choice c"
  shows "hearing F cfg p0 x h c' = hearing F cfg p0 x h c"
  by (simp only: hearing_def listening_cong [OF assms(1)] choice_feeder [OF assms(2)])

lemma hearing_session: "hearing F cfg p0 x h (c\<lparr>ct_session := s\<rparr>) = hearing F cfg p0 x h c"
  by (rule hearing_cong) (simp_all add: session_view)

lemma fire_hearing: "hearing F cfg p0 x h (fst (fire ev c)) = hearing F cfg p0 x h c"
proof -
  obtain c1 b where "fire ev c = (c1, b)" by fastforce
  with fire_state [OF this] show ?thesis by (auto simp: hearing_session)
qed

lemma stopStreams_hearing:
  assumes he: "hearing F cfg p0 x h c" and ends: "ends_stretch ev (app_state c)"
    and st: "stopStreams F W (c\<lparr>ct_session := s\<rparr>, e) = Some (c', e')"
  shows "hearing F cfg p0 x (hear W ev (c, e) h) c'"
proof -
  from ends have t: "stop_takes W x (c\<lparr>ct_session := s\<rparr>, e) = event_takes W x ev (c, e)"
    by (cases ev) (simp_all add: stop_takes_session)
  have "listening F cfg p0 x (concat (map (resynced F x) (fst (h x)))) (snd (h x)) (c\<lparr>ct_session := s\<rparr>)"
    using he by (simp add: hearing_def listening_cong [OF session_view])
  from stopStreams_listens [OF st this] stopStreams_choice [OF st] ends t he show ?thesis
    using choice_feeder [of c' c] by (simp add: hearing_def hear_def)
qed

lemma pause_hearing:
  assumes he: "hearing F cfg p0 x h c" and st: "pause_op F W (c, e) = Some ((c', e'), good)"
  shows "hearing F cfg p0 x (hear W PausePressed (c, e) h) c'"
proof -
  obtain c1 b where 1: "fire Pause c = (c1, b)" by fastforce
  from fire_state [OF 1] obtain s where c1: "c1 = c\<lparr>ct_session := s\<rparr>" "b \<longleftrightarrow> app_state c = Recording"
    by (auto split: if_splits)
  show ?thesis
  proof (cases b)
    case False
    with c1 have "transition (app_state c) Pause = None" by simp
    from fire_refused [OF this] st have "c' = c" by (auto simp: pause_op_def)
    moreover have "hear W PausePressed (c, e) h = h" using c1(2) False by (simp add: hear_def)
    ultimately show ?thesis using he by simp
  next
    case True
    with st 1 have 2: "stopStreams F W (c1, e) = Some (c', e')" by (auto simp: pause_op_def bind_eq_Some_conv)
    have "ends_stretch PausePressed (app_state c)" using True c1(2) by simp
    from stopStreams_hearing [OF he this 2 [unfolded c1(1)]] show ?thesis .
  qed
qed

lemma resume_hearing:
  assumes he: "hearing F cfg p0 x h c" and ok: "controller_ok c"
  shows "hearing F cfg p0 x h (fst (fst (resume_op F W (c, e))))"
proof (cases "app_state c = Paused")
  case False
  with he show ?thesis by (simp add: resume_op_def app_state_def)
next
  case True
  obtain c1 e1 started where 1: "startStreams F W (c, e) = ((c1, e1), started)" by (metis prod.collapse)
  have x: "feeder c = x" using he by (simp add: hearing_def)
  from he have l: "listening F cfg p0 x (concat (map (resynced F x) (fst (h x)))) (snd (h x)) c" by (simp add: hearing_def)
  then have "snd (h x) = []" using gone_buffers [OF ok True, of x] by (auto simp: listening_def feeding_def split: option.splits)
  with l startStreams_listens [OF _ gone_buffers [OF ok True] 1] x
  have "listening F cfg p0 x (concat (map (resynced F x) (fst (h x)))) (snd (h x)) c1" by simp
  moreover have "choice c1 = choice c" using startStreams_choice [of F W "(c, e)"] 1 by simp
  ultimately have "hearing F cfg p0 x h c1" using x choice_feeder [of c1 c] by (simp add: hearing_def)
  then show ?thesis using True 1 by (simp add: resume_op_def app_state_def fire_hearing Let_def split_beta)
qed

text \<open>The events of a run whose selection of the microphone stays.\<close>

fun keeps_choice :: "app_event \<Rightarrow> bool" where
  "keeps_choice StopPressed = False"
| "keeps_choice Refresh = False"
| "keeps_choice (SelectMicrophone i) = False"
| "keeps_choice ev = True"

lemma client_thread_hearing: "hearing F cfg p0 x h c \<Longrightarrow> hearing F cfg p0 x h (client_thread_step ev c)"
proof -
  let ?c = "client_thread_step ev c"
  assume "hearing F cfg p0 x h c"
  moreover have v: "pipeline y ?c = pipeline y c" for y
    by (cases y) (auto simp: client_thread_step_def split: option.split)
  moreover have r: "rings_ok ?c = rings_ok c" by (auto simp: client_thread_step_def rings_ok_def split: option.split)
  moreover have "choice ?c = choice c" by (auto simp: client_thread_step_def choice_def split: option.split)
  ultimately show ?thesis
    unfolding hearing_def listening_def feeding_cong [OF v r] using choice_feeder [of ?c c] client_thread_transcribes by metis
qed

lemma app_step_hearing:
  assumes he: "hearing F cfg p0 x h c" and ok: "controller_ok c" "app_state c \<noteq> Idle" and "keeps_choice ev"
    and st: "app_step F W ev (c, e) = Some (c', e')"
  shows "hearing F cfg p0 x (hear W ev (c, e) h) c'"
proof (cases ev)
  case PausePressed
  with st obtain good where "pause_op F W (c, e) = Some ((c', e'), good)" by auto
  from pause_hearing [OF he this] show ?thesis by (simp add: PausePressed)
next
  case ResumePressed
  with st resume_hearing [OF he ok(1), of W e] have "hearing F cfg p0 x h c'" by (cases "resume_op F W (c, e)") auto
  then show ?thesis by (simp add: hear_def ResumePressed)
next
  case (FrameCaptured y f)
  with st have c': "c' = onFrame y f c" by simp
  have "feeder c' = x" using he choice_feeder [of c' c] by (simp add: c' hearing_def)
  with he onFrame_listens [of F cfg p0 x _ _ c y f] show ?thesis
    by (cases "y = x") (simp_all add: hearing_def hear_def FrameCaptured c')
next
  case (DrainTurn y)
  with st obtain again where d: "drain_one F W y (c, e) = Some ((c', e'), again)" by auto
  with he drain_one_listens [OF d] drain_one_choice [OF d] choice_feeder [of c' c] show ?thesis
    by (simp add: hearing_def hear_def DrainTurn)
next
  case (ClientStep ev')
  with st client_thread_hearing [OF he, of ev'] show ?thesis by (auto simp: hear_def)
next
  case StartPressed
  with st ok he show ?thesis by (auto simp: start_op_def isIdle_state hear_def)
next
  case (SelectSystemOutput i)
  with st hearing_cong [of c' c] he show ?thesis
    by (auto simp: hear_def setSelectedSystemOutput_def stt_view_def choice_def split: if_splits)
next
  case (SetOutputDirectory d)
  with st hearing_cong [of c' c] he show ?thesis
    by (auto simp: hear_def setOutputDirectory_def stt_view_def choice_def split: if_splits)
next
  case (SetSttEndpoint d)
  with st hearing_cong [of c' c] he show ?thesis
    by (auto simp: hear_def setSttEndpoint_def stt_view_def choice_def split: if_splits)
next
  case Tick
  with st hearing_cong [of c' c] he show ?thesis
    by (auto simp: hear_def onStatsTick_def ui_fail_def stt_view_def choice_def split: if_splits)
next
  case (TranscriptArrived u)
  with st hearing_cong [of c' c] he show ?thesis
    by (auto simp: hear_def applyTranscript_def stt_view_def choice_def split: option.splits)
qed (use assms(4) in simp_all)

lemma app_run_hearing:
  "hearing F cfg p0 x h c \<Longrightarrow> controller_ok c \<Longrightarrow> app_state c \<noteq> Idle \<Longrightarrow> \<forall>ev \<in> set evs. keeps_choice ev \<Longrightarrow>
   app_run F W evs (c, e) = Some (c', e') \<Longrightarrow> hearing F cfg p0 x (heard_in F W evs (c, e) h) c'"
proof (induction evs arbitrary: h c e)
  case (Cons ev evs)
  from Cons.prems(5) obtain c1 e1 where 1: "app_step F W ev (c, e) = Some (c1, e1)" "app_run F W evs (c1, e1) = Some (c', e')"
    by (auto simp: bind_eq_Some_conv)
  have k: "keeps_choice ev" "\<forall>ev \<in> set evs. keeps_choice ev" "ev \<noteq> StopPressed" using Cons.prems(4) by auto
  from Cons.IH [OF app_step_hearing [OF Cons.prems(1-3) k(1) 1(1)] app_step_ok [OF 1(1) Cons.prems(2)]
    app_step_active [OF 1(1) Cons.prems(2,3) k(3)] k(2) 1(2)] 1(1) show ?case by simp
qed simp


section \<open>The start\<close>

lemma startStt_choice [simp]: "choice (fst (startSttStreaming F W (c, e))) = choice c"
  by (auto simp: startSttStreaming_def choice_def ui_fail_def Let_def split_beta split: option.split)

lemma choice_producer_config: "choice c' = choice c \<Longrightarrow> stt_producer_config c' = stt_producer_config c"
  by (simp add: choice_def stt_producer_config_def microphoneSelected_def)

lemma startStt_audio_part: "audio_part (fst (startSttStreaming F W (c, e))) = audio_part c"
  by (auto simp: startSttStreaming_def Let_def split_beta ui_fail_def audio_part_def split: option.split)

text \<open>Once active, the client is a new one that was started, and the producer a new one.\<close>

lemma startStt_transcribes:
  assumes "startSttStreaming F W (c, e) = (c', e')" and "\<not> ct_sttActive c" and "ct_sttActive c'"
  shows "ct_sttEndpoint c' = ct_sttEndpoint c \<and> (\<exists>p0 session. SttProducer.create F (stt_producer_config c) = Some p0
    \<and> transcribes F (stt_client_config_for (ct_sttEndpoint c) session) p0 [] c')"
proof -
  let ?cfg = "stt_client_config_for (ct_sttEndpoint c) (w_isoTime W e)"
  obtain e1 k s where w: "w_connect W (ct_sttEndpoint c) e = (e1, k, s)" by (metis prod_cases3)
  let ?start = "client_start True k s (createGrpcSttStreamClient ?cfg)"
  from assms w obtain p0 where 1: "SttProducer.create F (stt_producer_config c) = Some p0" "snd ?start"
    "ct_sttEndpoint c' = ct_sttEndpoint c" "ct_sttProducer c' = Some p0" "ct_sttClient c' = Some (fst ?start)"
    by (auto simp: startSttStreaming_def Let_def split_beta ui_fail_def stt_producer_config_def microphoneSelected_def
      split: if_splits option.splits)
  have "client_step (createGrpcSttStreamClient ?cfg) (Start True k s) (fst ?start)"
    by (rule client_step.starts) (simp add: createGrpcSttStreamClient_def)
  with client_run.stepped [OF client_run.created this] have "offered_to ?cfg (fst ?start) no_history []"
    using 1(2) by (auto simp: offered_to_def no_history_def client_start_def createGrpcSttStreamClient_def Let_def split: if_splits)
  with 1 have "transcribes F ?cfg p0 [] c'" unfolding transcribes_def by (intro exI conjI) (assumption | simp)+
  with 1 show ?thesis by blast
qed

lemma startTrack_stt [simp]:
  "ct_sttEndpoint (fst (fst (startTrack F W y device kind ch t feeds ce))) = ct_sttEndpoint (fst ce)"
  "ct_sttActive (fst (fst (startTrack F W y device kind ch t feeds ce))) = ct_sttActive (fst ce)"
  by (cases y; simp add: startTrack_def Let_def split_beta ui_fail_def split: sum.split)+

lemma startStreams_stt [simp]:
  "ct_sttEndpoint (fst (fst (startStreams F W ce))) = ct_sttEndpoint (fst ce)"
  "ct_sttActive (fst (fst (startStreams F W ce))) = ct_sttActive (fst ce)"
  by (simp_all add: startStreams_def Let_def split_beta)

lemma start_hears:
  assumes ok: "controller_ok c" and st: "start_op F W (c, e) = Some ((c', e'), True)" and active: "ct_sttActive c'"
  shows "\<exists>p0 session. SttProducer.create F (stt_producer_config c') = Some p0
    \<and> hearing F (stt_client_config_for (ct_sttEndpoint c') session) p0 (feeder c') (\<lambda>_. ([], [])) c'"
proof -
  from st obtain ca ea cb eb s cc ec cd where 1: "isIdle c"
    "(if ct_microphones c = [] \<and> ct_systemOutputs c = [] then refreshDevices W (c, e) else (c, e)) = (ca, ea)"
    and 2: "createWriter W (ca\<lparr>ct_lastError := None\<rparr>, ea) = Some ((cb, eb), True)"
    and 3: "startSttStreaming F W (cb\<lparr>ct_session := s\<rparr>, eb) = (cc, ec)"
    and 4: "startStreams F W (cc, ec) = ((cd, e'), True)" and c': "c' = cd\<lparr>ct_statsTimer := True\<rparr>"
    by (rule start_cases)
  have "streams_part ca = streams_part c"
    using 1(2) refreshDevices_frame [of W c e ca ea] by (auto split: if_splits)
  with createWriter_frame [OF 2] have p: "streams_part cb = streams_part c" by (simp add: streams_part_def)
  have idle: "app_state c = Idle" using 1(1) by (simp add: isIdle_state)
  have gone: "tp_buffer (pipeline y cb) = None" "tp_synchronizer (pipeline y cb) = None" for y
    using p ok idle by (cases y; auto simp: streams_part_def controller_ok_def shape_def gone_def)+
  have "\<not> ct_sttActive (cb\<lparr>ct_session := s\<rparr>)" using p ok idle by (auto simp: streams_part_def controller_ok_def)
  moreover have "ct_sttActive cc" using active 4 startStreams_stt(2) [of F W "(cc, ec)"] by (simp add: c')
  ultimately obtain p0 session where t: "ct_sttEndpoint cc = ct_sttEndpoint (cb\<lparr>ct_session := s\<rparr>)"
    "SttProducer.create F (stt_producer_config (cb\<lparr>ct_session := s\<rparr>)) = Some p0"
    "transcribes F (stt_client_config_for (ct_sttEndpoint (cb\<lparr>ct_session := s\<rparr>)) session) p0 [] cc"
    using startStt_transcribes [OF 3] by blast
  have ch: "choice cc = choice cb" "choice cd = choice cc"
    using startStt_choice [of F W "cb\<lparr>ct_session := s\<rparr>" eb] startStreams_choice [of F W "(cc, ec)"] 3 4 by simp_all
  have "audio_part cc = audio_part (cb\<lparr>ct_session := s\<rparr>)" using startStt_audio_part [of F W "cb\<lparr>ct_session := s\<rparr>" eb] 3 by simp
  from audio_part_pipeline [OF this] have pc: "pipeline y cc = pipeline y cb" for y by simp
  have "rings_ok cc" using gone(1) [folded pc, of MicrophoneTrack] gone(1) [folded pc, of SystemOutputTrack]
    by (simp add: rings_ok_def)
  then have "feeding F (feeder cc) [] cc []" using gone by (simp add: feeding_def pc)
  with t(3) have "listening F (stt_client_config_for (ct_sttEndpoint (cb\<lparr>ct_session := s\<rparr>)) session) p0 (feeder cc) [] [] cc"
    by (auto simp: listening_def)
  from startStreams_listens [OF this _ 4] gone pc
  have "listening F (stt_client_config_for (ct_sttEndpoint (cb\<lparr>ct_session := s\<rparr>)) session) p0 (feeder cc) [] [] cd" by simp
  then have h: "hearing F (stt_client_config_for (ct_sttEndpoint cc) session) p0 (feeder cd) (\<lambda>_. ([], [])) cd"
    using choice_feeder [OF ch(2)] t(1) by (simp add: hearing_def)
  have "hearing F cfg p0 x h0 c' = hearing F cfg p0 x h0 cd" for cfg x h0
    by (rule hearing_cong) (simp_all add: c' stt_view_def choice_def)
  moreover have "choice c' = choice cd" by (simp add: c' choice_def)
  moreover have "ct_sttEndpoint c' = ct_sttEndpoint cc" using 4 startStreams_stt(1) [of F W "(cc, ec)"] by (simp add: c')
  moreover have "choice (cb\<lparr>ct_session := s\<rparr>) = choice cb" by simp
  ultimately show ?thesis using h t(2) ch choice_feeder [of c' cd]
      choice_producer_config [of c' "cb\<lparr>ct_session := s\<rparr>"] by auto
qed


section \<open>The property\<close>

text \<open>
  C3: what is transcribed is what was captured. Take an accepted start after which transcription is
  active, any events that leave the selection of the microphone (frames, turns of the drain
  thread, pauses and resumes, steps of the client's threads), and an accepted stop. When the
  streams have stopped, the producer has processed exactly the frames that the ring of
  the feeding track took (the microphone's if there is one, otherwise the system output's), each
  stretch of capture resynchronised as for the file: their samples are those of \<open>spliced\<close>. The
  client was offered exactly the producer's output; what it accepted, and what it wrote to the stream,
  is a subsequence of it, in order and unchanged; and every frame offered is sent, counted as dropped,
  being written or still queued.
\<close>

theorem what_is_transcribed_is_what_was_captured:
  assumes "controller_ok c" and "start_op F W (c, e) = Some ((c0, e0), True)" and "ct_sttActive c0"
    and "app_run F W evs (c0, e0) = Some (c1, e1)" and "\<forall>ev \<in> set evs. keeps_choice ev"
    and "stop_op F W (c1, e1) = Some ((c2, e2), True)"
    and "x = feeder c0" and "segments = fst (heard_in F W (evs @ [StopPressed]) (c0, e0) (\<lambda>_. ([], [])) x)"
  shows "\<exists>p0 s c' e' p cl h stt fed. SttProducer.create F (stt_producer_config c0) = Some p0
    \<and> stopStreams F W (c1\<lparr>ct_session := s\<rparr>, e1) = Some (c', e') \<and> ct_sttProducer c' = Some p \<and> ct_sttClient c' = Some cl
    \<and> concat (map sample_frames fed) = spliced F x segments \<and> stt_process_all F p0 fed = Some (p, stt)
    \<and> client_run (cl_config cl) cl h \<and> sc_endpoint (cl_config cl) = ct_sttEndpoint c0
    \<and> hs_offered h = length stt \<and> subseq (map request_content (hs_accepted h)) (map frame_content stt)
    \<and> subseq (map request_content (hs_wire h)) (map frame_content stt)
    \<and> cl_framesSent cl + cl_framesDropped cl + of_nat (length (in_flight (cl_writer cl)) + length (cl_queue cl))
        = of_nat (length stt)"
proof -
  have ok0: "controller_ok c0" "app_state c0 = Recording" using start_op_ok [OF assms(2,1)] by simp_all
  have ok1: "controller_ok c1" by (rule app_run_ok [OF assms(4) ok0(1)])
  from start_hears [OF assms(1-3)] obtain p0 session where p0: "SttProducer.create F (stt_producer_config c0) = Some p0"
    and "hearing F (stt_client_config_for (ct_sttEndpoint c0) session) p0 x (\<lambda>_. ([], [])) c0"
    unfolding assms(7) by blast
  from app_run_hearing [OF this(2) ok0(1) _ assms(5,4)] ok0(2)
  have he: "hearing F (stt_client_config_for (ct_sttEndpoint c0) session) p0 x (heard_in F W evs (c0, e0) (\<lambda>_. ([], []))) c1" by simp
  from assms(6) ok1 show ?thesis
  proof (cases rule: stop_op_cases)
    case (stopped s c' e' c4 saved err)
    have ends: "ends_stretch StopPressed (app_state c1)" using stopped by simp
    note run = heard_in_snoc [OF assms(4), of StopPressed]
    have "snd (heard_in F W (evs @ [StopPressed]) (c0, e0) (\<lambda>_. ([], [])) x) = []" using ends by (simp add: run hear_def)
    moreover have "hearing F (stt_client_config_for (ct_sttEndpoint c0) session) p0 x
        (heard_in F W (evs @ [StopPressed]) (c0, e0) (\<lambda>_. ([], []))) c'"
      using stopStreams_hearing [OF he ends stopped(3)] by (simp add: run)
    ultimately have "listening F (stt_client_config_for (ct_sttEndpoint c0) session) p0 x
        (concat (map (resynced F x) segments)) [] c'" by (simp add: hearing_def assms(8))
    then obtain outs where "feeding F x [] c' outs"
      and t: "transcribes F (stt_client_config_for (ct_sttEndpoint c0) session) p0 (concat (map (resynced F x) segments) @ outs) c'"
      by (auto simp: listening_def)
    moreover have "ct_microphonePipeline c' = no_pipeline \<and> ct_systemOutputPipeline c' = no_pipeline"
      using stopped(3) by (auto simp: stopStreams_def bind_eq_Some_conv split_beta)
    ultimately have "outs = []" by (cases x) (simp_all add: feeding_def no_pipeline_def)
    with t obtain cl p h stt where r: "ct_sttClient c' = Some cl" "ct_sttProducer c' = Some p"
      "stt_process_all F p0 (concat (map (resynced F x) segments)) = Some (p, stt)"
      "offered_to (stt_client_config_for (ct_sttEndpoint c0) session) cl h stt" by (auto simp: transcribes_def)
    from r(4) have cl: "client_run (stt_client_config_for (ct_sttEndpoint c0) session) cl h" "hs_offered h = length stt"
      "subseq (map request_content (hs_accepted h)) (map frame_content stt)" "hs_late h = 0" by (simp_all add: offered_to_def)
    note v = run_ok [OF cl(1)]
    from v have cfg: "cl_config cl = stt_client_config_for (ct_sttEndpoint c0) session" by blast
    from v have "prefix (hs_wire h) (hs_accepted h)" by (simp add: order_ok_def)
    then have wire: "subseq (map request_content (hs_wire h)) (map frame_content stt)"
      by (intro subseq_order.trans [OF prefix_imp_subseq [OF map_mono_prefix] cl(3)])
    from v have "hs_cleared h = 0" by (simp add: count_ok_def cl(4))
    with v have "cl_framesSent cl + cl_framesDropped cl + of_nat (length (in_flight (cl_writer cl)) + length (cl_queue cl))
        = of_nat (length stt)" by (simp add: count_ok_def cl(2))
    moreover have "sc_endpoint (cl_config cl) = ct_sttEndpoint c0" by (simp add: cfg stt_client_config_for_def)
    moreover have "client_run (cl_config cl) cl h" using cl(1) by (simp only: cfg)
    moreover note spliced_resynced [of F x segments, symmetric]
    ultimately show ?thesis using p0 stopped(3) r(1-3) cl(2,3) wire
      by (intro exI [of _ p0] exI [of _ s] exI [of _ c'] exI [of _ e'] exI [of _ p] exI [of _ cl] exI [of _ h] exI [of _ stt]
        exI [of _ "concat (map (resynced F x) segments)"] conjI)
  qed simp
qed


section \<open>A concrete transcription\<close>

text \<open>The steady world with a service that can be reached, and a controller with its endpoint.\<close>

definition scribe_world :: "memory world" where
  "scribe_world = steady_world\<lparr>w_connect := \<lambda>_ e. (e, True, True)\<rparr>"

definition scribe_controller :: "'d controller" where
  "scribe_controller = setSttEndpoint ''s'' (new_controller ''d'')"

lemma scribe_media [simp]: "w_media scribe_world = memory_api" "w_stopStream scribe_world h e = (e, [])"
  "w_unixMs scribe_world e = 0" "w_moved_from scribe_world = w_moved_from steady_world"
  by (simp_all add: scribe_world_def)

lemma scribe_ok: "controller_ok (scribe_controller :: 'd controller)"
proof -
  note f = setters_frame(4) [of "''s''" "new_controller ''d'' :: 'd controller"]
  from controller_ok_cong [OF conjunct1 [OF f] conjunct2 [OF f]] new_controller_ok [of "''d''"] show ?thesis
    by (simp add: scribe_controller_def)
qed

lemma scribe_start:
  obtains c w k cl p where "start_op F scribe_world (scribe_controller, \<lambda>_. []) = Some ((c, \<lambda>_. []), True)"
    "rs_state (ct_session c) = Recording" "tp_buffer (ct_microphonePipeline c) = Some (new_ring empty_frame (unat (ringBufferCapacityFrames default_config)))"
    "tp_synchronizer (ct_microphonePipeline c) = Some (new_track_sync F (app_sync_config 1))"
    "tp_stream (ct_microphonePipeline c) = Some 0" "ct_systemOutputPipeline c = no_pipeline"
    "tp_feedsSttStream (ct_microphonePipeline c)" "tp_writerTrack (ct_microphonePipeline c) = 0"
    "ct_writer c = Some w" "ct_writerFailed c = False" "ct_sttActive c" "ct_sttClient c = Some cl" "ct_sttProducer c = Some p"
    "stt_ready p" "length (sp_pending p) < unat (sp_samplesPerOutputFrame p)" "feeder c = MicrophoneTrack"
    "rw_state w = Open" "rc_tracks (rw_config w) = [archival_track Microphone 1 ''Microphone'']"
    "rs_framesWritten (rw_stats w) = 0" "rw_tracks w = [k]" "tk_chunkSamples k = 2" "tk_nextPts k = 0"
    "ct_pendingOutputFile c = ''d/voxmesh-t.flac''"
proof -
  have "\<exists>c w k cl p. start_op F scribe_world (scribe_controller, \<lambda>_. []) = Some ((c, \<lambda>_. []), True)
    \<and> rs_state (ct_session c) = Recording \<and> tp_buffer (ct_microphonePipeline c) = Some (new_ring empty_frame (unat (ringBufferCapacityFrames default_config)))
    \<and> tp_synchronizer (ct_microphonePipeline c) = Some (new_track_sync F (app_sync_config 1))
    \<and> tp_stream (ct_microphonePipeline c) = Some 0 \<and> ct_systemOutputPipeline c = no_pipeline
    \<and> tp_feedsSttStream (ct_microphonePipeline c) \<and> tp_writerTrack (ct_microphonePipeline c) = 0
    \<and> ct_writer c = Some w \<and> ct_writerFailed c = False \<and> ct_sttActive c \<and> ct_sttClient c = Some cl \<and> ct_sttProducer c = Some p
    \<and> stt_ready p \<and> length (sp_pending p) < unat (sp_samplesPerOutputFrame p) \<and> feeder c = MicrophoneTrack
    \<and> rw_state w = Open \<and> rc_tracks (rw_config w) = [archival_track Microphone 1 ''Microphone'']
    \<and> rs_framesWritten (rw_stats w) = 0
    \<and> rw_tracks w = [k] \<and> tk_chunkSamples k = 2 \<and> tk_nextPts k = 0 \<and> ct_pendingOutputFile c = ''d/voxmesh-t.flac''"
    by (simp add: start_op_def isIdle_def new_controller_def new_session_def refreshDevices_def demo_world_def steady_world_def
      scribe_world_def scribe_controller_def setSttEndpoint_def
      defaultIndex_def demo_device_def Let_def createWriter_def microphoneSelected_def systemOutputSelected_def selected_def
      writer_tracks_def recording_candidate_def fresh_name_free archival_track_def
      createRecordingWriter_def writer_open_def new_writer_def track_sane_def openTrack_def codec_time_base_def memory_api_def log_call_def
      fire_def handle_def startSttStreaming_def startStreams_def startTrack_def app_state_def
      SttProducer.create_def stt_producer_config_def default_config_def samplesPerChannel_def new_stt_producer_def stt_ready_def
      client_start_def createGrpcSttStreamClient_def feeder_def
      split del: if_split)
  then show thesis by (elim exE conjE) (rule that)
qed


lemma scribe_drain:
  assumes b: "tp_buffer (ct_microphonePipeline c) = Some b" "ring_inv b" "contents b = [captured_frame]"
    and s: "tp_synchronizer (ct_microphonePipeline c) = Some (new_track_sync real_ops (app_sync_config 1))"
    and w: "ct_writer c = Some w" "\<not> ct_writerFailed c" "tp_writerTrack (ct_microphonePipeline c) = 0"
    and stt: "tp_feedsSttStream (ct_microphonePipeline c)" "ct_sttClient c = Some cl" "ct_sttProducer c = Some q"
      "stt_ready q" "length (sp_pending q) < unat (sp_samplesPerOutputFrame q)"
    and wr: "writer_write memory_api 0 captured_frame (w, e) = Some ((w1, e1), True)"
  shows "\<exists>p n cl' q'. drainPipelineLocked real_ops scribe_world MicrophoneTrack c e
    = Some (c\<lparr>ct_microphonePipeline := p, ct_framesCaptured := n, ct_sttProducer := Some q', ct_sttClient := Some cl',
        ct_writer := Some w1, ct_writerFailed := False\<rparr>, e1)"
proof -
  from captured_frame_processed obtain s' where p: "process real_ops (new_track_sync real_ops (app_sync_config 1)) captured_frame
    = Some (s', [captured_frame])" by (auto simp: bind_eq_Some_conv)
  have "0 \<le> fr_timestamp captured_frame" "fr_timestamp captured_frame \<le> 2 ^ 62" by (simp_all add: captured_frame_def)
  from stt_step_emitted [OF stt(4) this stt(5), of real_ops] obtain q' outs where
    q: "stt_process real_ops q captured_frame = Some (q', outs)" by blast
  obtain b' where b': "ring_inv b'" "contents b' = []" and u: "drainPipelineLocked real_ops scribe_world MicrophoneTrack c e
      = Option.bind (drain_frame real_ops scribe_world MicrophoneTrack captured_frame
          (set_pipeline MicrophoneTrack ((pipeline MicrophoneTrack c)\<lparr>tp_buffer := Some b'\<rparr>) c, e))
          (\<lambda>(c', e'). drainPipelineLocked real_ops scribe_world MicrophoneTrack c' e')"
    using drain_unfold(2) [of MicrophoneTrack c b _ captured_frame "[]" real_ops scribe_world e] b s by auto
  let ?p = "(ct_microphonePipeline c)\<lparr>tp_buffer := Some b', tp_synchronizer := Some s'\<rparr>"
  let ?c = "c\<lparr>ct_microphonePipeline := ?p, ct_framesCaptured := ct_framesCaptured c + 1, ct_sttProducer := Some q',
    ct_sttClient := Some (send_all 0 outs cl), ct_writer := Some w1, ct_writerFailed := False\<rparr>"
  have "drain_frame real_ops scribe_world MicrophoneTrack captured_frame
          (set_pipeline MicrophoneTrack ((pipeline MicrophoneTrack c)\<lparr>tp_buffer := Some b'\<rparr>) c, e) = Some (?c, e1)"
    using s p w stt(1-3) q wr by (simp add: drain_frame_def feed_def store_def Let_def)
  moreover have "drainPipelineLocked real_ops scribe_world MicrophoneTrack ?c e1 = Some (?c, e1)"
    using b' by (intro drain_unfold(1) [where b = b' and s = s']) simp_all
  ultimately have "drainPipelineLocked real_ops scribe_world MicrophoneTrack c e = Some (?c, e1)" by (simp add: u)
  then show ?thesis by blast
qed

theorem what_is_transcribed_is_what_was_captured_witness:
  "\<exists>c0 c1 c2 e2 p0 fed p stt s c' e' cl. start_op real_ops scribe_world (scribe_controller, \<lambda>_. []) = Some ((c0, \<lambda>_. []), True)
    \<and> ct_sttActive c0
    \<and> app_run real_ops scribe_world [FrameCaptured MicrophoneTrack captured_frame] (c0, \<lambda>_. []) = Some (c1, \<lambda>_. [])
    \<and> stop_op real_ops scribe_world (c1, \<lambda>_. []) = Some ((c2, e2), True)
    \<and> SttProducer.create real_ops (stt_producer_config c0) = Some p0
    \<and> concat (map sample_frames fed) = [[1, 2]] \<and> stt_process_all real_ops p0 fed = Some (p, stt)
    \<and> stopStreams real_ops scribe_world (c1\<lparr>ct_session := s\<rparr>, \<lambda>_. []) = Some (c', e')
    \<and> ct_sttProducer c' = Some p \<and> ct_sttClient c' = Some cl
    \<and> cl_framesSent cl + cl_framesDropped cl + of_nat (length (in_flight (cl_writer cl)) + length (cl_queue cl)) = of_nat (length stt)"
proof -
  obtain c w k cl q where st: "start_op real_ops scribe_world (scribe_controller, \<lambda>_. []) = Some ((c, \<lambda>_. []), True)"
    and 1: "rs_state (ct_session c) = Recording" "tp_buffer (ct_microphonePipeline c) = Some (new_ring empty_frame (unat (ringBufferCapacityFrames default_config)))"
    "tp_synchronizer (ct_microphonePipeline c) = Some (new_track_sync real_ops (app_sync_config 1))"
    "tp_stream (ct_microphonePipeline c) = Some 0" "ct_systemOutputPipeline c = no_pipeline"
    "tp_feedsSttStream (ct_microphonePipeline c)" "tp_writerTrack (ct_microphonePipeline c) = 0"
    "ct_writer c = Some w" "ct_writerFailed c = False"
    and stt: "ct_sttActive c" "ct_sttClient c = Some cl" "ct_sttProducer c = Some q"
    "stt_ready q" "length (sp_pending q) < unat (sp_samplesPerOutputFrame q)" "feeder c = MicrophoneTrack"
    and w: "rw_state w = Open" "rc_tracks (rw_config w) = [archival_track Microphone 1 ''Microphone'']"
    "rs_framesWritten (rw_stats w) = 0" "rw_tracks w = [k]" "tk_chunkSamples k = 2" "tk_nextPts k = 0"
    and pending: "ct_pendingOutputFile c = ''d/voxmesh-t.flac''"
    by (rule scribe_start [of real_ops])
  from steady_file [OF w(1,2,4-6)] obtain w1 w2 e2 where
    wr: "writer_write memory_api 0 captured_frame (w, \<lambda>_. []) = Some ((w1, (\<lambda>_. [])(Fifo 0 := [[1, 2]])), True)"
      "rs_framesWritten (rw_stats w1) = 1" "writer_finalize memory_api (w1, (\<lambda>_. [])(Fifo 0 := [[1, 2]])) = Some ((w2, e2), True)"
    using w(3) by auto
  let ?r = "new_ring empty_frame (unat (ringBufferCapacityFrames default_config))"
  let ?b = "fst (tryPush ?r captured_frame)" and ?c = "onFrame MicrophoneTrack captured_frame c"
  have rb: "ring_inv ?b" by (intro ring.push_invar new_ring_inv)
  have push: "contents ?b = [captured_frame]" "snd (tryPush ?r captured_frame)"
    using ring.push_step [OF new_ring_inv, of empty_frame "unat (ringBufferCapacityFrames default_config)" captured_frame]
    by (simp_all add: bq_push_def default_config_def)
  have run: "app_run real_ops scribe_world [FrameCaptured MicrophoneTrack captured_frame] (c, \<lambda>_. []) = Some (?c, \<lambda>_. [])" by simp
  have c: "?c = c\<lparr>ct_microphonePipeline := (ct_microphonePipeline c)\<lparr>tp_buffer := Some ?b\<rparr>\<rparr>" using 1(2) by (simp add: onFrame_def)
  obtain s where fs: "fire Stop ?c = (?c\<lparr>ct_session := s\<rparr>, True)"
    using 1(1) by (simp add: c fire_def handle_def Let_def)
  let ?cs = "?c\<lparr>ct_session := s\<rparr>"
  obtain p n cl1 q1 where dr: "drainPipelineLocked real_ops scribe_world MicrophoneTrack ?cs (\<lambda>_. [])
    = Some (?cs\<lparr>ct_microphonePipeline := p, ct_framesCaptured := n, ct_sttProducer := Some q1, ct_sttClient := Some cl1,
        ct_writer := Some w1, ct_writerFailed := False\<rparr>, (\<lambda>_. [])(Fifo 0 := [[1, 2]]))"
    using scribe_drain [of ?cs ?b w cl q "\<lambda>_. []", OF _ rb push(1) _ _ _ _ _ _ _ stt(4,5) wr(1)] 1 stt by (auto simp: c)
  have streams: "stop_stream scribe_world MicrophoneTrack (?cs, \<lambda>_. []) = (?cs, \<lambda>_. [])"
    "stop_stream scribe_world SystemOutputTrack (?cs, \<lambda>_. []) = (?cs, \<lambda>_. [])"
    using 1(4,5) by (simp_all add: stop_stream_def c no_pipeline_def)
  then obtain c3 where ss: "stopStreams real_ops scribe_world (?cs, \<lambda>_. []) = Some (c3, (\<lambda>_. [])(Fifo 0 := [[1, 2]]))"
    and c3: "ct_writer c3 = Some w1" "ct_writerFailed c3 = False"
    using dr 1(5) by (simp add: stopStreams_def empty_drain c)
  then obtain c2 e3 where sp: "stop_op real_ops scribe_world (?c, \<lambda>_. []) = Some ((c2, e3), True)"
    using fs wr(2,3) by (simp add: stop_op_def finish_writer_def Let_def del: fire_choice)
  have "app_state c = Recording" using 1(1) by (simp add: app_state_def)
  then have h: "fst (heard_in real_ops scribe_world ([FrameCaptured MicrophoneTrack captured_frame] @ [StopPressed]) (c, \<lambda>_. [])
      (\<lambda>_. ([], [])) MicrophoneTrack) = [[captured_frame]]"
    using 1(2,4,5) push(2) sp by (simp add: hear_def app_state_def c stream_frames_def)
  have keeps: "\<forall>ev \<in> set [FrameCaptured MicrophoneTrack captured_frame]. keeps_choice ev" by simp
  have "synced real_ops MicrophoneTrack [captured_frame] = [[1, 2]]"
    using captured_frame_processed by (auto simp: synced_def new_sync_def captured_frame_def sample_frames_def sampleCountPerChannel_def Let_def)
  then have "spliced real_ops MicrophoneTrack [[captured_frame]] = [[1, 2]]" by simp
  with what_is_transcribed_is_what_was_captured [OF scribe_ok st stt(1) run keeps sp stt(6) [symmetric] h [symmetric]] st stt(1) run sp
  show ?thesis by metis
qed

end
