(* ===== verification/Loopback.thy ===== *)
theory Loopback
  imports MockServer Transcription
begin

text \<open>
  The application of \<open>apps/desktop-recorder/src/main.cpp\<close>: the controller, and beside it the
  scripted server its transcription goes to. What the user sees of the server's answers, and
  what happens when the window is closed while transcription is active.
\<close>

section \<open>What the transcript shows\<close>

text \<open>The segments' identifiers are distinct up to the eleven digits that fit.\<close>

definition seg_name :: "nat \<Rightarrow> string" where
  "seg_name s = segmentId (of_nat s)"

lemma to_string_length: "n < 10 ^ k \<Longrightarrow> 0 < k \<Longrightarrow> length (to_string n) \<le> k"
proof (induction k arbitrary: n)
  case (Suc k)
  show ?case
  proof (cases "n < 10")
    case True
    then show ?thesis by (subst to_string.simps) simp
  next
    case False
    with Suc.prems have "n div 10 < 10 ^ k" "0 < k" by (cases k; simp)+
    with Suc.IH [of "n div 10"] False show ?thesis by (subst to_string.simps) simp
  qed
qed simp

lemma dec_value_zeros [simp]: "dec_value (replicate m (CHR ''0'') @ s) = dec_value s"
  by (induction m) (simp_all add: dec_value_def digit_value_def)

lemma seg_name_value:
  assumes "s < 10 ^ 11"
  shows "dec_value (drop 4 (seg_name s)) = s"
proof -
  let ?d = "to_string s"
  have u: "unat (of_nat s :: u64) = s" using assms by (intro unat_of_nat_u64) simp
  have "length ?d \<le> 11" by (rule to_string_length [OF assms]) simp
  then have "length (''seg-'' @ replicate (4 - length ?d) (CHR ''0'') @ ?d) \<le> 15" by simp
  then have "seg_name s = ''seg-'' @ replicate (4 - length ?d) (CHR ''0'') @ ?d"
    unfolding seg_name_def segmentId_def u Let_def by (rule take_all)
  then show ?thesis by simp
qed

lemma seg_name_eq: "s < 10 ^ 11 \<Longrightarrow> t < 10 ^ 11 \<Longrightarrow> seg_name s = seg_name t \<longleftrightarrow> s = t"
  using seg_name_value by metis

lemma index_of_map:
  assumes "\<And>s t. s < m \<Longrightarrow> t < m \<Longrightarrow> f s = f t \<longleftrightarrow> s = t" and "n \<le> m" and "s < m"
  shows "index_of (f s) (map f [k..<n]) i = (if k \<le> s \<and> s < n then Some (i + (s - k)) else None)"
  using assms(2)
proof (induction "n - k" arbitrary: k i)
  case (Suc d)
  then have k: "k < n" by simp
  then have "[k..<n] = k # [Suc k..<n]" by (rule upt_conv_Cons)
  moreover have "d = n - Suc k" using Suc.hyps(2) by simp
  note Suc.hyps(1) [OF this Suc.prems, of "Suc i"]
  ultimately show ?case using assms(1) [of k s] assms(3) Suc.prems k by auto
qed simp

text \<open>After \<open>j\<close> updates: how many segments were begun, and the line of each.\<close>

definition ellipsis :: string where
  "ellipsis = [CHR 0xE2, CHR 0x80, CHR 0xA6]"

definition segments_begun :: "mock_options \<Rightarrow> nat \<Rightarrow> nat" where
  "segments_begun opt j = (j + seg_len opt - 1) div seg_len opt"

definition segment_line :: "mock_options \<Rightarrow> nat \<Rightarrow> nat \<Rightarrow> string" where
  "segment_line opt j s = stable_words (of_nat (s * seg_len opt)) (min (seg_len opt) (j - s * seg_len opt))
     @ (if (s + 1) * seg_len opt \<le> j then [] else ellipsis)"

definition shows_script :: "mock_options \<Rightarrow> nat \<Rightarrow> 'd controller \<Rightarrow> bool" where
  "shows_script opt j c \<longleftrightarrow> ct_transcriptSegmentIds c = map seg_name [0..<segments_begun opt j]
     \<and> ct_transcriptLines c = map (segment_line opt j) [0..<segments_begun opt j]"

lemma scriptedWord_nonempty [simp]: "scriptedWord i \<noteq> []"
proof -
  have "unat (i mod 12) < 12" using word_mod_less_divisor [of 12 i] by (simp add: word_less_nat_alt)
  then have "unat (i mod 12) < length kWords" by (simp add: kWords_def)
  from nth_mem [OF this] show ?thesis by (auto simp: scriptedWord_def kWords_def)
qed

lemma line_of_update:
  assumes "0 < seg_len opt"
  shows "transcript_line (toUpdate (scripted_update opt j)) = segment_line opt (Suc j) (j div seg_len opt)"
proof -
  let ?r = "seg_len opt" and ?s = "j div seg_len opt" and ?v = "j mod seg_len opt"
  have v: "?v < ?r" using assms by simp
  have j: "j = ?s * ?r + ?v" by simp
  have "Suc j - ?s * ?r = Suc ?v" using j by (metis Suc_diff_le add_diff_cancel_left' le_add1)
  moreover have "min ?r (Suc ?v) = Suc ?v" using v by simp
  moreover have "(?s + 1) * ?r \<le> Suc j \<longleftrightarrow> ?v + 1 = ?r"
    using v j by (simp only: add_mult_distrib) linarith
  ultimately show ?thesis
    by (simp add: scripted_update_def toUpdate_def transcript_line_def segment_line_def ellipsis_def Let_def)
qed

lemma segments_step:
  assumes "0 < seg_len opt"
  shows "segments_begun opt (Suc j) = Suc (j div seg_len opt)"
    and "segments_begun opt j = (if j mod seg_len opt = 0 then j div seg_len opt else Suc (j div seg_len opt))"
proof -
  let ?r = "seg_len opt"
  show "segments_begun opt (Suc j) = Suc (j div ?r)" using assms by (simp add: segments_begun_def)
  show "segments_begun opt j = (if j mod ?r = 0 then j div ?r else Suc (j div ?r))"
  proof (cases "j mod ?r = 0")
    case True
    then obtain q where "j = q * ?r" by (metis dvd_def mod_0_imp_dvd mult.commute)
    with assms have "j + ?r - 1 = (?r - 1) + q * ?r" by simp
    moreover have "(?r - 1) div ?r = 0" using assms by simp
    moreover have "((?r - 1) + q * ?r) div ?r = q + (?r - 1) div ?r" using assms by (intro div_mult_self1) simp
    ultimately have "(j + ?r - 1) div ?r = q" by (metis add_0_right)
    with \<open>j = q * ?r\<close> assms show ?thesis by (simp add: segments_begun_def)
  next
    case False
    have "0 < j mod ?r" "j mod ?r < ?r" using False assms by simp_all
    moreover have "j = j div ?r * ?r + j mod ?r" by simp
    ultimately have "j + ?r - 1 = (j mod ?r - 1) + Suc (j div ?r) * ?r" "(j mod ?r - 1) div ?r = 0"
      by (simp_all only: mult_Suc div_eq_0_iff) linarith+
    moreover have "((j mod ?r - 1) + Suc (j div ?r) * ?r) div ?r = Suc (j div ?r) + (j mod ?r - 1) div ?r"
      using assms by (intro div_mult_self1) simp
    ultimately have "(j + ?r - 1) div ?r = Suc (j div ?r)" by (metis add_0_right)
    with False show ?thesis by (simp add: segments_begun_def)
  qed
qed

lemma segment_line_past:
  assumes "s < j div seg_len opt"
  shows "segment_line opt (Suc j) s = segment_line opt j s"
proof -
  let ?r = "seg_len opt"
  have "(s + 1) * ?r \<le> j div ?r * ?r" using assms by (intro mult_le_mono1) simp
  also have "\<dots> \<le> j" by simp
  finally have "(s + 1) * ?r \<le> j" .
  then show ?thesis by (simp add: segment_line_def)
qed

lemma update_shown:
  assumes r: "0 < seg_len opt" and sh: "shows_script opt j c" and small: "j div seg_len opt < 10 ^ 11"
  shows "shows_script opt (Suc j) (applyTranscript (toUpdate (scripted_update opt j)) c)"
proof -
  let ?s = "j div seg_len opt" and ?u = "toUpdate (scripted_update opt j)"
  have id: "tu_segmentId ?u = seg_name ?s" by (simp add: toUpdate_def scripted_update_def seg_name_def Let_def)
  have i: "index_of (seg_name ?s) (map seg_name [0..<n]) 0 = (if ?s < n then Some ?s else None)" if "n \<le> Suc ?s" for n
    using index_of_map [of "Suc ?s" seg_name n ?s 0 0] seg_name_eq small that by simp
  note n = segments_step(1) [OF r, of j] segments_step(2) [OF r, of j]
  have old: "map (segment_line opt (Suc j)) [0..<?s] = map (segment_line opt j) [0..<?s]"
    by (simp add: segment_line_past)
  show ?thesis
  proof (cases "j mod seg_len opt = 0")
    case True
    with sh i [of ?s] old show ?thesis
      by (simp add: shows_script_def applyTranscript_def n id line_of_update [OF r])
  next
    case False
    have "(map (segment_line opt j) [0..<Suc ?s])[?s := segment_line opt (Suc j) ?s]
        = map (segment_line opt (Suc j)) [0..<Suc ?s]" by (simp add: old list_update_append)
    with False sh i [of "Suc ?s"] show ?thesis
      by (simp add: shows_script_def applyTranscript_def n id line_of_update [OF r] del: upt_Suc)
  qed
qed

lemma updates_shown:
  assumes r: "0 < seg_len opt"
  shows "u \<le> 10 ^ 11 \<Longrightarrow> shows_script opt 0 c \<Longrightarrow>
    shows_script opt u (fold applyTranscript (map (\<lambda>j. toUpdate (scripted_update opt j)) [0..<u]) c)"
proof (induction u)
  case (Suc u)
  have "u div seg_len opt \<le> u" by simp
  then have "u div seg_len opt < 10 ^ 11" using Suc.prems(1) by linarith
  with Suc update_shown [OF r] show ?case by simp
qed simp

lemma reader_delivers:
  "cl_callback cl \<Longrightarrow> cl_delivered (fold reader_got segs cl) = cl_delivered cl @ map toUpdate segs"
  by (induction segs arbitrary: cl) (simp_all add: reader_got_def Let_def)

section \<open>The application\<close>

text \<open>
  What \<open>main\<close> builds before the event loop: the controller, and the scripted server, whose
  address becomes the controller's endpoint if it started.
\<close>

definition launch :: "string \<Rightarrow> bool \<Rightarrow> int \<Rightarrow> 'd controller \<times> mock_server" where
  "launch directory built port =
     (let controller = new_controller directory;
          (server, started) = mock_start built port (new_mock_server default_mock_options)
      in (if started then setSttEndpoint (''127.0.0.1:'' @ to_string (nat port)) controller else controller, server))"

lemma launch_ok:
  fixes directory built port
  defines "cs \<equiv> launch directory built port :: 'd controller \<times> mock_server"
  shows "controller_ok (fst cs)" "sv_server (snd cs) = built" "ct_sttEndpoint (fst cs) \<noteq> [] \<longleftrightarrow> built \<and> port \<noteq> 0"
proof -
  have "controller_ok (setSttEndpoint s (new_controller directory :: 'd controller))" for s
    by (rule frame_ok [OF setters_frame(4) new_controller_ok])
  then show "controller_ok (fst cs)"
    by (simp add: cs_def launch_def mock_start_def Let_def new_controller_ok)
  show "sv_server (snd cs) = built" "ct_sttEndpoint (fst cs) \<noteq> [] \<longleftrightarrow> built \<and> port \<noteq> 0"
    by (simp_all add: cs_def launch_def mock_start_def setSttEndpoint_def new_controller_def new_session_def isIdle_def Let_def)
qed

text \<open>
  After the event loop the locals are destroyed in the reverse order: the server first, whose
  \<open>Shutdown\<close> returns when no handler runs, then the controller. Meanwhile the other threads go on.
\<close>

datatype quit_pc = ServerDestructor | ControllerDestructor | Exited

record ('d, 'e) quitting =
  qt_pc :: quit_pc
  qt_controller :: "'d controller"
  qt_env :: 'e
  qt_server :: mock_server

fun background :: "app_event \<Rightarrow> bool" where
  "background (FrameCaptured x f) = True"
| "background (DrainTurn x) = True"
| "background (ClientStep ev) = (ev \<noteq> Written False)" \<comment> \<open>the connection is to the same process\<close>
| "background _ = False"

text \<open>
  The handler of the client's stream returns when \<open>Read\<close> does: once the client has half-closed
  its side.
\<close>

definition handler_runs :: "'d controller \<Rightarrow> bool" where
  "handler_runs c \<longleftrightarrow> (case ct_sttClient c of None \<Rightarrow> False | Some cl \<Rightarrow> cl_stream cl \<and> cl_writer cl \<noteq> WDone)"

inductive quit_step :: "'d float_ops \<Rightarrow> 'e world \<Rightarrow> ('d, 'e) quitting \<Rightarrow> ('d, 'e) quitting \<Rightarrow> bool" for F W where
  other_thread: "background ev \<Longrightarrow> app_step F W ev (qt_controller q, qt_env q) = Some (c', e') \<Longrightarrow>
    quit_step F W q (q\<lparr>qt_controller := c', qt_env := e'\<rparr>)"
| server_destroyed: "qt_pc q = ServerDestructor \<Longrightarrow> \<not> (sv_server (qt_server q) \<and> handler_runs (qt_controller q)) \<Longrightarrow>
    quit_step F W q (q\<lparr>qt_pc := ControllerDestructor, qt_server := mock_shutdown (qt_server q)\<rparr>)"
| controller_destroyed: "qt_pc q = ControllerDestructor \<Longrightarrow> destroy F W (qt_controller q, qt_env q) = Some (c', e') \<Longrightarrow>
    quit_step F W q (q\<lparr>qt_pc := Exited, qt_controller := c', qt_env := e'\<rparr>)"

subsection \<open>A client that nobody stops\<close>

definition serving :: "stt_client \<Rightarrow> bool" where
  "serving cl \<longleftrightarrow> cl_stream cl \<and> \<not> cl_stopRequested cl \<and> (cl_writer cl = WWaiting \<or> (\<exists>r. cl_writer cl = WWriting r))"

definition live :: "'d controller \<Rightarrow> bool" where
  "live c \<longleftrightarrow> (\<exists>cl. ct_sttClient c = Some cl \<and> serving cl)"

lemma live_handler: "live c \<Longrightarrow> handler_runs c"
  by (auto simp: live_def serving_def handler_runs_def)

lemma live_cong: "ct_sttClient c' = ct_sttClient c \<Longrightarrow> live c' = live c"
  by (simp add: live_def)

lemma send_serving: "serving cl \<Longrightarrow> serving (fst (sendFrame now f cl))"
  by (auto simp: serving_def sendFrame_def)

lemma send_all_serving: "serving cl \<Longrightarrow> serving (send_all now fs cl)"
  by (induction fs arbitrary: cl) (simp_all add: send_serving)

lemma feed_stt_serving: "feed_stt F now fs p cl = Some (p', cl') \<Longrightarrow> serving cl \<Longrightarrow> serving cl'"
  by (induction fs arbitrary: p cl) (auto simp: bind_eq_Some_conv send_all_serving)

lemma feed_live: "feed F now feeds outs c = Some c' \<Longrightarrow> live c \<Longrightarrow> live c'"
  by (auto simp: feed_def live_def bind_eq_Some_conv feed_stt_serving split: bool.splits option.splits)

lemma set_pipeline_client [simp]: "ct_sttClient (set_pipeline x p c) = ct_sttClient c"
  by simp

lemma drain_frame_live:
  assumes "drain_frame F W x f (c, e) = Some (c', e')" and "live c"
  shows "live c'"
proof -
  from assms(1) obtain s s' outs c1 where
    f: "feed F (w_unixMs W e) (tp_feedsSttStream (pipeline x c)) outs ((set_pipeline x
       ((pipeline x c)\<lparr>tp_synchronizer := Some s'\<rparr>) c)\<lparr>ct_framesCaptured := ct_framesCaptured c + of_nat (length outs)\<rparr>)
     = Some c1" and st: "store (w_media W) (tp_writerTrack (pipeline x c)) outs (c1, e) = Some (c', e')"
    by (rule drain_frame_cases)
  have "live ((set_pipeline x ((pipeline x c)\<lparr>tp_synchronizer := Some s'\<rparr>) c)
      \<lparr>ct_framesCaptured := ct_framesCaptured c + of_nat (length outs)\<rparr>)" using assms(2) by (simp add: live_def)
  from feed_live [OF f this] have "live c1" .
  moreover have "ct_sttClient c' = ct_sttClient c1" using st by (rule store_cases) simp_all
  ultimately show ?thesis by (simp add: live_def)
qed

lemma drain_one_live:
  assumes "drain_one F W x (c, e) = Some ((c', e'), again)" and "live c"
  shows "live c'"
  using assms(1)
proof (cases rule: drain_one_cases)
  case (frame b s f b')
  from drain_frame_live [OF frame(4)] assms(2) show ?thesis by (simp add: live_def)
qed (use assms(2) in simp)

lemma onFrame_client [simp]: "ct_sttClient (onFrame x f c) = ct_sttClient c"
  by (simp add: onFrame_def split: option.split)

lemma onFrames_client [simp]: "ct_sttClient (fold (onFrame x) fs c) = ct_sttClient c"
  by (induction fs arbitrary: c) simp_all

lemma stop_stream_client: "stop_stream W x (c, e) = (c', e') \<Longrightarrow> ct_sttClient c' = ct_sttClient c"
  by (auto simp: stop_stream_def split_beta Let_def split: option.splits)

lemma stopStreams_live: "stopStreams F W (c, e) = Some (c', e') \<Longrightarrow> live c \<Longrightarrow> live c'"
  by (rule stopStreams_rule [where I = live]) (auto dest: stop_stream_client drain_one_live simp: live_def)

lemma startTrack_client [simp]: "ct_sttClient (fst (fst (startTrack F W y device kind ch t feeds ce))) = ct_sttClient (fst ce)"
  by (cases y; simp add: startTrack_def Let_def split_beta ui_fail_def split: sum.split)

lemma startStreams_client [simp]: "ct_sttClient (fst (fst (startStreams F W ce))) = ct_sttClient (fst ce)"
  by (simp add: startStreams_def Let_def split_beta)

lemma fire_client [simp]: "ct_sttClient (fst (fire ev c)) = ct_sttClient c"
  by (simp add: fire_def split_beta Let_def)

lemma resume_client: "ct_sttClient (fst (fst (resume_op F W ce))) = ct_sttClient (fst ce)"
  by (simp add: resume_op_def split_beta Let_def)

lemma pause_live:
  assumes "pause_op F W (c, e) = Some ((c', e'), good)" and "live c"
  shows "live c'"
proof -
  obtain c1 b where 1: "fire Pause c = (c1, b)" by fastforce
  then have "live c1" using assms(2) fire_client [of Pause c] by (simp add: live_def)
  with assms(1) 1 stopStreams_live show ?thesis by (auto simp: pause_op_def bind_eq_Some_conv split: if_splits)
qed

lemma thread_serving: "client_step cl ev cl' \<Longrightarrow> thread_event ev \<Longrightarrow> ev \<noteq> Written False \<Longrightarrow> serving cl \<Longrightarrow> serving cl'"
  by (cases ev) (auto simp: client_step_simps client_ops serving_def split: list.splits)

lemma client_thread_live: "live c \<Longrightarrow> ev \<noteq> Written False \<Longrightarrow> live (client_thread_step ev c)"
  using thread_serving [of _ ev]
  by (auto simp: live_def client_thread_step_def client_exec_iff split: option.splits if_splits)

lemma app_step_live:
  assumes st: "app_step F W ev (c, e) = Some (c', e')" and "live c" and ok: "controller_ok c"
    and ev: "ev \<noteq> StopPressed" "ev \<noteq> ClientStep (Written False)"
  shows "live c'"
proof (cases ev)
  case StartPressed
  have "app_state c \<noteq> Idle" using ok \<open>live c\<close> by (auto simp: controller_ok_def live_def)
  with st StartPressed \<open>live c\<close> show ?thesis by (auto simp: start_op_def isIdle_state)
next
  case PausePressed
  with st pause_live \<open>live c\<close> show ?thesis by auto
next
  case ResumePressed
  with st have "c' = fst (fst (resume_op F W (c, e)))" by (cases "resume_op F W (c, e)") auto
  with resume_client [of F W "(c, e)"] \<open>live c\<close> show ?thesis by (simp add: live_def)
next
  case Refresh
  with st \<open>live c\<close> show ?thesis by (auto simp: refreshDevices_def Let_def split_beta live_def)
next
  case (DrainTurn x)
  with st drain_one_live \<open>live c\<close> show ?thesis by auto
next
  case (ClientStep ev')
  with st ev client_thread_live \<open>live c\<close> show ?thesis by auto
qed (use st ev \<open>live c\<close> in \<open>auto simp: live_def setSelectedMicrophone_def setSelectedSystemOutput_def setOutputDirectory_def
  setSttEndpoint_def onStatsTick_def ui_fail_def applyTranscript_def split: option.splits\<close>)


lemma started_serving:
  assumes "snd (client_start cb k s cl)"
  shows "serving (fst (client_start cb k s cl))"
  using assms by (auto simp: client_start_def serving_def Let_def split: if_splits)

lemma startStt_live:
  assumes "startSttStreaming F W (c, e) = (c', e')" and "\<not> ct_sttActive c" and "ct_sttActive c'"
  shows "live c'"
proof -
  obtain e1 k s where "w_connect W (ct_sttEndpoint c) e = (e1, k, s)" by (metis prod_cases3)
  with assms show ?thesis
    by (auto simp: startSttStreaming_def Let_def split_beta ui_fail_def live_def started_serving split: if_splits option.splits)
qed

lemma startTrack_active [simp]: "ct_sttActive (fst (fst (startTrack F W y device kind ch t feeds ce))) = ct_sttActive (fst ce)"
  by (cases y; simp add: startTrack_def Let_def split_beta ui_fail_def split: sum.split)

lemma startStreams_active [simp]: "ct_sttActive (fst (fst (startStreams F W ce))) = ct_sttActive (fst ce)"
  by (simp add: startStreams_def Let_def split_beta)

lemma start_live:
  assumes ok: "controller_ok c" and st: "start_op F W (c, e) = Some ((c', e'), True)" and active: "ct_sttActive c'"
  shows "live c'"
proof -
  from st obtain ca ea cb eb s cc ec cd where 1: "isIdle c"
    "(if ct_microphones c = [] \<and> ct_systemOutputs c = [] then refreshDevices W (c, e) else (c, e)) = (ca, ea)"
    and 2: "createWriter W (ca\<lparr>ct_lastError := None\<rparr>, ea) = Some ((cb, eb), True)"
    and 3: "startSttStreaming F W (cb\<lparr>ct_session := s\<rparr>, eb) = (cc, ec)"
    and 4: "startStreams F W (cc, ec) = ((cd, e'), True)" and c': "c' = cd\<lparr>ct_statsTimer := True\<rparr>"
    by (rule start_cases)
  have "streams_part ca = streams_part c"
    using 1(2) refreshDevices_frame [of W c e ca ea] by (auto split: if_splits)
  with createWriter_frame [OF 2] have "streams_part cb = streams_part c" by (simp add: streams_part_def)
  then have "\<not> ct_sttActive (cb\<lparr>ct_session := s\<rparr>)"
    using ok 1(1) by (auto simp: streams_part_def controller_ok_def isIdle_state)
  moreover have "ct_sttActive cc" using active 4 startStreams_active [of F W "(cc, ec)"] by (simp add: c')
  ultimately have "live cc" using startStt_live [OF 3] by blast
  with startStreams_client [of F W "(cc, ec)"] 4 show ?thesis by (simp add: live_def c')
qed

section \<open>Properties\<close>

text \<open>
  C20: the transcript shows the script. For a stream whose writes all succeed, the server's
  answers, read by the client, handed to its callback and applied by the controller in order,
  leave one line for each segment begun, in order: the words of the segment so far, and an ellipsis
  exactly when its last revision is still to come.
\<close>

theorem transcript_shows_the_script:
  assumes "mo_framesPerUpdate opt \<noteq> 0" and "mo_revisionsPerSegment opt \<noteq> 0"
    and "100 * int (length rs) < 2 ^ 63" and "length rs \<le> 10 ^ 11"
    and "cl_callback cl" and "cl_delivered cl = []" and "ct_transcriptLines c = []" and "ct_transcriptSegmentIds c = []"
  shows "\<exists>st answers. mock_StreamTranscription opt (map (\<lambda>r. (r, True)) rs) st0 = Some (st, answers)
    \<and> shows_script opt (updates_due (unat (mo_framesPerUpdate opt)) 0 rs)
        (fold applyTranscript (cl_delivered (fold reader_got answers cl)) c)"
proof -
  have r: "0 < seg_len opt" using assms(2) by (simp add: seg_len_def unat_gt_0)
  let ?u = "updates_due (unat (mo_framesPerUpdate opt)) 0 rs"
  have "updates_due k n qs \<le> length qs" for k n qs by (induction qs arbitrary: n) (auto intro: le_SucI)
  then have "?u \<le> 10 ^ 11" using assms(4) order.trans by blast
  moreover have "shows_script opt 0 c" using assms(7,8) r by (simp add: shows_script_def segments_begun_def)
  ultimately have "shows_script opt ?u (fold applyTranscript (map (\<lambda>j. toUpdate (scripted_update opt j)) [0..<?u]) c)"
    using updates_shown [OF r] by blast
  moreover from mock_loop_scripted [OF r assms(1), of 0 rs 0] assms(3)
  have "\<exists>st. mock_StreamTranscription opt (map (\<lambda>r. (r, True)) rs) st0 = Some (st, map (scripted_update opt) [0..<?u])"
    by (simp add: mock_StreamTranscription_def new_mock_session_def session_at_def)
  ultimately show ?thesis using reader_delivers [OF assms(5)] assms(6) by (auto simp: comp_def)
qed

theorem transcript_shows_the_script_witness:
  "\<exists>st answers. mock_StreamTranscription \<lparr>mo_framesPerUpdate = 1, mo_revisionsPerSegment = 2\<rparr>
       (map (\<lambda>r. (r, True)) [demo_request, demo_request, demo_request]) (sv_stats (new_mock_server default_mock_options)) = Some (st, answers)
     \<and> ct_transcriptLines (fold applyTranscript (cl_delivered (fold reader_got answers
         (fst (client_start True True True (createGrpcSttStreamClient demo_client_config))))) (new_controller ''d'' :: real controller))
       = [''voxmesh records'', ''meetings'' @ ellipsis]"
proof -
  let ?opt = "\<lparr>mo_framesPerUpdate = 1, mo_revisionsPerSegment = 2\<rparr> :: mock_options" and ?rs = "[demo_request, demo_request, demo_request]"
    and ?cl = "fst (client_start True True True (createGrpcSttStreamClient demo_client_config))" and ?c = "new_controller ''d'' :: real controller"
  have "validSttFrame demo_request" by (simp add: validSttFrame_def demo_request_def toRequest_def demo_stt_frame_def)
  then have u: "updates_due (unat (mo_framesPerUpdate ?opt)) 0 ?rs = 3" by simp
  have r: "seg_len ?opt = 2" by (simp add: seg_len_def)
  then have n: "segments_begun ?opt 3 = 2" by (simp add: segments_begun_def)
  have two: "stable_words b 2 = add_word (add_word [] (scriptedWord b)) (scriptedWord (b + 1))" for b
    by (simp add: numeral_2_eq_2)
  have "segment_line ?opt 3 0 = ''voxmesh records''" "segment_line ?opt 3 1 = ''meetings'' @ ellipsis"
    by (simp_all add: segment_line_def r two scriptedWord_def kWords_def)
  then have lines: "map (segment_line ?opt 3) [0..<2] = [''voxmesh records'', ''meetings'' @ ellipsis]" by (simp add: upt_rec)
  have "\<exists>st answers. mock_StreamTranscription ?opt (map (\<lambda>r. (r, True)) ?rs) (sv_stats (new_mock_server default_mock_options)) = Some (st, answers)
      \<and> shows_script ?opt (updates_due (unat (mo_framesPerUpdate ?opt)) 0 ?rs) (fold applyTranscript (cl_delivered (fold reader_got answers ?cl)) ?c)"
    by (rule transcript_shows_the_script) (simp_all add: client_start_def createGrpcSttStreamClient_def new_controller_def)
  then show ?thesis unfolding u shows_script_def n lines by blast
qed

text \<open>
  C21: closing the window while transcribing never ends the process. Take an accepted start after
  which transcription is active, any events in which it is not stopped and the connection
  holds, and then the end of the event loop. Whatever the other threads do, the destructor of the
  server never returns: its \<open>Shutdown\<close> waits for the handler of the client's stream, which waits
  for a client that only the controller's destructor, the next one, would stop.
\<close>

theorem closing_the_window_while_transcribing_hangs:
  assumes "controller_ok c" and "start_op F W (c, e) = Some ((c0, e0), True)" and "ct_sttActive c0"
    and "app_run F W evs (c0, e0) = Some (c1, e1)" and "\<forall>ev \<in> set evs. ev \<noteq> StopPressed \<and> ev \<noteq> ClientStep (Written False)"
    and "sv_server sv"
    and "(quit_step F W)\<^sup>*\<^sup>* \<lparr>qt_pc = ServerDestructor, qt_controller = c1, qt_env = e1, qt_server = sv\<rparr> q"
  shows "qt_pc q = ServerDestructor \<and> handler_runs (qt_controller q)"
proof -
  have keep: "controller_ok c' \<and> live c'" if "app_step F W ev (c2, e2) = Some (c', e')" "controller_ok c2 \<and> live c2"
    "ev \<noteq> StopPressed \<and> ev \<noteq> ClientStep (Written False)" for ev c2 e2 c' e'
    using that app_step_ok [OF that(1)] app_step_live [OF that(1)] by blast
  have "controller_ok (fst (c1, e1)) \<and> live (fst (c1, e1))"
  proof (rule app.run_invariant_on [OF assms(4) _ assms(5)])
    show "controller_ok (fst (c0, e0)) \<and> live (fst (c0, e0))"
      using start_op_ok [OF assms(2,1)] start_live [OF assms(1-3)] by simp
  next
    fix ev and s s' :: "'a controller \<times> 'b"
    assume "app_step F W ev s = Some s'" "ev \<noteq> StopPressed \<and> ev \<noteq> ClientStep (Written False)" "controller_ok (fst s) \<and> live (fst s)"
    then show "controller_ok (fst s') \<and> live (fst s')" using keep [of ev "fst s" "snd s" "fst s'" "snd s'"] by simp
  qed
  then have start: "controller_ok c1 \<and> live c1" by simp
  have "qt_pc q = ServerDestructor \<and> sv_server (qt_server q) \<and> controller_ok (qt_controller q) \<and> live (qt_controller q)"
    using assms(7)
  proof induction
    case (step q1 q2)
    from step(2) show ?case
    proof (cases rule: quit_step.cases)
      case (other_thread ev c' e')
      then have "ev \<noteq> StopPressed \<and> ev \<noteq> ClientStep (Written False)" by auto
      with keep other_thread step(3) show ?thesis by auto
    qed (use step(3) live_handler in auto)
  qed (use start assms(6) in simp)
  then show ?thesis using live_handler by blast
qed

text \<open>Without transcription the process does end: closing an idle recorder.\<close>

lemma closing_an_idle_window_ends:
  assumes "controller_ok c" and "app_state c = Idle"
  shows "\<exists>q. (quit_step F W)\<^sup>*\<^sup>* \<lparr>qt_pc = ServerDestructor, qt_controller = c, qt_env = e, qt_server = sv\<rparr> q \<and> qt_pc q = Exited"
proof -
  have client: "ct_sttClient c = None" using assms by (simp add: controller_ok_def)
  have none: "tp_buffer (pipeline x c) = None" "tp_stream (pipeline x c) = None" for x
    using assms by (cases x; auto simp: controller_ok_def shape_def gone_def)+
  have gone: "drainPipelineLocked F W x c e = Some (c, e)" for x by (rule drain_gone [OF none(1)])
  have "stopStreams F W (c, e) = Some (c\<lparr>ct_microphonePipeline := no_pipeline, ct_systemOutputPipeline := no_pipeline\<rparr>, e)"
    using none [of MicrophoneTrack] none [of SystemOutputTrack] gone
    by (simp add: stopStreams_def stop_stream_def)
  then obtain c' where d: "destroy F W (c, e) = Some (c', e)" by (simp add: destroy_def)
  let ?q = "\<lparr>qt_pc = ServerDestructor, qt_controller = c, qt_env = e, qt_server = sv\<rparr>"
  let ?q1 = "?q\<lparr>qt_pc := ControllerDestructor, qt_server := mock_shutdown sv\<rparr>"
  have "quit_step F W ?q (?q\<lparr>qt_pc := ControllerDestructor, qt_server := mock_shutdown (qt_server ?q)\<rparr>)"
    by (rule quit_step.server_destroyed) (simp_all add: handler_runs_def client)
  moreover have "quit_step F W ?q1 (?q1\<lparr>qt_pc := Exited, qt_controller := c', qt_env := e\<rparr>)"
    by (rule quit_step.controller_destroyed) (simp_all add: d)
  ultimately have "(quit_step F W)\<^sup>*\<^sup>* ?q (?q1\<lparr>qt_pc := Exited, qt_controller := c', qt_env := e\<rparr>)"
    by (intro converse_rtranclp_into_rtranclp [OF _ r_into_rtranclp]) simp_all
  then show ?thesis by (intro exI [of _ "?q1\<lparr>qt_pc := Exited, qt_controller := c', qt_env := e\<rparr>"]) simp
qed

theorem closing_the_window_while_transcribing_hangs_witness:
  "\<exists>c0 q. start_op real_ops scribe_world (scribe_controller, \<lambda>_. []) = Some ((c0, \<lambda>_. []), True)
    \<and> quit_step real_ops scribe_world \<lparr>qt_pc = ServerDestructor, qt_controller = c0, qt_env = (\<lambda>_. []),
        qt_server = snd (launch ''d'' True 50051 :: real controller \<times> mock_server)\<rparr> q
    \<and> qt_pc q = ServerDestructor \<and> handler_runs (qt_controller q)"
proof -
  obtain c0 :: "real controller" where st: "start_op real_ops scribe_world (scribe_controller, \<lambda>_. []) = Some ((c0, \<lambda>_. []), True)"
    "ct_sttActive c0" by (rule scribe_start [of real_ops])
  let ?sv = "snd (launch ''d'' True 50051 :: real controller \<times> mock_server)"
  let ?q = "\<lparr>qt_pc = ServerDestructor, qt_controller = c0, qt_env = (\<lambda>_. []), qt_server = ?sv\<rparr> :: (real, memory) quitting"
  have step: "quit_step real_ops scribe_world ?q
      (?q\<lparr>qt_controller := onFrame MicrophoneTrack captured_frame c0, qt_env := (\<lambda>_. [])\<rparr>)"
    by (rule quit_step.other_thread [where ev = "FrameCaptured MicrophoneTrack captured_frame"]) simp_all
  have run: "app_run real_ops scribe_world [] (c0, \<lambda>_. []) = Some (c0, \<lambda>_. [])" by simp
  have "sv_server ?sv" by (simp add: launch_ok)
  from closing_the_window_while_transcribing_hangs [OF scribe_ok st run _ this r_into_rtranclp [of "quit_step real_ops scribe_world", OF step]] st(1) step
  show ?thesis by auto
qed

end
