(* ===== verification/Spec2Isabelle.thy ===== *)
theory Spec2Isabelle
  imports Prelude Events Session AudioTypes RingBuffer RingBufferSpsc ClockSync Version Config FirDecimator SttProducer FakeBackend Wasapi RecordingWriter RecordedFile SttClient MockServer Com WasapiLifetime Controller EndToEnd Interleaving Formats Transcription Loopback
begin

text \<open>
  VoxMesh, the desktop recorder (C++ under \<open>apps/desktop-recorder\<close>, \<open>libs/cpp\<close> and
  \<open>platform/windows\<close> of the repository): a model of its core and the theorems that make it correct.

  The program. A controller owned by the user interface starts, pauses, resumes and stops a recording.
  For each selected device a capture backend delivers frames of PCM audio on a thread of its own
  into a lock-free ring buffer. A drain thread takes the frames out, a synchroniser per track makes the stream
  contiguous (gaps become silence, discontinuities are healed, clock drift is measured), and the
  frames go to a writer that encodes them with FFmpeg into a partial file, renamed when it is
  finalized. One track also feeds the transcription: a producer mixes it down, decimates it with a FIR filter to
  16 kHz and cuts it into frames, which a client streams over gRPC to a server; the updates that come back
  are lines of a transcript.

  The theories, and the sources they translate:
  - \<open>Prelude\<close>: names for the machine integers, checked signed arithmetic (overflow is undefined
    behaviour, the value \<open>None\<close>), generic lemmas. \<open>Floats\<close>: a record of the \<open>double\<close>
    operations the code applies, and the reals as one of them. \<open>Events\<close>: the locale of event systems (a partial step and
    the run of a list of events), interpreted on the controller and on the life of a capture stream.
  - \<open>Session\<close> (\<open>audio-core/session.hpp, session.cpp\<close>): the transition table, \<open>handle\<close>, listeners,
    and several threads calling at once.
  - \<open>AudioTypes\<close> (\<open>types.hpp, frame.hpp\<close>) and \<open>Capture\<close> (\<open>capture.hpp\<close>): formats, frames, the encoding of 16-bit
    samples, and the contract between a stream and its sink.
  - \<open>RingBuffer\<close> (\<open>ring_buffer.hpp\<close>, one call at a time, with the locale of bounded queues) and
    \<open>RingBufferSpsc\<close> (the same calls as the atomic steps of two threads).
  - \<open>ClockSync\<close> (\<open>clock_sync.hpp, clock_sync.cpp\<close>): the whole of \<open>process\<close>, with its statistics.
  - \<open>Version\<close> (\<open>core/version.hpp, version.cpp\<close>), \<open>Config\<close> (\<open>config.hpp, config.cpp\<close>).
  - \<open>FirDecimator\<close>, \<open>SttProducer\<close> (\<open>audio-dsp\<close>): filter design, convolution, decimation; mix-down and
    framing.
  - \<open>SignalGenerator\<close>, \<open>FakeBackend\<close> (\<open>audio-core/testing\<close>): the deterministic backend.
  - \<open>Wasapi\<close>, \<open>WasapiLifetime\<close>, \<open>Com\<close> (\<open>platform/windows/audio-wasapi\<close>): the capture stream over the answers of
    the Windows calls; the calls it makes on events, threads and COM, in every interleaving of the
    caller and the capture thread; text conversions, apartments, and the enumerator with the memory that COM
    hands out.
  - \<open>RecordingWriter\<close> (\<open>media-container/ffmpeg_recording_writer.cpp, recording.hpp\<close>): all operations
    over a record of the FFmpeg and file-system calls, and a trace of the calls made, up to what the
    encoders are sent. \<open>RecordedFile\<close> (same source) follows the packets from the encoders into the file.
  - \<open>SttClient\<close>, \<open>MockServer\<close> (\<open>streaming-client\<close>): the caller, the writer thread and the reader
    thread as a step relation; the scripted server.
  - \<open>Controller\<close> (\<open>recorder_controller.hpp, recorder_controller.cpp\<close>): every operation over
    the models of its parts. Its state is one record, and everything outside it (FFmpeg, devices, the file
    system, clocks, the network) a record \<open>world\<close> of functions on an environment. User
    interface calls, captured frames, turns of the drain thread, the timer, transcript updates and the steps of
    the client's threads are the events of \<open>app_step\<close>.
  - \<open>Interleaving\<close> (\<open>recorder_controller.cpp\<close>): the same controller with its threads taken apart. The user
    interface's thread stands at a \<open>location\<close> of \<open>start\<close>, \<open>pause\<close>, \<open>resume\<close>, \<open>stop\<close> or the destructor, the drain
    thread in or out of its loop's section, the capture threads push while their streams live;
    a step is one section under \<open>pipelineMutex_\<close> (one turn of the loop for a drain), one call of the
    backend or one push. The operations of \<open>Controller\<close> are the undisturbed runs.
  - \<open>EndToEnd\<close>, \<open>Formats\<close>, \<open>Transcription\<close>: what holds of the parts together, over any run of
    events. \<open>Loopback\<close>: \<open>main.cpp\<close>, with the server it hosts, up to and after the event loop.
\<close>

text \<open>
  What the lemmas show.
  - Refinement: the ring buffer is a bounded queue (interpretation \<open>ring\<close> of the locale), its two
    threads keep first-in first-out order without a data race; the enumerator with COM memory gives
    what the abstract one gives and releases everything.
  - Invariants, by induction on runs: the controller's (who exists in which state), the session's
    notifications, the alignment of the synchroniser, the accounts of the client, the ledger of
    delivered, refused and lost frames of both backends (frames a WASAPI device skipped are flagged but not counted), the events, threads and apartments of a capture stream.
  - Functional behaviour: the convolution of the decimator, the frames of the producer and their
    time stamps, the configuration as a function of the document, the script of the mock server, and
    the files: the packets in them decode to the accepted samples, whole chunks with contiguous
    time stamps went to the encoders, and no file but a closed one has its final name.
  - End to end: the packets of a saved recording decode, track by track, to what the rings accepted, resynchronised
    stretch by stretch, for operations that run in one step and for every interleaving of the
    threads; the transcription receives the same samples of its track, in order, each frame
    accounted for; formats agree along the pipeline; the transcript shows the words of the server.
  - Errors and termination: what \<open>stop\<close> reports, the state a failed resume ends in, that the
    writer's loops return, that stopping ends the threads of the client and of a capture stream,
    that the controller's destructor ends its drain thread and leaves no live stream,
    and that closing the window while transcribing does not end the process.

  Loops. Structural loops are \<open>fun\<close>. Loops that may run for ever are \<open>partial_function (option)\<close>
  (\<open>emit_frames\<close>, \<open>drainPackets\<close>, \<open>encodeBuffered\<close>, \<open>drainPipelineLocked\<close>, \<open>fresh_name\<close>): \<open>None\<close> is
  not returning, or undefined behaviour, and the theorems that they return are stated as such; no fuel is used.
  Threads are interleavings of atomic steps, at the locked sections or at the atomic operations of the code;
  what a thread does between two of them, on data no other thread reads, goes with the one before or after it.

  Bounds. Integers keep their width. Theorems that need room say how much: sample counts of a recording below
  \<open>2 ^ 62\<close> and of a frame below \<open>2 ^ 31\<close> (at 48 kHz, three million years and twelve hours), time stamps
  between 0 and \<open>2 ^ 62\<close> nanoseconds (146 years), an output rate of at least 8 Hz for the
  producer, \<open>10 ^ 11\<close> requests of one stream for the distinctness of the mock server's identifiers.
  Where the code itself has less room, a theorem gives the input at which it overflows.

  Assumed of code that is not in the repository, always as a named hypothesis with a concrete instance in the
  witness: a FIFO of FFmpeg returns what was put in and an encoder buffers boundedly (\<open>media_laws\<close>);
  the FLAC encoder is lossless, its packets can be decoded one by one, and it ends with nothing held
  back once it was flushed (\<open>encoder_laws\<close>, \<open>opening_laws\<close>; the instance of all three is \<open>memory_api\<close>,
  whose encoders hand out packets); what FFmpeg's muxer makes of the packets it accepted is not modelled, a file is
  the calls that wrote it; only the writer's calls touch FFmpeg's state (\<open>world_laws\<close>); a
  capture stream delivers the format it was asked for (\<open>streams_as_asked\<close>, which both backends of the
  repository are proved to do); the text conversions of Windows are inverse on the
  texts they accept; \<open>Shutdown\<close> of a gRPC server waits for running handlers.

  Not modelled: the choice of a backend (\<open>backend_factory.cpp\<close>, one constructor call under a preprocessor
  condition); Qt's start-up, signals and translated texts and the QML files; the log level
  and metadata given to FFmpeg; reference counts of \<open>ComPtr\<close>; reorderings of a weaker memory model (the absence
  of races is the condition under which they do not matter); the protocol definitions under \<open>libs/contracts\<close>,
  which generate the records the models use; the services under \<open>services\<close>, which are C# and
  Python; benchmarks, tests and build files.
\<close>

end
